(* ===== verification/Prelude.thy ===== *)
theory Prelude
  imports Main "HOL-Library.Word" "HOL-Library.Monad_Syntax"
begin

text \<open>
  Shared vocabulary of the development: the machine types of the code, the constants of
  \<^verbatim>\<open>include/rdma/rdma_config.h\<close>, \<^verbatim>\<open>include/anns/anns_config.h\<close> and
  \<^verbatim>\<open>include/index/index_param.h\<close>, the byte representation \<^verbatim>\<open>memcpy\<close> gives to the scalar
  types on the little-endian hosts the program runs on, and the contract of a byte codec as a
  locale.  A writer appends the bytes that the consecutive \<^verbatim>\<open>memcpy(ptr + offset, ...)\<close>
  calls store, so the running \<^verbatim>\<open>offset\<close> is the length of the bytes written; a reader maps the
  bytes from \<^verbatim>\<open>ptr + offset\<close> on to the value and the bytes that follow it, and is
  \<^const>\<open>None\<close> when it would read past the end of the buffer.
\<close>

named_theorems codec_simps \<open>reading back what was written\<close>
named_theorems len_simps \<open>number of bytes an encoder writes\<close>

section \<open>Machine types and configuration\<close>

type_synonym byte = "8 word"
type_synonym u8 = "8 word"
type_synonym u16 = "16 word"
type_synonym u32 = "32 word"
type_synonym u64 = "64 word"
type_synonym 'a reader = "byte list \<Rightarrow> ('a \<times> byte list) option"

definition MACHINE_NUM :: nat where
  "MACHINE_NUM = 16"

definition MAX_QUERYBUFFER_SIZE :: nat where
  "MAX_QUERYBUFFER_SIZE = 24576"

definition MAX_WRITE_NUM :: nat where
  "MAX_WRITE_NUM = 512"

definition RELEASE_BLOCK :: nat where
  "RELEASE_BLOCK = MAX_WRITE_NUM div 4"

definition INLINE_DEG_BAR :: nat where
  "INLINE_DEG_BAR = 2"

definition POST_RES_MERGE :: nat where
  "POST_RES_MERGE = 20"

definition POST_NODESYNC_MERGE :: nat where
  "POST_NODESYNC_MERGE = 20"

lemmas config_defs = MACHINE_NUM_def MAX_QUERYBUFFER_SIZE_def MAX_WRITE_NUM_def
  RELEASE_BLOCK_def INLINE_DEG_BAR_def POST_RES_MERGE_def POST_NODESYNC_MERGE_def

text \<open>How a call can fail to return: it calls \<^verbatim>\<open>abort()\<close> or \<^verbatim>\<open>exit()\<close>, it accesses memory it does
  not own, or it is still in a polling loop whose condition does not hold yet.\<close>

datatype crash = Abort | OutOfBounds | Busy

text \<open>The template parameter \<^verbatim>\<open>dist_t\<close> at the instance \<^verbatim>\<open>int\<close> that the search uses for
  the 8-bit data sets (\<^verbatim>\<open>ScalaSearch<int>\<close>): 32 bits, compared as signed numbers.\<close>

datatype dist_t = Dist (dist_bits: u32)

instantiation dist_t :: linorder
begin

definition less_eq_dist_t :: "dist_t \<Rightarrow> dist_t \<Rightarrow> bool" where
  "less_eq_dist_t a b \<longleftrightarrow> sint (dist_bits a) \<le> sint (dist_bits b)"

definition less_dist_t :: "dist_t \<Rightarrow> dist_t \<Rightarrow> bool" where
  "less_dist_t a b \<longleftrightarrow> sint (dist_bits a) < sint (dist_bits b)"

instance
proof
  fix x y :: dist_t
  show "x \<le> y \<Longrightarrow> y \<le> x \<Longrightarrow> x = y"
    by (cases x; cases y) (simp add: less_eq_dist_t_def, metis signed_word_eqI antisym)
qed (auto simp: less_eq_dist_t_def less_dist_t_def)

end

instantiation dist_t :: uminus
begin

definition uminus_dist_t :: "dist_t \<Rightarrow> dist_t" where
  "uminus_dist_t a = Dist (- dist_bits a)"

instance ..

end

lemma dist_neg_neg [simp]: "- (- (a :: dist_t)) = a"
  by (simp add: uminus_dist_t_def)

section \<open>Little-endian bytes\<close>

primrec le_bytes :: "nat \<Rightarrow> nat \<Rightarrow> byte list" where
  "le_bytes 0 x = []"
| "le_bytes (Suc n) x = word_of_nat x # le_bytes n (x div 256)"

primrec le_val :: "byte list \<Rightarrow> nat" where
  "le_val [] = 0"
| "le_val (b # bs) = unat b + 256 * le_val bs"

lemma length_le_bytes [simp]: "length (le_bytes n x) = n"
  by (induction n arbitrary: x) auto

lemma le_val_le_bytes: "x < 256 ^ n \<Longrightarrow> le_val (le_bytes n x) = x"
proof (induction n arbitrary: x)
  case (Suc n)
  have "x div 256 < 256 ^ n"
    using Suc.prems by (simp add: less_mult_imp_div_less mult.commute)
  with Suc.IH show ?case
    by (simp add: unat_of_nat)
qed simp

definition rd_bytes :: "nat \<Rightarrow> byte list reader" where
  "rd_bytes n s = (if length s < n then None else Some (take n s, drop n s))"

lemma rd_bytes_append: "length bs = n \<Longrightarrow> rd_bytes n (bs @ s) = Some (bs, s)"
  by (simp add: rd_bytes_def)

definition enc_u8 :: "u8 \<Rightarrow> byte list" where
  "enc_u8 w = le_bytes 1 (unat w)"

definition enc_u16 :: "u16 \<Rightarrow> byte list" where
  "enc_u16 w = le_bytes 2 (unat w)"

definition enc_u32 :: "u32 \<Rightarrow> byte list" where
  "enc_u32 w = le_bytes 4 (unat w)"

definition enc_u64 :: "u64 \<Rightarrow> byte list" where
  "enc_u64 w = le_bytes 8 (unat w)"

definition enc_dist :: "dist_t \<Rightarrow> byte list" where
  "enc_dist d = enc_u32 (dist_bits d)"

definition rd_u8 :: "u8 reader" where
  "rd_u8 s = do { (b, s) \<leftarrow> rd_bytes 1 s; Some (word_of_nat (le_val b), s) }"

definition rd_u16 :: "u16 reader" where
  "rd_u16 s = do { (b, s) \<leftarrow> rd_bytes 2 s; Some (word_of_nat (le_val b), s) }"

definition rd_u32 :: "u32 reader" where
  "rd_u32 s = do { (b, s) \<leftarrow> rd_bytes 4 s; Some (word_of_nat (le_val b), s) }"

definition rd_u64 :: "u64 reader" where
  "rd_u64 s = do { (b, s) \<leftarrow> rd_bytes 8 s; Some (word_of_nat (le_val b), s) }"

definition rd_dist :: "dist_t reader" where
  "rd_dist s = do { (w, s) \<leftarrow> rd_u32 s; Some (Dist w, s) }"

text \<open>A loop that reads \<open>n\<close> consecutive elements.\<close>

primrec rd_many :: "nat \<Rightarrow> 'a reader \<Rightarrow> 'a list reader" where
  "rd_many 0 r s = Some ([], s)"
| "rd_many (Suc n) r s = do { (x, s) \<leftarrow> r s; (xs, s) \<leftarrow> rd_many n r s; Some (x # xs, s) }"

text \<open>A vector as the code stores it: its size as a \<^verbatim>\<open>uint32_t\<close>, then its elements.\<close>

definition enc_vec :: "('a \<Rightarrow> byte list) \<Rightarrow> 'a list \<Rightarrow> byte list" where
  "enc_vec e xs = enc_u32 (word_of_nat (length xs)) @ concat (map e xs)"

definition rd_vec :: "'a reader \<Rightarrow> 'a list reader" where
  "rd_vec r s = do { (n, s) \<leftarrow> rd_u32 s; rd_many (unat n) r s }"

text \<open>The object representation of \<^verbatim>\<open>std::pair\<close>: \<^verbatim>\<open>pair<dist_t, uint32_t>\<close> has 8 bytes;
  \<^verbatim>\<open>pair<size_t, uint32_t>\<close> has 16, of which the last 4 are padding that the reader skips;
  \<^verbatim>\<open>pair<dist_t, size_t>\<close> has 4 padding bytes after the first component.\<close>

definition enc_cand :: "dist_t \<times> u32 \<Rightarrow> byte list" where
  "enc_cand p = enc_dist (fst p) @ enc_u32 (snd p)"

definition rd_cand :: "(dist_t \<times> u32) reader" where
  "rd_cand s = do { (d, s) \<leftarrow> rd_dist s; (i, s) \<leftarrow> rd_u32 s; Some ((d, i), s) }"

definition enc_large :: "u64 \<times> u32 \<Rightarrow> byte list" where
  "enc_large p = enc_u64 (fst p) @ enc_u32 (snd p) @ replicate 4 0"

definition rd_large :: "(u64 \<times> u32) reader" where
  "rd_large s = do { (a, s) \<leftarrow> rd_u64 s; (b, s) \<leftarrow> rd_u32 s; (_, s) \<leftarrow> rd_bytes 4 s;
     Some ((a, b), s) }"

definition enc_label :: "dist_t \<times> u64 \<Rightarrow> byte list" where
  "enc_label p = enc_dist (fst p) @ replicate 4 0 @ enc_u64 (snd p)"

definition rd_label :: "(dist_t \<times> u64) reader" where
  "rd_label s = do { (d, s) \<leftarrow> rd_dist s; (_, s) \<leftarrow> rd_bytes 4 s; (l, s) \<leftarrow> rd_u64 s;
     Some ((d, l), s) }"

lemma bind_Some_conv: "Option.bind (Some x) f = f x"
  by simp

section \<open>The codec contract\<close>

text \<open>What every message type relies on: what was written is read back, whatever bytes
  follow it in the buffer.\<close>

locale message_codec =
  fixes enc :: "'a \<Rightarrow> byte list"
    and rd :: "'a reader"
    and ok :: "'a \<Rightarrow> bool"
  assumes rd_enc_ok: "ok x \<Longrightarrow> rd (enc x @ s) = Some (x, s)"
begin

lemma enc_inject_ok: "ok x \<Longrightarrow> ok y \<Longrightarrow> enc x @ s = enc y @ t \<Longrightarrow> x = y \<and> s = t"
  by (metis rd_enc_ok option.inject prod.inject)

lemma rd_many_enc_ok:
  "list_all ok xs \<Longrightarrow> rd_many (length xs) rd (concat (map enc xs) @ s) = Some (xs, s)"
  by (induction xs) (auto simp: rd_enc_ok)

end

locale codec =
  fixes enc :: "'a \<Rightarrow> byte list"
    and rd :: "'a reader"
  assumes rd_enc: "rd (enc x @ s) = Some (x, s)"

sublocale codec \<subseteq> total: message_codec enc rd "\<lambda>_. True"
  by unfold_locales (rule rd_enc)

context codec
begin

lemma enc_inject: "enc x = enc y \<longleftrightarrow> x = y"
  using total.enc_inject_ok [where s = "[]" and t = "[]"] by auto

lemma rd_many_enc: "rd_many (length xs) rd (concat (map enc xs) @ s) = Some (xs, s)"
  by (rule total.rd_many_enc_ok) (simp add: list_all_iff)

end

locale fixed_codec = codec +
  fixes n :: nat
  assumes length_enc: "length (enc x) = n"
begin

lemma length_concat_enc: "length (concat (map enc xs)) = n * length xs"
  by (induction xs) (auto simp: length_enc)

end

lemma foldl_emit: "foldl (\<lambda>out x. out @ e x) out xs = out @ concat (map e xs)"
  by (induction xs arbitrary: out) auto

interpretation u8: fixed_codec enc_u8 rd_u8 1
  by unfold_locales (auto simp: enc_u8_def rd_u8_def rd_bytes_def unat_of_nat)

lemma unat_lt: "unat (w :: 'a::len word) < 2 ^ LENGTH('a)"
  by (rule unsigned_less)

interpretation u16: fixed_codec enc_u16 rd_u16 2
  by unfold_locales
    (use unat_lt [where 'a = 16] in \<open>auto simp: enc_u16_def rd_u16_def rd_bytes_append le_val_le_bytes\<close>)

interpretation u32: fixed_codec enc_u32 rd_u32 4
  by unfold_locales
    (use unat_lt [where 'a = 32] in \<open>auto simp: enc_u32_def rd_u32_def rd_bytes_append le_val_le_bytes\<close>)

interpretation u64: fixed_codec enc_u64 rd_u64 8
  by unfold_locales
    (use unat_lt [where 'a = 64] in \<open>auto simp: enc_u64_def rd_u64_def rd_bytes_append le_val_le_bytes\<close>)

interpretation dist: fixed_codec enc_dist rd_dist 4
  by unfold_locales (auto simp: enc_dist_def rd_dist_def u32.rd_enc u32.length_enc)

interpretation cand: fixed_codec enc_cand rd_cand 8
  by unfold_locales
    (auto simp: enc_cand_def rd_cand_def dist.rd_enc u32.rd_enc dist.length_enc u32.length_enc)

interpretation large: fixed_codec enc_large rd_large 16
  by unfold_locales
    (auto simp: enc_large_def rd_large_def u64.rd_enc u32.rd_enc rd_bytes_append
      u64.length_enc u32.length_enc)

interpretation label: fixed_codec enc_label rd_label 16
  by unfold_locales
    (auto simp: enc_label_def rd_label_def dist.rd_enc u64.rd_enc rd_bytes_append
      u64.length_enc dist.length_enc)

lemmas scalar_len [len_simps] = u8.length_enc u16.length_enc u32.length_enc u64.length_enc
  dist.length_enc cand.length_enc large.length_enc label.length_enc
  u32.length_concat_enc cand.length_concat_enc large.length_concat_enc label.length_concat_enc
  u64.length_concat_enc u8.length_concat_enc

lemmas scalar_codec [codec_simps] = u8.rd_enc u16.rd_enc u32.rd_enc u64.rd_enc
  dist.rd_enc cand.rd_enc large.rd_enc label.rd_enc
  u32.rd_many_enc cand.rd_many_enc large.rd_many_enc label.rd_many_enc
  u64.rd_many_enc u8.rd_many_enc

text \<open>A size that fits its field survives the cast to \<^verbatim>\<open>uint32_t\<close>.\<close>

lemma unat_size32 [simp]: "n < 2 ^ 32 \<Longrightarrow> unat (word_of_nat n :: u32) = n"
  by (simp add: unat_of_nat)

lemma unat_size64 [simp]: "n < 2 ^ 64 \<Longrightarrow> unat (word_of_nat n :: u64) = n"
  by (simp add: unat_of_nat)

context message_codec
begin

lemma rd_vec_enc_ok:
  "length xs < 2 ^ 32 \<Longrightarrow> list_all ok xs \<Longrightarrow> rd_vec rd (enc_vec enc xs @ s) = Some (xs, s)"
  by (simp add: rd_vec_def enc_vec_def u32.rd_enc rd_many_enc_ok)

end

context codec
begin

lemma rd_vec_enc: "length xs < 2 ^ 32 \<Longrightarrow> rd_vec rd (enc_vec enc xs @ s) = Some (xs, s)"
  by (rule total.rd_vec_enc_ok) (simp_all add: list_all_iff)

end

lemmas vec_codec [codec_simps] = u32.rd_vec_enc cand.rd_vec_enc large.rd_vec_enc

section \<open>The contract of a serializer\<close>

text \<open>A member \<^verbatim>\<open>serialize(ptr, offset)\<close> appends the message to the bytes written so far, or
  does not return.  What the batching code of the task manager relies on: a return means that
  exactly the encoding of the message was appended, and a message that stays within the buffer
  can be read back.\<close>

locale serializer = message_codec enc rd ok
  for enc :: "'a \<Rightarrow> byte list" and rd :: "'a reader" and ok :: "'a \<Rightarrow> bool" +
  fixes ser :: "'a \<Rightarrow> byte list \<Rightarrow> crash + byte list"
  assumes ser_appends: "ser x out = Inr out' \<Longrightarrow> out' = out @ enc x"
    and ser_ok: "ser x out = Inr out' \<Longrightarrow> length out' \<le> MAX_QUERYBUFFER_SIZE \<Longrightarrow> ok x"

text \<open>The loop over a queue, with the check the code makes after each element.\<close>

primrec ser_loop ::
  "('a \<Rightarrow> byte list \<Rightarrow> crash + byte list) \<Rightarrow> (nat \<Rightarrow> bool) \<Rightarrow> 'a list \<Rightarrow> byte list \<Rightarrow> crash + byte list"
where
  "ser_loop ser bad [] out = Inr out"
| "ser_loop ser bad (x # xs) out =
     (case ser x out of
        Inl e \<Rightarrow> Inl e
      | Inr out' \<Rightarrow> if bad (length out') then Inl Abort else ser_loop ser bad xs out')"

context serializer
begin

lemma ser_loop_appends:
  "ser_loop ser bad xs out = Inr out' \<Longrightarrow>
     out' = out @ concat (map enc xs) \<and> (length out' \<le> MAX_QUERYBUFFER_SIZE \<longrightarrow> list_all ok xs)"
proof (induction xs arbitrary: out)
  case (Cons x xs)
  then obtain out1 where s: "ser x out = Inr out1" and r: "ser_loop ser bad xs out1 = Inr out'"
    by (auto split: sum.splits if_splits)
  from Cons.IH [OF r] ser_appends [OF s] ser_ok [OF s] show ?case by auto
qed simp

lemma ser_loop_bound:
  "ser_loop ser bad xs out = Inr out' \<Longrightarrow> xs \<noteq> [] \<Longrightarrow> \<not> bad (length out')"
proof (induction xs arbitrary: out)
  case (Cons x xs)
  then show ?case by (cases xs) (auto split: sum.splits if_splits)
qed simp

lemma ser_loop_read_back:
  assumes "ser_loop ser bad xs out = Inr out'" "length out' \<le> MAX_QUERYBUFFER_SIZE"
  shows "rd_many (length xs) rd (concat (map enc xs) @ s) = Some (xs, s)"
  using ser_loop_appends [OF assms(1)] assms(2) rd_many_enc_ok by simp

end

lemma length_enc_vec [len_simps]: "length (enc_vec e xs) = 4 + length (concat (map e xs))"
  by (simp add: enc_vec_def u32.length_enc)

section \<open>Words and bits\<close>

unbundle bit_operations_syntax

lemma or_shifted: "b < 2 ^ n \<Longrightarrow> push_bit n a OR b = push_bit n a + (b :: nat)"
proof (rule disjunctive_add [symmetric])
  fix m assume b: "b < 2 ^ n"
  then have "take_bit n b = b" by (simp add: take_bit_nat_eq_self)
  then have "bit b m \<Longrightarrow> m < n" by (metis bit_take_bit_iff)
  then show "\<not> bit (push_bit n a) m \<or> \<not> bit b m" by (auto simp: bit_push_bit_iff)
qed

lemma unat_push_bit64: "a < 2 ^ m \<Longrightarrow> n + m \<le> 64 \<Longrightarrow> unat (push_bit n (word_of_nat a :: u64)) = push_bit n a"
proof -
  assume a: "a < 2 ^ m" "n + m \<le> 64"
  have "a * 2 ^ n < 2 ^ m * 2 ^ n" using a by simp
  also have "\<dots> \<le> 2 ^ 64" using a(2) power_increasing [of "m + n" 64 "2::nat"] by (simp add: power_add add.commute)
  finally have p: "push_bit n a < 2 ^ 64" by (simp only: push_bit_eq_mult)
  have "m \<le> 64" using a(2) by simp
  then have "a < 2 ^ 64" using a(1) power_increasing [of m 64 "2::nat"] by linarith
  then have "unat (word_of_nat a :: u64) = a" by simp
  with p show ?thesis by (simp only: unsigned_push_bit_eq) (simp add: take_bit_nat_eq_self)
qed

lemma bit_unat: "bit (w :: 'a::len word) n \<longleftrightarrow> odd (unat w div 2 ^ n)"
  by (simp add: bit_unsigned_iff bit_imp_le_length flip: bit_iff_odd)

lemma unat_up [simp]: "unat (ucast (w :: u32) :: u64) = unat w"
proof -
  have "unat w < 2 ^ 64" using unat_lt [of w] by simp
  then show ?thesis by (simp add: unsigned_ucast_eq take_bit_nat_eq_self)
qed

lemma scast_small: "unat (v :: u32) < 2 ^ 31 \<Longrightarrow> (scast v :: u64) = ucast v"
proof -
  assume a: "unat v < 2 ^ 31"
  have "\<not> bit v n" if "31 \<le> n" for n
    using a power_increasing [OF that, of "2 :: nat"] by (simp add: bit_unat)
  then show ?thesis by (intro bit_word_eqI) (auto simp: bit_signed_iff bit_unsigned_iff min_def not_less)
qed

lemma rd_many_length: "rd_many n r s = Some (xs, t) \<Longrightarrow> length xs = n"
  by (induction n arbitrary: s xs t) (auto simp: bind_eq_Some_conv)

lemma ucast_ucast_id: "ucast (ucast (v :: u32) :: u64) = v"
  by (rule bit_word_eqI) (auto simp: bit_unsigned_iff dest: bit_imp_le_length)

lemma append_single: "(@) [a] = (#) a"
  by auto

end
