(* ===== verification/Hash_Table.thy ===== *)
theory Hash_Table
  imports Prelude
begin

text \<open>
  The visited set of a query, \<^verbatim>\<open>OptHashPosVector\<close> of \<^verbatim>\<open>include/anns/hash_table.h\<close>: an
  open-addressing table of two blocks of \<^verbatim>\<open>m_poolSize + 1\<close> cells.  Eight probes in the first
  block, eight in the second, and then the table is doubled.  Cells are the bits of the
  \<^verbatim>\<open>int32_t\<close> entries (only compared with each other and with zero).  \<^verbatim>\<open>_CheckAndSet\<close> and
  \<^verbatim>\<open>DoubleSize\<close> call each other; the recursion is bounded by fuel, one unit for each
  \<^verbatim>\<open>DoubleSize\<close> still allowed on the call stack, and \<^const>\<open>None\<close> means that the fuel ran out, or
  that \<^verbatim>\<open>DoubleSize\<close> computes a size that is no \<^verbatim>\<open>int\<close> (\<open>int_size\<close>), which is undefined.  Sizes are natural
  numbers: below that bound every \<^verbatim>\<open>int\<close> of the class is one.
  The contract is that of a set: the locale \<open>visited_set\<close> states it, and the table is
  an interpretation.
\<close>

unbundle bit_operations_syntax

record OptHashPosVector =
  m_secondHash :: bool
  m_exp :: nat
  m_poolSize :: nat
  m_hashTable :: "u32 list"

definition m_maxLoop :: nat where
  "m_maxLoop = 8"

definition rotl32 :: "u32 \<Rightarrow> nat \<Rightarrow> u32" where
  "rotl32 x n = (push_bit n x OR drop_bit (32 - n) x)"

definition hash_func :: "u32 \<Rightarrow> nat \<Rightarrow> nat" where
  "hash_func idx poolSize = unat ((idx * 99991 + rotl32 idx 2 + 101) AND word_of_nat poolSize)"

definition hash_func2 :: "nat \<Rightarrow> nat \<Rightarrow> nat \<Rightarrow> nat" where
  "hash_func2 idx poolSize loop =
     unat ((word_of_nat (idx + loop) :: u32) AND word_of_nat poolSize)"

text \<open>The \<^verbatim>\<open>for\<close> loop of \<^verbatim>\<open>_CheckAndSet\<close> over the block that starts at cell \<open>base\<close>.\<close>

datatype probe_result = Recorded "u32 list" | Hit | Full

function probe :: "u32 list \<Rightarrow> nat \<Rightarrow> nat \<Rightarrow> u32 \<Rightarrow> nat \<Rightarrow> nat \<Rightarrow> probe_result" where
  "probe t base poolSize idx index loop =
     (if loop < m_maxLoop
      then if t ! (base + index) = 0 then Recorded (t[base + index := idx])
           else if t ! (base + index) = idx then Hit
           else probe t base poolSize idx (hash_func2 index poolSize loop) (Suc loop)
      else Full)"
  by pat_completeness auto
termination
  by (relation "measure (\<lambda>(_, _, _, _, _, loop). m_maxLoop - loop)") auto

declare probe.simps [simp del]

text \<open>The table an access goes to: the object's own one (\<^const>\<open>None\<close>), or the fresh table
  that \<^verbatim>\<open>DoubleSize\<close> fills.\<close>

fun target_table :: "OptHashPosVector \<Rightarrow> u32 list option \<Rightarrow> u32 list" where
  "target_table h None = m_hashTable h"
| "target_table h (Some t) = t"

fun store_table ::
  "OptHashPosVector \<Rightarrow> u32 list option \<Rightarrow> u32 list \<Rightarrow> OptHashPosVector \<times> u32 list option" where
  "store_table h None t = (h\<lparr>m_hashTable := t\<rparr>, None)"
| "store_table h (Some _) t = (h, Some t)"

text \<open>The number of cells of the doubled table, \<^verbatim>\<open>(new_poolSize + 1) * 2\<close>, is computed in \<^verbatim>\<open>int\<close>.\<close>

definition int_size :: "OptHashPosVector \<Rightarrow> bool" where
  "int_size h \<longleftrightarrow> 4 * (int (m_poolSize h) + 1) < 2 ^ 31"

text \<open>\<open>check_and_set\<close> is \<^verbatim>\<open>_CheckAndSet\<close> (1: recorded, 0: hit), \<open>rehash\<close> the loop of
  \<^verbatim>\<open>DoubleSize\<close> over the cells \<open>i..<n\<close> of the old table.\<close>

function (sequential)
  check_and_set :: "nat \<Rightarrow> OptHashPosVector \<Rightarrow> u32 list option \<Rightarrow> nat \<Rightarrow> bool \<Rightarrow> u32 \<Rightarrow>
     (nat \<times> OptHashPosVector \<times> u32 list option) option" and
  DoubleSize :: "nat \<Rightarrow> OptHashPosVector \<Rightarrow> OptHashPosVector option" and
  rehash :: "nat \<Rightarrow> OptHashPosVector \<Rightarrow> u32 list \<Rightarrow> nat \<Rightarrow> nat \<Rightarrow> nat \<Rightarrow>
     (OptHashPosVector \<times> u32 list) option"
where
  "check_and_set fuel h tgt poolSize isFirst idx =
     (case probe (target_table h tgt) (if isFirst then 0 else poolSize + 1) poolSize idx
             (hash_func idx poolSize) 0 of
        Recorded t \<Rightarrow> (case store_table h tgt t of (h', tgt') \<Rightarrow> Some (1, h', tgt'))
      | Hit \<Rightarrow> Some (0, h, tgt)
      | Full \<Rightarrow>
          (if isFirst
           then check_and_set fuel (h\<lparr>m_secondHash := True\<rparr>) tgt poolSize False idx
           else case fuel of
               0 \<Rightarrow> None
             | Suc fuel' \<Rightarrow>
                 (case DoubleSize fuel' h of
                    None \<Rightarrow> None
                  | Some h' \<Rightarrow>
                      (case check_and_set fuel' h' None (m_poolSize h') True idx of
                         None \<Rightarrow> None
                       | Some (r, h'', _) \<Rightarrow> Some (r, h'', tgt)))))"
| "DoubleSize fuel h =
     (if \<not> int_size h then None
      else let new_poolSize = (m_poolSize h + 1) * 2 - 1;
          new_hashTable = replicate ((new_poolSize + 1) * 2) 0
      in case rehash fuel (h\<lparr>m_secondHash := False\<rparr>) new_hashTable new_poolSize 0
                (new_poolSize + 1) of
           None \<Rightarrow> None
         | Some (h', t) \<Rightarrow>
             Some (h'\<lparr>m_exp := m_exp h' + 1, m_poolSize := new_poolSize, m_hashTable := t\<rparr>))"
| "rehash fuel h t new_poolSize i n =
     (if i < n
      then if m_hashTable h ! i \<noteq> 0
           then case check_and_set fuel h (Some t) new_poolSize True (m_hashTable h ! i) of
                  Some (_, h', Some t') \<Rightarrow> rehash fuel h' t' new_poolSize (Suc i) n
                | _ \<Rightarrow> None
           else rehash fuel h t new_poolSize (Suc i) n
      else Some (h, t))"
  by pat_completeness auto
termination
  by (relation "inv_image (less_than <*lex*> less_than <*lex*> less_than)
      (\<lambda>a. case a of
         Inl (fuel, _, _, _, isFirst, _) \<Rightarrow> (fuel, if isFirst then 1 else 0, 0)
       | Inr (Inl (fuel, _)) \<Rightarrow> (fuel, 3, 0)
       | Inr (Inr (fuel, _, _, _, i, n)) \<Rightarrow> (fuel, 2, n - i))") auto

declare check_and_set.simps [simp del] DoubleSize.simps [simp del] rehash.simps [simp del]

definition clear :: "OptHashPosVector \<Rightarrow> OptHashPosVector" where
  "clear h =
     (if \<not> m_secondHash h
      then h\<lparr>m_hashTable := replicate (m_poolSize h + 1) 0 @ drop (m_poolSize h + 1) (m_hashTable h)\<rparr>
      else h\<lparr>m_secondHash := False,
             m_hashTable := replicate (2 * (m_poolSize h + 1)) 0 @
               drop (2 * (m_poolSize h + 1)) (m_hashTable h)\<rparr>)"

text \<open>\<^verbatim>\<open>new SizeType[n]\<close> leaves the cells uninitialised: their values are the argument
  \<open>junk\<close>.\<close>

fun bit_length :: "nat \<Rightarrow> nat" where
  "bit_length n = (if n = 0 then 0 else Suc (bit_length (n div 2)))"

declare bit_length.simps [simp del]

definition Init :: "(nat \<Rightarrow> u32) \<Rightarrow> nat \<Rightarrow> nat \<Rightarrow> OptHashPosVector" where
  "Init junk n ex =
     (let poolSize = 2 ^ (bit_length n + ex) - 1
      in clear \<lparr>m_secondHash = True, m_exp = ex, m_poolSize = poolSize,
           m_hashTable = map junk [0..<(poolSize + 1) * 2]\<rparr>)"

definition new_OptHashPosVector :: "(nat \<Rightarrow> u32) \<Rightarrow> OptHashPosVector" where
  "new_OptHashPosVector junk = Init junk 8191 1"

text \<open>\<^verbatim>\<open>CheckAndSet\<close> answers whether the index was already there.\<close>

definition CheckAndSet :: "nat \<Rightarrow> u32 \<Rightarrow> OptHashPosVector \<Rightarrow> (bool \<times> OptHashPosVector) option" where
  "CheckAndSet fuel idx h =
     (case check_and_set fuel h None (m_poolSize h) True (idx + 1) of
        None \<Rightarrow> None
      | Some (r, h', _) \<Rightarrow> Some (r = 0, h'))"

section \<open>Probe sequences\<close>

text \<open>The cell, relative to its block, that the probe number \<open>j\<close> for a key looks at.\<close>

primrec index_at :: "u32 \<Rightarrow> nat \<Rightarrow> nat \<Rightarrow> nat" where
  "index_at x pool 0 = hash_func x pool"
| "index_at x pool (Suc j) = hash_func2 (index_at x pool j) pool j"

lemma unat_and_le: "unat (w AND word_of_nat pool :: u32) \<le> pool"
proof -
  have "unat (w AND word_of_nat pool) \<le> unat (word_of_nat pool :: u32)"
    by (simp flip: word_le_nat_alt add: word_and_le1)
  also have "\<dots> \<le> pool"
    by (simp add: unat_of_nat)
  finally show ?thesis .
qed

lemma index_at_le: "index_at x pool j \<le> pool"
  by (cases j) (simp_all add: hash_func_def hash_func2_def unat_and_le)

lemma probe_step:
  "j < m_maxLoop \<Longrightarrow> probe t base pool x (index_at x pool j) j =
     (if t ! (base + index_at x pool j) = 0 then Recorded (t[base + index_at x pool j := x])
      else if t ! (base + index_at x pool j) = x then Hit
      else probe t base pool x (index_at x pool (Suc j)) (Suc j))"
  by (simp add: probe.simps [of _ _ _ _ _ j])

text \<open>\<open>passed\<close>: the probes \<open>j..<i\<close> met neither a free cell nor the key.\<close>

definition passed :: "u32 list \<Rightarrow> nat \<Rightarrow> nat \<Rightarrow> u32 \<Rightarrow> nat \<Rightarrow> nat \<Rightarrow> bool" where
  "passed t base pool x j i \<longleftrightarrow> (\<forall>k\<in>{j..<i}. t ! (base + index_at x pool k) \<notin> {0, x})"

lemma passed_extend:
  "passed t base pool x (Suc j) i \<Longrightarrow> t ! (base + index_at x pool j) \<notin> {0, x} \<Longrightarrow>
     passed t base pool x j i"
  unfolding passed_def by (metis Suc_leI atLeastLessThan_iff le_neq_implies_less)

lemma probe_spec:
  "j \<le> m_maxLoop \<Longrightarrow>
   case probe t base pool x (index_at x pool j) j of
     Full \<Rightarrow> passed t base pool x j m_maxLoop
   | Hit \<Rightarrow> \<exists>i\<in>{j..<m_maxLoop}. t ! (base + index_at x pool i) = x \<and> passed t base pool x j i
   | Recorded t' \<Rightarrow> \<exists>i\<in>{j..<m_maxLoop}. t ! (base + index_at x pool i) = 0 \<and>
       t' = t[base + index_at x pool i := x] \<and> passed t base pool x j i"
proof (induction "m_maxLoop - j" arbitrary: j)
  case 0
  then show ?case by (simp add: probe.simps passed_def)
next
  case (Suc n)
  then have j: "j < m_maxLoop" by simp
  show ?case
  proof (cases "t ! (base + index_at x pool j) \<in> {0, x}")
    case True
    then show ?thesis
      using j by (auto simp: probe_step passed_def intro!: bexI [of _ j])
  next
    case False
    have "case probe t base pool x (index_at x pool (Suc j)) (Suc j) of
       Full \<Rightarrow> passed t base pool x (Suc j) m_maxLoop
     | Hit \<Rightarrow> \<exists>i\<in>{Suc j..<m_maxLoop}. t ! (base + index_at x pool i) = x \<and>
         passed t base pool x (Suc j) i
     | Recorded t' \<Rightarrow> \<exists>i\<in>{Suc j..<m_maxLoop}. t ! (base + index_at x pool i) = 0 \<and>
         t' = t[base + index_at x pool i := x] \<and> passed t base pool x (Suc j) i"
      by (rule Suc.hyps(1)) (use Suc.hyps(2) in auto)
    with False j show ?thesis
      by (auto simp: probe_step simp del: index_at.simps split: probe_result.splits
          intro: passed_extend intro!: bexI)
  qed
qed

lemmas probe_spec0 = probe_spec [of 0, simplified]

lemma probe_found:
  assumes "i < m_maxLoop" "t ! (base + index_at x pool i) = x" "passed t base pool x 0 i" "x \<noteq> 0"
  shows "probe t base pool x (hash_func x pool) 0 = Hit"
proof (cases "probe t base pool x (hash_func x pool) 0")
  case (Recorded t')
  with probe_spec0 [where t = t and base = base and pool = pool and x = x] obtain k where
    "k < m_maxLoop" "t ! (base + index_at x pool k) = 0" "passed t base pool x 0 k"
    by auto
  with assms show ?thesis by (cases k i rule: linorder_cases) (auto simp: passed_def)
next
  case Full
  with probe_spec0 [where t = t and base = base and pool = pool and x = x] assms show ?thesis by (auto simp: passed_def)
qed

lemma probe_passed:
  "passed t base pool x 0 m_maxLoop \<Longrightarrow> probe t base pool x (hash_func x pool) 0 = Full"
  using probe_spec0 [where t = t and base = base and pool = pool and x = x]
  by (cases "probe t base pool x (hash_func x pool) 0") (auto simp: passed_def)

section \<open>The table as a set\<close>

definition stored :: "u32 list \<Rightarrow> u32 set" where
  "stored t = set t - {0}"

text \<open>Where a stored key is found again: at one of its probes of the first block with no
  free cell before it, or, when the whole first block is passed, of the second one.\<close>

definition findable :: "u32 list \<Rightarrow> nat \<Rightarrow> u32 \<Rightarrow> bool" where
  "findable t pool x \<longleftrightarrow>
     (\<exists>i<m_maxLoop. t ! index_at x pool i = x \<and> passed t 0 pool x 0 i) \<or>
     passed t 0 pool x 0 m_maxLoop \<and>
     (\<exists>i<m_maxLoop. t ! (pool + 1 + index_at x pool i) = x \<and> passed t (pool + 1) pool x 0 i)"

definition wf_table :: "u32 list \<Rightarrow> nat \<Rightarrow> bool" where
  "wf_table t pool \<longleftrightarrow> length t = 2 * (pool + 1) \<and> (\<forall>x\<in>stored t. findable t pool x)"

definition second_free :: "u32 list \<Rightarrow> nat \<Rightarrow> bool" where
  "second_free t pool \<longleftrightarrow> (\<forall>k\<in>{pool + 1..<2 * (pool + 1)}. t ! k = 0)"

text \<open>The two blocks without growing: the result, the table, and whether the second block
  was reached.\<close>

definition try_set :: "u32 list \<Rightarrow> nat \<Rightarrow> u32 \<Rightarrow> (nat \<times> u32 list \<times> bool) option" where
  "try_set t pool x =
     (case probe t 0 pool x (hash_func x pool) 0 of
        Recorded t' \<Rightarrow> Some (1, t', False)
      | Hit \<Rightarrow> Some (0, t, False)
      | Full \<Rightarrow>
          (case probe t (pool + 1) pool x (hash_func x pool) 0 of
             Recorded t' \<Rightarrow> Some (1, t', True)
           | Hit \<Rightarrow> Some (0, t, True)
           | Full \<Rightarrow> None))"

lemma passed_update:
  "passed t base pool y 0 i \<Longrightarrow> t ! c = 0 \<Longrightarrow> passed (t[c := x]) base pool y 0 i"
  unfolding passed_def by (metis insert_iff nth_list_update_neq)

lemma findable_update:
  assumes "findable t pool y" "t ! c = 0" "y \<noteq> 0"
  shows "findable (t[c := x]) pool y"
proof -
  have "t ! k = y \<Longrightarrow> t[c := x] ! k = y" for k
    using assms by (metis nth_list_update_neq)
  with assms passed_update [of t _ pool y _ c x] show ?thesis
    unfolding findable_def by metis
qed

lemma stored_update:
  "c < length t \<Longrightarrow> t ! c = 0 \<Longrightarrow> x \<noteq> 0 \<Longrightarrow> stored (t[c := x]) = insert x (stored t)"
  by (auto simp: stored_def set_conv_nth nth_list_update)

lemma wf_table_update:
  assumes "wf_table t pool" "c < length t" "t ! c = 0" "x \<noteq> 0" "findable (t[c := x]) pool x"
  shows "wf_table (t[c := x]) pool"
proof -
  have "findable (t[c := x]) pool y" if "y \<in> insert x (stored t)" for y
    using that assms findable_update [of t pool y c x] by (auto simp: wf_table_def stored_def)
  with assms show ?thesis by (simp add: wf_table_def stored_update)
qed

lemma try_set_stored:
  assumes "wf_table t pool" "x \<in> stored t"
  shows "\<exists>b. try_set t pool x = Some (0, t, b)"
proof -
  from assms have "findable t pool x" "x \<noteq> 0"
    by (auto simp: wf_table_def stored_def)
  then show ?thesis
    unfolding findable_def try_set_def
    using probe_found [of _ t 0 x pool] probe_found [of _ t "pool + 1" x pool]
      probe_passed [of t 0 pool x]
    by fastforce
qed

lemma try_set_fresh:
  assumes wf: "wf_table t pool" and x: "x \<noteq> 0" "x \<notin> stored t"
    and set: "try_set t pool x = Some (r, t', b)"
  shows "r = 1 \<and> (\<exists>c<length t. t ! c = 0 \<and> t' = t[c := x] \<and> (\<not> b \<longrightarrow> c \<le> pool)) \<and>
         findable t' pool x"
proof -
  have len: "length t = 2 * (pool + 1)" using wf by (simp add: wf_table_def)
  have idx: "index_at x pool i \<le> pool" for i by (rule index_at_le)
  have no_hit: "t ! k \<noteq> x" if "k < length t" for k
    using x that by (auto simp: stored_def)
  show ?thesis
  proof (cases "probe t 0 pool x (hash_func x pool) 0")
    case (Recorded t1)
    with probe_spec0 [where t = t and base = 0 and pool = pool and x = x] obtain i where i: "i < m_maxLoop"
      "t ! index_at x pool i = 0" "t1 = t[index_at x pool i := x]" "passed t 0 pool x 0 i"
      by auto
    moreover have "findable t1 pool x"
      unfolding findable_def using i passed_update [OF i(4) i(2), of x] idx [of i] len
      by (intro disjI1 exI [of _ i]) simp
    ultimately show ?thesis
      using Recorded set idx [of i] len by (auto simp: try_set_def intro!: exI [of _ "index_at x pool i"])
  next
    case Hit
    with probe_spec0 [where t = t and base = 0 and pool = pool and x = x]
    obtain i where "t ! index_at x pool i = x" by auto
    with no_hit [of "index_at x pool i"] idx [of i] len show ?thesis by simp
  next
    case Full
    with probe_spec0 [where t = t and base = 0 and pool = pool and x = x] have p1: "passed t 0 pool x 0 m_maxLoop" by simp
    show ?thesis
    proof (cases "probe t (pool + 1) pool x (hash_func x pool) 0")
      case (Recorded t1)
      define c where "c i = pool + 1 + index_at x pool i" for i
      from Recorded probe_spec0 [where t = t and base = "pool + 1" and pool = pool and x = x] obtain i where i: "i < m_maxLoop"
        "t ! c i = 0" "t1 = t[c i := x]" "passed t (pool + 1) pool x 0 i"
        by (auto simp: c_def)
      have c_lt: "c i < length t" using idx [of i] len by (simp add: c_def)
      have "findable t1 pool x"
        unfolding findable_def
        using i c_lt passed_update [OF i(4) i(2), of x] passed_update [OF p1 i(2), of x]
        by (intro disjI2 conjI exI [of _ i]) (simp_all add: c_def)
      with i c_lt Recorded Full set show ?thesis
        by (auto simp: try_set_def)
    next
      case Hit
      with probe_spec0 [where t = t and base = "pool + 1" and pool = pool and x = x] obtain i where "t ! (pool + 1 + index_at x pool i) = x"
        by auto
      with no_hit [of "pool + 1 + index_at x pool i"] idx [of i] len show ?thesis by simp
    qed (use Full set in \<open>simp add: try_set_def\<close>)
  qed
qed

lemma try_set_correct:
  assumes wf: "wf_table t pool" and x: "x \<noteq> 0" and set: "try_set t pool x = Some (r, t', b)"
  shows "wf_table t' pool" "stored t' = insert x (stored t)" "r = 0 \<longleftrightarrow> x \<in> stored t"
    "second_free t pool \<Longrightarrow> \<not> b \<Longrightarrow> second_free t' pool"
proof -
  have "wf_table t' pool \<and> stored t' = insert x (stored t) \<and> (r = 0 \<longleftrightarrow> x \<in> stored t) \<and>
    (second_free t pool \<longrightarrow> \<not> b \<longrightarrow> second_free t' pool)"
  proof (cases "x \<in> stored t")
    case True
    with try_set_stored [OF wf True] set wf show ?thesis by (auto simp: insert_absorb)
  next
    case False
    from try_set_fresh [OF wf x False set] obtain c where c: "r = 1" "c < length t" "t ! c = 0"
      "t' = t[c := x]" "\<not> b \<longrightarrow> c \<le> pool" "findable t' pool x" by auto
    with False wf x wf_table_update [OF wf c(2) c(3)] show ?thesis
      by (auto simp: stored_update second_free_def nth_list_update)
  qed
  then show "wf_table t' pool" "stored t' = insert x (stored t)" "r = 0 \<longleftrightarrow> x \<in> stored t"
    "second_free t pool \<Longrightarrow> \<not> b \<Longrightarrow> second_free t' pool" by auto
qed

lemma wf_table_zeros: "wf_table (replicate (2 * (pool + 1)) 0) pool"
  "stored (replicate n 0) = {}" "second_free (replicate (2 * (pool + 1)) 0) pool"
  by (auto simp: wf_table_def stored_def second_free_def simp del: replicate_Suc mult_Suc_right)

lemma check_and_set_try:
  "check_and_set fuel h tgt pool True x =
     (case try_set (target_table h tgt) pool x of
        Some (r, t', b) \<Rightarrow>
          (case store_table (h\<lparr>m_secondHash := m_secondHash h \<or> b\<rparr>) tgt t' of
             (h', tgt') \<Rightarrow> Some (r, h', tgt'))
      | None \<Rightarrow>
          (case fuel of
             0 \<Rightarrow> None
           | Suc fuel' \<Rightarrow>
               (case DoubleSize fuel' (h\<lparr>m_secondHash := True\<rparr>) of
                  None \<Rightarrow> None
                | Some h' \<Rightarrow>
                    (case check_and_set fuel' h' None (m_poolSize h') True x of
                       None \<Rightarrow> None
                     | Some (r, h'', _) \<Rightarrow> Some (r, h'', tgt)))))"
proof -
  have "target_table (h\<lparr>m_secondHash := b\<rparr>) tgt = target_table h tgt"
    and "store_table h tgt (target_table h tgt) = (h, tgt)"
    and "store_table (h\<lparr>m_secondHash := True\<rparr>) tgt (target_table h tgt) = (h\<lparr>m_secondHash := True\<rparr>, tgt)" for b
    by (cases tgt; simp)+
  then show ?thesis
    by (simp add: check_and_set.simps [where isFirst = True] check_and_set.simps [where isFirst = False]
        try_set_def split: probe_result.split)
qed

section \<open>Growing\<close>

text \<open>The rehash of a list of entries into a table, without growing again.\<close>

primrec rehash_all :: "u32 list \<Rightarrow> nat \<Rightarrow> u32 list \<Rightarrow> bool \<Rightarrow> (u32 list \<times> bool) option" where
  "rehash_all [] pool t b = Some (t, b)"
| "rehash_all (x # xs) pool t b =
     (if x = 0 then rehash_all xs pool t b
      else case try_set t pool x of
             None \<Rightarrow> None
           | Some (_, t', b') \<Rightarrow> rehash_all xs pool t' (b \<or> b'))"

definition grown :: "OptHashPosVector \<Rightarrow> (u32 list \<times> bool) option" where
  "grown h = rehash_all (m_hashTable h) (2 * m_poolSize h + 1)
     (replicate (2 * (2 * m_poolSize h + 1 + 1)) 0) False"

definition growth :: "OptHashPosVector \<Rightarrow> (u32 list \<times> bool) option" where
  "growth h = (if int_size h then grown h else None)"

lemma rehash_all_correct:
  "wf_table t pool \<Longrightarrow> rehash_all xs pool t b = Some (t', b') \<Longrightarrow> (\<not> b \<longrightarrow> second_free t pool) \<Longrightarrow>
     wf_table t' pool \<and> stored t' = stored t \<union> stored xs \<and> (\<not> b' \<longrightarrow> second_free t' pool)"
proof (induction xs arbitrary: t b)
  case Nil
  then show ?case by (simp add: stored_def)
next
  case (Cons x xs)
  show ?case
  proof (cases "x = 0")
    case True
    with Cons.prems Cons.IH [of t b] show ?thesis by (simp add: stored_def)
  next
    case False
    with Cons.prems obtain r t1 b1 where s: "try_set t pool x = Some (r, t1, b1)"
      and re: "rehash_all xs pool t1 (b \<or> b1) = Some (t', b')"
      by (auto split: option.splits)
    note c = try_set_correct [OF Cons.prems(1) False s]
    have "wf_table t' pool \<and> stored t' = stored t1 \<union> stored xs \<and> (\<not> b' \<longrightarrow> second_free t' pool)"
      by (rule Cons.IH [OF c(1) re]) (use c(4) Cons.prems(3) in auto)
    with c(2) False show ?thesis by (auto simp: stored_def)
  qed
qed

lemma rehash_fits:
  "n = length (m_hashTable h) \<Longrightarrow> i \<le> n \<Longrightarrow>
   rehash_all (drop i (m_hashTable h)) pool t (m_secondHash h) = Some (t', b) \<Longrightarrow>
   rehash fuel h t pool i n = Some (h\<lparr>m_secondHash := b\<rparr>, t')"
proof (induction "n - i" arbitrary: i t h)
  case 0
  then show ?case by (simp add: rehash.simps)
next
  case (Suc k)
  then have i: "i < n" and d: "drop i (m_hashTable h) = m_hashTable h ! i # drop (Suc i) (m_hashTable h)"
    by (simp_all add: Cons_nth_drop_Suc)
  show ?case
  proof (cases "m_hashTable h ! i = 0")
    case True
    with Suc.hyps(1) [of "Suc i" h t] Suc.hyps(2) Suc.prems i d show ?thesis
      by (subst rehash.simps) auto
  next
    case False
    with Suc.prems d obtain r t1 b1 where s: "try_set t pool (m_hashTable h ! i) = Some (r, t1, b1)"
      "rehash_all (drop (Suc i) (m_hashTable h)) pool t1 (m_secondHash h \<or> b1) = Some (t', b)"
      by (auto split: option.splits)
    with Suc.hyps(1) [of "Suc i" "h\<lparr>m_secondHash := m_secondHash h \<or> b1\<rparr>" t1] Suc.hyps(2) Suc.prems i False
    show ?thesis
      by (subst rehash.simps) (simp add: check_and_set_try)
  qed
qed

text \<open>When the rehash overflows both blocks of the new table, the nested \<^verbatim>\<open>DoubleSize\<close>
  starts the very same rehash again, because \<^verbatim>\<open>m_poolSize\<close> and \<^verbatim>\<open>m_hashTable\<close> are only
  replaced at the end: no amount of fuel is enough.\<close>

lemma rehash_stuck:
  assumes nested: "\<And>fuel' h'. fuel = Suc fuel' \<Longrightarrow> m_hashTable h' = m_hashTable h \<Longrightarrow>
      m_poolSize h' = m_poolSize h \<Longrightarrow> DoubleSize fuel' h' = None"
  shows "n = length (m_hashTable h) \<Longrightarrow> i \<le> n \<Longrightarrow>
    rehash_all (drop i (m_hashTable h)) pool t b = None \<Longrightarrow> rehash fuel h t pool i n = None"
  using nested
proof (induction "n - i" arbitrary: i t h b)
  case 0
  then show ?case by simp
next
  case (Suc k)
  then have i: "i < n" and d: "drop i (m_hashTable h) = m_hashTable h ! i # drop (Suc i) (m_hashTable h)"
    by (simp_all add: Cons_nth_drop_Suc)
  show ?case
  proof (cases "m_hashTable h ! i = 0 \<or> try_set t pool (m_hashTable h ! i) = None")
    case True
    with Suc.hyps(1) [of "Suc i" h t b] Suc.hyps(2) Suc.prems i d show ?thesis
      by (subst rehash.simps) (auto simp: check_and_set_try split: nat.splits option.splits)
  next
    case False
    then obtain r t1 b1 where s: "try_set t pool (m_hashTable h ! i) = Some (r, t1, b1)"
      "m_hashTable h ! i \<noteq> 0" by auto
    have "rehash fuel (h\<lparr>m_secondHash := m_secondHash h \<or> b1\<rparr>) t1 pool (Suc i) n = None"
      by (rule Suc.hyps(1) [where b = "b \<or> b1"]) (use Suc.hyps(2) Suc.prems s d i in auto)
    with s i show ?thesis
      by (subst rehash.simps) (simp add: check_and_set_try)
  qed
qed

lemma DoubleSize_step:
  assumes len: "length (m_hashTable h) = 2 * (m_poolSize h + 1)"
    and nested: "\<And>fuel' h'. growth h = None \<Longrightarrow> fuel = Suc fuel' \<Longrightarrow> m_hashTable h' = m_hashTable h \<Longrightarrow>
      m_poolSize h' = m_poolSize h \<Longrightarrow> DoubleSize fuel' h' = None"
  shows "DoubleSize fuel h = map_option (\<lambda>(t, b). \<lparr>m_secondHash = b, m_exp = m_exp h + 1,
     m_poolSize = 2 * m_poolSize h + 1, m_hashTable = t\<rparr>) (growth h)"
proof (cases "int_size h")
  case sz: True
  show ?thesis
  proof (cases "grown h")
    case None
    then have "rehash fuel (h\<lparr>m_secondHash := False\<rparr>) (replicate (2 * (2 * m_poolSize h + 2)) 0)
        (2 * m_poolSize h + 1) 0 (2 * m_poolSize h + 2) = None"
      by (intro rehash_stuck [where b = False]) (use len nested in \<open>auto simp: grown_def growth_def\<close>)
    with None sz show ?thesis by (simp add: DoubleSize.simps growth_def mult.commute)
  next
    case (Some tb)
    then show ?thesis
      using len sz rehash_fits [of _ "h\<lparr>m_secondHash := False\<rparr>" 0 "2 * m_poolSize h + 1" _ "fst tb" "snd tb" fuel]
      by (auto simp: DoubleSize.simps growth_def grown_def mult.commute split: prod.split)
  qed
qed (simp add: DoubleSize.simps growth_def)

lemma DoubleSize_grown:
  "length (m_hashTable h) = 2 * (m_poolSize h + 1) \<Longrightarrow>
   DoubleSize fuel h = map_option (\<lambda>(t, b). \<lparr>m_secondHash = b, m_exp = m_exp h + 1,
     m_poolSize = 2 * m_poolSize h + 1, m_hashTable = t\<rparr>) (growth h)"
proof (induction fuel arbitrary: h)
  case (Suc fuel)
  then show ?case by (intro DoubleSize_step) (auto simp: growth_def grown_def int_size_def)
qed (simp add: DoubleSize_step)

section \<open>The visited set\<close>

definition hv_inv :: "OptHashPosVector \<Rightarrow> bool" where
  "hv_inv h \<longleftrightarrow> wf_table (m_hashTable h) (m_poolSize h) \<and>
     (\<not> m_secondHash h \<longrightarrow> second_free (m_hashTable h) (m_poolSize h))"

definition visited :: "OptHashPosVector \<Rightarrow> u32 set" where
  "visited h = {i. i + 1 \<in> stored (m_hashTable h)}"

lemma hv_inv_length: "hv_inv h \<Longrightarrow> length (m_hashTable h) = 2 * (m_poolSize h + 1)"
  by (simp add: hv_inv_def wf_table_def)

lemma grown_correct:
  assumes "grown h = Some (t, b)"
  shows "wf_table t (2 * m_poolSize h + 1) \<and> stored t = stored (m_hashTable h) \<and>
    (\<not> b \<longrightarrow> second_free t (2 * m_poolSize h + 1))"
  using rehash_all_correct [OF wf_table_zeros(1) assms [unfolded grown_def] impI [OF wf_table_zeros(3)]]
  unfolding wf_table_zeros(2) by simp

lemma growth_correct:
  "growth h = Some (t, b) \<Longrightarrow> wf_table t (2 * m_poolSize h + 1) \<and> stored t = stored (m_hashTable h) \<and>
    (\<not> b \<longrightarrow> second_free t (2 * m_poolSize h + 1))"
  using grown_correct by (simp add: growth_def split: if_splits)

lemma check_and_set_correct:
  assumes "hv_inv h" "x \<noteq> 0" "check_and_set fuel h None (m_poolSize h) True x = Some (r, h', tgt)"
  shows "hv_inv h' \<and> stored (m_hashTable h') = insert x (stored (m_hashTable h)) \<and>
     (r = 0 \<longleftrightarrow> x \<in> stored (m_hashTable h))"
  using assms
proof (induction fuel arbitrary: h r h' tgt rule: nat_less_induct)
  case (1 fuel)
  show ?case
  proof (cases "try_set (m_hashTable h) (m_poolSize h) x")
    case (Some a)
    obtain r' t b where a: "a = (r', t, b)" by (cases a)
    then have "try_set (m_hashTable h) (m_poolSize h) x = Some (r', t, b)" using Some by simp
    note c = try_set_correct [OF _ "1.prems"(2) this]
    from Some a "1.prems"(3) have "r = r'" "h' = h\<lparr>m_secondHash := m_secondHash h \<or> b, m_hashTable := t\<rparr>"
      by (auto simp: check_and_set_try)
    with c "1.prems"(1) show ?thesis by (auto simp: hv_inv_def)
  next
    case None
    let ?h = "h\<lparr>m_secondHash := True\<rparr>"
    from None "1.prems"(3) obtain f g tgt' where f: "fuel = Suc f"
      and g: "DoubleSize f ?h = Some g"
      and rec: "check_and_set f g None (m_poolSize g) True x = Some (r, h', tgt')"
      by (auto simp: check_and_set_try [of fuel h] split: nat.splits option.splits)
    from "1.prems"(1) have "length (m_hashTable ?h) = 2 * (m_poolSize ?h + 1)"
      by (simp add: hv_inv_length)
    from g [unfolded DoubleSize_grown [OF this]] obtain t b where
      t: "growth ?h = Some (t, b)" and g': "g = \<lparr>m_secondHash = b, m_exp = m_exp h + 1,
        m_poolSize = 2 * m_poolSize h + 1, m_hashTable = t\<rparr>" by auto
    with growth_correct [OF t] have "hv_inv g" and st: "stored (m_hashTable g) = stored (m_hashTable h)"
      by (auto simp: hv_inv_def)
    with "1.IH" f rec "1.prems"(2) have
      "hv_inv h' \<and> stored (m_hashTable h') = insert x (stored (m_hashTable g)) \<and>
       (r = 0 \<longleftrightarrow> x \<in> stored (m_hashTable g))" by blast
    with st show ?thesis by simp
  qed
qed

lemma add_one_zero: "i + 1 = (0 :: u32) \<longleftrightarrow> i = -1"
  by (metis add.commute add_eq_0_iff)

lemma CheckAndSet_step:
  assumes "hv_inv h" "idx \<noteq> -1" "CheckAndSet fuel idx h = Some (seen, h')"
  shows "hv_inv h'" "visited h' = insert idx (visited h)" "seen \<longleftrightarrow> idx \<in> visited h"
proof -
  from assms obtain r tgt where
    "check_and_set fuel h None (m_poolSize h) True (idx + 1) = Some (r, h', tgt)" "seen \<longleftrightarrow> r = 0"
    by (auto simp: CheckAndSet_def split: option.splits)
  with check_and_set_correct [OF assms(1) _ this(1)] assms(2) show "hv_inv h'"
    "visited h' = insert idx (visited h)" "seen \<longleftrightarrow> idx \<in> visited h"
    by (auto simp: visited_def add_one_zero)
qed

text \<open>Growth is the only source of a missing answer: a key with a free or matching cell
  among its probes is answered at once; otherwise the answer is that of the grown table;
  and when the rehash itself overflows, or the size of the table does, there is no answer for any fuel.\<close>

lemma CheckAndSet_now:
  "try_set (m_hashTable h) (m_poolSize h) (idx + 1) = Some (r, t, b) \<Longrightarrow>
   CheckAndSet fuel idx h = Some (r = 0, h\<lparr>m_secondHash := m_secondHash h \<or> b, m_hashTable := t\<rparr>)"
  by (simp add: CheckAndSet_def check_and_set_try [of fuel h])

lemma CheckAndSet_grow:
  assumes "hv_inv h" "try_set (m_hashTable h) (m_poolSize h) (idx + 1) = None"
  shows "CheckAndSet fuel idx h =
    (case fuel of 0 \<Rightarrow> None
     | Suc fuel' \<Rightarrow>
         (case growth h of None \<Rightarrow> None
          | Some (t, b) \<Rightarrow> CheckAndSet fuel' idx \<lparr>m_secondHash = b, m_exp = m_exp h + 1,
              m_poolSize = 2 * m_poolSize h + 1, m_hashTable = t\<rparr>))"
proof -
  have "length (m_hashTable (h\<lparr>m_secondHash := True\<rparr>)) = 2 * (m_poolSize (h\<lparr>m_secondHash := True\<rparr>) + 1)"
    using assms(1) by (simp add: hv_inv_length)
  note D = DoubleSize_grown [OF this]
  have "growth (h\<lparr>m_secondHash := True\<rparr>) = growth h" by (simp add: growth_def grown_def int_size_def)
  with assms(2) D show ?thesis
    by (auto simp: CheckAndSet_def check_and_set_try [of fuel h] split: nat.split option.split prod.split)
qed

lemma CheckAndSet_mono:
  "hv_inv h \<Longrightarrow> CheckAndSet fuel idx h = Some a \<Longrightarrow> fuel \<le> fuel' \<Longrightarrow> CheckAndSet fuel' idx h = Some a"
proof (induction fuel arbitrary: h fuel')
  case (0 h)
  then show ?case
    by (cases "try_set (m_hashTable h) (m_poolSize h) (idx + 1)") (auto simp: CheckAndSet_now CheckAndSet_grow)
next
  case (Suc fuel h)
  show ?case
  proof (cases "try_set (m_hashTable h) (m_poolSize h) (idx + 1)")
    case None
    from Suc.prems(3) obtain g where g: "fuel' = Suc g" "fuel \<le> g" by (cases fuel') auto
    with None Suc.prems Suc.IH [OF _ _ g(2)] show ?thesis
      by (auto simp: CheckAndSet_grow hv_inv_def dest: growth_correct split: option.splits)
  qed (use Suc.prems in \<open>auto simp: CheckAndSet_now\<close>)
qed

lemma clear_inv:
  assumes "hv_inv h"
  shows "hv_inv (clear h) \<and> visited (clear h) = {} \<and> m_poolSize (clear h) = m_poolSize h"
proof -
  let ?p = "m_poolSize h"
  have len: "length (m_hashTable h) = 2 * (?p + 1)" by (rule hv_inv_length [OF assms])
  have "m_hashTable (clear h) = replicate (2 * (?p + 1)) 0"
  proof (cases "m_secondHash h")
    case False
    with assms len have "drop (?p + 1) (m_hashTable h) = replicate (?p + 1) 0"
      by (intro nth_equalityI) (auto simp: hv_inv_def second_free_def nth_Cons')
    with False show ?thesis
      by (simp add: clear_def mult_2 del: replicate_Suc flip: replicate_add)
  qed (use len in \<open>simp add: clear_def\<close>)
  with wf_table_zeros show ?thesis
    by (simp add: hv_inv_def visited_def clear_def del: replicate_Suc mult_Suc_right)
qed

lemma Init_inv: "hv_inv (Init junk n ex) \<and> visited (Init junk n ex) = {}"
proof -
  have "m_hashTable (clear \<lparr>m_secondHash = True, m_exp = ex, m_poolSize = p,
      m_hashTable = map junk [0..<(p + 1) * 2]\<rparr>) = replicate (2 * (p + 1)) 0" for p
    by (simp add: clear_def del: replicate_Suc upt_Suc)
  then have "m_hashTable (Init junk n ex) = replicate (2 * (m_poolSize (Init junk n ex) + 1)) 0"
    by (simp only: Init_def Let_def) (simp add: clear_def)
  with wf_table_zeros show ?thesis
    by (simp add: hv_inv_def visited_def del: replicate_Suc mult_Suc_right)
qed

section \<open>The contract of a visited set and its client\<close>

locale visited_set =
  fixes visit :: "'k \<Rightarrow> 's \<Rightarrow> (bool \<times> 's) option"
    and abs :: "'s \<Rightarrow> 'k set"
    and ok :: "'s \<Rightarrow> bool"
    and key :: "'k \<Rightarrow> bool"
  assumes visit_ok: "ok s \<Longrightarrow> key k \<Longrightarrow> visit k s = Some (b, s') \<Longrightarrow> ok s'"
    and visit_abs: "ok s \<Longrightarrow> key k \<Longrightarrow> visit k s = Some (b, s') \<Longrightarrow> abs s' = insert k (abs s)"
    and visit_seen: "ok s \<Longrightarrow> key k \<Longrightarrow> visit k s = Some (b, s') \<Longrightarrow> b \<longleftrightarrow> k \<in> abs s"

text \<open>The loop every search has around the visited set,
  \<^verbatim>\<open>for (id : nghs) if (!visit_hash.CheckAndSet(id)) { ... }\<close>: the identifiers that are let
  through.\<close>

primrec admit :: "('k \<Rightarrow> 's \<Rightarrow> (bool \<times> 's) option) \<Rightarrow> 'k list \<Rightarrow> 's \<Rightarrow> ('k list \<times> 's) option" where
  "admit visit [] s = Some ([], s)"
| "admit visit (k # ks) s =
     do { (b, s') \<leftarrow> visit k s; (new, s'') \<leftarrow> admit visit ks s';
          Some (if b then new else k # new, s'') }"

context visited_set
begin

lemma admit_spec:
  "ok s \<Longrightarrow> list_all key ks \<Longrightarrow> admit visit ks s = Some (new, s') \<Longrightarrow>
     ok s' \<and> abs s' = abs s \<union> set ks \<and> set new = set ks - abs s \<and> distinct new"
proof (induction ks arbitrary: s new)
  case (Cons k ks)
  from Cons.prems(3) obtain b s1 new1 where s1: "visit k s = Some (b, s1)"
    and rest: "admit visit ks s1 = Some (new1, s')" and new: "new = (if b then new1 else k # new1)"
    by (auto split: bind_splits)
  have k: "key k" and ks: "list_all key ks" using Cons.prems(2) by auto
  note v = visit_ok [OF Cons.prems(1) k s1] visit_abs [OF Cons.prems(1) k s1]
    visit_seen [OF Cons.prems(1) k s1]
  from Cons.IH [OF v(1) ks rest] v new show ?case by auto
qed simp

lemma admit_again:
  assumes "ok s" "list_all key ks" "admit visit ks s = Some (new, s')"
    "list_all key ks'" "admit visit ks' s' = Some (new', s'')"
  shows "set new \<inter> set new' = {}"
  using admit_spec [OF assms(1-3)] admit_spec [OF _ assms(4,5)] by auto

end

interpretation hv: visited_set "CheckAndSet fuel" visited hv_inv "\<lambda>idx. idx \<noteq> -1" for fuel
  by unfold_locales (use CheckAndSet_step in blast)+

section \<open>Properties\<close>

text \<open>Property C4. The visited set refines a mathematical set.  Whenever \<^verbatim>\<open>CheckAndSet\<close>
  returns, over any number of growths, it answers whether the index had been visited, the
  set of visited indices grows by exactly this index, and the table stays well formed (every
  stored key is found again by its probe sequence; the second block is empty unless
  \<^verbatim>\<open>m_secondHash\<close> is set).\<close>

theorem CheckAndSet_refines_set:
  assumes "hv_inv h" and "idx \<noteq> -1" and "CheckAndSet fuel idx h = Some (seen, h')"
  shows "(seen \<longleftrightarrow> idx \<in> visited h) \<and> visited h' = insert idx (visited h) \<and> hv_inv h'"
  using CheckAndSet_step [OF assms] by blast

lemma CheckAndSet_example:
  "(case CheckAndSet 0 7 (Init (\<lambda>_. 9) 1 1) of Some (b, h) \<Rightarrow> \<not> b | None \<Rightarrow> False)"
  by code_simp

theorem CheckAndSet_refines_set_witness:
  "\<exists>h'. CheckAndSet 0 7 (Init (\<lambda>_. 9) 1 1) = Some (False, h') \<and> visited h' = {7} \<and> hv_inv h'"
proof -
  obtain b h' where run: "CheckAndSet 0 7 (Init (\<lambda>_. 9) 1 1) = Some (b, h')"
    using CheckAndSet_example by (auto split: option.splits)
  show ?thesis
    using run CheckAndSet_refines_set [of "Init (\<lambda>_. 9) 1 1" 7 0 b h'] Init_inv [of "\<lambda>_. 9" 1 1]
    by auto
qed

text \<open>The loop every search has around the visited set lets each identifier
  through at most once: the identifiers that are processed are exactly those of the list that
  were not visited before, without repetition, and afterwards all of them are visited.\<close>

theorem CheckAndSet_admits_once:
  assumes "hv_inv h" and "list_all (\<lambda>i. i \<noteq> -1) ids" and "admit (CheckAndSet fuel) ids h = Some (new, h')"
  shows "set new = set ids - visited h \<and> distinct new \<and> visited h' = visited h \<union> set ids \<and> hv_inv h'"
  using hv.admit_spec [OF assms] by blast

lemma admit_example:
  "map_option fst (admit (CheckAndSet 0) [5, 7, 5] (Init (\<lambda>_. 0) 1 1)) = Some [5, 7]"
  by code_simp

theorem CheckAndSet_admits_once_witness:
  "\<exists>h'. admit (CheckAndSet 0) [5, 7, 5] (Init (\<lambda>_. 0) 1 1) = Some ([5, 7], h') \<and>
     visited h' = {5, 7} \<and> hv_inv h'"
proof -
  obtain h' where run: "admit (CheckAndSet 0) [5, 7, 5] (Init (\<lambda>_. 0) 1 1) = Some ([5, 7], h')"
    using admit_example by auto
  show ?thesis
    using run CheckAndSet_admits_once [of "Init (\<lambda>_. 0) 1 1" "[5, 7, 5]" 0 "[5, 7]" h']
      Init_inv [of "\<lambda>_. 0" 1 1]
    by auto
qed

text \<open>\<^verbatim>\<open>clear\<close> empties the set and keeps the table's size, although it zeroes
  only the first block when \<^verbatim>\<open>m_secondHash\<close> is not set; the constructor establishes the
  invariant whatever the fresh memory holds.\<close>

theorem clear_empties:
  assumes "hv_inv h"
  shows "hv_inv (clear h) \<and> visited (clear h) = {} \<and> m_poolSize (clear h) = m_poolSize h \<and>
    hv_inv (new_OptHashPosVector junk) \<and> visited (new_OptHashPosVector junk) = {}"
  using clear_inv [OF assms] Init_inv by (simp add: new_OptHashPosVector_def)

theorem clear_empties_witness:
  "visited (clear (new_OptHashPosVector (\<lambda>_. 0))) = {} \<and>
   hv_inv (new_OptHashPosVector (\<lambda>_. 0))"
  using clear_empties [of "new_OptHashPosVector (\<lambda>_. 0)" "\<lambda>_. 0"] Init_inv [of "\<lambda>_. 0" 8191 1]
  by (simp add: new_OptHashPosVector_def)

text \<open>Property C37. \<^verbatim>\<open>DoubleSize\<close> returns exactly when the size of the new table is an \<^verbatim>\<open>int\<close> and the
  rehash of the old entries fits the two blocks of the table twice as large.  Then the set is unchanged.  When
  the rehash does not fit, the nested \<^verbatim>\<open>DoubleSize\<close> repeats the same rehash for ever, and no fuel gives a
  result; from \<open>2 ^ 29\<close> cells in a block on the size overflows.\<close>

theorem DoubleSize_returns_iff_fits:
  assumes "hv_inv h"
  shows "(\<forall>fuel. DoubleSize fuel h \<noteq> None \<longleftrightarrow> grown h \<noteq> None \<and> m_poolSize h + 1 < 2 ^ 29) \<and>
    (\<forall>fuel h'. DoubleSize fuel h = Some h' \<longrightarrow> visited h' = visited h \<and>
       m_poolSize h' + 1 = 2 * (m_poolSize h + 1) \<and> hv_inv h')"
proof -
  note D = DoubleSize_grown [OF hv_inv_length [OF assms]]
  have "int_size h \<longleftrightarrow> m_poolSize h + 1 < 2 ^ 29" by (simp add: int_size_def)
  then have "DoubleSize fuel h \<noteq> None \<longleftrightarrow> grown h \<noteq> None \<and> m_poolSize h + 1 < 2 ^ 29" for fuel
    by (simp add: D growth_def)
  moreover have "visited h' = visited h \<and> m_poolSize h' + 1 = 2 * (m_poolSize h + 1) \<and> hv_inv h'"
    if run: "DoubleSize fuel h = Some h'" for fuel h'
  proof -
    from run obtain t b where g: "growth h = Some (t, b)"
      and h': "h' = \<lparr>m_secondHash = b, m_exp = m_exp h + 1, m_poolSize = 2 * m_poolSize h + 1, m_hashTable = t\<rparr>"
      by (auto simp: D)
    with growth_correct [OF g] show ?thesis by (simp add: hv_inv_def visited_def)
  qed
  ultimately show ?thesis by blast
qed

definition crowded :: "OptHashPosVector" where
  "crowded = the (map_option snd (admit (CheckAndSet 0)
     [29, 61, 93, 125, 157, 16, 189, 221, 253, 285, 317, 349, 381, 413, 445] (Init (\<lambda>_. 0) 0 4)))"

lemma crowded_run:
  "admit (CheckAndSet 0) [29, 61, 93, 125, 157, 16, 189, 221, 253, 285, 317, 349, 381, 413, 445]
     (Init (\<lambda>_. 0) 0 4) =
   Some ([29, 61, 93, 125, 157, 16, 189, 221, 253, 285, 317, 349, 381, 413, 445], crowded)"
  by code_simp

lemma crowded_stuck: "grown crowded = None"
  by code_simp

theorem DoubleSize_returns_iff_fits_witness:
  "hv_inv crowded \<and> (\<forall>fuel. DoubleSize fuel crowded = None) \<and> 29 \<in> visited crowded"
proof -
  have inv: "hv_inv crowded" and mem: "29 \<in> visited crowded"
    using hv.admit_spec [OF _ _ crowded_run] Init_inv [of "\<lambda>_. 0" 0 4] by auto
  show ?thesis
    using DoubleSize_returns_iff_fits [OF inv] crowded_stuck inv mem by blast
qed

text \<open>\<^verbatim>\<open>CheckAndSet\<close> returns, with the same answer for every fuel, as soon as
  one of the cells the key probes in the two blocks is free or holds the key: only a key whose
  probes are all taken by others makes the table grow.\<close>

theorem CheckAndSet_returns:
  assumes "hv_inv h"
    and "i < m_maxLoop"
    and "m_hashTable h ! (base + index_at (idx + 1) (m_poolSize h) i) \<in> {0, idx + 1}"
    and "base = 0 \<or> base = m_poolSize h + 1"
  shows "\<exists>a. \<forall>fuel. CheckAndSet fuel idx h = Some a"
proof (cases "try_set (m_hashTable h) (m_poolSize h) (idx + 1)")
  case None
  then have "probe (m_hashTable h) base (m_poolSize h) (idx + 1) (hash_func (idx + 1) (m_poolSize h)) 0 = Full"
    using assms(4) by (auto simp: try_set_def split: probe_result.splits)
  with probe_spec0 [where t = "m_hashTable h" and base = base and pool = "m_poolSize h" and x = "idx + 1"]
  have "passed (m_hashTable h) base (m_poolSize h) (idx + 1) 0 m_maxLoop" by simp
  with assms(2,3) show ?thesis by (auto simp: passed_def)
next
  case (Some a)
  then show ?thesis by (cases a) (auto simp: CheckAndSet_now)
qed

theorem CheckAndSet_returns_witness:
  "\<exists>a. \<forall>fuel. CheckAndSet fuel 3 (Init (\<lambda>_. 0) 1 1) = Some a"
  by (rule CheckAndSet_returns [of _ 0 0]) (use Init_inv [of "\<lambda>_. 0" 1 1] in simp, code_simp+)

end
