(* ===== verification/Messages.thy ===== *)
theory Messages
  imports Prelude
begin

text \<open>
  The messages machines exchange, \<^verbatim>\<open>include/anns/vec_buffer.h\<close> and
  \<^verbatim>\<open>ScheduleMsg\<close> of \<^verbatim>\<open>include/anns/scala_scheduler.h\<close>.  For each message type: its record,
  its constructors, \<^verbatim>\<open>serialize\<close> as the sequence of the code's \<^verbatim>\<open>memcpy\<close> calls with the
  check at its end, and the deserializing constructor.  The wire format (\<open>..._bytes\<close>) is
  the specification both sides are compared with; every type is an interpretation of
  \<^const>\<open>message_codec\<close>, and those with a \<^verbatim>\<open>serialize(ptr, offset)\<close> of \<^const>\<open>serializer\<close>.
\<close>

section \<open>Data\<close>

record SyncMsg =
  sm_qid :: u32
  sm_update_term :: u8
  sm_has_token :: u8
  sm_token_is_black :: u8
  sm_proc_is_black :: u8
  sm_last_is_white :: u8
  sm_lower_bound :: dist_t
  sm_local_add_cand :: "(dist_t \<times> u32) list"
  sm_core_micro_ngh :: "u32 list list"
  sm_core_large_ngh :: "(u64 \<times> u32) list list"

record ResultMsg =
  rm_qid :: u32
  rm_core_cnt :: u8
  rm_nocore_cnt :: u8
  rm_res :: "(dist_t \<times> u32) list"

text \<open>Pointers into a buffer are offsets from its start; entry 0 of \<^verbatim>\<open>vec_ptr\<close> and
  \<^verbatim>\<open>sg_size\<close> is the meta data of an outgoing message (\<^const>\<open>None\<close>: \<^verbatim>\<open>nullptr\<close>).\<close>

record ComputeMsg =
  cm_qid :: u32
  cm_is_count :: u8
  cm_vec_size :: u32
  cm_vec_id :: "u32 list"
  cm_vec_ptr :: "nat option list"
  cm_sg_size :: "nat list"

record NodeTask =
  nt_machine_id :: u32
  nt_qid :: u32
  nt_node_id :: u32
  nt_is_core_machine :: "u32 list"
  nt_deg :: u32
  nt_offset :: u64

record NodeResult =
  nr_qid :: u32
  nr_post_cnt :: u32
  nr_res :: "(dist_t \<times> u32) list"

record NonCoreSyncMsg =
  ns_qid :: u32
  ns_core_micro_ngh :: "u32 list"
  ns_core_large_ngh :: "(u64 \<times> u32) list"

text \<open>\<open>ct_is_count\<close> is \<^const>\<open>None\<close> where no constructor sets the member.\<close>

record ComputeTask =
  ct_machine_id :: u32
  ct_qid :: u32
  ct_deg :: u32
  ct_offset :: u64
  ct_lower_bound :: dist_t
  ct_ef_fill :: u8
  ct_core_cnt :: u8
  ct_nocore_cnt :: u8
  ct_is_count :: "bool option"

record ScheduleMsg =
  sg_query_id :: u64
  sg_core_machine :: "u32 list"

text \<open>\<open>bc_buffer_id\<close> is an \<^verbatim>\<open>int\<close>; \<open>-1\<close> and \<^const>\<open>None\<close> (\<^verbatim>\<open>nullptr\<close>) before a buffer is
  assigned.\<close>

record BufferCache =
  bc_machine_id :: u32
  bc_vector_id :: u64
  bc_internal_id :: u64
  bc_buffer_id :: int
  bc_buffer_ptr :: "nat option"

section \<open>Constructors\<close>

text \<open>\<^verbatim>\<open>lower_bound\<close> has no initialiser: its value is the argument \<open>junk\<close>.\<close>

definition new_SyncMsg :: "dist_t \<Rightarrow> u32 \<Rightarrow> SyncMsg" where
  "new_SyncMsg junk qid = \<lparr>sm_qid = qid, sm_update_term = 0, sm_has_token = 0,
     sm_token_is_black = 0, sm_proc_is_black = 1, sm_last_is_white = 1, sm_lower_bound = junk,
     sm_local_add_cand = [], sm_core_micro_ngh = replicate MACHINE_NUM [],
     sm_core_large_ngh = replicate MACHINE_NUM []\<rparr>"

definition SyncMsg_clear :: "SyncMsg \<Rightarrow> SyncMsg" where
  "SyncMsg_clear m = m\<lparr>sm_local_add_cand := [],
     sm_core_micro_ngh := map (\<lambda>_. []) (sm_core_micro_ngh m),
     sm_core_large_ngh := map (\<lambda>_. []) (sm_core_large_ngh m)\<rparr>"

definition new_ResultMsg :: "u32 \<Rightarrow> u8 \<Rightarrow> u8 \<Rightarrow> ResultMsg" where
  "new_ResultMsg qid core_cnt nocore_cnt =
     \<lparr>rm_qid = qid, rm_core_cnt = core_cnt, rm_nocore_cnt = nocore_cnt, rm_res = []\<rparr>"

definition new_ComputeMsg :: "u32 \<Rightarrow> u8 \<Rightarrow> u32 \<Rightarrow> ComputeMsg" where
  "new_ComputeMsg qid is_count vec_size = \<lparr>cm_qid = qid, cm_is_count = is_count,
     cm_vec_size = vec_size, cm_vec_id = [], cm_vec_ptr = [None], cm_sg_size = [0]\<rparr>"

definition new_NodeTask :: "u32 \<Rightarrow> u32 \<Rightarrow> u32 \<Rightarrow> u32 list \<Rightarrow> NodeTask" where
  "new_NodeTask mid qid nid is_core_m = \<lparr>nt_machine_id = mid, nt_qid = qid, nt_node_id = nid,
     nt_is_core_machine = is_core_m, nt_deg = 0, nt_offset = 0\<rparr>"

definition new_NodeResult :: "u32 \<Rightarrow> NodeResult" where
  "new_NodeResult qid = \<lparr>nr_qid = qid, nr_post_cnt = 0, nr_res = []\<rparr>"

definition new_NonCoreSyncMsg :: "u32 \<Rightarrow> NonCoreSyncMsg" where
  "new_NonCoreSyncMsg qid = \<lparr>ns_qid = qid, ns_core_micro_ngh = [], ns_core_large_ngh = []\<rparr>"

definition NonCoreSyncMsg_clear :: "NonCoreSyncMsg \<Rightarrow> NonCoreSyncMsg" where
  "NonCoreSyncMsg_clear m = m\<lparr>ns_core_micro_ngh := [], ns_core_large_ngh := []\<rparr>"

text \<open>The local-task constructors leave \<^verbatim>\<open>lower_bound\<close> and \<^verbatim>\<open>ef_fill\<close> (the arguments
  \<open>lb\<close>, \<open>ef\<close>) to the memory; the remote-task constructor leaves \<^verbatim>\<open>is_count\<close>.\<close>

definition local_ComputeTask :: "dist_t \<Rightarrow> u8 \<Rightarrow> u32 \<Rightarrow> u32 \<Rightarrow> u32 \<Rightarrow> u64 \<Rightarrow> bool \<Rightarrow> ComputeTask" where
  "local_ComputeTask lb ef mid qid deg ofs is_count = \<lparr>ct_machine_id = mid, ct_qid = qid,
     ct_deg = deg, ct_offset = ofs, ct_lower_bound = lb, ct_ef_fill = ef, ct_core_cnt = 1,
     ct_nocore_cnt = 0, ct_is_count = Some is_count\<rparr>"

definition remote_ComputeTask ::
  "u32 \<Rightarrow> u32 \<Rightarrow> u32 \<Rightarrow> u64 \<Rightarrow> dist_t \<Rightarrow> u8 \<Rightarrow> u8 \<Rightarrow> u8 \<Rightarrow> ComputeTask" where
  "remote_ComputeTask mid qid deg ofs lower_bound ef_fill core_cnt nocore_cnt =
     \<lparr>ct_machine_id = mid, ct_qid = qid, ct_deg = deg, ct_offset = ofs,
      ct_lower_bound = lower_bound, ct_ef_fill = ef_fill, ct_core_cnt = core_cnt,
      ct_nocore_cnt = nocore_cnt, ct_is_count = None\<rparr>"

section \<open>Serialization\<close>

definition SyncMsg_put_ngh :: "SyncMsg \<Rightarrow> byte list \<Rightarrow> nat \<Rightarrow> byte list" where
  "SyncMsg_put_ngh m out i =
     (let out = out @ enc_u32 (word_of_nat (length (sm_core_micro_ngh m ! i)));
          out = out @ enc_u32 (word_of_nat (length (sm_core_large_ngh m ! i)));
          out = foldl (\<lambda>out e. out @ enc_u32 e) out (sm_core_micro_ngh m ! i)
      in foldl (\<lambda>out e. out @ enc_large e) out (sm_core_large_ngh m ! i))"

definition SyncMsg_serialize :: "SyncMsg \<Rightarrow> crash + byte list" where
  "SyncMsg_serialize m =
     (let out = [] @ enc_u32 (sm_qid m);
          out = out @ enc_u8 (sm_update_term m);
          out = out @ enc_u8 (sm_has_token m);
          out = out @ enc_u8 (sm_token_is_black m);
          out = out @ enc_u8 (sm_proc_is_black m);
          out = out @ enc_u8 (sm_last_is_white m);
          out = out @ enc_dist (sm_lower_bound m);
          filterred = filter (\<lambda>e. \<not> fst e > sm_lower_bound m) (sm_local_add_cand m);
          out = out @ enc_u32 (word_of_nat (length filterred));
          out = foldl (\<lambda>out e. out @ enc_cand e) out filterred;
          out = foldl (SyncMsg_put_ngh m) out [0..<MACHINE_NUM]
      in if length out \<ge> MAX_QUERYBUFFER_SIZE then Inl Abort else Inr out)"

definition ResultMsg_serialize :: "ResultMsg \<Rightarrow> byte list \<Rightarrow> crash + byte list" where
  "ResultMsg_serialize m out =
     (let out = out @ enc_u32 (rm_qid m);
          out = out @ enc_u8 (rm_core_cnt m);
          out = out @ enc_u8 (rm_nocore_cnt m);
          out = out @ enc_u32 (word_of_nat (length (rm_res m)));
          out = foldl (\<lambda>out r. out @ enc_cand r) out (rm_res m)
      in if length out > MAX_QUERYBUFFER_SIZE then Inl Abort else Inr out)"

text \<open>The message is changed too: the meta pointer (the start of the buffer) and the size of
  the meta data go to entry 0; \<^verbatim>\<open>vec_ptr\<close> and \<^verbatim>\<open>sg_size\<close> have to have one.\<close>

definition ComputeMsg_serialize :: "ComputeMsg \<Rightarrow> byte list \<Rightarrow> crash + ComputeMsg \<times> byte list" where
  "ComputeMsg_serialize m out =
     (if cm_vec_ptr m = [] \<or> cm_sg_size m = [] then Inl OutOfBounds
      else
        let m = m\<lparr>cm_vec_ptr := (cm_vec_ptr m)[0 := Some 0]\<rparr>;
            out = out @ enc_u32 (cm_qid m);
            out = out @ enc_u8 (cm_is_count m);
            out = out @ enc_u32 (cm_vec_size m);
            out = out @ enc_u32 (word_of_nat (length (cm_vec_id m)));
            out = foldl (\<lambda>out i. out @ enc_u32 i) out (cm_vec_id m);
            m = m\<lparr>cm_sg_size := (cm_sg_size m)[0 := length out]\<rparr>
        in if length out > MAX_QUERYBUFFER_SIZE then Inl Abort else Inr (m, out))"

definition NodeTask_serialize :: "NodeTask \<Rightarrow> byte list \<Rightarrow> byte list" where
  "NodeTask_serialize t out =
     (let out = out @ enc_u32 (nt_machine_id t);
          out = out @ enc_u32 (nt_qid t);
          out = out @ enc_u32 (nt_node_id t)
      in out @ concat (map enc_u32 (nt_is_core_machine t)))"

text \<open>Past the limit \<^verbatim>\<open>NodeResult::serialize\<close> only prints a message.\<close>

definition NodeResult_serialize :: "NodeResult \<Rightarrow> byte list \<Rightarrow> byte list" where
  "NodeResult_serialize r out =
     (let out = out @ enc_u32 (nr_qid r);
          out = out @ enc_u32 (nr_post_cnt r);
          out = out @ enc_u32 (word_of_nat (length (nr_res r)))
      in foldl (\<lambda>out e. out @ enc_cand e) out (nr_res r))"

definition NonCoreSyncMsg_serialize :: "NonCoreSyncMsg \<Rightarrow> byte list \<Rightarrow> crash + byte list" where
  "NonCoreSyncMsg_serialize m out =
     (let out = out @ enc_u32 (ns_qid m);
          out = out @ enc_u32 (word_of_nat (length (ns_core_micro_ngh m)));
          out = foldl (\<lambda>out e. out @ enc_u32 e) out (ns_core_micro_ngh m);
          out = out @ enc_u32 (word_of_nat (length (ns_core_large_ngh m)));
          out = foldl (\<lambda>out e. out @ enc_large e) out (ns_core_large_ngh m)
      in if length out \<ge> MAX_QUERYBUFFER_SIZE then Inl Abort else Inr out)"

definition ComputeTask_serialize :: "ComputeTask \<Rightarrow> byte list \<Rightarrow> byte list" where
  "ComputeTask_serialize t out =
     (let out = out @ enc_u32 (ct_machine_id t);
          out = out @ enc_u32 (ct_qid t);
          out = out @ enc_u32 (ct_deg t);
          out = out @ enc_u64 (ct_offset t);
          out = out @ enc_dist (ct_lower_bound t);
          out = out @ enc_u8 (ct_ef_fill t);
          out = out @ enc_u8 (ct_core_cnt t)
      in out @ enc_u8 (ct_nocore_cnt t))"

definition ScheduleMsg_serialize :: "ScheduleMsg \<Rightarrow> byte list" where
  "ScheduleMsg_serialize m =
     (let out = [] @ enc_u64 (sg_query_id m);
          out = out @ enc_u64 (word_of_nat (length (sg_core_machine m)))
      in foldl (\<lambda>out c. out @ enc_u32 c) out (sg_core_machine m))"

section \<open>Deserialization\<close>

definition SyncMsg_get_ngh :: "(u32 list \<times> (u64 \<times> u32) list) reader" where
  "SyncMsg_get_ngh s = do {
     (size2, s) \<leftarrow> rd_u32 s;
     (size3, s) \<leftarrow> rd_u32 s;
     (micro, s) \<leftarrow> rd_many (unat size2) rd_u32 s;
     (large, s) \<leftarrow> rd_many (unat size3) rd_large s;
     Some ((micro, large), s) }"

definition SyncMsg_deserialize :: "SyncMsg reader" where
  "SyncMsg_deserialize s = do {
     (qid, s) \<leftarrow> rd_u32 s;
     (update_term, s) \<leftarrow> rd_u8 s;
     (has_token, s) \<leftarrow> rd_u8 s;
     (token_is_black, s) \<leftarrow> rd_u8 s;
     (proc_is_black, s) \<leftarrow> rd_u8 s;
     (last_is_white, s) \<leftarrow> rd_u8 s;
     (lower_bound, s) \<leftarrow> rd_dist s;
     (size, s) \<leftarrow> rd_u32 s;
     (cand, s) \<leftarrow> rd_many (unat size) rd_cand s;
     (ngh, s) \<leftarrow> rd_many MACHINE_NUM SyncMsg_get_ngh s;
     Some (\<lparr>sm_qid = qid, sm_update_term = update_term, sm_has_token = has_token,
       sm_token_is_black = token_is_black, sm_proc_is_black = proc_is_black,
       sm_last_is_white = last_is_white, sm_lower_bound = lower_bound, sm_local_add_cand = cand,
       sm_core_micro_ngh = map fst ngh, sm_core_large_ngh = map snd ngh\<rparr>, s) }"

definition ResultMsg_deserialize :: "ResultMsg reader" where
  "ResultMsg_deserialize s = do {
     (qid, s) \<leftarrow> rd_u32 s;
     (core_cnt, s) \<leftarrow> rd_u8 s;
     (nocore_cnt, s) \<leftarrow> rd_u8 s;
     (res_size, s) \<leftarrow> rd_u32 s;
     (res, s) \<leftarrow> rd_many (unat res_size) rd_cand s;
     Some (\<lparr>rm_qid = qid, rm_core_cnt = core_cnt, rm_nocore_cnt = nocore_cnt, rm_res = res\<rparr>, s) }"

text \<open>Only the meta data is read; the vectors stay in the buffer and are pointed to.\<close>

definition ComputeMsg_deserialize :: "byte list \<Rightarrow> ComputeMsg option" where
  "ComputeMsg_deserialize buf = do {
     (qid, s) \<leftarrow> rd_u32 buf;
     (is_count, s) \<leftarrow> rd_u8 s;
     (vec_size, s) \<leftarrow> rd_u32 s;
     (vec_num, s) \<leftarrow> rd_u32 s;
     (ids, s) \<leftarrow> rd_many (unat vec_num) rd_u32 s;
     let offset = length buf - length s in
     Some \<lparr>cm_qid = qid, cm_is_count = is_count, cm_vec_size = vec_size, cm_vec_id = ids,
       cm_vec_ptr = map (\<lambda>i. Some (offset + i * unat vec_size)) [0..<unat vec_num],
       cm_sg_size = []\<rparr> }"

definition NodeTask_deserialize :: "NodeTask reader" where
  "NodeTask_deserialize s = do {
     (mid, s) \<leftarrow> rd_u32 s;
     (qid, s) \<leftarrow> rd_u32 s;
     (nid, s) \<leftarrow> rd_u32 s;
     (core, s) \<leftarrow> rd_many MACHINE_NUM rd_u32 s;
     Some (\<lparr>nt_machine_id = mid, nt_qid = qid, nt_node_id = nid, nt_is_core_machine = core,
       nt_deg = 0, nt_offset = 0\<rparr>, s) }"

definition NodeResult_deserialize :: "NodeResult reader" where
  "NodeResult_deserialize s = do {
     (qid, s) \<leftarrow> rd_u32 s;
     (post_cnt, s) \<leftarrow> rd_u32 s;
     (res_size, s) \<leftarrow> rd_u32 s;
     (res, s) \<leftarrow> rd_many (unat res_size) rd_cand s;
     Some (\<lparr>nr_qid = qid, nr_post_cnt = post_cnt, nr_res = res\<rparr>, s) }"

definition NonCoreSyncMsg_deserialize :: "NonCoreSyncMsg reader" where
  "NonCoreSyncMsg_deserialize s = do {
     (qid, s) \<leftarrow> rd_u32 s;
     (size, s) \<leftarrow> rd_u32 s;
     (micro, s) \<leftarrow> rd_many (unat size) rd_u32 s;
     (size, s) \<leftarrow> rd_u32 s;
     (large, s) \<leftarrow> rd_many (unat size) rd_large s;
     Some (\<lparr>ns_qid = qid, ns_core_micro_ngh = micro, ns_core_large_ngh = large\<rparr>, s) }"

definition ComputeTask_deserialize :: "ComputeTask reader" where
  "ComputeTask_deserialize s = do {
     (mid, s) \<leftarrow> rd_u32 s;
     (qid, s) \<leftarrow> rd_u32 s;
     (deg, s) \<leftarrow> rd_u32 s;
     (ofs, s) \<leftarrow> rd_u64 s;
     (lower_bound, s) \<leftarrow> rd_dist s;
     (ef_fill, s) \<leftarrow> rd_u8 s;
     (core_cnt, s) \<leftarrow> rd_u8 s;
     (nocore_cnt, s) \<leftarrow> rd_u8 s;
     Some (\<lparr>ct_machine_id = mid, ct_qid = qid, ct_deg = deg, ct_offset = ofs,
       ct_lower_bound = lower_bound, ct_ef_fill = ef_fill, ct_core_cnt = core_cnt,
       ct_nocore_cnt = nocore_cnt, ct_is_count = None\<rparr>, s) }"

definition ScheduleMsg_deserialize :: "ScheduleMsg reader" where
  "ScheduleMsg_deserialize s = do {
     (query_id, s) \<leftarrow> rd_u64 s;
     (core_machine_size, s) \<leftarrow> rd_u64 s;
     (core, s) \<leftarrow> rd_many (unat core_machine_size) rd_u32 s;
     Some (\<lparr>sg_query_id = query_id, sg_core_machine = core\<rparr>, s) }"

section \<open>Wire formats\<close>

definition ngh_bytes :: "u32 list \<times> (u64 \<times> u32) list \<Rightarrow> byte list" where
  "ngh_bytes p = enc_u32 (word_of_nat (length (fst p))) @ enc_u32 (word_of_nat (length (snd p))) @
     concat (map enc_u32 (fst p)) @ concat (map enc_large (snd p))"

definition SyncMsg_bytes :: "SyncMsg \<Rightarrow> byte list" where
  "SyncMsg_bytes m = enc_u32 (sm_qid m) @ enc_u8 (sm_update_term m) @ enc_u8 (sm_has_token m) @
     enc_u8 (sm_token_is_black m) @ enc_u8 (sm_proc_is_black m) @ enc_u8 (sm_last_is_white m) @
     enc_dist (sm_lower_bound m) @ enc_vec enc_cand (sm_local_add_cand m) @
     concat (map ngh_bytes (zip (sm_core_micro_ngh m) (sm_core_large_ngh m)))"

definition ResultMsg_bytes :: "ResultMsg \<Rightarrow> byte list" where
  "ResultMsg_bytes m = enc_u32 (rm_qid m) @ enc_u8 (rm_core_cnt m) @ enc_u8 (rm_nocore_cnt m) @
     enc_vec enc_cand (rm_res m)"

definition ComputeMsg_bytes :: "ComputeMsg \<Rightarrow> byte list" where
  "ComputeMsg_bytes m = enc_u32 (cm_qid m) @ enc_u8 (cm_is_count m) @ enc_u32 (cm_vec_size m) @
     enc_vec enc_u32 (cm_vec_id m)"

definition NodeTask_bytes :: "NodeTask \<Rightarrow> byte list" where
  "NodeTask_bytes t = enc_u32 (nt_machine_id t) @ enc_u32 (nt_qid t) @ enc_u32 (nt_node_id t) @
     concat (map enc_u32 (nt_is_core_machine t))"

definition NodeResult_bytes :: "NodeResult \<Rightarrow> byte list" where
  "NodeResult_bytes r = enc_u32 (nr_qid r) @ enc_u32 (nr_post_cnt r) @ enc_vec enc_cand (nr_res r)"

definition NonCoreSyncMsg_bytes :: "NonCoreSyncMsg \<Rightarrow> byte list" where
  "NonCoreSyncMsg_bytes m = enc_u32 (ns_qid m) @ enc_vec enc_u32 (ns_core_micro_ngh m) @
     enc_vec enc_large (ns_core_large_ngh m)"

definition ComputeTask_bytes :: "ComputeTask \<Rightarrow> byte list" where
  "ComputeTask_bytes t = enc_u32 (ct_machine_id t) @ enc_u32 (ct_qid t) @ enc_u32 (ct_deg t) @
     enc_u64 (ct_offset t) @ enc_dist (ct_lower_bound t) @ enc_u8 (ct_ef_fill t) @
     enc_u8 (ct_core_cnt t) @ enc_u8 (ct_nocore_cnt t)"

definition ScheduleMsg_bytes :: "ScheduleMsg \<Rightarrow> byte list" where
  "ScheduleMsg_bytes m = enc_u64 (sg_query_id m) @ enc_u64 (word_of_nat (length (sg_core_machine m))) @
     concat (map enc_u32 (sg_core_machine m))"

lemmas bytes_defs = ngh_bytes_def SyncMsg_bytes_def ResultMsg_bytes_def ComputeMsg_bytes_def
  NodeTask_bytes_def NodeResult_bytes_def NonCoreSyncMsg_bytes_def ComputeTask_bytes_def
  ScheduleMsg_bytes_def

text \<open>What survives the transfer: vectors whose size fits its field, arrays of their fixed
  size, and no information in the members that are not sent.\<close>

definition ngh_ok :: "u32 list \<times> (u64 \<times> u32) list \<Rightarrow> bool" where
  "ngh_ok p \<longleftrightarrow> length (fst p) < 2 ^ 32 \<and> length (snd p) < 2 ^ 32"

definition SyncMsg_wf :: "SyncMsg \<Rightarrow> bool" where
  "SyncMsg_wf m \<longleftrightarrow> length (sm_core_micro_ngh m) = MACHINE_NUM \<and> length (sm_core_large_ngh m) = MACHINE_NUM"

definition SyncMsg_ok :: "SyncMsg \<Rightarrow> bool" where
  "SyncMsg_ok m \<longleftrightarrow> SyncMsg_wf m \<and> length (sm_local_add_cand m) < 2 ^ 32 \<and>
     list_all ngh_ok (zip (sm_core_micro_ngh m) (sm_core_large_ngh m))"

definition NodeTask_ok :: "NodeTask \<Rightarrow> bool" where
  "NodeTask_ok t \<longleftrightarrow> length (nt_is_core_machine t) = MACHINE_NUM \<and> nt_deg t = 0 \<and> nt_offset t = 0"

interpretation ngh: message_codec ngh_bytes SyncMsg_get_ngh ngh_ok
  by unfold_locales (auto simp: bytes_defs SyncMsg_get_ngh_def ngh_ok_def codec_simps)

interpretation SyncMsg: message_codec SyncMsg_bytes SyncMsg_deserialize SyncMsg_ok
proof
  fix m :: SyncMsg and s
  assume ok: "SyncMsg_ok m"
  let ?z = "zip (sm_core_micro_ngh m) (sm_core_large_ngh m)"
  have "rd_many MACHINE_NUM SyncMsg_get_ngh (concat (map ngh_bytes ?z) @ s) = Some (?z, s)"
    using ngh.rd_many_enc_ok [of ?z s] ok by (simp add: SyncMsg_ok_def SyncMsg_wf_def)
  with ok show "SyncMsg_deserialize (SyncMsg_bytes m @ s) = Some (m, s)"
    by (simp add: SyncMsg_bytes_def SyncMsg_deserialize_def SyncMsg_ok_def SyncMsg_wf_def enc_vec_def codec_simps)
qed

interpretation ResultMsg: message_codec ResultMsg_bytes ResultMsg_deserialize "\<lambda>m. length (rm_res m) < 2 ^ 32"
  by unfold_locales (simp add: bytes_defs ResultMsg_deserialize_def enc_vec_def codec_simps)

interpretation NodeTask: message_codec NodeTask_bytes NodeTask_deserialize NodeTask_ok
proof
  fix t :: NodeTask and s
  assume ok: "NodeTask_ok t"
  then have "rd_many MACHINE_NUM rd_u32 (concat (map enc_u32 (nt_is_core_machine t)) @ s) =
      Some (nt_is_core_machine t, s)"
    using u32.rd_many_enc [of "nt_is_core_machine t" s] by (simp add: NodeTask_ok_def)
  with ok show "NodeTask_deserialize (NodeTask_bytes t @ s) = Some (t, s)"
    by (simp add: NodeTask_bytes_def NodeTask_deserialize_def NodeTask_ok_def codec_simps)
qed

interpretation NodeResult: message_codec NodeResult_bytes NodeResult_deserialize
    "\<lambda>r. length (nr_res r) < 2 ^ 32"
  by unfold_locales (simp add: bytes_defs NodeResult_deserialize_def enc_vec_def codec_simps)

interpretation NonCoreSyncMsg: message_codec NonCoreSyncMsg_bytes NonCoreSyncMsg_deserialize
    "\<lambda>m. length (ns_core_micro_ngh m) < 2 ^ 32 \<and> length (ns_core_large_ngh m) < 2 ^ 32"
  by unfold_locales (simp add: bytes_defs NonCoreSyncMsg_deserialize_def enc_vec_def codec_simps)

interpretation ComputeTask: message_codec ComputeTask_bytes ComputeTask_deserialize
    "\<lambda>t. ct_is_count t = None"
  by unfold_locales (simp add: bytes_defs ComputeTask_deserialize_def codec_simps)

interpretation ScheduleMsg: message_codec ScheduleMsg_bytes ScheduleMsg_deserialize
    "\<lambda>m. length (sg_core_machine m) < 2 ^ 64"
  by unfold_locales (simp add: bytes_defs ScheduleMsg_deserialize_def codec_simps)

section \<open>Serializers produce the wire formats\<close>

lemma SyncMsg_put_ngh_bytes:
  "SyncMsg_put_ngh m out i = out @ ngh_bytes (sm_core_micro_ngh m ! i, sm_core_large_ngh m ! i)"
  by (simp add: SyncMsg_put_ngh_def ngh_bytes_def foldl_emit)

lemma SyncMsg_serialize_bytes:
  assumes "SyncMsg_wf m"
  defines "m' \<equiv> m\<lparr>sm_local_add_cand := filter (\<lambda>e. fst e \<le> sm_lower_bound m) (sm_local_add_cand m)\<rparr>"
  shows "SyncMsg_serialize m =
    (if length (SyncMsg_bytes m') \<ge> MAX_QUERYBUFFER_SIZE then Inl Abort else Inr (SyncMsg_bytes m'))"
proof -
  have "map (\<lambda>i. (sm_core_micro_ngh m ! i, sm_core_large_ngh m ! i)) [0..<MACHINE_NUM] =
      zip (sm_core_micro_ngh m) (sm_core_large_ngh m)"
    using assms(1) by (intro nth_equalityI) (auto simp: SyncMsg_wf_def)
  then have "map (\<lambda>i. ngh_bytes (sm_core_micro_ngh m ! i, sm_core_large_ngh m ! i)) [0..<MACHINE_NUM] =
      map ngh_bytes (zip (sm_core_micro_ngh m) (sm_core_large_ngh m))"
    by (metis (no_types, lifting) map_map comp_apply map_eq_conv)
  moreover have "foldl (SyncMsg_put_ngh m) out js =
      out @ concat (map (\<lambda>i. ngh_bytes (sm_core_micro_ngh m ! i, sm_core_large_ngh m ! i)) js)" for out js
    by (induction js arbitrary: out) (auto simp: SyncMsg_put_ngh_bytes)
  ultimately show ?thesis
    by (simp add: SyncMsg_serialize_def m'_def SyncMsg_bytes_def enc_vec_def foldl_emit not_less Let_def
        cong: if_cong)
qed

lemma ResultMsg_serialize_bytes:
  "ResultMsg_serialize m out =
    (if length (out @ ResultMsg_bytes m) > MAX_QUERYBUFFER_SIZE then Inl Abort
     else Inr (out @ ResultMsg_bytes m))"
  by (simp add: ResultMsg_serialize_def ResultMsg_bytes_def enc_vec_def foldl_emit Let_def)

lemma NonCoreSyncMsg_serialize_bytes:
  "NonCoreSyncMsg_serialize m out =
    (if length (out @ NonCoreSyncMsg_bytes m) \<ge> MAX_QUERYBUFFER_SIZE then Inl Abort
     else Inr (out @ NonCoreSyncMsg_bytes m))"
  by (simp add: NonCoreSyncMsg_serialize_def NonCoreSyncMsg_bytes_def enc_vec_def foldl_emit Let_def)

lemma NodeTask_serialize_bytes: "NodeTask_serialize t out = out @ NodeTask_bytes t"
  by (simp add: NodeTask_serialize_def NodeTask_bytes_def)

lemma NodeResult_serialize_bytes: "NodeResult_serialize r out = out @ NodeResult_bytes r"
  by (simp add: NodeResult_serialize_def NodeResult_bytes_def enc_vec_def foldl_emit)

lemma ComputeTask_serialize_bytes: "ComputeTask_serialize t out = out @ ComputeTask_bytes t"
  by (simp add: ComputeTask_serialize_def ComputeTask_bytes_def)

lemma ScheduleMsg_serialize_bytes: "ScheduleMsg_serialize m = ScheduleMsg_bytes m"
  by (simp add: ScheduleMsg_serialize_def ScheduleMsg_bytes_def foldl_emit)

lemma vec_size_bound:
  "length (enc_vec enc_cand cs) \<le> MAX_QUERYBUFFER_SIZE \<Longrightarrow> length cs < 2 ^ 32"
  "length (enc_vec enc_u32 ms) \<le> MAX_QUERYBUFFER_SIZE \<Longrightarrow> length ms < 2 ^ 32"
  "length (enc_vec enc_large ls) \<le> MAX_QUERYBUFFER_SIZE \<Longrightarrow> length ls < 2 ^ 32"
  by (simp_all add: len_simps MAX_QUERYBUFFER_SIZE_def)

interpretation ResultMsg: serializer ResultMsg_bytes ResultMsg_deserialize
    "\<lambda>m. length (rm_res m) < 2 ^ 32" ResultMsg_serialize
  by unfold_locales
    (auto simp: ResultMsg_serialize_bytes ResultMsg_bytes_def len_simps MAX_QUERYBUFFER_SIZE_def split: if_splits)

interpretation NodeResult: serializer NodeResult_bytes NodeResult_deserialize
    "\<lambda>r. length (nr_res r) < 2 ^ 32" "\<lambda>r out. Inr (NodeResult_serialize r out)"
  by unfold_locales
    (auto simp: NodeResult_serialize_bytes NodeResult_bytes_def len_simps MAX_QUERYBUFFER_SIZE_def)

interpretation NonCoreSyncMsg: serializer NonCoreSyncMsg_bytes NonCoreSyncMsg_deserialize
    "\<lambda>m. length (ns_core_micro_ngh m) < 2 ^ 32 \<and> length (ns_core_large_ngh m) < 2 ^ 32"
    NonCoreSyncMsg_serialize
  by unfold_locales
    (auto simp: NonCoreSyncMsg_serialize_bytes NonCoreSyncMsg_bytes_def len_simps MAX_QUERYBUFFER_SIZE_def split: if_splits)

lemma length_concat_mem: "x \<in> set xs \<Longrightarrow> length (f x) \<le> length (concat (map f xs))"
  by (induction xs) auto

lemma SyncMsg_ok_of_size:
  assumes "SyncMsg_wf m" "length (SyncMsg_bytes m) \<le> MAX_QUERYBUFFER_SIZE"
  shows "SyncMsg_ok m"
proof -
  let ?z = "zip (sm_core_micro_ngh m) (sm_core_large_ngh m)"
  have "ngh_ok p" if "p \<in> set ?z" for p
    using length_concat_mem [OF that, of ngh_bytes] assms(2)
    by (simp add: SyncMsg_bytes_def ngh_ok_def) (simp add: ngh_bytes_def len_simps MAX_QUERYBUFFER_SIZE_def)
  moreover have "length (sm_local_add_cand m) < 2 ^ 32"
    by (rule vec_size_bound(1)) (use assms(2) in \<open>simp add: SyncMsg_bytes_def\<close>)
  ultimately show ?thesis using assms(1) by (simp add: SyncMsg_ok_def list_all_iff)
qed

lemma SyncMsg_read_back:
  assumes "SyncMsg_wf m" and "SyncMsg_serialize m = Inr buf"
  shows "length buf < MAX_QUERYBUFFER_SIZE \<and>
    SyncMsg_deserialize (buf @ stale) =
      Some (m\<lparr>sm_local_add_cand := [e \<leftarrow> sm_local_add_cand m. fst e \<le> sm_lower_bound m]\<rparr>, stale)"
proof -
  let ?m = "m\<lparr>sm_local_add_cand := [e \<leftarrow> sm_local_add_cand m. fst e \<le> sm_lower_bound m]\<rparr>"
  have buf: "buf = SyncMsg_bytes ?m" "length buf < MAX_QUERYBUFFER_SIZE"
    using assms by (auto simp: SyncMsg_serialize_bytes split: if_splits)
  moreover have "SyncMsg_ok ?m"
    by (rule SyncMsg_ok_of_size) (use buf assms(1) in \<open>auto simp: SyncMsg_wf_def\<close>)
  ultimately show ?thesis using SyncMsg.rd_enc_ok by simp
qed

section \<open>Properties\<close>

text \<open>Property C36. A synchronization message that \<^verbatim>\<open>serialize\<close> accepts fits the buffer and is
  reconstructed by the receiving constructor, whatever bytes an earlier message left behind it:
  all flags, the lower bound and the neighbour lists of every machine are equal, and the
  candidate list is the sender's without the candidates beyond its lower bound.\<close>

theorem SyncMsg_roundtrip:
  assumes "SyncMsg_wf m" and "SyncMsg_serialize m = Inr buf"
  shows "length buf < MAX_QUERYBUFFER_SIZE \<and>
    SyncMsg_deserialize (buf @ stale) =
      Some (m\<lparr>sm_local_add_cand := [e \<leftarrow> sm_local_add_cand m. fst e \<le> sm_lower_bound m]\<rparr>, stale)"
  using SyncMsg_read_back [OF assms] .

definition sync_example :: SyncMsg where
  "sync_example = (new_SyncMsg (Dist 5) 3)\<lparr>sm_local_add_cand := [(Dist 4, 7), (Dist 6, 8)],
     sm_core_micro_ngh := (replicate 16 [])[2 := [9, 10]]\<rparr>"

lemma sync_example_wf: "SyncMsg_wf sync_example"
  by code_simp

lemma replicate_16: "replicate 16 x = [x, x, x, x, x, x, x, x, x, x, x, x, x, x, x, x]"
  by (simp add: numeral_eq_Suc)

lemma sync_example_runs: "\<not> isl (SyncMsg_serialize sync_example)"
  by (simp add: SyncMsg_serialize_bytes [OF sync_example_wf])
    (simp add: sync_example_def new_SyncMsg_def SyncMsg_bytes_def ngh_bytes_def len_simps config_defs
      replicate_16 less_eq_dist_t_def)

theorem SyncMsg_roundtrip_witness:
  "\<exists>buf. SyncMsg_serialize sync_example = Inr buf \<and>
     SyncMsg_deserialize (buf @ [1, 2]) =
       Some (sync_example\<lparr>sm_local_add_cand := [(Dist 4, 7)]\<rparr>, [1, 2])"
proof -
  obtain buf where run: "SyncMsg_serialize sync_example = Inr buf"
    using sync_example_runs by (cases "SyncMsg_serialize sync_example") auto
  have "[e \<leftarrow> sm_local_add_cand sync_example. fst e \<le> sm_lower_bound sync_example] = [(Dist 4, 7)]"
    by code_simp
  with run SyncMsg_roundtrip [OF sync_example_wf run] show ?thesis by auto
qed

text \<open>A vector message that \<^verbatim>\<open>ComputeMsg::serialize\<close> accepts is reconstructed
  with its identifiers, and the receiver's vector pointers are the places right behind the meta
  data, \<^verbatim>\<open>vec_size\<close> bytes apart: with the payload of all vectors in the buffer, each pointed-to
  vector is the corresponding one.\<close>

theorem ComputeMsg_roundtrip:
  assumes "ComputeMsg_serialize m [] = Inr (m', buf)"
    and "list_all (\<lambda>v. length v = unat (cm_vec_size m)) vecs"
    and "length vecs = length (cm_vec_id m)"
  shows "\<exists>r. ComputeMsg_deserialize (buf @ concat vecs) = Some r \<and> cm_qid r = cm_qid m \<and>
    cm_is_count r = cm_is_count m \<and> cm_vec_id r = cm_vec_id m \<and> cm_sg_size m' ! 0 = length buf \<and>
    (\<forall>i<length vecs. \<exists>p. cm_vec_ptr r ! i = Some p \<and>
       take (unat (cm_vec_size m)) (drop p (buf @ concat vecs)) = vecs ! i)"
proof -
  let ?n = "unat (cm_vec_size m)"
  have buf: "buf = ComputeMsg_bytes m" "length buf \<le> MAX_QUERYBUFFER_SIZE"
    and m': "cm_sg_size m' ! 0 = length buf"
    using assms(1) by (auto simp: ComputeMsg_serialize_def ComputeMsg_bytes_def enc_vec_def foldl_emit Let_def
        split: if_splits)
  have ids: "length (cm_vec_id m) < 2 ^ 32"
    by (rule vec_size_bound(2)) (use buf in \<open>simp add: ComputeMsg_bytes_def\<close>)
  have at: "take ?n (drop (i * ?n) (concat vecs)) = vecs ! i" if "i < length vecs" for i
    using that assms(2)
  proof (induction vecs arbitrary: i)
    case (Cons v vs)
    then show ?case by (cases i) auto
  qed simp
  have "ComputeMsg_deserialize (buf @ concat vecs) = Some \<lparr>cm_qid = cm_qid m, cm_is_count = cm_is_count m,
      cm_vec_size = cm_vec_size m, cm_vec_id = cm_vec_id m,
      cm_vec_ptr = map (\<lambda>i. Some (length buf + i * ?n)) [0..<length (cm_vec_id m)], cm_sg_size = []\<rparr>"
    using ids by (simp add: buf(1) ComputeMsg_deserialize_def ComputeMsg_bytes_def enc_vec_def codec_simps)
  with m' at assms(3) show ?thesis by auto
qed

definition compute_example :: ComputeMsg where
  "compute_example = (new_ComputeMsg 4 1 2)\<lparr>cm_vec_id := [11, 12]\<rparr>"

theorem ComputeMsg_roundtrip_witness:
  "\<exists>m' buf r. ComputeMsg_serialize compute_example [] = Inr (m', buf) \<and>
     ComputeMsg_deserialize (buf @ concat [[1, 2], [3, 4]]) = Some r \<and> cm_vec_id r = [11, 12]"
proof -
  have "\<not> isl (ComputeMsg_serialize compute_example [])"
    by (simp add: ComputeMsg_serialize_def compute_example_def new_ComputeMsg_def len_simps config_defs)
  then obtain m' buf where run: "ComputeMsg_serialize compute_example [] = Inr (m', buf)"
    by (cases "ComputeMsg_serialize compute_example []") auto
  have ids: "cm_vec_id compute_example = [11, 12]" "unat (cm_vec_size compute_example) = 2"
    by code_simp+
  show ?thesis
    using run ComputeMsg_roundtrip [OF run, of "[[1, 2], [3, 4]]"] ids by auto
qed

end
