(* ===== verification/Priority_Queue.thy ===== *)
theory Priority_Queue
  imports Prelude "HOL-Library.Multiset"
begin

text \<open>
  \<^verbatim>\<open>std::priority_queue\<close> as the program uses it: a max-queue under a comparison of keys
  (\<^verbatim>\<open>CompareByFirst\<close>: the first component).  The standard does not fix which of several
  elements with the greatest key is on top; the locale \<open>prio_queue\<close> states what the code can
  rely on, over the multiset of the elements, and the client lemmas are proved from that.  The
  executable queue the models run on is a list in the order in which it is popped, and is an
  interpretation.  \<open>best_of\<close> is the specification of the bounded result lists of the search:
  the \<open>ef\<close> nearest of everything that was offered.
\<close>

section \<open>The executable queue\<close>

fun pq_push :: "('a \<Rightarrow> 'k::linorder) \<Rightarrow> 'a \<Rightarrow> 'a list \<Rightarrow> 'a list" where
  "pq_push key x [] = [x]"
| "pq_push key x (y # ys) = (if key y < key x then x # y # ys else y # pq_push key x ys)"

definition pq_top :: "'a list \<Rightarrow> 'a" where
  "pq_top q = hd q"

definition pq_pop :: "'a list \<Rightarrow> 'a list" where
  "pq_pop q = tl q"

definition pq_wf :: "('a \<Rightarrow> 'k::linorder) \<Rightarrow> 'a list \<Rightarrow> bool" where
  "pq_wf key q \<longleftrightarrow> sorted_wrt (\<lambda>x y. key y \<le> key x) q"

text \<open>\<^verbatim>\<open>while (q.size() > ef) q.pop();\<close>\<close>

function pq_trim :: "nat \<Rightarrow> 'a list \<Rightarrow> 'a list" where
  "pq_trim ef q = (if length q > ef then pq_trim ef (pq_pop q) else q)"
  by pat_completeness auto
termination
  by (relation "measure (\<lambda>(_, q). length q)") (auto simp: pq_pop_def)

declare pq_trim.simps [simp del]

text \<open>\<^verbatim>\<open>while (!q.empty()) { ... q.top() ...; q.pop(); }\<close>: the elements in the order in which
  the loop sees them.\<close>

function pq_drain :: "'a list \<Rightarrow> 'a list" where
  "pq_drain q = (if q = [] then [] else pq_top q # pq_drain (pq_pop q))"
  by pat_completeness auto
termination
  by (relation "measure length") (auto simp: pq_pop_def)

declare pq_drain.simps [simp del]

section \<open>The contract\<close>

definition best_of :: "('a \<Rightarrow> 'k::linorder) \<Rightarrow> nat \<Rightarrow> 'a multiset \<Rightarrow> 'a multiset \<Rightarrow> bool" where
  "best_of key ef M R \<longleftrightarrow>
     R \<subseteq># M \<and> size R = min ef (size M) \<and> (\<forall>x\<in>#R. \<forall>y\<in>#M - R. key x \<le> key y)"

locale prio_queue =
  fixes push :: "'a \<Rightarrow> 'q \<Rightarrow> 'q"
    and top :: "'q \<Rightarrow> 'a"
    and pop :: "'q \<Rightarrow> 'q"
    and elems :: "'q \<Rightarrow> 'a multiset"
    and ok :: "'q \<Rightarrow> bool"
    and key :: "'a \<Rightarrow> 'k::linorder"
  assumes push_ok: "ok q \<Longrightarrow> ok (push x q)"
    and elems_push: "elems (push x q) = add_mset x (elems q)"
    and top_in: "elems q \<noteq> {#} \<Longrightarrow> top q \<in># elems q"
    and top_max: "ok q \<Longrightarrow> x \<in># elems q \<Longrightarrow> key x \<le> key (top q)"
    and pop_ok: "ok q \<Longrightarrow> ok (pop q)"
    and elems_pop: "elems q \<noteq> {#} \<Longrightarrow> elems (pop q) = elems q - {#top q#}"

lemma best_of_refl: "size M \<le> ef \<Longrightarrow> best_of key ef M M"
  by (simp add: best_of_def)

lemma best_of_skip:
  assumes "best_of key ef M R" "ef \<le> size R" "\<And>y. y \<in># R \<Longrightarrow> key y \<le> key x"
  shows "best_of key ef (add_mset x M) R"
proof -
  have sub: "R \<subseteq># M" using assms(1) by (simp add: best_of_def)
  then have "add_mset x M - R = add_mset x (M - R)"
    by (metis add_mset_add_single subset_mset.diff_add_assoc2)
  moreover have "size R = ef" using assms(1,2) by (auto simp: best_of_def)
  ultimately show ?thesis
    using assms sub size_mset_mono [OF sub]
    by (auto simp: best_of_def intro: subset_mset.order_trans [of R M "add_mset x M"])
qed

lemma best_of_grow:
  assumes "best_of key ef M R" "size R < ef"
  shows "best_of key ef (add_mset x M) (add_mset x R)"
proof -
  have "size R = size M" "R \<subseteq># M" using assms by (auto simp: best_of_def)
  then have "R = M" by (metis mset_subset_size nat_neq_iff subset_mset.le_less)
  with assms show ?thesis by (auto simp: best_of_def)
qed

lemma best_of_exchange:
  assumes R: "best_of key ef M R" and full: "size R = ef"
    and t: "t \<in># add_mset x R" "\<And>y. y \<in># add_mset x R \<Longrightarrow> key y \<le> key t"
  shows "best_of key ef (add_mset x M) (add_mset x R - {#t#})"
proof -
  let ?R = "add_mset x R - {#t#}"
  have sub: "R \<subseteq># M" using R by (simp add: best_of_def)
  then obtain N where M: "M = R + N" by (metis subset_mset.le_iff_add)
  have eq: "add_mset t ?R = add_mset x R" using t(1) by (rule insert_DiffM)
  have dec: "add_mset x M = ?R + add_mset t N"
    using eq M by (metis union_mset_add_mset_left union_mset_add_mset_right)
  have "size ?R = ef" using t(1) full by (simp add: size_Diff_singleton)
  moreover have "key a \<le> key b" if "a \<in># ?R" "b \<in># add_mset t N" for a b
  proof (cases "b = t")
    case True
    then show ?thesis using t(2) in_diffD [OF that(1)] by simp
  next
    case False
    with that(2) have b: "b \<in># M - R" using M by simp
    have le: "key y \<le> key b" if "y \<in># R" for y
      using R b that by (auto simp: best_of_def)
    show ?thesis
    proof (cases "t \<in># R")
      case True
      then show ?thesis using le t(2) in_diffD [OF that(1)] by (metis order_trans)
    next
      case False
      then have "t = x" using t(1) by simp
      with that(1) have "a \<in># R" by simp
      then show ?thesis by (rule le)
    qed
  qed
  ultimately show ?thesis
    using sub full dec size_mset_mono [OF sub] by (auto simp: best_of_def)
qed

lemma best_of_remove:
  assumes R: "best_of key (Suc n) M R" and size: "size R = Suc n"
    and t: "t \<in># R" "\<And>y. y \<in># R \<Longrightarrow> key y \<le> key t"
  shows "best_of key n M (R - {#t#})"
proof -
  have sub: "R \<subseteq># M" using R by (simp add: best_of_def)
  then obtain N where M: "M = R + N" by (metis subset_mset.le_iff_add)
  have eq: "add_mset t (R - {#t#}) = R" using t(1) by (rule insert_DiffM)
  then have dec: "M = (R - {#t#}) + add_mset t N"
    using M by (metis union_mset_add_mset_left union_mset_add_mset_right)
  have "key a \<le> key b" if "a \<in># R - {#t#}" "b \<in># add_mset t N" for a b
    using that R t(2) in_diffD [OF that(1)] M by (auto simp: best_of_def)
  moreover have "size (R - {#t#}) = n" using t(1) size by (simp add: size_Diff_singleton)
  ultimately show ?thesis
    using dec size size_mset_mono [OF sub] by (auto simp: best_of_def)
qed

text \<open>Everything offered to a full list beyond its greatest key can be ignored, and the best of
  a list's content and a batch is the best of everything.\<close>

lemma best_of_le:
  assumes best: "best_of key ef M R'" and R: "R \<subseteq># M" "size R = ef" "\<And>y. y \<in># R \<Longrightarrow> key y \<le> lb"
    and x: "x \<in># R'"
  shows "key x \<le> lb"
proof (rule ccontr)
  assume "\<not> key x \<le> lb"
  with R(3) have "x \<notin># R" by auto
  have "\<not> R \<subseteq># R'"
  proof
    assume sub: "R \<subseteq># R'"
    have "size R' \<le> size R" using best R(2) by (simp add: best_of_def)
    with sub have "R = R'" by (metis mset_subset_size not_le subset_mset.le_less)
    with x \<open>x \<notin># R\<close> show False by simp
  qed
  then obtain r where "count R' r < count R r" by (auto simp: subseteq_mset_def not_le)
  moreover have "count R r \<le> count M r" using R(1) by (simp add: subseteq_mset_def)
  ultimately have "r \<in># R" "r \<in># M - R'" by (auto simp: in_diff_count count_greater_zero_iff [symmetric] simp del: count_greater_zero_iff)
  with best x R(3) have "key x \<le> key r" "key r \<le> lb" by (auto simp: best_of_def)
  with \<open>\<not> key x \<le> lb\<close> show False by simp
qed

lemma best_of_trans:
  assumes R: "best_of key ef M R" and R': "best_of key ef (R + X) R'"
  shows "best_of key ef (M + X) R'"
proof (cases "size M \<le> ef")
  case True
  then have "R = M"
    using R by (metis best_of_def min.absorb2 mset_subset_size nat_neq_iff subset_mset.le_less)
  with R' show ?thesis by simp
next
  case False
  then have full: "size R = ef" and sub: "R \<subseteq># M" using R by (auto simp: best_of_def)
  obtain N where M: "M = R + N" using sub by (metis subset_mset.le_iff_add)
  have sub': "R' \<subseteq># R + X" using R' by (simp add: best_of_def)
  then obtain L where L: "R + X = R' + L" by (metis subset_mset.le_iff_add)
  have dec: "M + X = R' + (N + L)" using M L by (metis union_assoc union_commute)
  have "key x \<le> key y" if "x \<in># R'" "y \<in># N" for x y
  proof -
    have "key r \<le> key y" if "r \<in># R" for r
      using R M that \<open>y \<in># N\<close> by (auto simp: best_of_def)
    then show ?thesis
      using best_of_le [OF R' mset_subset_eq_add_left full _ that(1)] by blast
  qed
  moreover have "size R' = ef" using R' full by (simp add: best_of_def)
  moreover have "size (M + X) \<ge> ef" using False by simp
  ultimately show ?thesis
    using R' L by (auto simp: best_of_def dec)
qed

lemma best_of_nested:
  assumes R: "best_of key ef M R" and R': "best_of key k R R'" and "k \<le> ef"
  shows "best_of key k M R'"
proof -
  obtain N L where M: "M = R + N" and L: "R = R' + L"
    using R R' by (metis best_of_def subset_mset.le_iff_add)
  have "key x \<le> key y" if "x \<in># R'" "y \<in># N + L" for x y
    using R R' that by (auto simp: best_of_def M L)
  moreover have "M = R' + (N + L)" by (simp add: M L add.assoc add.commute [of L N])
  moreover have "size R' = min k (size M)" using R R' assms(3) by (auto simp: best_of_def)
  ultimately show ?thesis by (auto simp: best_of_def)
qed

lemma best_of_nearest:
  assumes "best_of key k M R" "0 < k" "y \<in># M"
  shows "\<exists>x\<in>#R. key x \<le> key y"
proof (cases "y \<in># R")
  case False
  then have "y \<in># M - R" using assms(3) by (simp add: in_diff_count not_in_iff)
  moreover have "size M \<noteq> 0" using assms(3) by auto
  then have "R \<noteq> {#}" using assms(1,2) by (auto simp: best_of_def min_def split: if_splits)
  then obtain x where "x \<in># R" by (meson multiset_nonemptyE)
  ultimately show ?thesis using assms(1) by (auto simp: best_of_def)
qed auto

lemma best_of_skip_many:
  assumes "best_of key ef M R" "ef \<le> size R" "\<And>y. y \<in># R \<Longrightarrow> key y \<le> lb"
  shows "(\<And>x. x \<in># D \<Longrightarrow> lb \<le> key x) \<Longrightarrow> best_of key ef (M + D) R"
proof (induction D)
  case (add x D)
  then have "best_of key ef (M + D) R" by simp
  then have "best_of key ef (add_mset x (M + D)) R"
    by (rule best_of_skip) (use assms(2,3) add.prems order_trans in fastforce)+
  then show ?case by simp
qed (simp add: assms(1))

context prio_queue
begin

lemma push_room:
  "best_of key ef M (elems q) \<Longrightarrow> size (elems q) < ef \<Longrightarrow>
     best_of key ef (add_mset x M) (elems (push x q))"
  by (simp add: elems_push best_of_grow)

lemma push_pop_full:
  assumes "ok q" "best_of key ef M (elems q)" "size (elems q) = ef"
  shows "best_of key ef (add_mset x M) (elems (pop (push x q)))"
proof -
  have ne: "elems (push x q) \<noteq> {#}" by (simp add: elems_push)
  have t: "top (push x q) \<in># add_mset x (elems q)"
    using top_in [OF ne] by (simp add: elems_push)
  have "best_of key ef (add_mset x M) (add_mset x (elems q) - {#top (push x q)#})"
    by (rule best_of_exchange [OF assms(2,3) t])
      (use top_max [OF push_ok [OF assms(1), of x]] in \<open>simp add: elems_push\<close>)
  then show ?thesis by (simp add: elems_pop [OF ne]) (simp add: elems_push)
qed

lemma reject:
  assumes "ok q" "best_of key ef M (elems q)" "ef \<le> size (elems q)" "key (top q) \<le> key x"
  shows "best_of key ef (add_mset x M) (elems q)"
  by (rule best_of_skip [OF assms(2,3)]) (use top_max [OF assms(1)] assms(4) order_trans in blast)

lemma pops:
  "ok q \<Longrightarrow> size (elems q) = n + ef \<Longrightarrow> ok ((pop ^^ n) q) \<and> best_of key ef (elems q) (elems ((pop ^^ n) q))"
proof (induction n arbitrary: ef)
  case (Suc n)
  let ?q = "(pop ^^ n) q"
  from Suc.IH [of "Suc ef"] Suc.prems have ok: "ok ?q" and b: "best_of key (Suc ef) (elems q) (elems ?q)"
    by simp_all
  then have size: "size (elems ?q) = Suc ef" using Suc.prems by (simp add: best_of_def)
  then have ne: "elems ?q \<noteq> {#}" by auto
  have "best_of key ef (elems q) (elems ?q - {#top ?q#})"
    by (rule best_of_remove [OF b size top_in [OF ne]]) (rule top_max [OF ok])
  with ok show ?case by (simp add: elems_pop [OF ne] pop_ok)
qed (simp add: best_of_refl)

end

interpretation pq: prio_queue "pq_push key" pq_top pq_pop mset "pq_wf key" key
  for key :: "'a \<Rightarrow> 'k::linorder"
proof
  show push_mset: "mset (pq_push key x q) = add_mset x (mset q)" for x q
    by (induction q) auto
  show "pq_wf key q \<Longrightarrow> pq_wf key (pq_push key x q)" for x q
    unfolding pq_wf_def
  proof (induction q)
    case (Cons y q)
    have "set (pq_push key x q) = insert x (set q)"
      using push_mset [of x q] by (metis set_mset_add_mset_insert set_mset_mset)
    with Cons show ?case by (auto intro: order_trans less_imp_le)
  qed simp
  show "pq_wf key q \<Longrightarrow> x \<in># mset q \<Longrightarrow> key x \<le> key (pq_top q)" for q x
    by (cases q) (auto simp: pq_wf_def pq_top_def)
  show "pq_wf key q \<Longrightarrow> pq_wf key (pq_pop q)" for q
    by (cases q) (auto simp: pq_wf_def pq_pop_def)
qed (auto simp: pq_top_def pq_pop_def neq_Nil_conv)

lemma length_pq_push [simp]: "length (pq_push key x q) = Suc (length q)"
  by (induction q) auto

lemma pq_drain_id [simp]: "pq_drain q = q"
  by (induction q rule: pq_drain.induct) (auto simp: pq_drain.simps pq_top_def pq_pop_def)

lemma pq_trim_pops: "pq_trim ef q = (pq_pop ^^ (length q - ef)) q"
proof (induction ef q rule: pq_trim.induct)
  case (1 ef q)
  show ?case
  proof (cases "length q > ef")
    case True
    then have "length q - ef = Suc (length (pq_pop q) - ef)" by (simp add: pq_pop_def)
    with 1 True show ?thesis by (simp add: pq_trim.simps [of ef q] funpow_swap1)
  qed (simp add: pq_trim.simps)
qed

lemma pq_trim_best:
  assumes "pq_wf key q"
  shows "pq_wf key (pq_trim ef q)" "best_of key ef (mset q) (mset (pq_trim ef q))"
    "length (pq_trim ef q) = min ef (length q)"
proof -
  have "pq_wf key (pq_trim ef q) \<and> best_of key ef (mset q) (mset (pq_trim ef q))"
  proof (cases "length q \<le> ef")
    case True
    then show ?thesis using assms by (simp add: pq_trim_pops best_of_refl)
  next
    case False
    then show ?thesis using pq.pops [OF assms, of "length q - ef" ef] by (simp add: pq_trim_pops)
  qed
  then show "pq_wf key (pq_trim ef q)" "best_of key ef (mset q) (mset (pq_trim ef q))"
    "length (pq_trim ef q) = min ef (length q)"
    by (auto simp: best_of_def)
qed

section \<open>Bounded result lists\<close>

text \<open>The step every search of the program makes with an evaluated candidate:

  \<^verbatim>\<open>if (top_candidates.size() < ef || lowerBound > dist) {\<close>
  \<^verbatim>\<open>  top_candidates.emplace(dist, id);\<close>
  \<^verbatim>\<open>  while (top_candidates.size() > ef) top_candidates.pop();\<close>
  \<^verbatim>\<open>  if (!top_candidates.empty()) lowerBound = top_candidates.top().first; }\<close>

  together with the answer whether the candidate was taken.\<close>

type_synonym cand = "dist_t \<times> u32"

definition offer :: "nat \<Rightarrow> 'd::linorder \<times> 'i \<Rightarrow> ('d \<times> 'i) list \<Rightarrow> 'd \<Rightarrow> bool \<times> ('d \<times> 'i) list \<times> 'd" where
  "offer ef c q lowerBound =
     (if length q < ef \<or> lowerBound > fst c
      then let q = pq_push fst c q;
               q = pq_trim ef q
           in (True, q, if q \<noteq> [] then fst (pq_top q) else lowerBound)
      else (False, q, lowerBound))"

text \<open>The result list of a search with parameter \<open>ef\<close> after the candidates \<open>M\<close>: the best of
  them, and once the list is full the bound is its greatest distance.\<close>

definition results_inv :: "nat \<Rightarrow> ('d::linorder \<times> 'i) multiset \<Rightarrow> ('d \<times> 'i) list \<Rightarrow> 'd \<Rightarrow> bool" where
  "results_inv ef M q lowerBound \<longleftrightarrow>
     pq_wf fst q \<and> best_of fst ef M (mset q) \<and> (q \<noteq> [] \<longrightarrow> lowerBound = fst (pq_top q))"

lemma results_inv_length: "results_inv ef M q lb \<Longrightarrow> length q = min ef (size M)"
  by (auto simp: results_inv_def best_of_def)

lemma offer_results:
  assumes inv: "results_inv ef M q lb" and ef: "0 < ef" and run: "offer ef c q lb = (taken, q', lb')"
  shows "results_inv ef (add_mset c M) q' lb'"
proof -
  have wf: "pq_wf fst q" and best: "best_of fst ef M (mset q)" and le: "length q \<le> ef"
    and lb: "q \<noteq> [] \<Longrightarrow> lb = fst (pq_top q)"
    using inv by (auto simp: results_inv_def best_of_def)
  consider "length q < ef" | "length q = ef" "fst c < lb" | "length q = ef" "\<not> fst c < lb"
    using le by linarith
  then show ?thesis
  proof cases
    case 1
    have "pq_push fst c q \<noteq> []" by (metis length_pq_push list.size(3) nat.distinct(1))
    with 1 run have "q' = pq_push fst c q" "lb' = fst (pq_top q')"
      by (auto simp: offer_def Let_def pq_trim.simps [of ef "pq_push fst c q"])
    with pq.push_room [OF best] pq.push_ok [OF wf] 1 show ?thesis by (simp add: results_inv_def)
  next
    case 2
    then have "pq_trim ef (pq_push fst c q) = pq_pop (pq_push fst c q)"
      by (simp add: pq_trim_pops)
    with 2 ef run have "q' = pq_pop (pq_push fst c q)" "q' \<noteq> [] \<longrightarrow> lb' = fst (pq_top q')"
      by (auto simp: offer_def Let_def)
    with pq.push_pop_full [OF wf best] pq.pop_ok [OF pq.push_ok [OF wf]] 2 show ?thesis
      by (simp add: results_inv_def)
  next
    case 3
    then have "q' = q" "lb' = lb" "q \<noteq> []" using run ef by (auto simp: offer_def)
    with pq.reject [OF wf best] 3 lb inv show ?thesis by (simp add: results_inv_def not_less)
  qed
qed

end
