(* ===== verification/Query_Msg.thy ===== *)
theory Query_Msg
  imports Hash_Table Messages Priority_Queue "HOL-Library.Product_Lexorder"
begin

text \<open>
  The query object \<^verbatim>\<open>QueryMsg\<close> of \<^verbatim>\<open>include/anns/query_msg.h\<close>: its state, the updates a
  synchronization message makes, and its three transfer formats (\<^verbatim>\<open>serialize2\<close> for a
  migrated query, \<^verbatim>\<open>fork\<close> for the sub-query of a core machine, and the older
  \<^verbatim>\<open>serialize\<close>) with the readers \<^verbatim>\<open>deserialize_and_merge\<close> and \<^verbatim>\<open>deserialize\<close>.  The
  configuration is the release one (\<^verbatim>\<open>PROFILER\<close> and \<^verbatim>\<open>DEBUG\<close> not defined).  The profiler,
  the coroutine handle and the receive side of asynchronous reads are not part of any transfer and
  are left out of the record.
\<close>

section \<open>State\<close>

datatype QueryState = START | PRE_STAGE | POST_STAGE | PAUSE | END

record QueryMsg =
  q_ef :: u64
  q_query_id :: u64
  q_origin_machine :: u64
  q_current_node_id :: u64
  q_lowerBound :: dist_t
  q_visit_hash :: OptHashPosVector
  q_vector_size :: u64
  q_vector :: "byte list option"
  q_state :: QueryState
  q_path_cnt :: "u32 list"
  q_max_path_id :: u32
  q_max_path_cnt :: u32
  q_path_length :: u32
  q_leader_machine :: u32
  q_has_token :: u8
  q_token_is_black :: u8
  q_proc_is_black :: u8
  q_last_is_white :: u8
  q_global_term :: u8
  q_core_machine :: "u32 list"
  q_is_core_machine :: "u32 list"
  q_filterred :: "cand list list"
  q_filter_num :: "u32 list"
  q_post_cnt :: u32
  q_recv_cnt :: u32
  q_nocore_post :: u32
  q_nocore_recv :: u32
  q_local_task :: "ComputeTask list"
  q_local_micro_task :: "u32 list"
  q_top_candidates :: "cand list"
  q_candidate_set :: "cand list"
  q_result :: "(dist_t \<times> u64) list"
  q_sync_msg :: SyncMsg
  q_async_read_queue :: "BufferCache list"
  q_local_res :: "ResultMsg list"
  q_sync_step :: u32
  q_is_new :: bool
  q_async_read_num :: u32
  q_async_read_cnt :: u32
  q_recv_async_read_queue :: "BufferCache list"
  q_con_task_queue :: "(cand list \<times> bool) list"

text \<open>\<^verbatim>\<open>result\<close> is ordered by the pair itself, the other queues by \<^verbatim>\<open>CompareByFirst\<close>.\<close>

definition result_key :: "dist_t \<times> u64 \<Rightarrow> dist_t \<times> u64" where
  "result_key e = e"

section \<open>Updates from synchronization messages\<close>

text \<open>The loop over \<^verbatim>\<open>local_add_cand\<close>: the bound is not updated inside it.\<close>

definition sync_candidates :: "nat \<Rightarrow> dist_t \<Rightarrow> cand list \<Rightarrow> cand list \<Rightarrow> cand list" where
  "sync_candidates ef lowerBound cands tops =
     foldl (\<lambda>tops c. if length tops < ef \<or> fst c < lowerBound then pq_push fst c tops else tops) tops cands"

definition update_sub_query :: "dist_t \<Rightarrow> u8 \<Rightarrow> nat \<Rightarrow> SyncMsg \<Rightarrow> QueryMsg \<Rightarrow> QueryMsg" where
  "update_sub_query lb_junk ef_junk machine_id sync q =
     (let q = (if sm_update_term sync \<noteq> 0
               then q\<lparr>q_has_token := sm_has_token sync, q_token_is_black := sm_token_is_black sync\<rparr>
               else q);
          tops = sync_candidates (unat (q_ef q)) (q_lowerBound q) (sm_local_add_cand sync) (q_top_candidates q);
          tops = pq_trim (unat (q_ef q)) tops;
          q = q\<lparr>q_top_candidates := tops\<rparr>;
          q = (if tops \<noteq> [] then q\<lparr>q_lowerBound := fst (pq_top tops)\<rparr> else q);
          q = q\<lparr>q_local_micro_task := q_local_micro_task q @ sm_core_micro_ngh sync ! machine_id\<rparr>
      in q\<lparr>q_local_task := q_local_task q @
           map (\<lambda>e. local_ComputeTask lb_junk ef_junk (word_of_nat machine_id) (ucast (q_query_id q))
                 (snd e) (fst e) True) (sm_core_large_ngh sync ! machine_id)\<rparr>)"

definition update_sub_query_from_noncore ::
  "dist_t \<Rightarrow> u8 \<Rightarrow> nat \<Rightarrow> NonCoreSyncMsg \<Rightarrow> QueryMsg \<Rightarrow> QueryMsg" where
  "update_sub_query_from_noncore lb_junk ef_junk machine_id sync q =
     (let q = q\<lparr>q_local_micro_task := q_local_micro_task q @ ns_core_micro_ngh sync\<rparr>
      in q\<lparr>q_local_task := q_local_task q @
           map (\<lambda>e. local_ComputeTask lb_junk ef_junk (word_of_nat machine_id) (ucast (q_query_id q))
                 (snd e) (fst e) True) (ns_core_large_ngh sync)\<rparr>)"

section \<open>Transfer\<close>

definition enc_state :: "QueryState \<Rightarrow> byte list" where
  "enc_state st = enc_u32 (case st of START \<Rightarrow> 0 | PRE_STAGE \<Rightarrow> 1 | POST_STAGE \<Rightarrow> 2 | PAUSE \<Rightarrow> 3 | END \<Rightarrow> 4)"

definition rd_state :: "QueryState reader" where
  "rd_state s = do {
     (w, s) \<leftarrow> rd_u32 s;
     if w = 0 then Some (START, s) else if w = 1 then Some (PRE_STAGE, s)
     else if w = 2 then Some (POST_STAGE, s) else if w = 3 then Some (PAUSE, s)
     else if w = 4 then Some (END, s) else None }"

text \<open>A container with its size as a \<^verbatim>\<open>size_t\<close>.\<close>

definition put_vec64 :: "('a \<Rightarrow> byte list) \<Rightarrow> 'a list \<Rightarrow> byte list \<Rightarrow> byte list" where
  "put_vec64 e xs out =
     (let out = out @ enc_u64 (word_of_nat (length xs)) in foldl (\<lambda>out x. out @ e x) out xs)"

definition rd_vec64 :: "'a reader \<Rightarrow> 'a list reader" where
  "rd_vec64 r s = do { (n, s) \<leftarrow> rd_u64 s; rd_many (unat n) r s }"

text \<open>The fields before the path counters, common to all formats.  The vector has to hold
  \<^verbatim>\<open>vector_size\<close> bytes.\<close>

definition put_head :: "QueryMsg \<Rightarrow> crash + byte list" where
  "put_head q =
     (case q_vector q of
        None \<Rightarrow> Inl OutOfBounds
      | Some v \<Rightarrow>
          if length v < unat (q_vector_size q) then Inl OutOfBounds
          else
            let out = [] @ enc_u64 (q_ef q);
                out = out @ enc_u64 (q_query_id q);
                out = out @ enc_u64 (q_origin_machine q);
                out = out @ enc_u64 (q_current_node_id q);
                out = out @ enc_dist (q_lowerBound q);
                out = out @ enc_u64 (q_vector_size q);
                out = out @ take (unat (q_vector_size q)) v
            in Inr (out @ enc_state (q_state q)))"

definition put_path :: "QueryMsg \<Rightarrow> byte list \<Rightarrow> byte list" where
  "put_path q out =
     (let out = out @ concat (map enc_u32 (q_path_cnt q));
          out = out @ enc_u32 (q_max_path_id q);
          out = out @ enc_u32 (q_max_path_cnt q);
          out = out @ enc_u32 (q_path_length q);
          out = out @ enc_u32 (q_leader_machine q)
      in put_vec64 enc_u32 (q_core_machine q) out)"

definition check_size :: "QueryMsg \<Rightarrow> byte list \<Rightarrow> crash + QueryMsg \<times> byte list" where
  "check_size q out = (if length out > MAX_QUERYBUFFER_SIZE then Inl Abort else Inr (q, out))"

text \<open>\<^verbatim>\<open>serialize2\<close> empties the three queues while it writes them.\<close>

definition serialize2 :: "QueryMsg \<Rightarrow> crash + QueryMsg \<times> byte list" where
  "serialize2 q =
     (case put_head q of
        Inl e \<Rightarrow> Inl e
      | Inr out \<Rightarrow>
          let out = put_path q out;
              out = put_vec64 enc_cand (pq_drain (q_top_candidates q)) out;
              filter_queue = filter (\<lambda>e. - fst e < q_lowerBound q) (pq_drain (q_candidate_set q));
              out = put_vec64 enc_cand filter_queue out;
              out = put_vec64 enc_label (pq_drain (q_result q)) out
          in check_size (q\<lparr>q_top_candidates := [], q_candidate_set := [], q_result := []\<rparr>) out)"

text \<open>\<^verbatim>\<open>fork\<close> restores \<^verbatim>\<open>top_candidates\<close> from its copy but drains \<^verbatim>\<open>result\<close>.\<close>

definition fork :: "nat \<Rightarrow> QueryMsg \<Rightarrow> crash + QueryMsg \<times> byte list" where
  "fork machine_id q =
     (case put_head q of
        Inl e \<Rightarrow> Inl e
      | Inr out \<Rightarrow>
          let out = put_path q out;
              out = put_vec64 enc_cand (pq_drain (q_top_candidates q)) out;
              out = put_vec64 enc_cand (q_filterred q ! machine_id) out;
              out = put_vec64 enc_label (pq_drain (q_result q)) out
          in check_size (q\<lparr>q_result := []\<rparr>) out)"

definition QueryMsg_serialize :: "QueryMsg \<Rightarrow> crash + byte list" where
  "QueryMsg_serialize q =
     (case put_head q of
        Inl e \<Rightarrow> Inl e
      | Inr out \<Rightarrow>
          let out = put_vec64 enc_cand (pq_drain (q_top_candidates q)) out;
              out = put_vec64 enc_cand (pq_drain (q_candidate_set q)) out;
              out = put_vec64 enc_label (pq_drain (q_result q)) out
          in if length out > MAX_QUERYBUFFER_SIZE then Inl Abort else Inr out)"

text \<open>The receiving side.  \<^const>\<open>None\<close>: an access outside the buffer, the vector or
  \<^verbatim>\<open>is_core_machine\<close>, or a visited set that does not answer.\<close>

definition get_head :: "QueryMsg \<Rightarrow> QueryMsg reader" where
  "get_head q s = do {
     (ef, s) \<leftarrow> rd_u64 s;
     (query_id, s) \<leftarrow> rd_u64 s;
     (origin, s) \<leftarrow> rd_u64 s;
     (node, s) \<leftarrow> rd_u64 s;
     (lowerBound, s) \<leftarrow> rd_dist s;
     (vector_size, s) \<leftarrow> rd_u64 s;
     (bytes, s) \<leftarrow> rd_bytes (unat vector_size) s;
     v \<leftarrow> (case q_vector q of
             None \<Rightarrow> Some bytes
           | Some old \<Rightarrow> if length old < unat vector_size then None
               else Some (bytes @ drop (unat vector_size) old));
     (state, s) \<leftarrow> rd_state s;
     Some (q\<lparr>q_ef := ef, q_query_id := query_id, q_origin_machine := origin,
       q_current_node_id := node, q_lowerBound := lowerBound, q_vector_size := vector_size,
       q_vector := Some v, q_state := state\<rparr>, s) }"

primrec add_core :: "u32 list \<Rightarrow> QueryMsg \<Rightarrow> QueryMsg option" where
  "add_core [] q = Some q"
| "add_core (m # ms) q =
     (if unat m < length (q_is_core_machine q)
      then add_core ms (q\<lparr>q_core_machine := q_core_machine q @ [m],
             q_is_core_machine := (q_is_core_machine q)[unat m := 1]\<rparr>)
      else None)"

definition get_path :: "QueryMsg \<Rightarrow> QueryMsg reader" where
  "get_path q s = do {
     (path_cnt, s) \<leftarrow> rd_many MACHINE_NUM rd_u32 s;
     (max_path_id, s) \<leftarrow> rd_u32 s;
     (max_path_cnt, s) \<leftarrow> rd_u32 s;
     (path_length, s) \<leftarrow> rd_u32 s;
     (leader, s) \<leftarrow> rd_u32 s;
     (core, s) \<leftarrow> rd_vec64 rd_u32 s;
     q \<leftarrow> add_core core q;
     Some (q\<lparr>q_path_cnt := path_cnt, q_max_path_id := max_path_id, q_max_path_cnt := max_path_cnt,
       q_path_length := path_length, q_leader_machine := leader\<rparr>, s) }"

definition push_all :: "('a \<Rightarrow> 'k::linorder) \<Rightarrow> 'a list \<Rightarrow> 'a list \<Rightarrow> 'a list" where
  "push_all key xs q = foldl (\<lambda>q x. pq_push key x q) q xs"

definition deserialize_and_merge :: "nat \<Rightarrow> QueryMsg \<Rightarrow> QueryMsg reader" where
  "deserialize_and_merge fuel q s = do {
     (q, s) \<leftarrow> get_head q s;
     (q, s) \<leftarrow> get_path q s;
     (tops, s) \<leftarrow> rd_vec64 rd_cand s;
     (cands, s) \<leftarrow> rd_vec64 rd_cand s;
     (_, h) \<leftarrow> admit (CheckAndSet fuel) (map snd cands) (q_visit_hash q);
     (res, s) \<leftarrow> rd_vec64 rd_label s;
     Some (q\<lparr>q_top_candidates := push_all fst tops [], q_candidate_set := push_all fst cands [],
       q_visit_hash := h, q_result := push_all result_key res []\<rparr>, s) }"

text \<open>The static \<^verbatim>\<open>deserialize\<close> fills a fresh object \<open>q\<close>.\<close>

definition QueryMsg_deserialize :: "QueryMsg \<Rightarrow> QueryMsg reader" where
  "QueryMsg_deserialize q s = do {
     (q, s) \<leftarrow> get_head q s;
     (tops, s) \<leftarrow> rd_vec64 rd_cand s;
     (cands, s) \<leftarrow> rd_vec64 rd_cand s;
     (res, s) \<leftarrow> rd_vec64 rd_label s;
     Some (q\<lparr>q_top_candidates := push_all fst tops (q_top_candidates q),
       q_candidate_set := push_all fst cands (q_candidate_set q),
       q_result := push_all result_key res (q_result q)\<rparr>, s) }"

section \<open>The formats\<close>

definition vec64_bytes :: "('a \<Rightarrow> byte list) \<Rightarrow> 'a list \<Rightarrow> byte list" where
  "vec64_bytes e xs = enc_u64 (word_of_nat (length xs)) @ concat (map e xs)"

lemma put_vec64_bytes: "put_vec64 e xs out = out @ vec64_bytes e xs"
  by (simp add: put_vec64_def vec64_bytes_def foldl_emit)

context codec
begin

lemma rd_vec64_bytes:
  "length xs < 2 ^ 64 \<Longrightarrow> rd_vec64 rd (vec64_bytes enc xs @ s) = Some (xs, s)"
  by (simp add: rd_vec64_def vec64_bytes_def u64.rd_enc rd_many_enc)

end

interpretation state: fixed_codec enc_state rd_state 4
  by unfold_locales (auto simp: enc_state_def rd_state_def u32.rd_enc u32.length_enc split: QueryState.split)

definition head_bytes :: "QueryMsg \<Rightarrow> byte list \<Rightarrow> byte list" where
  "head_bytes q v = enc_u64 (q_ef q) @ enc_u64 (q_query_id q) @ enc_u64 (q_origin_machine q) @
     enc_u64 (q_current_node_id q) @ enc_dist (q_lowerBound q) @ enc_u64 (q_vector_size q) @
     v @ enc_state (q_state q)"

definition path_bytes :: "QueryMsg \<Rightarrow> byte list" where
  "path_bytes q = concat (map enc_u32 (q_path_cnt q)) @ enc_u32 (q_max_path_id q) @
     enc_u32 (q_max_path_cnt q) @ enc_u32 (q_path_length q) @ enc_u32 (q_leader_machine q) @
     vec64_bytes enc_u32 (q_core_machine q)"

definition queues_bytes :: "cand list \<Rightarrow> cand list \<Rightarrow> (dist_t \<times> u64) list \<Rightarrow> byte list" where
  "queues_bytes tops cands res =
     vec64_bytes enc_cand tops @ vec64_bytes enc_cand cands @ vec64_bytes enc_label res"

lemma put_head_D:
  "put_head q = Inr out \<Longrightarrow> \<exists>v. q_vector q = Some v \<and> unat (q_vector_size q) \<le> length v \<and>
     out = head_bytes q (take (unat (q_vector_size q)) v)"
  by (auto simp: put_head_def head_bytes_def Let_def split: option.splits if_splits)

lemma put_path_bytes: "put_path q out = out @ path_bytes q"
  by (simp add: put_path_def path_bytes_def put_vec64_bytes)

lemma vec64_size:
  "length (vec64_bytes enc_u32 xs) \<le> MAX_QUERYBUFFER_SIZE \<Longrightarrow> length xs < 2 ^ 64"
  "length (vec64_bytes enc_cand ys) \<le> MAX_QUERYBUFFER_SIZE \<Longrightarrow> length ys < 2 ^ 64"
  "length (vec64_bytes enc_label zs) \<le> MAX_QUERYBUFFER_SIZE \<Longrightarrow> length zs < 2 ^ 64"
  by (simp_all add: vec64_bytes_def len_simps MAX_QUERYBUFFER_SIZE_def)

text \<open>The object that receives a query: its fields after the transfer.\<close>

definition vector_room :: "QueryMsg \<Rightarrow> QueryMsg \<Rightarrow> bool" where
  "vector_room q q0 \<longleftrightarrow> (case q_vector q0 of None \<Rightarrow> True | Some old \<Rightarrow> unat (q_vector_size q) \<le> length old)"

definition merge_head :: "QueryMsg \<Rightarrow> byte list \<Rightarrow> QueryMsg \<Rightarrow> QueryMsg" where
  "merge_head q v q0 = q0\<lparr>q_ef := q_ef q, q_query_id := q_query_id q, q_origin_machine := q_origin_machine q,
     q_current_node_id := q_current_node_id q, q_lowerBound := q_lowerBound q,
     q_vector_size := q_vector_size q,
     q_vector := Some (v @ (case q_vector q0 of None \<Rightarrow> [] | Some old \<Rightarrow> drop (length v) old)),
     q_state := q_state q\<rparr>"

lemma get_head_bytes:
  assumes "length v = unat (q_vector_size q)" "vector_room q q0"
  shows "get_head q0 (head_bytes q v @ s) = Some (merge_head q v q0, s)"
  using assms
  by (cases "q_vector q0")
    (simp_all add: get_head_def head_bytes_def merge_head_def vector_room_def codec_simps rd_bytes_append
      state.rd_enc)

lemma add_core_ok:
  "list_all (\<lambda>m. unat m < length (q_is_core_machine q)) ms \<Longrightarrow>
   add_core ms q = Some (q\<lparr>q_core_machine := q_core_machine q @ ms,
     q_is_core_machine := foldl (\<lambda>a m. a[unat m := 1]) (q_is_core_machine q) ms\<rparr>)"
  by (induction ms arbitrary: q) auto

lemma mark_all_length: "length (foldl (\<lambda>a m. a[unat m := 1]) a ms) = length a"
  by (induction ms arbitrary: a) auto

lemma mark_all_nth:
  "i < length a \<Longrightarrow> foldl (\<lambda>a m. a[unat m := 1]) a ms ! i = (if i \<in> (unat :: u32 \<Rightarrow> nat) ` set ms then 1 else a ! i)"
  by (induction ms arbitrary: a) (auto simp: nth_list_update)

definition query_wf :: "QueryMsg \<Rightarrow> bool" where
  "query_wf q \<longleftrightarrow> length (q_path_cnt q) = MACHINE_NUM \<and> length (q_is_core_machine q) = MACHINE_NUM \<and>
     list_all (\<lambda>m. unat m < MACHINE_NUM) (q_core_machine q) \<and> hv_inv (q_visit_hash q) \<and>
     pq_wf fst (q_top_candidates q) \<and> pq_wf fst (q_candidate_set q) \<and> pq_wf result_key (q_result q)"

definition merge_path :: "QueryMsg \<Rightarrow> QueryMsg \<Rightarrow> QueryMsg" where
  "merge_path q q0 = q0\<lparr>q_path_cnt := q_path_cnt q, q_max_path_id := q_max_path_id q,
     q_max_path_cnt := q_max_path_cnt q, q_path_length := q_path_length q,
     q_leader_machine := q_leader_machine q, q_core_machine := q_core_machine q0 @ q_core_machine q,
     q_is_core_machine := foldl (\<lambda>a m. a[unat m := 1]) (q_is_core_machine q0) (q_core_machine q)\<rparr>"

lemma get_path_bytes:
  assumes "length (q_path_cnt q) = MACHINE_NUM" "length (q_core_machine q) < 2 ^ 64"
    "list_all (\<lambda>m. unat m < length (q_is_core_machine q0)) (q_core_machine q)"
  shows "get_path q0 (path_bytes q @ s) = Some (merge_path q q0, s)"
proof -
  have "rd_many MACHINE_NUM rd_u32 (concat (map enc_u32 (q_path_cnt q)) @ t) = Some (q_path_cnt q, t)" for t
    using u32.rd_many_enc [of "q_path_cnt q" t] assms(1) by simp
  with assms(2,3) show ?thesis
    by (simp add: get_path_def path_bytes_def merge_path_def u32.rd_enc u32.rd_vec64_bytes add_core_ok)
qed

lemma push_all_wf: "pq_wf key q \<Longrightarrow> pq_wf key (push_all key xs q)"
  by (induction xs arbitrary: q) (simp_all add: push_all_def pq.push_ok)

lemma mset_push_all [simp]: "mset (push_all key xs q) = mset xs + mset q"
  by (induction xs arbitrary: q) (simp_all add: push_all_def pq.elems_push)

text \<open>Reading a complete transfer.\<close>

definition merged :: "QueryMsg \<Rightarrow> byte list \<Rightarrow> cand list \<Rightarrow> cand list \<Rightarrow> (dist_t \<times> u64) list \<Rightarrow>
    OptHashPosVector \<Rightarrow> QueryMsg \<Rightarrow> QueryMsg" where
  "merged q v tops cands res h q0 = (merge_path q (merge_head q v q0))\<lparr>
     q_top_candidates := push_all fst tops [], q_candidate_set := push_all fst cands [],
     q_visit_hash := h, q_result := push_all result_key res []\<rparr>"

lemma merge_transfer:
  assumes size: "length (head_bytes q v @ path_bytes q @ queues_bytes tops cands res) \<le> MAX_QUERYBUFFER_SIZE"
    and v: "length v = unat (q_vector_size q)" and room: "vector_room q q0"
    and wf: "query_wf q" and wf0: "query_wf q0"
    and visit: "admit (CheckAndSet fuel) (map snd cands) (q_visit_hash q0) = Some (new, h)"
  shows "deserialize_and_merge fuel q0 (head_bytes q v @ path_bytes q @ queues_bytes tops cands res @ stale) =
    Some (merged q v tops cands res h q0, stale)"
proof -
  have lens: "length (q_core_machine q) < 2 ^ 64" "length tops < 2 ^ 64" "length cands < 2 ^ 64"
    "length res < 2 ^ 64"
    using size vec64_size(1) [of "q_core_machine q"] vec64_size(2) [of tops] vec64_size(2) [of cands]
      vec64_size(3) [of res]
    by (auto simp: path_bytes_def queues_bytes_def)
  have "list_all (\<lambda>m. unat m < length (q_is_core_machine (merge_head q v q0))) (q_core_machine q)"
    using wf wf0 by (simp add: query_wf_def merge_head_def)
  note path = get_path_bytes [OF _ lens(1) this]
  have "length (q_path_cnt q) = MACHINE_NUM" using wf by (simp add: query_wf_def)
  note path = path [OF this]
  have "q_visit_hash (merge_path q (merge_head q v q0)) = q_visit_hash q0"
    by (simp add: merge_path_def merge_head_def)
  with lens(2-4) visit show ?thesis
    by (simp add: deserialize_and_merge_def get_head_bytes [OF v room] path queues_bytes_def
        cand.rd_vec64_bytes label.rd_vec64_bytes merged_def)
qed

text \<open>What the transferred query is, for the two formats that carry a query to another machine.\<close>

definition same_query :: "QueryMsg \<Rightarrow> QueryMsg \<Rightarrow> bool" where
  "same_query q r \<longleftrightarrow> q_ef r = q_ef q \<and> q_query_id r = q_query_id q \<and>
     q_origin_machine r = q_origin_machine q \<and> q_current_node_id r = q_current_node_id q \<and>
     q_lowerBound r = q_lowerBound q \<and> q_vector_size r = q_vector_size q \<and> q_state r = q_state q \<and>
     map_option (take (unat (q_vector_size q))) (q_vector r) =
       map_option (take (unat (q_vector_size q))) (q_vector q) \<and>
     q_path_cnt r = q_path_cnt q \<and> q_max_path_id r = q_max_path_id q \<and>
     q_max_path_cnt r = q_max_path_cnt q \<and> q_path_length r = q_path_length q \<and>
     q_leader_machine r = q_leader_machine q"

lemma merged_facts:
  fixes tops :: "cand list" and res :: "(dist_t \<times> u64) list"
  assumes "query_wf q" "query_wf q0" "q_vector q = Some v0" "unat (q_vector_size q) \<le> length v0"
    and v: "v = take (unat (q_vector_size q)) v0"
    and visit: "admit (CheckAndSet fuel) (map snd cands) (q_visit_hash q0) = Some (new, h)"
    and ids: "list_all (\<lambda>c. snd c \<noteq> -1) cands"
  defines "r \<equiv> merged q v tops cands res h q0"
  shows "same_query q r" "query_wf r" "mset (q_top_candidates r) = mset tops"
    "mset (q_candidate_set r) = mset cands" "mset (q_result r) = mset res"
    "visited (q_visit_hash r) = visited (q_visit_hash q0) \<union> snd ` set cands"
    "q_core_machine r = q_core_machine q0 @ q_core_machine q"
    "\<forall>m\<in>set (q_core_machine q). q_is_core_machine r ! unat m = 1"
proof -
  have "hv_inv (q_visit_hash q0)" using assms(2) by (simp add: query_wf_def)
  with hv.admit_spec [OF this _ visit] ids have h: "hv_inv h"
    "visited h = visited (q_visit_hash q0) \<union> snd ` set cands"
    by (auto simp: list_all_iff)
  show "same_query q r"
    using assms(3,4) by (simp add: r_def v merged_def merge_path_def merge_head_def same_query_def)
  show "query_wf r"
    using assms(1,2) h(1) by (auto simp: r_def query_wf_def merged_def merge_path_def merge_head_def
        mark_all_length intro!: push_all_wf) (simp_all add: pq_wf_def)
  show "\<forall>m\<in>set (q_core_machine q). q_is_core_machine r ! unat m = 1"
    using assms(1,2) by (auto simp: r_def query_wf_def merged_def merge_path_def merge_head_def
        mark_all_nth list_all_iff)
  show "visited (q_visit_hash r) = visited (q_visit_hash q0) \<union> snd ` set cands"
    using h(2) by (simp add: r_def merged_def)
qed (simp_all add: r_def merged_def merge_path_def merge_head_def)

section \<open>Properties\<close>

text \<open>Property C9. Forking a sub-query to a core machine and merging it there reproduces the
  query: all scalar fields and the vector are equal, the result list is the leader's, the
  candidates are those the leader filtered for this machine and are all marked visited, the core
  machines are added to the receiver's and flagged, and the leader keeps its own result list.\<close>

theorem fork_merge:
  assumes "fork machine_id q = Inr (q', buf)"
    and "query_wf q" and "query_wf q0" and "vector_room q q0"
    and "list_all (\<lambda>c. snd c \<noteq> -1) (q_filterred q ! machine_id)"
    and "admit (CheckAndSet fuel) (map snd (q_filterred q ! machine_id)) (q_visit_hash q0) = Some (new, h)"
  shows "\<exists>r. deserialize_and_merge fuel q0 (buf @ stale) = Some (r, stale) \<and> same_query q r \<and> query_wf r \<and>
    mset (q_top_candidates r) = mset (q_top_candidates q) \<and>
    mset (q_candidate_set r) = mset (q_filterred q ! machine_id) \<and>
    mset (q_result r) = mset (q_result q) \<and>
    visited (q_visit_hash r) = visited (q_visit_hash q0) \<union> snd ` set (q_filterred q ! machine_id) \<and>
    q_core_machine r = q_core_machine q0 @ q_core_machine q \<and>
    (\<forall>m\<in>set (q_core_machine q). q_is_core_machine r ! unat m = 1) \<and>
    q_top_candidates q' = q_top_candidates q \<and> length buf \<le> MAX_QUERYBUFFER_SIZE"
proof -
  let ?v = "\<lambda>v0. take (unat (q_vector_size q)) v0"
  from assms(1) obtain v0 where v0: "q_vector q = Some v0" "unat (q_vector_size q) \<le> length v0"
    and buf: "buf = head_bytes q (?v v0) @ path_bytes q @
      queues_bytes (q_top_candidates q) (q_filterred q ! machine_id) (q_result q)"
    and q': "q' = q\<lparr>q_result := []\<rparr>" and size: "length buf \<le> MAX_QUERYBUFFER_SIZE"
    by (auto simp: fork_def check_size_def put_path_bytes put_vec64_bytes queues_bytes_def Let_def
        dest!: put_head_D split: sum.splits if_splits)
  note facts = merged_facts [OF assms(2,3) v0 refl assms(6,5)]
  have "deserialize_and_merge fuel q0 (buf @ stale) =
     Some (merged q (?v v0) (q_top_candidates q) (q_filterred q ! machine_id) (q_result q) h q0, stale)"
    using merge_transfer [OF size [unfolded buf] _ assms(4,2,3,6)] v0 by (simp add: buf)
  with facts q' size show ?thesis by simp
qed

definition query_example :: QueryMsg where
  "query_example = \<lparr>q_ef = 2, q_query_id = 7, q_origin_machine = 1, q_current_node_id = 0,
     q_lowerBound = Dist 9, q_visit_hash = Init (\<lambda>_. 0) 1 1, q_vector_size = 2, q_vector = Some [1, 2],
     q_state = PRE_STAGE, q_path_cnt = replicate 16 0, q_max_path_id = 0, q_max_path_cnt = 0,
     q_path_length = 0, q_leader_machine = 3, q_has_token = 0, q_token_is_black = 0,
     q_proc_is_black = 1, q_last_is_white = 1, q_global_term = 0, q_core_machine = [3],
     q_is_core_machine = replicate 16 0, q_filterred = replicate 16 [(Dist 4, 5)],
     q_filter_num = replicate 16 0, q_post_cnt = 0, q_recv_cnt = 0, q_nocore_post = 0,
     q_nocore_recv = 0, q_local_task = [], q_local_micro_task = [],
     q_top_candidates = [(Dist 9, 8), (Dist 4, 5)], q_candidate_set = [(- Dist 4, 5)], q_result = [],
     q_sync_msg = new_SyncMsg (Dist 0) 7, q_async_read_queue = [],
     q_local_res = [], q_sync_step = 0, q_is_new = True,
     q_async_read_num = 0, q_async_read_cnt = 0, q_recv_async_read_queue = [], q_con_task_queue = []\<rparr>"

lemma query_example_wf: "query_wf query_example" "vector_room query_example query_example"
  using Init_inv [of "\<lambda>_. 0" 1 1]
  by (simp_all add: query_wf_def query_example_def pq_wf_def vector_room_def config_defs less_eq_dist_t_def)

lemma query_example_visit:
  "\<exists>h. admit (CheckAndSet 0) [5] (q_visit_hash query_example) = Some ([5], h)"
proof -
  have "map_option fst (admit (CheckAndSet 0) [5] (Init (\<lambda>_. 0) 1 1)) = Some [5]" by code_simp
  then show ?thesis by (auto simp: query_example_def)
qed

lemma query_example_runs: "\<not> isl (fork 3 query_example)" "\<not> isl (serialize2 query_example)"
  "\<not> isl (QueryMsg_serialize query_example)"
  by (simp_all add: fork_def serialize2_def QueryMsg_serialize_def put_head_def query_example_def put_path_bytes
      put_vec64_bytes check_size_def path_bytes_def vec64_bytes_def len_simps state.length_enc config_defs
      less_dist_t_def uminus_dist_t_def replicate_16 Let_def)

theorem fork_merge_witness:
  "\<exists>q' buf r. fork 3 query_example = Inr (q', buf) \<and>
     deserialize_and_merge 0 query_example (buf @ [0]) = Some (r, [0]) \<and> same_query query_example r"
proof -
  obtain q' buf where run: "fork 3 query_example = Inr (q', buf)"
    using query_example_runs(1) by (cases "fork 3 query_example") auto
  obtain h where visit: "admit (CheckAndSet 0) [5] (q_visit_hash query_example) = Some ([5], h)"
    using query_example_visit by blast
  have f: "q_filterred query_example ! 3 = [(Dist 4, 5)]" by code_simp
  show ?thesis
    using run fork_merge [OF run query_example_wf(1) query_example_wf, of 0 "[5]" h "[0]"] visit
    by (auto simp: f)
qed

text \<open>Migrating a query with \<^verbatim>\<open>serialize2\<close> and merging it at the receiver moves
  the whole search state: the result list and the results arrive complete, the candidate set
  arrives without the candidates that cannot improve on the lower bound, and the sender's queues
  are empty afterwards.\<close>

theorem serialize2_merge:
  assumes "serialize2 q = Inr (q', buf)"
    and "query_wf q" and "query_wf q0" and "vector_room q q0"
    and "list_all (\<lambda>c. snd c \<noteq> -1) (q_candidate_set q)"
    and "admit (CheckAndSet fuel) (map snd [c \<leftarrow> q_candidate_set q. - fst c < q_lowerBound q])
           (q_visit_hash q0) = Some (new, h)"
  shows "\<exists>r. deserialize_and_merge fuel q0 (buf @ stale) = Some (r, stale) \<and> same_query q r \<and> query_wf r \<and>
    mset (q_top_candidates r) = mset (q_top_candidates q) \<and>
    mset (q_candidate_set r) = {#c \<in># mset (q_candidate_set q). - fst c < q_lowerBound q#} \<and>
    mset (q_result r) = mset (q_result q) \<and>
    q_top_candidates q' = [] \<and> q_candidate_set q' = [] \<and> q_result q' = [] \<and>
    length buf \<le> MAX_QUERYBUFFER_SIZE"
proof -
  let ?v = "\<lambda>v0. take (unat (q_vector_size q)) v0"
  let ?c = "[c \<leftarrow> q_candidate_set q. - fst c < q_lowerBound q]"
  from assms(1) obtain v0 where v0: "q_vector q = Some v0" "unat (q_vector_size q) \<le> length v0"
    and buf: "buf = head_bytes q (?v v0) @ path_bytes q @ queues_bytes (q_top_candidates q) ?c (q_result q)"
    and q': "q' = q\<lparr>q_top_candidates := [], q_candidate_set := [], q_result := []\<rparr>"
    and size: "length buf \<le> MAX_QUERYBUFFER_SIZE"
    by (auto simp: serialize2_def check_size_def put_path_bytes put_vec64_bytes queues_bytes_def Let_def
        dest!: put_head_D split: sum.splits if_splits)
  have "list_all (\<lambda>c. snd c \<noteq> -1) ?c" using assms(5) by (simp add: list_all_iff)
  note facts = merged_facts [OF assms(2,3) v0 refl assms(6) this]
  have "deserialize_and_merge fuel q0 (buf @ stale) =
     Some (merged q (?v v0) (q_top_candidates q) ?c (q_result q) h q0, stale)"
    using merge_transfer [OF size [unfolded buf] _ assms(4,2,3,6)] v0 by (simp add: buf)
  with facts q' size show ?thesis by simp
qed

theorem serialize2_merge_witness:
  "\<exists>q' buf r. serialize2 query_example = Inr (q', buf) \<and>
     deserialize_and_merge 0 query_example (buf @ []) = Some (r, []) \<and> same_query query_example r"
proof -
  obtain q' buf where run: "serialize2 query_example = Inr (q', buf)"
    using query_example_runs(2) by (cases "serialize2 query_example") auto
  obtain h where visit: "admit (CheckAndSet 0) [5] (q_visit_hash query_example) = Some ([5], h)"
    using query_example_visit by blast
  have f: "[c \<leftarrow> q_candidate_set query_example. - fst c < q_lowerBound query_example] = [(- Dist 4, 5)]"
    "list_all (\<lambda>c. snd c \<noteq> -1) (q_candidate_set query_example)"
    by code_simp+
  show ?thesis
    using run serialize2_merge [OF run query_example_wf(1) query_example_wf f(2), of 0 "[5]" h "[]"] visit
    unfolding f(1) by auto
qed

text \<open>The older format: a query written by \<^verbatim>\<open>serialize\<close> and read by
  \<^verbatim>\<open>deserialize\<close> into a fresh object has the same scalar fields and vector, and queues with
  the same elements; writing does not change the query.\<close>

theorem QueryMsg_roundtrip:
  assumes "QueryMsg_serialize q = Inr buf"
    and "q_vector q0 = None" and "q_top_candidates q0 = []" and "q_candidate_set q0 = []"
    and "q_result q0 = []"
  shows "\<exists>r. QueryMsg_deserialize q0 (buf @ stale) = Some (r, stale) \<and>
    q_ef r = q_ef q \<and> q_query_id r = q_query_id q \<and> q_origin_machine r = q_origin_machine q \<and>
    q_current_node_id r = q_current_node_id q \<and> q_lowerBound r = q_lowerBound q \<and>
    q_state r = q_state q \<and> q_vector r = map_option (take (unat (q_vector_size q))) (q_vector q) \<and>
    mset (q_top_candidates r) = mset (q_top_candidates q) \<and>
    mset (q_candidate_set r) = mset (q_candidate_set q) \<and> mset (q_result r) = mset (q_result q)"
proof -
  let ?v = "\<lambda>v0. take (unat (q_vector_size q)) v0"
  from assms(1) obtain v0 where v0: "q_vector q = Some v0" "unat (q_vector_size q) \<le> length v0"
    and buf: "buf = head_bytes q (?v v0) @ queues_bytes (q_top_candidates q) (q_candidate_set q) (q_result q)"
    and size: "length buf \<le> MAX_QUERYBUFFER_SIZE"
    by (auto simp: QueryMsg_serialize_def put_vec64_bytes queues_bytes_def Let_def
        dest!: put_head_D split: sum.splits if_splits)
  have lens: "length (q_top_candidates q) < 2 ^ 64" "length (q_candidate_set q) < 2 ^ 64"
    "length (q_result q) < 2 ^ 64"
    using size vec64_size(2) [of "q_top_candidates q"] vec64_size(2) [of "q_candidate_set q"]
      vec64_size(3) [of "q_result q"]
    by (auto simp: buf queues_bytes_def)
  have "get_head q0 (head_bytes q (?v v0) @ s) = Some (merge_head q (?v v0) q0, s)" for s
    by (rule get_head_bytes) (use v0 assms(2) in \<open>simp_all add: vector_room_def\<close>)
  with lens assms(2-5) v0 show ?thesis
    by (simp add: QueryMsg_deserialize_def buf queues_bytes_def cand.rd_vec64_bytes label.rd_vec64_bytes
        merge_head_def)
qed

theorem QueryMsg_roundtrip_witness:
  "\<exists>buf r. QueryMsg_serialize query_example = Inr buf \<and>
     QueryMsg_deserialize (query_example\<lparr>q_vector := None, q_top_candidates := [],
       q_candidate_set := [], q_result := []\<rparr>) (buf @ []) = Some (r, []) \<and> q_query_id r = 7"
proof -
  obtain buf where run: "QueryMsg_serialize query_example = Inr buf"
    using query_example_runs(3) by (cases "QueryMsg_serialize query_example") auto
  have "q_query_id query_example = 7" by (simp add: query_example_def)
  with run QueryMsg_roundtrip [OF run, of "query_example\<lparr>q_vector := None, q_top_candidates := [],
       q_candidate_set := [], q_result := []\<rparr>" "[]"]
  show ?thesis by auto
qed

text \<open>With a full result list the guard of the loop is \<open>fst c < lowerBound\<close> throughout.\<close>

lemma sync_candidates_full:
  "ef \<le> length tops \<Longrightarrow>
   sync_candidates ef lb cands tops = push_all fst [c \<leftarrow> cands. fst c < lb] tops"
  by (induction cands arbitrary: tops) (auto simp: sync_candidates_def push_all_def)

lemma sync_candidates_results:
  fixes cands :: "cand list"
  assumes inv: "results_inv ef M tops lb" and full: "length tops = ef" and ef: "0 < ef"
  defines "tops' \<equiv> pq_trim ef (sync_candidates ef lb cands tops)"
  shows "results_inv ef (M + mset cands) tops' (fst (pq_top tops'))" "tops' \<noteq> []"
proof -
  let ?X = "[c \<leftarrow> cands. fst c < lb]" and ?D = "[c \<leftarrow> cands. \<not> fst c < lb]"
  have wf: "pq_wf fst tops" and best: "best_of fst ef M (mset tops)" and lb: "lb = fst (pq_top tops)"
    using inv full ef by (auto simp: results_inv_def)
  have le: "fst y \<le> lb" if "y \<in># mset tops" for y
    using pq.top_max [OF wf that] lb by simp
  have t: "tops' = pq_trim ef (push_all fst ?X tops)"
    using full by (simp add: tops'_def sync_candidates_full)
  note tr = pq_trim_best [OF push_all_wf [OF wf, of ?X], of ef, folded t]
  have b1: "best_of fst ef (mset tops + mset ?X) (mset tops')"
    using tr(2) by (simp add: add.commute)
  have le': "fst y \<le> lb" if "y \<in># mset tops'" for y
    by (rule best_of_le [OF b1 _ _ _ that, where R = "mset tops"]) (use full le in simp_all)
  have size: "ef \<le> size (mset tops')" using b1 full by (simp add: best_of_def)
  have "best_of fst ef ((M + mset ?X) + mset ?D) (mset tops')"
    by (rule best_of_skip_many [OF best_of_trans [OF best b1] size le']) auto
  moreover have "mset ?X + mset ?D = mset cands"
    by (simp add: multiset_partition [of "mset cands", symmetric])
  ultimately have "best_of fst ef (M + mset cands) (mset tops')" by (simp add: union_assoc)
  with tr(1) show "results_inv ef (M + mset cands) tops' (fst (pq_top tops'))" by (simp add: results_inv_def)
  show "tops' \<noteq> []" using size ef by auto
qed

text \<open>Synchronization keeps the result list exact once it is full: if it held the
  \<open>ef\<close> nearest of everything evaluated so far, then after \<^verbatim>\<open>update_sub_query\<close> it holds the
  \<open>ef\<close> nearest of that and of the candidates of the message, and the lower bound is its
  greatest distance again; the token state is taken over exactly when the message says so, and
  the neighbour lists of this machine become local tasks.\<close>

theorem update_sub_query_results:
  assumes "results_inv (unat (q_ef q)) M (q_top_candidates q) (q_lowerBound q)"
    and "length (q_top_candidates q) = unat (q_ef q)" and "0 < unat (q_ef q)"
  shows "results_inv (unat (q_ef q)) (M + mset (sm_local_add_cand sync))
      (q_top_candidates (update_sub_query j k mid sync q)) (q_lowerBound (update_sub_query j k mid sync q)) \<and>
    q_local_micro_task (update_sub_query j k mid sync q) = q_local_micro_task q @ sm_core_micro_ngh sync ! mid \<and>
    map (\<lambda>t. (ct_offset t, ct_deg t)) (q_local_task (update_sub_query j k mid sync q)) =
      map (\<lambda>t. (ct_offset t, ct_deg t)) (q_local_task q) @ sm_core_large_ngh sync ! mid \<and>
    (q_has_token (update_sub_query j k mid sync q), q_token_is_black (update_sub_query j k mid sync q)) =
      (if sm_update_term sync \<noteq> 0 then (sm_has_token sync, sm_token_is_black sync)
       else (q_has_token q, q_token_is_black q))"
  using sync_candidates_results [OF assms, of "sm_local_add_cand sync"]
  by (simp add: update_sub_query_def local_ComputeTask_def Let_def comp_def)

theorem update_sub_query_results_witness:
  "results_inv 2 {#(Dist 9, 8), (Dist 4, 5), (Dist 3, 1)#}
     (q_top_candidates (update_sub_query (Dist 0) 0 0 (new_SyncMsg (Dist 0) 7\<lparr>sm_local_add_cand := [(Dist 3, 1)]\<rparr>) query_example))
     (q_lowerBound (update_sub_query (Dist 0) 0 0 (new_SyncMsg (Dist 0) 7\<lparr>sm_local_add_cand := [(Dist 3, 1)]\<rparr>) query_example))"
proof -
  have "results_inv (unat (q_ef query_example)) {#(Dist 9, 8), (Dist 4, 5)#}
      (q_top_candidates query_example) (q_lowerBound query_example)"
    by (simp add: query_example_def results_inv_def pq_wf_def best_of_def pq_top_def less_eq_dist_t_def)
  note run = update_sub_query_results [OF this, of "new_SyncMsg (Dist 0) 7\<lparr>sm_local_add_cand := [(Dist 3, 1)]\<rparr>" "Dist 0" 0 0]
  have "unat (q_ef query_example) = 2" "length (q_top_candidates query_example) = 2"
    by (simp_all add: query_example_def)
  with run show ?thesis by (simp add: add_mset_commute)
qed

text \<open>While the list is not full the loop can drop the nearer of two candidates, because it
  compares with the bound from before the message.\<close>

lemma sync_candidates_drops_nearer:
  "pq_trim 2 (sync_candidates 2 (Dist 1) [(Dist 5, 2), (Dist 3, 3)] [(Dist 1, 1)]) = [(Dist 5, 2), (Dist 1, 1)]"
  by code_simp

end
