(* ===== verification/Beam_Search.thy ===== *)
theory Beam_Search
  imports Query_Msg
begin

text \<open>
  The best-first search over a proximity graph, as in \<^verbatim>\<open>searchBaseLayerST\<close>,
  \<^verbatim>\<open>searchRemoteBaseLayerST\<close> and \<^verbatim>\<open>localSearchKnn\<close> of \<^verbatim>\<open>include/anns/scala_search.h\<close>
  (profiling configurations off).  The index enters through the arguments \<open>nghs\<close> (the link
  list of a node, \<^verbatim>\<open>get_linklist0\<close>) and \<open>dist\<close> (the distance of a node's vector to the
  query, \<^verbatim>\<open>fstdistfunc_\<close>).  The loop has fuel; it is proved that the number of nodes plus one
  is enough.  The lemmas are proved for any visited set that meets the contract
  \<^const>\<open>visited_set\<close> and used for the program's table.
\<close>

record ('k, 's) search_state =
  s_top :: "(dist_t \<times> 'k) list"
  s_cand :: "(dist_t \<times> 'k) list"
  s_lowerBound :: dist_t
  s_visited :: 's

datatype search_stop = OutOfFuel | Unanswered

text \<open>An evaluated neighbour: \<^verbatim>\<open>if (top_candidates.size() < ef || lowerBound > dist)\<close> it
  joins both queues.\<close>

definition consider_node :: "nat \<Rightarrow> dist_t \<Rightarrow> 'k \<Rightarrow> ('k, 's) search_state \<Rightarrow> ('k, 's) search_state" where
  "consider_node ef d v st =
     (case offer ef (d, v) (s_top st) (s_lowerBound st) of
        (taken, tops, lb) \<Rightarrow>
          st\<lparr>s_cand := if taken then pq_push fst (- d, v) (s_cand st) else s_cand st,
             s_top := tops, s_lowerBound := lb\<rparr>)"

primrec expand ::
  "('k \<Rightarrow> 's \<Rightarrow> (bool \<times> 's) option) \<Rightarrow> ('k \<Rightarrow> dist_t) \<Rightarrow> nat \<Rightarrow> 'k list \<Rightarrow> ('k, 's) search_state \<Rightarrow>
     ('k, 's) search_state option"
where
  "expand visit dist ef [] st = Some st"
| "expand visit dist ef (v # vs) st = do {
     (seen, h) \<leftarrow> visit v (s_visited st);
     let st = st\<lparr>s_visited := h\<rparr> in
     expand visit dist ef vs (if seen then st else consider_node ef (dist v) v st) }"

primrec search_loop ::
  "('k \<Rightarrow> 's \<Rightarrow> (bool \<times> 's) option) \<Rightarrow> ('k \<Rightarrow> 'k list) \<Rightarrow> ('k \<Rightarrow> dist_t) \<Rightarrow> nat \<Rightarrow> nat \<Rightarrow>
     ('k, 's) search_state \<Rightarrow> search_stop + ('k, 's) search_state"
where
  "search_loop visit nghs dist ef 0 st = Inl OutOfFuel"
| "search_loop visit nghs dist ef (Suc fuel) st =
     (if s_cand st = [] then Inr st
      else
        let current = pq_top (s_cand st) in
        if - fst current > s_lowerBound st then Inr st
        else
          case expand visit dist ef (nghs (snd current)) (st\<lparr>s_cand := pq_pop (s_cand st)\<rparr>) of
            None \<Rightarrow> Inl Unanswered
          | Some st' \<Rightarrow> search_loop visit nghs dist ef fuel st')"

definition search_init ::
  "('k \<Rightarrow> 's \<Rightarrow> (bool \<times> 's) option) \<Rightarrow> ('k \<Rightarrow> dist_t) \<Rightarrow> 'k \<Rightarrow> 's \<Rightarrow> ('k, 's) search_state option" where
  "search_init visit dist ep h = do {
     (_, h) \<leftarrow> visit ep h;
     Some \<lparr>s_top = pq_push fst (dist ep, ep) [], s_cand = pq_push fst (- dist ep, ep) [],
       s_lowerBound = dist ep, s_visited = h\<rparr> }"

definition beam_search ::
  "('k \<Rightarrow> 's \<Rightarrow> (bool \<times> 's) option) \<Rightarrow> 's \<Rightarrow> ('k \<Rightarrow> 'k list) \<Rightarrow> ('k \<Rightarrow> dist_t) \<Rightarrow> nat \<Rightarrow> nat \<Rightarrow> 'k \<Rightarrow>
     search_stop + ('k, 's) search_state" where
  "beam_search visit h nghs dist fuel ef ep =
     (case search_init visit dist ep h of
        None \<Rightarrow> Inl Unanswered
      | Some st \<Rightarrow> search_loop visit nghs dist ef fuel st)"

text \<open>The program's search.  \<open>h\<close> is the local variable \<^verbatim>\<open>vis_hash\<close> as its constructor leaves
  it, an empty table; the growth of the table has the fuel \<open>vf\<close>.\<close>

definition searchBaseLayerST ::
  "nat \<Rightarrow> OptHashPosVector \<Rightarrow> (u32 \<Rightarrow> u32 list) \<Rightarrow> (u32 \<Rightarrow> dist_t) \<Rightarrow> nat \<Rightarrow> nat \<Rightarrow> u32 \<Rightarrow>
     search_stop + (u32, OptHashPosVector) search_state" where
  "searchBaseLayerST vf h nghs dist fuel ef ep =
     beam_search (CheckAndSet vf) h nghs dist fuel ef ep"

text \<open>\<^verbatim>\<open>searchRemoteBaseLayerST\<close> runs the same search on the queues and the visited set of a
  \<^verbatim>\<open>QueryMsg\<close>; the link list and the vector of a node are fetched from the machine that owns it.\<close>

definition searchRemoteBaseLayerST ::
  "nat \<Rightarrow> OptHashPosVector \<Rightarrow> (u32 \<Rightarrow> u32 list) \<Rightarrow> (u32 \<Rightarrow> dist_t) \<Rightarrow> nat \<Rightarrow> nat \<Rightarrow> u32 \<Rightarrow>
     search_stop + cand list" where
  "searchRemoteBaseLayerST vf h fetch_nghs fetch_dist fuel ef ep =
     (case beam_search (CheckAndSet vf) h fetch_nghs fetch_dist fuel ef ep of
        Inl e \<Rightarrow> Inl e
      | Inr query \<Rightarrow> Inr (s_top query))"

text \<open>The greedy descent of \<^verbatim>\<open>localSearchKnn\<close> through the upper layers.  One pass over the
  link list of the node the pass started from; the pass is repeated while it moves, the layer is
  left otherwise.  A neighbour above \<^verbatim>\<open>max_elements_\<close> throws (\<^const>\<open>None\<close>).\<close>

primrec descend_pass ::
  "(u32 \<Rightarrow> dist_t) \<Rightarrow> u32 \<Rightarrow> u32 list \<Rightarrow> u32 \<times> dist_t \<times> bool \<Rightarrow> (u32 \<times> dist_t \<times> bool) option" where
  "descend_pass dist max_elements [] cur = Some cur"
| "descend_pass dist max_elements (c # cs) cur =
     (if c > max_elements then None
      else descend_pass dist max_elements cs
             (if dist c < fst (snd cur) then (c, dist c, True) else cur))"

primrec descend_level ::
  "nat \<Rightarrow> (u32 \<Rightarrow> u32 list) \<Rightarrow> (u32 \<Rightarrow> dist_t) \<Rightarrow> u32 \<Rightarrow> u32 \<Rightarrow> dist_t \<Rightarrow> (u32 \<times> dist_t) option" where
  "descend_level 0 links dist max_elements obj d = None"
| "descend_level (Suc fuel) links dist max_elements obj d =
     (case descend_pass dist max_elements (links obj) (obj, d, False) of
        None \<Rightarrow> None
      | Some (obj', d', changed) \<Rightarrow>
          if changed then descend_level fuel links dist max_elements obj' d' else Some (obj', d'))"

primrec descend ::
  "nat \<Rightarrow> (nat \<Rightarrow> u32 \<Rightarrow> u32 list) \<Rightarrow> (u32 \<Rightarrow> dist_t) \<Rightarrow> u32 \<Rightarrow> nat \<Rightarrow> u32 \<Rightarrow> dist_t \<Rightarrow> (u32 \<times> dist_t) option"
where
  "descend fuel links dist max_elements 0 obj d = Some (obj, d)"
| "descend fuel links dist max_elements (Suc level) obj d = do {
     (obj, d) \<leftarrow> descend_level fuel (links (Suc level)) dist max_elements obj d;
     descend fuel links dist max_elements level obj d }"

text \<open>\<^verbatim>\<open>localSearchKnn\<close>: the descent, the base layer search with \<^verbatim>\<open>max(ef_, k)\<close>, the cut to
  \<open>k\<close> and the labels.  \<open>links 0\<close> is the base layer.\<close>

definition localSearchKnn ::
  "nat \<Rightarrow> OptHashPosVector \<Rightarrow> (nat \<Rightarrow> u32 \<Rightarrow> u32 list) \<Rightarrow> (u32 \<Rightarrow> dist_t) \<Rightarrow> (u32 \<Rightarrow> u64) \<Rightarrow> u32 \<Rightarrow> nat \<Rightarrow> u32 \<Rightarrow> nat \<Rightarrow>
     nat \<Rightarrow> nat \<Rightarrow> nat \<Rightarrow> (dist_t \<times> u64) list option" where
  "localSearchKnn vf h links dist label max_elements maxlevel ep cnt fuel ef k =
     (if cnt = 0 then Some []
      else do {
        (obj, d) \<leftarrow> descend fuel links dist max_elements maxlevel ep (dist ep);
        case searchBaseLayerST vf h (links 0) dist fuel (max ef k) obj of
          Inl _ \<Rightarrow> None
        | Inr st \<Rightarrow>
            let tops = pq_trim k (s_top st)
            in Some (push_all result_key (map (\<lambda>rez. (fst rez, label (snd rez))) (pq_drain tops)) []) })"

section \<open>The invariant\<close>

definition evaluated :: "('k \<Rightarrow> dist_t) \<Rightarrow> 'k set \<Rightarrow> (dist_t \<times> 'k) multiset" where
  "evaluated dist V = image_mset (\<lambda>v. (dist v, v)) (mset_set V)"

lemma evaluated_insert:
  "finite V \<Longrightarrow> v \<notin> V \<Longrightarrow> evaluated dist (insert v V) = add_mset (dist v, v) (evaluated dist V)"
  by (simp add: evaluated_def)

text \<open>The results are the \<open>ef\<close> nearest of the visited nodes; the candidates are visited nodes
  with their negated distances, and there are at most as many as visited nodes; a result whose
  neighbours are not all visited is still a candidate (except the node \<open>cur\<close> being expanded).\<close>

definition search_inv ::
  "('k \<Rightarrow> 'k list) \<Rightarrow> ('k \<Rightarrow> dist_t) \<Rightarrow> nat \<Rightarrow> 'k set \<Rightarrow> 'k option \<Rightarrow> nat \<Rightarrow> ('k, 's) search_state \<Rightarrow> bool" where
  "search_inv nghs dist ef V cur pops st \<longleftrightarrow>
     finite V \<and> results_inv ef (evaluated dist V) (s_top st) (s_lowerBound st) \<and>
     pq_wf fst (s_cand st) \<and>
     (\<forall>c\<in>set (s_cand st). snd c \<in> V \<and> fst c = - dist (snd c)) \<and>
     pops + length (s_cand st) \<le> card V \<and>
     (\<forall>x\<in>set (s_top st). Some (snd x) = cur \<or> set (nghs (snd x)) \<subseteq> V \<or> snd x \<in> snd ` set (s_cand st))"

lemma offer_set:
  assumes "offer ef c q lb = (taken, q', lb')"
  shows "set q' \<subseteq> insert c (set q)" "c \<in> set q' \<Longrightarrow> c \<notin> set q \<Longrightarrow> taken"
proof -
  have "set (pq_trim ef (pq_push fst c q)) \<subseteq> insert c (set q)"
  proof -
    have "set (pq_trim ef q) \<subseteq> set q" for q :: "('a \<times> 'b) list"
      by (induction ef q rule: pq_trim.induct) (metis pq_pop_def pq_trim.simps list.set_sel(2) list.size(3) not_less_zero subset_eq)
    moreover have "set (pq_push fst c q) = insert c (set q)"
      using pq.elems_push [of fst c q] by (metis set_mset_add_mset_insert set_mset_mset)
    ultimately show ?thesis by metis
  qed
  then show "set q' \<subseteq> insert c (set q)" "c \<in> set q' \<Longrightarrow> c \<notin> set q \<Longrightarrow> taken"
    using assms by (auto simp: offer_def Let_def split: if_splits)
qed

lemma consider_node_inv:
  assumes inv: "search_inv nghs dist ef V cur pops st" and v: "v \<notin> V" and ef: "0 < ef"
  shows "search_inv nghs dist ef (insert v V) cur pops (consider_node ef (dist v) v st)"
proof -
  obtain taken q lb where o: "offer ef (dist v, v) (s_top st) (s_lowerBound st) = (taken, q, lb)"
    by (metis prod_cases3)
  let ?st = "consider_node ef (dist v) v st"
  have st: "s_top ?st = q" "s_lowerBound ?st = lb"
    "s_cand ?st = (if taken then pq_push fst (- dist v, v) (s_cand st) else s_cand st)"
    by (simp_all add: consider_node_def o)
  have V: "finite V" and top: "results_inv ef (evaluated dist V) (s_top st) (s_lowerBound st)"
    using inv by (simp_all add: search_inv_def)
  have cand: "set (s_cand ?st) = (if taken then insert (- dist v, v) (set (s_cand st)) else set (s_cand st))"
    using pq.elems_push [of fst "(- dist v, v)" "s_cand st"]
    by (simp add: st) (metis set_mset_add_mset_insert set_mset_mset)
  have "\<forall>c\<in>set (s_cand ?st). snd c \<in> insert v V \<and> fst c = - dist (snd c)"
    using inv unfolding cand by (auto simp: search_inv_def)
  moreover have "\<forall>x\<in>set q. Some (snd x) = cur \<or> set (nghs (snd x)) \<subseteq> insert v V \<or> snd x \<in> snd ` set (s_cand ?st)"
  proof
    fix x assume "x \<in> set q"
    then consider "x \<in> set (s_top st)" | "taken" "x = (dist v, v)"
      using offer_set [OF o] by blast
    then show "Some (snd x) = cur \<or> set (nghs (snd x)) \<subseteq> insert v V \<or> snd x \<in> snd ` set (s_cand ?st)"
    proof cases
      case 1
      with inv have "Some (snd x) = cur \<or> set (nghs (snd x)) \<subseteq> V \<or> snd x \<in> snd ` set (s_cand st)"
        by (simp add: search_inv_def)
      then show ?thesis unfolding cand by auto
    next
      case 2
      then show ?thesis unfolding cand by simp
    qed
  qed
  moreover have "results_inv ef (evaluated dist (insert v V)) q lb"
    using offer_results [OF top ef o] by (simp add: evaluated_insert [OF V v])
  moreover have "pq_wf fst (s_cand ?st)"
    using inv by (simp add: st search_inv_def pq.push_ok)
  moreover have "pops + length (s_cand ?st) \<le> card (insert v V)"
    using inv V v by (simp add: st search_inv_def)
  ultimately show ?thesis
    using V by (simp add: search_inv_def st)
qed

context visited_set
begin

lemma expand_inv:
  assumes "search_inv nghs dist ef (abs (s_visited st)) cur pops st" "ok (s_visited st)"
    and "expand visit dist ef vs st = Some st'" "0 < ef" "list_all key vs"
  shows "search_inv nghs dist ef (abs (s_visited st')) cur pops st' \<and> ok (s_visited st') \<and>
    abs (s_visited st') = abs (s_visited st) \<union> set vs"
  using assms
proof (induction vs arbitrary: st)
  case (Cons v vs)
  then obtain seen h where v: "visit v (s_visited st) = Some (seen, h)"
    and rest: "expand visit dist ef vs (if seen then st\<lparr>s_visited := h\<rparr>
       else consider_node ef (dist v) v (st\<lparr>s_visited := h\<rparr>)) = Some st'"
    by (auto simp: Let_def split: bind_splits)
  have key: "key v" using Cons.prems(5) by simp
  note vis = visit_ok [OF Cons.prems(2) key v] visit_abs [OF Cons.prems(2) key v] visit_seen [OF Cons.prems(2) key v]
  let ?st = "if seen then st\<lparr>s_visited := h\<rparr> else consider_node ef (dist v) v (st\<lparr>s_visited := h\<rparr>)"
  have h: "s_visited ?st = h"
    by (auto simp: consider_node_def split: prod.splits)
  have "search_inv nghs dist ef (abs (s_visited st)) cur pops (st\<lparr>s_visited := h\<rparr>)"
    using Cons.prems(1) by (simp add: search_inv_def)
  then have "search_inv nghs dist ef (abs h) cur pops ?st"
    using vis(2,3) consider_node_inv [OF _ _ Cons.prems(4)] by (auto simp: insert_absorb)
  with Cons.IH [of ?st] rest Cons.prems(4,5) vis h show ?case by auto
qed (auto)


lemma pop_inv:
  assumes inv: "search_inv nghs dist ef V None pops st" and ne: "s_cand st \<noteq> []"
  shows "search_inv nghs dist ef V (Some (snd (pq_top (s_cand st)))) (Suc pops) (st\<lparr>s_cand := pq_pop (s_cand st)\<rparr>)"
proof -
  obtain c q where q: "s_cand st = c # q" using ne by (cases "s_cand st") auto
  with inv show ?thesis
    using pq.pop_ok [of fst "s_cand st"] by (auto simp: search_inv_def pq_top_def pq_pop_def)
qed

lemma step_inv:
  assumes inv: "search_inv nghs dist ef (abs (s_visited st)) None pops st" and ne: "s_cand st \<noteq> []"
    and ok: "ok (s_visited st)" and ef: "0 < ef" and keys: "\<And>v. list_all key (nghs v)"
    and run: "expand visit dist ef (nghs (snd (pq_top (s_cand st)))) (st\<lparr>s_cand := pq_pop (s_cand st)\<rparr>) = Some st'"
  shows "search_inv nghs dist ef (abs (s_visited st')) None (Suc pops) st' \<and> ok (s_visited st') \<and>
    abs (s_visited st') = abs (s_visited st) \<union> set (nghs (snd (pq_top (s_cand st))))"
proof -
  let ?v = "snd (pq_top (s_cand st))"
  note e = expand_inv [where nghs = nghs and cur = "Some ?v" and pops = "Suc pops", OF _ _ run ef keys]
  from e pop_inv [OF inv ne] ok
  have "search_inv nghs dist ef (abs (s_visited st')) (Some ?v) (Suc pops) st'" "ok (s_visited st')"
    "abs (s_visited st') = abs (s_visited st) \<union> set (nghs ?v)"
    by auto
  then show ?thesis by (auto simp: search_inv_def)
qed

lemma loop_result:
  assumes "search_inv nghs dist ef (abs (s_visited st)) None pops st" "ok (s_visited st)" "0 < ef"
    "\<And>v. list_all key (nghs v)" "search_loop visit nghs dist ef fuel st = Inr st'"
  shows "\<exists>pops'. search_inv nghs dist ef (abs (s_visited st')) None pops' st' \<and> ok (s_visited st') \<and>
    (s_cand st' = [] \<or> - fst (pq_top (s_cand st')) > s_lowerBound st') \<and> abs (s_visited st) \<subseteq> abs (s_visited st')"
  using assms
proof (induction fuel arbitrary: st pops)
  case (Suc fuel)
  show ?case
  proof (cases "s_cand st = [] \<or> - fst (pq_top (s_cand st)) > s_lowerBound st")
    case True
    with Suc.prems(5) have "st' = st" by (auto simp: Let_def split: if_splits)
    with True Suc.prems show ?thesis by blast
  next
    case False
    with Suc.prems(5) obtain st1 where
      run: "expand visit dist ef (nghs (snd (pq_top (s_cand st)))) (st\<lparr>s_cand := pq_pop (s_cand st)\<rparr>) = Some st1"
      and rest: "search_loop visit nghs dist ef fuel st1 = Inr st'"
      by (auto simp: Let_def split: option.splits)
    from step_inv [OF Suc.prems(1) _ Suc.prems(2-4) run] False
    have "search_inv nghs dist ef (abs (s_visited st1)) None (Suc pops) st1" "ok (s_visited st1)"
      "abs (s_visited st) \<subseteq> abs (s_visited st1)" by auto
    with Suc.IH [OF this(1,2) Suc.prems(3,4) rest] show ?thesis by blast
  qed
qed simp

lemma loop_fuel:
  assumes "search_inv nghs dist ef (abs (s_visited st)) None pops st" "ok (s_visited st)" "0 < ef"
    "\<And>v. list_all key (nghs v)" and W: "finite W" "abs (s_visited st) \<subseteq> W" "\<And>v. v \<in> W \<Longrightarrow> set (nghs v) \<subseteq> W"
    and fuel: "card W < fuel + pops"
  shows "search_loop visit nghs dist ef fuel st \<noteq> Inl OutOfFuel"
  using assms(1-4) W(2) fuel
proof (induction fuel arbitrary: st pops)
  case 0
  then have "pops \<le> card W"
    using card_mono [OF W(1) 0(5)] by (simp add: search_inv_def)
  with 0 show ?case by simp
next
  case (Suc fuel)
  show ?case
  proof (cases "s_cand st = [] \<or> - fst (pq_top (s_cand st)) > s_lowerBound st")
    case False
    let ?v = "snd (pq_top (s_cand st))"
    have "?v \<in> W"
      using Suc.prems(1,5) False pq.top_in [of "s_cand st"] by (auto simp: search_inv_def)
    then have vW: "set (nghs ?v) \<subseteq> W" by (rule W(3))
    show ?thesis
    proof (cases "expand visit dist ef (nghs ?v) (st\<lparr>s_cand := pq_pop (s_cand st)\<rparr>)")
      case (Some st1)
      from step_inv [OF Suc.prems(1) _ Suc.prems(2-4) Some] False vW Suc.prems(5)
      have "search_inv nghs dist ef (abs (s_visited st1)) None (Suc pops) st1" "ok (s_visited st1)"
        "abs (s_visited st1) \<subseteq> W" by auto
      from Suc.IH [OF this(1,2) Suc.prems(3,4) this(3)] Suc.prems(6) Some False show ?thesis
        by (simp add: Let_def)
    qed (use False in \<open>simp add: Let_def\<close>)
  qed (auto simp: Let_def)
qed

text \<open>Only nodes that the links lead to are visited.\<close>

lemma loop_within:
  assumes "search_inv nghs dist ef (abs (s_visited st)) None pops st" "ok (s_visited st)" "0 < ef"
    "\<And>v. list_all key (nghs v)" "search_loop visit nghs dist ef fuel st = Inr st'"
    and W: "abs (s_visited st) \<subseteq> W" "\<And>v. v \<in> W \<Longrightarrow> set (nghs v) \<subseteq> W"
  shows "abs (s_visited st') \<subseteq> W"
  using assms(1-5) W(1)
proof (induction fuel arbitrary: st pops)
  case (Suc fuel)
  show ?case
  proof (cases "s_cand st = [] \<or> - fst (pq_top (s_cand st)) > s_lowerBound st")
    case True
    with Suc.prems(5,6) show ?thesis by (auto simp: Let_def split: if_splits)
  next
    case False
    let ?v = "snd (pq_top (s_cand st))"
    from False Suc.prems(5) obtain st1 where
      run: "expand visit dist ef (nghs ?v) (st\<lparr>s_cand := pq_pop (s_cand st)\<rparr>) = Some st1"
      and rest: "search_loop visit nghs dist ef fuel st1 = Inr st'"
      by (auto simp: Let_def split: option.splits)
    have "?v \<in> W"
      using Suc.prems(1,6) False pq.top_in [of "s_cand st"] by (auto simp: search_inv_def)
    then have "set (nghs ?v) \<subseteq> W" by (rule W(2))
    with step_inv [OF Suc.prems(1) _ Suc.prems(2-4) run] False Suc.prems(6)
    have "search_inv nghs dist ef (abs (s_visited st1)) None (Suc pops) st1" "ok (s_visited st1)"
      "abs (s_visited st1) \<subseteq> W" by auto
    with Suc.IH [OF this(1,2) Suc.prems(3,4) rest] show ?thesis by blast
  qed
qed simp

lemma init_inv:
  assumes "ok h" "abs h = {}" "key ep" "0 < ef" "search_init visit dist ep h = Some st"
  shows "search_inv nghs dist ef (abs (s_visited st)) None 0 st \<and> ok (s_visited st) \<and> abs (s_visited st) = {ep}"
proof -
  from assms(5) obtain b h' where v: "visit ep h = Some (b, h')"
    and st: "st = \<lparr>s_top = [(dist ep, ep)], s_cand = [(- dist ep, ep)], s_lowerBound = dist ep, s_visited = h'\<rparr>"
    by (auto simp: search_init_def split: bind_splits)
  note vis = visit_ok [OF assms(1,3) v] visit_abs [OF assms(1,3) v]
  have "best_of fst ef {#(dist ep, ep)#} {#(dist ep, ep)#}"
    using assms(4) by (intro best_of_refl) simp
  with vis assms(2) show ?thesis
    by (simp add: st search_inv_def results_inv_def evaluated_def pq_wf_def pq_top_def)
qed

end

lemma dist_neg_le:
  assumes "Dist 0 \<le> a" "Dist 0 \<le> b" "- a \<le> - b"
  shows "b \<le> a"
proof -
  have neg: "sint (- dist_bits c) = - sint (dist_bits c)" if "Dist 0 \<le> c" for c
  proof -
    have nn: "0 \<le> sint (dist_bits c)" using that by (simp add: less_eq_dist_t_def)
    have lt: "sint (dist_bits c) < 2 ^ 31" using sint_lt [of "dist_bits c"] by simp
    have "sint (word_of_int k :: u32) = signed_take_bit 31 k" for k
      by (simp add: signed_of_int)
    from this [of "- sint (dist_bits c)"] nn lt show ?thesis
      by (simp add: signed_take_bit_int_eq_self)
  qed
  show ?thesis
    using assms neg [OF assms(1)] neg [OF assms(2)] by (simp add: less_eq_dist_t_def uminus_dist_t_def)
qed

lemma evaluated_dist: "x \<in># evaluated dist V \<Longrightarrow> fst x = dist (snd x) \<and> (finite V \<longrightarrow> snd x \<in> V)"
  by (auto simp: evaluated_def)

text \<open>At the end every result has been expanded.\<close>

lemma results_closed:
  assumes inv: "search_inv nghs dist ef V None pops st"
    and stop: "s_cand st = [] \<or> - fst (pq_top (s_cand st)) > s_lowerBound st"
    and nonneg: "\<And>v. Dist 0 \<le> dist v" and x: "x \<in> set (s_top st)"
  shows "set (nghs (snd x)) \<subseteq> V"
proof (rule ccontr)
  assume "\<not> ?thesis"
  with inv x have cand: "snd x \<in> snd ` set (s_cand st)" by (auto simp: search_inv_def)
  then obtain c where c: "c \<in> set (s_cand st)" "snd c = snd x" by auto
  have ne: "s_cand st \<noteq> []" using c by auto
  let ?t = "pq_top (s_cand st)"
  have wf: "pq_wf fst (s_cand st)" and neg: "\<And>c. c \<in> set (s_cand st) \<Longrightarrow> fst c = - dist (snd c)"
    using inv by (auto simp: search_inv_def)
  have t: "?t \<in> set (s_cand st)" using pq.top_in [of "s_cand st"] ne by simp
  have "fst c \<le> fst ?t" using pq.top_max [OF wf] c(1) by simp
  then have le: "dist (snd ?t) \<le> dist (snd x)"
    using neg [OF c(1)] neg [OF t] c(2) dist_neg_le [OF nonneg nonneg] by simp
  have top: "results_inv ef (evaluated dist V) (s_top st) (s_lowerBound st)"
    using inv by (simp add: search_inv_def)
  have "fst x \<le> s_lowerBound st"
    using top x pq.top_max [of fst "s_top st" x] by (auto simp: results_inv_def)
  moreover have "x \<in># evaluated dist V"
    using top x mset_subset_eqD [of "mset (s_top st)" "evaluated dist V" x] by (auto simp: results_inv_def best_of_def)
  then have "fst x = dist (snd x)" using evaluated_dist by blast
  ultimately have "dist (snd ?t) \<le> s_lowerBound st" using le by simp
  with stop ne neg [OF t] show False by simp
qed

section \<open>Properties\<close>

lemma searchBaseLayerST_inv:
  assumes "hv_inv h" "visited h = {}" "searchBaseLayerST vf h nghs dist fuel ef ep = Inr st" "0 < ef" "ep \<noteq> -1"
    "\<And>v. -1 \<notin> set (nghs v)"
  shows "\<exists>pops. search_inv nghs dist ef (visited (s_visited st)) None pops st \<and> hv_inv (s_visited st) \<and>
    (s_cand st = [] \<or> - fst (pq_top (s_cand st)) > s_lowerBound st) \<and> ep \<in> visited (s_visited st)"
proof -
  from assms(3) obtain st0 where st0: "search_init (CheckAndSet vf) dist ep h = Some st0"
    and run: "search_loop (CheckAndSet vf) nghs dist ef fuel st0 = Inr st"
    by (auto simp: searchBaseLayerST_def beam_search_def split: option.splits)
  have init: "search_inv nghs dist ef (visited (s_visited st0)) None 0 st0" "hv_inv (s_visited st0)"
    "visited (s_visited st0) = {ep}"
    using hv.init_inv [OF assms(1,2,5,4) st0, of nghs] by auto
  have keys: "list_all (\<lambda>i. i \<noteq> -1) (nghs v)" for v using assms(6) [of v] by (auto simp: list_all_iff)
  from hv.loop_result [OF init(1,2) assms(4) keys run] init(3) show ?thesis by auto
qed

lemma searchBaseLayerST_ok:
  assumes "hv_inv h" and "visited h = {}" and "searchBaseLayerST vf h nghs dist fuel ef ep = Inr st"
    and "0 < ef" and "ep \<noteq> -1" and "\<And>v. -1 \<notin> set (nghs v)" and "\<And>v. Dist 0 \<le> dist v"
  shows "results_inv ef (evaluated dist (visited (s_visited st))) (s_top st) (s_lowerBound st) \<and>
    ep \<in> visited (s_visited st) \<and> finite (visited (s_visited st)) \<and>
    (\<forall>x\<in>set (s_top st). fst x = dist (snd x) \<and> set (nghs (snd x)) \<subseteq> visited (s_visited st))"
proof -
  obtain pops where inv: "search_inv nghs dist ef (visited (s_visited st)) None pops st"
    and stop: "s_cand st = [] \<or> - fst (pq_top (s_cand st)) > s_lowerBound st"
    and ep: "ep \<in> visited (s_visited st)"
    using searchBaseLayerST_inv [OF assms(1-6)] by blast
  have top: "results_inv ef (evaluated dist (visited (s_visited st))) (s_top st) (s_lowerBound st)"
    and fin: "finite (visited (s_visited st))"
    using inv by (simp_all add: search_inv_def)
  have "fst x = dist (snd x)" if "x \<in> set (s_top st)" for x
    using top that mset_subset_eqD [of "mset (s_top st)" "evaluated dist (visited (s_visited st))" x]
      evaluated_dist [of x dist] by (auto simp: results_inv_def best_of_def)
  with top fin ep results_closed [OF inv stop assms(7)] show ?thesis by blast
qed

text \<open>Property C3. The search returns the \<open>ef\<close> nearest of all nodes it has visited, each
  visited node having been evaluated exactly once, with the lower bound equal to the greatest
  distance returned; and it is locally complete: all neighbours of a returned node have been
  visited, so none of them is nearer than the farthest result without being a result.\<close>

theorem searchBaseLayerST_results:
  assumes "hv_inv h" and "visited h = {}" and "searchBaseLayerST vf h nghs dist fuel ef ep = Inr st"
    and "0 < ef" and "ep \<noteq> -1" and "\<And>v. -1 \<notin> set (nghs v)" and "\<And>v. Dist 0 \<le> dist v"
  shows "results_inv ef (evaluated dist (visited (s_visited st))) (s_top st) (s_lowerBound st) \<and>
    ep \<in> visited (s_visited st) \<and> finite (visited (s_visited st)) \<and>
    (\<forall>x\<in>set (s_top st). fst x = dist (snd x) \<and> set (nghs (snd x)) \<subseteq> visited (s_visited st))"
  by (rule searchBaseLayerST_ok [OF assms])

definition path_graph :: "u32 \<Rightarrow> u32 list" where
  "path_graph v = (if v = 0 then [1] else if v = 1 then [0, 2] else if v = 2 then [1] else [])"

definition path_dist :: "u32 \<Rightarrow> dist_t" where
  "path_dist v = (if v = 0 then Dist 9 else if v = 1 then Dist 4 else Dist 1)"

lemma path_facts: "-1 \<notin> set (path_graph v)" "Dist 0 \<le> path_dist v"
  by (auto simp: path_graph_def path_dist_def less_eq_dist_t_def split: if_splits)

lemma path_search:
  "(case searchBaseLayerST 0 (Init (\<lambda>_. 0) 1 2) path_graph path_dist 4 2 0 of
      Inr st \<Rightarrow> s_top st = [(Dist 4, 1), (Dist 1, 2)] | Inl _ \<Rightarrow> False)"
  by code_simp

theorem searchBaseLayerST_results_witness:
  "\<exists>st. searchBaseLayerST 0 (Init (\<lambda>_. 0) 1 2) path_graph path_dist 4 2 0 = Inr st \<and>
     s_top st = [(Dist 4, 1), (Dist 1, 2)] \<and>
     results_inv 2 (evaluated path_dist (visited (s_visited st))) (s_top st) (s_lowerBound st)"
proof -
  obtain st where run: "searchBaseLayerST 0 (Init (\<lambda>_. 0) 1 2) path_graph path_dist 4 2 0 = Inr st"
    and top: "s_top st = [(Dist 4, 1), (Dist 1, 2)]"
    using path_search by (auto split: sum.splits)
  have "results_inv 2 (evaluated path_dist (visited (s_visited st))) (s_top st) (s_lowerBound st)"
    using searchBaseLayerST_results [OF _ _ run _ _ path_facts] Init_inv [of "\<lambda>_. 0" 1 2] by simp
  with run top show ?thesis by blast
qed

text \<open>Property C35. The search loop ends: on a finite graph the number of nodes plus one is
  enough fuel, for every \<open>ef\<close> and entry point, so the only way not to return is a visited set
  that does not answer.\<close>

theorem searchBaseLayerST_terminates:
  assumes "hv_inv h" and "visited h = {}" and "0 < ef" and "finite W" and "ep \<in> W" and "-1 \<notin> W"
    and "\<And>v. v \<in> W \<Longrightarrow> set (nghs v) \<subseteq> W" and "\<And>v. -1 \<notin> set (nghs v)" and "card W < fuel"
  shows "searchBaseLayerST vf h nghs dist fuel ef ep \<noteq> Inl OutOfFuel"
proof (cases "search_init (CheckAndSet vf) dist ep h")
  case (Some st)
  have ep: "ep \<noteq> -1" using assms(5,6) by auto
  have init: "search_inv nghs dist ef (visited (s_visited st)) None 0 st" "hv_inv (s_visited st)"
    "visited (s_visited st) = {ep}"
    using hv.init_inv [OF assms(1,2) ep assms(3) Some, of nghs] by auto
  have keys: "list_all (\<lambda>i. i \<noteq> -1) (nghs v)" for v using assms(8) [of v] by (auto simp: list_all_iff)
  have "search_loop (CheckAndSet vf) nghs dist ef fuel st \<noteq> Inl OutOfFuel"
    by (rule hv.loop_fuel [OF init(1,2) assms(3) keys assms(4) _ assms(7)]) (use init(3) assms(5,9) in auto)
  with Some show ?thesis by (simp add: searchBaseLayerST_def beam_search_def)
qed (simp add: searchBaseLayerST_def beam_search_def)

theorem searchBaseLayerST_terminates_witness:
  "searchBaseLayerST 0 (Init (\<lambda>_. 0) 1 2) path_graph path_dist 4 2 0 \<noteq> Inl OutOfFuel"
proof (rule searchBaseLayerST_terminates [where W = "{0, 1, 2}"])
  show "card ({0, 1, 2} :: u32 set) < 4"
    using card_insert_le_m1 [of 3 "{1, 2 :: u32}" 0] by (simp add: card_insert_if)
qed (use Init_inv [of "\<lambda>_. 0" 1 2] path_facts(1) in \<open>auto simp: path_graph_def\<close>)

lemma descend_pass_changed [simp]: "descend_pass dist mx cs (u, e, True) \<noteq> Some (w, f, False)"
  by (induction cs arbitrary: u e) auto

lemma descend_pass_min:
  "descend_pass dist mx cs (v, e, False) = Some (w, f, False) \<Longrightarrow> \<forall>c\<in>set cs. e \<le> dist c"
  by (induction cs) (auto simp: not_less split: if_splits)

lemma descend_pass_result:
  "descend_pass dist mx cs (obj, d, ch) = Some (obj', d', ch') \<Longrightarrow> d = dist obj \<Longrightarrow>
     d' = dist obj' \<and> d' \<le> d \<and> (\<not> ch \<longrightarrow> (if ch' then d' < d else obj' = obj)) \<and> obj' \<in> insert obj (set cs)"
proof (induction cs arbitrary: obj d ch)
  case (Cons c cs)
  show ?case
  proof (cases "dist c < d")
    case True
    with Cons.prems have "descend_pass dist mx cs (c, dist c, True) = Some (obj', d', ch')"
      by (auto split: if_splits)
    from Cons.IH [OF this] have c: "d' = dist obj'" "d' \<le> dist c" "obj' \<in> insert c (set cs)" by auto
    moreover have "ch'"
      using \<open>descend_pass dist mx cs (c, dist c, True) = Some (obj', d', ch')\<close> by (cases ch') auto
    ultimately show ?thesis using True by auto
  next
    case False
    with Cons.prems Cons.IH [of obj d ch] show ?thesis by (auto split: if_splits)
  qed
qed auto

lemma descend_level_result:
  "descend_level fuel links dist mx obj d = Some (obj', d') \<Longrightarrow> d = dist obj \<Longrightarrow>
     d' = dist obj' \<and> d' \<le> d \<and> (\<forall>c\<in>set (links obj'). d' \<le> dist c)"
proof (induction fuel arbitrary: obj d)
  case (Suc fuel)
  obtain o1 d1 ch where p: "descend_pass dist mx (links obj) (obj, d, False) = Some (o1, d1, ch)"
    using Suc.prems(1) by (auto split: option.splits)
  note r = descend_pass_result [OF p Suc.prems(2)]
  show ?case
  proof (cases ch)
    case True
    with Suc.prems(1) p have "descend_level fuel links dist mx o1 d1 = Some (obj', d')" by simp
    from Suc.IH [OF this] r show ?thesis by auto
  next
    case False
    with p have "\<forall>c\<in>set (links obj). d \<le> dist c" using descend_pass_min [of dist mx "links obj" obj d] by simp
    with p False r Suc.prems show ?thesis by auto
  qed
qed simp

lemma descend_result:
  "descend fuel links dist mx level obj d = Some (obj', d') \<Longrightarrow> d = dist obj \<Longrightarrow> d' = dist obj' \<and> d' \<le> d"
proof (induction level arbitrary: obj d)
  case (Suc level)
  then obtain o1 d1 where l: "descend_level fuel (links (Suc level)) dist mx obj d = Some (o1, d1)"
    and rest: "descend fuel links dist mx level o1 d1 = Some (obj', d')"
    by (auto split: bind_splits)
  from descend_level_result [OF l Suc.prems(2)] Suc.IH [OF rest] show ?case by auto
qed simp

lemma descend_level_in:
  "descend_level fuel links dist mx obj d = Some (obj', d') \<Longrightarrow> d = dist obj \<Longrightarrow>
     obj' = obj \<or> (\<exists>v. obj' \<in> set (links v))"
proof (induction fuel arbitrary: obj d)
  case (Suc fuel)
  obtain o1 d1 ch where p: "descend_pass dist mx (links obj) (obj, d, False) = Some (o1, d1, ch)"
    using Suc.prems(1) by (auto split: option.splits)
  with descend_pass_result [OF p Suc.prems(2)] Suc show ?case by (auto split: if_splits)
qed simp

lemma descend_in:
  "descend fuel links dist mx level obj d = Some (obj', d') \<Longrightarrow> d = dist obj \<Longrightarrow>
     obj' = obj \<or> (\<exists>l v. obj' \<in> set (links l v))"
proof (induction level arbitrary: obj d)
  case (Suc level)
  then obtain o1 d1 where l: "descend_level fuel (links (Suc level)) dist mx obj d = Some (o1, d1)"
    and rest: "descend fuel links dist mx level o1 d1 = Some (obj', d')"
    by (auto split: bind_splits)
  from descend_level_in [OF l Suc.prems(2)] descend_level_result [OF l Suc.prems(2)] Suc.IH [OF rest]
  show ?case by auto
qed simp

lemma descend_level_returns:
  assumes "finite W" "\<And>v. v \<in> W \<Longrightarrow> set (links v) \<subseteq> W" "\<And>v. v \<in> W \<Longrightarrow> v \<le> mx"
  shows "obj \<in> W \<Longrightarrow> d = dist obj \<Longrightarrow> card {v \<in> W. dist v < d} < fuel \<Longrightarrow>
    \<exists>obj' d'. descend_level fuel links dist mx obj d = Some (obj', d') \<and> obj' \<in> W"
proof (induction fuel arbitrary: obj d)
  case (Suc fuel)
  have "\<forall>c\<in>set cs. c \<le> mx \<Longrightarrow> \<exists>r. descend_pass dist mx cs cur = Some r" for cs cur
    by (induction cs arbitrary: cur) auto
  moreover have sub: "set (links obj) \<subseteq> W" by (rule assms(2) [OF Suc.prems(1)])
  ultimately obtain o1 d1 ch where p: "descend_pass dist mx (links obj) (obj, d, False) = Some (o1, d1, ch)"
    using assms(3) by (metis prod_cases3 subsetD)
  note r = descend_pass_result [OF p Suc.prems(2)]
  have o1: "o1 \<in> W" using r sub Suc.prems(1) by auto
  show ?case
  proof (cases ch)
    case True
    then have "d1 < d" "d1 = dist o1" using r by auto
    then have "{v \<in> W. dist v < d1} \<subset> {v \<in> W. dist v < d}" using o1 by force
    then have "card {v \<in> W. dist v < d1} < card {v \<in> W. dist v < d}"
      using assms(1) by (intro psubset_card_mono) auto
    with Suc.IH [OF o1 \<open>d1 = dist o1\<close>] Suc.prems(3) p True show ?thesis by auto
  qed (use p o1 in auto)
qed simp

text \<open>The greedy descent through the upper layers ends, with the number of nodes
  plus one as fuel for each layer, at a node that is at most as far as the entry point.\<close>

theorem descend_terminates:
  assumes "finite W" and "\<And>l v. v \<in> W \<Longrightarrow> set (links l v) \<subseteq> W" and "\<And>v. v \<in> W \<Longrightarrow> v \<le> mx"
    and "ep \<in> W" and "card W < fuel"
  shows "\<exists>obj. descend fuel links dist mx level ep (dist ep) = Some (obj, dist obj) \<and> obj \<in> W \<and>
    dist obj \<le> dist ep"
  using assms(4)
proof (induction level arbitrary: ep)
  case (Suc level)
  have "card {v \<in> W. dist v < dist ep} < fuel"
    using card_mono [OF assms(1), of "{v \<in> W. dist v < dist ep}"] assms(5) by auto
  from descend_level_returns [OF assms(1), of "links (Suc level)" mx, OF assms(2,3) Suc.prems refl this]
  obtain o1 d1 where l: "descend_level fuel (links (Suc level)) dist mx ep (dist ep) = Some (o1, d1)" "o1 \<in> W"
    by auto
  from descend_level_result [OF l(1) refl] have "d1 = dist o1" "d1 \<le> dist ep" by auto
  with Suc.IH [OF l(2)] l(1) show ?case by auto
qed simp

theorem descend_terminates_witness:
  "\<exists>obj. descend 4 (\<lambda>l. path_graph) path_dist 2 3 0 (path_dist 0) = Some (obj, path_dist obj) \<and>
     obj \<in> {0, 1, 2} \<and> path_dist obj \<le> path_dist 0"
proof (rule descend_terminates)
  show "card ({0, 1, 2} :: u32 set) < 4"
    using card_insert_le_m1 [of 3 "{1, 2 :: u32}" 0] by (simp add: card_insert_if)
qed (auto simp: path_graph_def)

text \<open>\<^verbatim>\<open>localSearchKnn\<close> returns, labelled, the \<open>k\<close> nearest of the nodes the
  base layer search has visited; it starts that search at a node at most as far as the entry
  point, so the nearest answer is at most as far as the entry point.\<close>

theorem localSearchKnn_results:
  assumes "localSearchKnn vf h links dist label mx maxlevel ep cnt fuel ef k = Some res"
    and "hv_inv h" and "visited h = {}" and "0 < k" and "cnt \<noteq> 0" and "ep \<noteq> -1"
    and "\<And>l v. -1 \<notin> set (links l v)" and "\<And>v. Dist 0 \<le> dist v"
  shows "\<exists>V tops. finite V \<and> best_of fst k (evaluated dist V) (mset tops) \<and>
    mset res = image_mset (\<lambda>x. (fst x, label (snd x))) (mset tops) \<and>
    (\<forall>x\<in>set tops. set (links 0 (snd x)) \<subseteq> V) \<and> (\<exists>r\<in>set res. fst r \<le> dist ep)"
proof -
  from assms(1,5) obtain obj d st where desc: "descend fuel links dist mx maxlevel ep (dist ep) = Some (obj, d)"
    and run: "searchBaseLayerST vf h (links 0) dist fuel (max ef k) obj = Inr st"
    and res: "res = push_all result_key (map (\<lambda>x. (fst x, label (snd x))) (pq_trim k (s_top st))) []"
    by (auto simp: localSearchKnn_def Let_def split: bind_splits sum.splits)
  let ?V = "visited (s_visited st)" and ?tops = "pq_trim k (s_top st)"
  have obj: "obj \<noteq> -1" "dist obj \<le> dist ep"
    using descend_in [OF desc refl] descend_result [OF desc refl] assms(6,7) by auto
  have S: "results_inv (max ef k) (evaluated dist ?V) (s_top st) (s_lowerBound st)" "obj \<in> ?V" "finite ?V"
    "\<forall>x\<in>set (s_top st). fst x = dist (snd x) \<and> set (links 0 (snd x)) \<subseteq> ?V"
    using searchBaseLayerST_ok [OF assms(2,3) run _ obj(1) assms(7,8)] assms(4) by auto
  have trim: "best_of fst k (mset (s_top st)) (mset ?tops)"
    using pq_trim_best(2) S(1) by (auto simp: results_inv_def)
  have best: "best_of fst k (evaluated dist ?V) (mset ?tops)"
    by (rule best_of_nested [OF _ trim]) (use S(1) in \<open>auto simp: results_inv_def\<close>)
  have sub: "set ?tops \<subseteq> set (s_top st)"
    using trim by (metis best_of_def set_mset_mono set_mset_mset)
  have "(dist obj, obj) \<in># evaluated dist ?V" using S(2,3) by (simp add: evaluated_def)
  from best_of_nearest [OF best assms(4) this] obtain x where x: "x \<in> set ?tops" "fst x \<le> dist obj" by auto
  have m: "mset res = image_mset (\<lambda>x. (fst x, label (snd x))) (mset ?tops)"
    by (simp add: res)
  have "(fst x, label (snd x)) \<in># mset res" unfolding m using x(1) by auto
  with x(2) obj(2) have "\<exists>r\<in>set res. fst r \<le> dist ep" by (intro bexI [of _ "(fst x, label (snd x))"]) auto
  with S(3,4) best m sub show ?thesis by blast
qed

lemma path_knn:
  "localSearchKnn 0 (Init (\<lambda>_. 0) 1 2) (\<lambda>l. path_graph) path_dist (\<lambda>v. 7) 2 1 0 3 4 2 1 = Some [(Dist 1, 7)]"
  by code_simp

theorem localSearchKnn_results_witness:
  "\<exists>V tops. finite V \<and> best_of fst 1 (evaluated path_dist V) (mset tops) \<and>
     {#(Dist 1, 7)#} = image_mset (\<lambda>x. (fst x, 7 :: u64)) (mset tops)"
proof -
  have "\<exists>V tops. finite V \<and> best_of fst 1 (evaluated path_dist V) (mset tops) \<and>
    mset [(Dist 1, 7)] = image_mset (\<lambda>x. (fst x, 7 :: u64)) (mset tops) \<and>
    (\<forall>x\<in>set tops. set (path_graph (snd x)) \<subseteq> V) \<and> (\<exists>r\<in>set [(Dist 1, 7 :: u64)]. fst r \<le> path_dist 0)"
    by (rule localSearchKnn_results [OF path_knn _ _ _ _ _ path_facts])
      (use Init_inv [of "\<lambda>_. 0" 1 2] in simp_all)
  then show ?thesis by auto
qed

end
