(* ===== verification/Task_Manager.thy ===== *)
theory Task_Manager
  imports Query_Msg
begin

text \<open>
  \<^verbatim>\<open>TaskManager\<close> of \<^verbatim>\<open>include/anns/task_manager.h\<close>: the queues of a thread, their transfer
  in batches to another machine, and the wake-up of a paused sub-query by a synchronization
  message.  Arrays over the machines are lists of length \<^const>\<open>MACHINE_NUM\<close>; \<^verbatim>\<open>global_query\<close>
  is the table of query objects, by query identifier.  The batch readers and writers are
  instances of the \<^const>\<open>serializer\<close> contract of the message types.  \<^verbatim>\<open>push_compute\<close> starts with
  \<^verbatim>\<open>abort()\<close>; the work-stealing queue \<^verbatim>\<open>ba_task_queue\<close> is only passed on.
\<close>

record TaskManager =
  tm_local_id :: u32
  tm_task_queue :: "ComputeTask list list"
  tm_node_task_queue :: "NodeTask list list"
  tm_cur_node_queue :: "NodeTask list"
  tm_node_result_queue :: "NodeResult list list"
  tm_noncore_sync_msg :: "NonCoreSyncMsg list list"
  tm_cur_task_queue :: "ComputeTask list"
  tm_next_task_queue :: "ComputeTask list"
  tm_compute_queue :: "ComputeMsg list list"
  tm_result_queue :: "ResultMsg list list"
  tm_cur_query_num :: u32
  tm_global_query :: "QueryMsg list"
  tm_query_queue :: "u64 list"
  tm_schedule_query_queue :: "ScheduleMsg list"
  tm_subquery_queue :: "u32 list"
  tm_next_subquery_queue :: "u32 list"
  tm_async_task_queue :: "u64 list"

definition new_TaskManager :: "u32 \<Rightarrow> QueryMsg list \<Rightarrow> TaskManager" where
  "new_TaskManager local_id global = \<lparr>tm_local_id = local_id,
     tm_task_queue = replicate MACHINE_NUM [], tm_node_task_queue = replicate MACHINE_NUM [],
     tm_cur_node_queue = [], tm_node_result_queue = replicate MACHINE_NUM [],
     tm_noncore_sync_msg = replicate MACHINE_NUM [], tm_cur_task_queue = [], tm_next_task_queue = [],
     tm_compute_queue = replicate MACHINE_NUM [], tm_result_queue = replicate MACHINE_NUM [],
     tm_cur_query_num = 0, tm_global_query = global, tm_query_queue = [],
     tm_schedule_query_queue = [], tm_subquery_queue = [], tm_next_subquery_queue = [],
     tm_async_task_queue = []\<rparr>"

definition tm_wf :: "TaskManager \<Rightarrow> bool" where
  "tm_wf tm \<longleftrightarrow> unat (tm_local_id tm) < MACHINE_NUM \<and>
     length (tm_task_queue tm) = MACHINE_NUM \<and> length (tm_node_task_queue tm) = MACHINE_NUM \<and>
     length (tm_node_result_queue tm) = MACHINE_NUM \<and> length (tm_noncore_sync_msg tm) = MACHINE_NUM \<and>
     length (tm_compute_queue tm) = MACHINE_NUM \<and> length (tm_result_queue tm) = MACHINE_NUM"

definition swap_task_queue :: "TaskManager \<Rightarrow> TaskManager" where
  "swap_task_queue tm = tm\<lparr>tm_cur_task_queue := tm_next_task_queue tm, tm_next_task_queue := [],
     tm_subquery_queue := tm_next_subquery_queue tm, tm_next_subquery_queue := []\<rparr>"

text \<open>\<open>machine_id\<close> is the index of the target machine; \<^verbatim>\<open>assert(machine_id != local_id)\<close>.\<close>

definition to_remote :: "TaskManager \<Rightarrow> nat \<Rightarrow> crash + byte list \<Rightarrow> crash + byte list" where
  "to_remote tm machine_id run = (if machine_id = unat (tm_local_id tm) then Inl Abort else run)"

definition serialize_task :: "TaskManager \<Rightarrow> nat \<Rightarrow> crash + byte list" where
  "serialize_task tm machine_id = to_remote tm machine_id
     (let out = [] @ enc_u32 (tm_local_id tm);
          ts = tm_task_queue tm ! machine_id;
          out = out @ enc_u32 (word_of_nat (length ts));
          out = foldl (\<lambda>out t. ComputeTask_serialize t out) out ts;
          ns = tm_node_task_queue tm ! machine_id;
          out = out @ enc_u32 (word_of_nat (length ns));
          out = foldl (\<lambda>out t. NodeTask_serialize t out) out ns
      in if length out > MAX_QUERYBUFFER_SIZE then Inl Abort else Inr out)"

definition deserialize_task :: "byte list \<Rightarrow> TaskManager \<Rightarrow> TaskManager option" where
  "deserialize_task buf tm = do {
     (send_mid, s) \<leftarrow> rd_u32 buf;
     (t_size, s) \<leftarrow> rd_u32 s;
     (ts, s) \<leftarrow> rd_many (unat t_size) ComputeTask_deserialize s;
     (n_size, s) \<leftarrow> rd_u32 s;
     (ns, s) \<leftarrow> rd_many (unat n_size) NodeTask_deserialize s;
     Some (tm\<lparr>tm_cur_task_queue := tm_cur_task_queue tm @ ts,
              tm_cur_node_queue := tm_cur_node_queue tm @ ns\<rparr>) }"

definition full_buffer :: "nat \<Rightarrow> bool" where
  "full_buffer n \<longleftrightarrow> n \<ge> MAX_QUERYBUFFER_SIZE"

text \<open>The assertion behind the loops: the offset is at most the size of the buffer.\<close>

definition in_buffer :: "crash + byte list \<Rightarrow> crash + byte list" where
  "in_buffer run = (case run of Inl e \<Rightarrow> Inl e
     | Inr out \<Rightarrow> if length out \<le> MAX_QUERYBUFFER_SIZE then Inr out else Inl Abort)"

definition serialize_result :: "TaskManager \<Rightarrow> nat \<Rightarrow> crash + byte list" where
  "serialize_result tm machine_id = to_remote tm machine_id
     (let out = [] @ enc_u32 (tm_local_id tm);
          rs = tm_result_queue tm ! machine_id;
          out = out @ enc_u32 (word_of_nat (length rs))
      in in_buffer (ser_loop ResultMsg_serialize full_buffer rs out))"

definition deserialize_result :: "byte list \<Rightarrow> TaskManager \<Rightarrow> TaskManager option" where
  "deserialize_result buf tm = do {
     (send_mid, s) \<leftarrow> rd_u32 buf;
     (r_size, s) \<leftarrow> rd_u32 s;
     (rs, s) \<leftarrow> rd_many (unat r_size) ResultMsg_deserialize s;
     let l = unat (tm_local_id tm) in
     Some (tm\<lparr>tm_result_queue := (tm_result_queue tm)[l := tm_result_queue tm ! l @ rs]\<rparr>) }"

definition serialize_node_result :: "TaskManager \<Rightarrow> nat \<Rightarrow> crash + byte list" where
  "serialize_node_result tm machine_id = to_remote tm machine_id
     (let out = [] @ enc_u32 (tm_local_id tm);
          rs = tm_node_result_queue tm ! machine_id;
          out = out @ enc_u32 (word_of_nat (length rs))
      in in_buffer (ser_loop (\<lambda>r out. Inr (NodeResult_serialize r out)) full_buffer rs out))"

definition deserialize_node_result :: "byte list \<Rightarrow> TaskManager \<Rightarrow> TaskManager option" where
  "deserialize_node_result buf tm = do {
     (send_mid, s) \<leftarrow> rd_u32 buf;
     (r_size, s) \<leftarrow> rd_u32 s;
     (rs, s) \<leftarrow> rd_many (unat r_size) NodeResult_deserialize s;
     let l = unat (tm_local_id tm) in
     Some (tm\<lparr>tm_node_result_queue := (tm_node_result_queue tm)[l := tm_node_result_queue tm ! l @ rs]\<rparr>) }"

definition serialize_node_sync :: "TaskManager \<Rightarrow> nat \<Rightarrow> crash + byte list" where
  "serialize_node_sync tm machine_id = to_remote tm machine_id
     (let out = [] @ enc_u32 (tm_local_id tm);
          ms = tm_noncore_sync_msg tm ! machine_id;
          out = out @ enc_u32 (word_of_nat (length ms))
      in in_buffer (ser_loop NonCoreSyncMsg_serialize full_buffer ms out))"

text \<open>``avoke the query'': a paused sub-query becomes active and is queued.\<close>

definition invoke_query :: "u32 \<Rightarrow> TaskManager \<Rightarrow> TaskManager" where
  "invoke_query qid tm =
     (if q_state (tm_global_query tm ! unat qid) = PAUSE
      then tm\<lparr>tm_global_query := (tm_global_query tm)[unat qid :=
                 (tm_global_query tm ! unat qid)\<lparr>q_state := POST_STAGE\<rparr>],
              tm_subquery_queue := tm_subquery_queue tm @ [qid]\<rparr>
      else tm)"

definition on_query :: "u32 \<Rightarrow> (QueryMsg \<Rightarrow> QueryMsg) \<Rightarrow> TaskManager \<Rightarrow> TaskManager option" where
  "on_query qid f tm =
     (if unat qid < length (tm_global_query tm)
      then Some (tm\<lparr>tm_global_query := (tm_global_query tm)[unat qid := f (tm_global_query tm ! unat qid)]\<rparr>)
      else None)"

definition apply_node_sync :: "dist_t \<Rightarrow> u8 \<Rightarrow> NonCoreSyncMsg \<Rightarrow> TaskManager \<Rightarrow> TaskManager option" where
  "apply_node_sync j k msg tm = do {
     tm \<leftarrow> on_query (ns_qid msg) (update_sub_query_from_noncore j k (unat (tm_local_id tm)) msg) tm;
     Some (invoke_query (ns_qid msg) tm) }"

primrec node_sync_loop :: "dist_t \<Rightarrow> u8 \<Rightarrow> nat \<Rightarrow> byte list \<Rightarrow> TaskManager \<Rightarrow> TaskManager option" where
  "node_sync_loop j k 0 s tm = Some tm"
| "node_sync_loop j k (Suc n) s tm = do {
     (msg, s) \<leftarrow> NonCoreSyncMsg_deserialize s;
     tm \<leftarrow> apply_node_sync j k msg tm;
     node_sync_loop j k n s tm }"

definition deserialize_node_sync :: "dist_t \<Rightarrow> u8 \<Rightarrow> byte list \<Rightarrow> TaskManager \<Rightarrow> TaskManager option" where
  "deserialize_node_sync j k buf tm = do {
     (remote_id, s) \<leftarrow> rd_u32 buf;
     (n, s) \<leftarrow> rd_u32 s;
     node_sync_loop j k (unat n) s tm }"

definition deserialize_sync :: "dist_t \<Rightarrow> u8 \<Rightarrow> byte list \<Rightarrow> TaskManager \<Rightarrow> TaskManager option" where
  "deserialize_sync j k buf tm = do {
     (msg, _) \<leftarrow> SyncMsg_deserialize buf;
     tm \<leftarrow> on_query (sm_qid msg) (update_sub_query j k (unat (tm_local_id tm)) msg) tm;
     Some (invoke_query (sm_qid msg) tm) }"

definition deserialize_compute :: "byte list \<Rightarrow> TaskManager \<Rightarrow> TaskManager option" where
  "deserialize_compute buf tm = do {
     msg \<leftarrow> ComputeMsg_deserialize buf;
     let l = unat (tm_local_id tm) in
     Some (tm\<lparr>tm_compute_queue := (tm_compute_queue tm)[l := tm_compute_queue tm ! l @ [msg]]\<rparr>) }"

text \<open>The query identifier is the second \<^verbatim>\<open>size_t\<close> of the message.\<close>

definition deserialize_query :: "nat \<Rightarrow> byte list \<Rightarrow> TaskManager \<Rightarrow> TaskManager option" where
  "deserialize_query fuel buf tm = do {
     (_, s) \<leftarrow> rd_bytes 8 buf;
     (qid, s) \<leftarrow> rd_u64 s;
     if unat qid < length (tm_global_query tm) then do {
       (q, _) \<leftarrow> deserialize_and_merge fuel (tm_global_query tm ! unat qid) buf;
       Some (tm\<lparr>tm_global_query := (tm_global_query tm)[unat qid := q],
                tm_query_queue := tm_query_queue tm @ [qid]\<rparr>) }
     else None }"

definition deserialize_core_info :: "byte list \<Rightarrow> TaskManager \<Rightarrow> TaskManager option" where
  "deserialize_core_info buf tm = do {
     (msg, _) \<leftarrow> ScheduleMsg_deserialize buf;
     Some (tm\<lparr>tm_schedule_query_queue := tm_schedule_query_queue tm @ [msg]\<rparr>) }"

definition tm_clear :: "TaskManager \<Rightarrow> TaskManager" where
  "tm_clear tm = tm\<lparr>tm_task_queue := map (\<lambda>_. []) (tm_task_queue tm),
     tm_result_queue := map (\<lambda>_. []) (tm_result_queue tm), tm_cur_task_queue := [],
     tm_next_task_queue := [], tm_cur_query_num := 0\<rparr>"

definition add_remote_task :: "u32 \<Rightarrow> nat \<Rightarrow> u32 \<Rightarrow> TaskManager \<Rightarrow> TaskManager option" where
  "add_remote_task ngh_id machine_id query_id tm =
     (if unat query_id < length (tm_global_query tm) \<and> machine_id < length (tm_node_task_queue tm)
      then Some (tm\<lparr>tm_node_task_queue := (tm_node_task_queue tm)[machine_id :=
             tm_node_task_queue tm ! machine_id @ [new_NodeTask (tm_local_id tm) query_id ngh_id
               (q_is_core_machine (tm_global_query tm ! unat query_id))]]\<rparr>)
      else None)"

section \<open>Batches\<close>

text \<open>What arrives of a task: the members that are not sent have their initial value.\<close>

definition ComputeTask_sent :: "ComputeTask \<Rightarrow> ComputeTask" where
  "ComputeTask_sent t = t\<lparr>ct_is_count := None\<rparr>"

definition NodeTask_sent :: "NodeTask \<Rightarrow> NodeTask" where
  "NodeTask_sent t = t\<lparr>nt_deg := 0, nt_offset := 0\<rparr>"

lemma foldl_append_map: "(\<And>x out. f x out = out @ g x) \<Longrightarrow> foldl (\<lambda>out x. f x out) out xs = out @ concat (map g xs)"
  by (simp add: foldl_emit)

lemma rd_ComputeTasks:
  "rd_many (length ts) ComputeTask_deserialize (concat (map ComputeTask_bytes ts) @ s) =
     Some (map ComputeTask_sent ts, s)"
proof -
  have "ComputeTask_bytes (ComputeTask_sent t) = ComputeTask_bytes t" for t
    by (simp add: ComputeTask_bytes_def ComputeTask_sent_def)
  then show ?thesis
    using ComputeTask.rd_many_enc_ok [of "map ComputeTask_sent ts" s]
    by (simp add: list_all_iff ComputeTask_sent_def [of "_ :: ComputeTask"] comp_def)
qed

lemma rd_NodeTasks:
  assumes "list_all (\<lambda>t. length (nt_is_core_machine t) = MACHINE_NUM) ts"
  shows "rd_many (length ts) NodeTask_deserialize (concat (map NodeTask_bytes ts) @ s) =
     Some (map NodeTask_sent ts, s)"
proof -
  have "NodeTask_bytes (NodeTask_sent t) = NodeTask_bytes t" for t
    by (simp add: NodeTask_bytes_def NodeTask_sent_def)
  moreover have "list_all NodeTask_ok (map NodeTask_sent ts)"
    using assms by (auto simp: list_all_iff NodeTask_ok_def NodeTask_sent_def)
  ultimately show ?thesis
    using NodeTask.rd_many_enc_ok [of "map NodeTask_sent ts" s] by (simp add: comp_def)
qed

text \<open>A batch in the buffer has fewer elements than bytes, so its size fits the field.\<close>

lemma length_le_concat: "(\<And>x. 0 < length (f x)) \<Longrightarrow> length xs \<le> length (concat (map f xs))"
proof (induction xs)
  case (Cons x xs)
  have "Suc 0 \<le> length (f x)" using Cons.prems [of x] by (simp add: Suc_le_eq)
  with Cons show ?case by simp
qed simp

lemma batch_size:
  assumes "length (concat (map f xs)) \<le> MAX_QUERYBUFFER_SIZE" "\<And>x. 0 < length (f x)"
  shows "unat (word_of_nat (length xs) :: u32) = length xs"
  using length_le_concat [of f xs] assms by (simp add: MAX_QUERYBUFFER_SIZE_def)

lemma bytes_pos:
  "0 < length (ResultMsg_bytes r)" "0 < length (NodeResult_bytes n)"
  "0 < length (NonCoreSyncMsg_bytes m)" "0 < length (ComputeTask_bytes t)" "0 < length (NodeTask_bytes u)"
  by (simp_all add: bytes_defs len_simps)

text \<open>The shape of every result batch: the sender, the count and the messages.\<close>

context serializer
begin

lemma batch_read_back:
  assumes "in_buffer (ser_loop ser full_buffer xs ((enc_u32 mid @ enc_u32 (word_of_nat (length xs))))) = Inr buf"
    and "\<And>x. 0 < length (enc x)"
  shows "buf = enc_u32 mid @ enc_u32 (word_of_nat (length xs)) @ concat (map enc xs) \<and>
    length buf \<le> MAX_QUERYBUFFER_SIZE \<and> list_all ok xs \<and>
    unat (word_of_nat (length xs) :: u32) = length xs \<and>
    rd_many (length xs) rd (concat (map enc xs) @ s) = Some (xs, s)"
proof -
  from assms(1) have run: "ser_loop ser full_buffer xs (enc_u32 mid @ enc_u32 (word_of_nat (length xs))) = Inr buf"
    and le: "length buf \<le> MAX_QUERYBUFFER_SIZE"
    by (auto simp: in_buffer_def split: sum.splits if_splits)
  have "unat (word_of_nat (length xs) :: u32) = length xs"
    by (rule batch_size [of enc]) (use ser_loop_appends [OF run] le assms(2) in auto)
  with ser_loop_appends [OF run] ser_loop_read_back [OF run le] le show ?thesis by simp
qed

end

primrec apply_node_syncs :: "dist_t \<Rightarrow> u8 \<Rightarrow> NonCoreSyncMsg list \<Rightarrow> TaskManager \<Rightarrow> TaskManager option" where
  "apply_node_syncs j k [] tm = Some tm"
| "apply_node_syncs j k (m # ms) tm = do { tm \<leftarrow> apply_node_sync j k m tm; apply_node_syncs j k ms tm }"

lemma node_sync_loop_read:
  "list_all (\<lambda>m. length (ns_core_micro_ngh m) < 2 ^ 32 \<and> length (ns_core_large_ngh m) < 2 ^ 32) ms \<Longrightarrow>
   node_sync_loop j k (length ms) (concat (map NonCoreSyncMsg_bytes ms) @ s) tm = apply_node_syncs j k ms tm"
  by (induction ms arbitrary: tm) (auto simp: NonCoreSyncMsg.rd_enc_ok split: bind_splits)

text \<open>The neighbours of a message that are too many to be sent as identifiers become local tasks of the core
  machine, with the offset and the size of their list; the two fields that the constructor of a local task
  leaves uninitialised keep what the memory held (\<open>j\<close>, \<open>k\<close>).\<close>

definition large_tasks :: "dist_t \<Rightarrow> u8 \<Rightarrow> u32 \<Rightarrow> QueryMsg \<Rightarrow> NonCoreSyncMsg \<Rightarrow> ComputeTask list" where
  "large_tasks j k local_id q m =
     map (\<lambda>e. local_ComputeTask j k local_id (ucast (q_query_id q)) (snd e) (fst e) True) (ns_core_large_ngh m)"

lemma apply_node_sync_effect:
  assumes "unat (ns_qid m) < length (tm_global_query tm)"
  obtains tm' where "apply_node_sync j k m tm = Some tm'"
    "length (tm_global_query tm') = length (tm_global_query tm)"
    "\<And>i. i < length (tm_global_query tm) \<Longrightarrow> q_state (tm_global_query tm' ! i) =
       (if i = unat (ns_qid m) \<and> q_state (tm_global_query tm ! i) = PAUSE then POST_STAGE
        else q_state (tm_global_query tm ! i))"
    "\<And>i. i < length (tm_global_query tm) \<Longrightarrow> q_local_micro_task (tm_global_query tm' ! i) =
       q_local_micro_task (tm_global_query tm ! i) @
       (if i = unat (ns_qid m) then ns_core_micro_ngh m else [])"
    "\<And>i. i < length (tm_global_query tm) \<Longrightarrow> q_local_task (tm_global_query tm' ! i) =
       q_local_task (tm_global_query tm ! i) @
       (if i = unat (ns_qid m) then large_tasks j k (tm_local_id tm) (tm_global_query tm ! i) m else [])"
    "\<And>i. i < length (tm_global_query tm) \<Longrightarrow> q_query_id (tm_global_query tm' ! i) = q_query_id (tm_global_query tm ! i)"
    "tm_local_id tm' = tm_local_id tm"
    "tm_subquery_queue tm' = tm_subquery_queue tm @
       (if q_state (tm_global_query tm ! unat (ns_qid m)) = PAUSE then [ns_qid m] else [])"
  using assms that
  by (simp add: apply_node_sync_def on_query_def invoke_query_def update_sub_query_from_noncore_def Let_def
      large_tasks_def nth_list_update split: if_splits)

lemma apply_node_syncs_effect:
  assumes "list_all (\<lambda>m. unat (ns_qid m) < length (tm_global_query tm)) ms"
  shows "\<exists>tm' woken. apply_node_syncs j k ms tm = Some tm' \<and>
    tm_subquery_queue tm' = tm_subquery_queue tm @ woken \<and> distinct woken \<and>
    set woken = {qid \<in> ns_qid ` set ms. q_state (tm_global_query tm ! unat qid) = PAUSE} \<and>
    length (tm_global_query tm') = length (tm_global_query tm) \<and>
    (\<forall>i<length (tm_global_query tm).
       q_state (tm_global_query tm' ! i) =
         (if (\<exists>m\<in>set ms. unat (ns_qid m) = i) \<and> q_state (tm_global_query tm ! i) = PAUSE then POST_STAGE
          else q_state (tm_global_query tm ! i)) \<and>
       q_local_micro_task (tm_global_query tm' ! i) = q_local_micro_task (tm_global_query tm ! i) @
         concat (map ns_core_micro_ngh [m \<leftarrow> ms. unat (ns_qid m) = i]) \<and>
       q_local_task (tm_global_query tm' ! i) = q_local_task (tm_global_query tm ! i) @
         concat (map (large_tasks j k (tm_local_id tm) (tm_global_query tm ! i)) [m \<leftarrow> ms. unat (ns_qid m) = i]))"
  using assms
proof (induction ms arbitrary: tm)
  case (Cons m ms)
  let ?G = "tm_global_query tm"
  from Cons.prems have "unat (ns_qid m) < length ?G" by simp
  then obtain tm1 where tm1: "apply_node_sync j k m tm = Some tm1"
    "length (tm_global_query tm1) = length ?G"
    "\<And>i. i < length ?G \<Longrightarrow> q_state (tm_global_query tm1 ! i) =
       (if i = unat (ns_qid m) \<and> q_state (?G ! i) = PAUSE then POST_STAGE else q_state (?G ! i))"
    "\<And>i. i < length ?G \<Longrightarrow> q_local_micro_task (tm_global_query tm1 ! i) =
       q_local_micro_task (?G ! i) @ (if i = unat (ns_qid m) then ns_core_micro_ngh m else [])"
    "\<And>i. i < length ?G \<Longrightarrow> q_local_task (tm_global_query tm1 ! i) =
       q_local_task (?G ! i) @ (if i = unat (ns_qid m) then large_tasks j k (tm_local_id tm) (?G ! i) m else [])"
    "\<And>i. i < length ?G \<Longrightarrow> q_query_id (tm_global_query tm1 ! i) = q_query_id (?G ! i)"
    "tm_local_id tm1 = tm_local_id tm"
    "tm_subquery_queue tm1 = tm_subquery_queue tm @
       (if q_state (?G ! unat (ns_qid m)) = PAUSE then [ns_qid m] else [])"
    by (rule apply_node_sync_effect [where j = j and k = k]) (rule that)
  from Cons.IH [of tm1] Cons.prems tm1(2) obtain tm' woken where IH:
    "apply_node_syncs j k ms tm1 = Some tm'" "tm_subquery_queue tm' = tm_subquery_queue tm1 @ woken"
    "distinct woken"
    "set woken = {qid \<in> ns_qid ` set ms. q_state (tm_global_query tm1 ! unat qid) = PAUSE}"
    "length (tm_global_query tm') = length ?G"
    "\<And>i. i < length ?G \<Longrightarrow> q_state (tm_global_query tm' ! i) =
       (if (\<exists>m\<in>set ms. unat (ns_qid m) = i) \<and> q_state (tm_global_query tm1 ! i) = PAUSE then POST_STAGE
        else q_state (tm_global_query tm1 ! i))"
    "\<And>i. i < length ?G \<Longrightarrow> q_local_micro_task (tm_global_query tm' ! i) =
       q_local_micro_task (tm_global_query tm1 ! i) @ concat (map ns_core_micro_ngh [m \<leftarrow> ms. unat (ns_qid m) = i])"
    "\<And>i. i < length ?G \<Longrightarrow> q_local_task (tm_global_query tm' ! i) = q_local_task (tm_global_query tm1 ! i) @
       concat (map (large_tasks j k (tm_local_id tm1) (tm_global_query tm1 ! i)) [m \<leftarrow> ms. unat (ns_qid m) = i])"
    by auto
  let ?woken = "(if q_state (?G ! unat (ns_qid m)) = PAUSE then [ns_qid m] else []) @ woken"
  have lt: "\<And>x. x \<in> set ms \<Longrightarrow> unat (ns_qid x) < length ?G" using Cons.prems by (auto simp: list_all_iff)
  have set: "set woken = {qid \<in> ns_qid ` set ms. q_state (?G ! unat qid) = PAUSE \<and> qid \<noteq> ns_qid m}"
  proof -
    have "q_state (tm_global_query tm1 ! unat (ns_qid x)) = PAUSE \<longleftrightarrow>
        q_state (?G ! unat (ns_qid x)) = PAUSE \<and> ns_qid x \<noteq> ns_qid m" if "x \<in> set ms" for x
      using tm1(3) [OF lt [OF that]] by (auto simp: word_unat_eq_iff)
    then show ?thesis unfolding IH(4) by auto
  qed
  have "distinct ?woken" using IH(3) set by auto
  moreover have "set ?woken = {qid \<in> ns_qid ` set (m # ms). q_state (?G ! unat qid) = PAUSE}"
    unfolding set_append set by (auto split: if_splits)
  moreover have "\<forall>i<length ?G. q_state (tm_global_query tm' ! i) =
       (if (\<exists>x\<in>set (m # ms). unat (ns_qid x) = i) \<and> q_state (?G ! i) = PAUSE then POST_STAGE
        else q_state (?G ! i))"
    using IH(6) tm1(3) by (auto split: if_splits)
  moreover have "\<forall>i<length ?G. q_local_micro_task (tm_global_query tm' ! i) =
       q_local_micro_task (?G ! i) @ concat (map ns_core_micro_ngh [x \<leftarrow> m # ms. unat (ns_qid x) = i])"
    using IH(7) tm1(4) by auto
  moreover have "\<forall>i<length ?G. q_local_task (tm_global_query tm' ! i) = q_local_task (?G ! i) @
       concat (map (large_tasks j k (tm_local_id tm) (?G ! i)) [x \<leftarrow> m # ms. unat (ns_qid x) = i])"
  proof (intro allI impI)
    fix i assume i: "i < length ?G"
    have "large_tasks j k (tm_local_id tm1) (tm_global_query tm1 ! i) = large_tasks j k (tm_local_id tm) (?G ! i)"
      using tm1(6) [OF i] tm1(7) by (simp add: large_tasks_def fun_eq_iff)
    with IH(8) [OF i] tm1(5) [OF i] show "q_local_task (tm_global_query tm' ! i) = q_local_task (?G ! i) @
        concat (map (large_tasks j k (tm_local_id tm) (?G ! i)) [x \<leftarrow> m # ms. unat (ns_qid x) = i])" by simp
  qed
  ultimately show ?case
    using tm1(1,8) IH(1,2,5) by (intro exI [of _ tm'] exI [of _ ?woken]) auto
qed simp

section \<open>Properties\<close>

text \<open>Property C34. A batch of compute and node tasks that \<^verbatim>\<open>serialize_task\<close> accepts arrives
  complete and in order at the end of the receiver's current queues; the only members that are
  not transferred are \<^verbatim>\<open>is_count\<close>, \<^verbatim>\<open>deg\<close> and \<^verbatim>\<open>offset\<close> of the local bookkeeping.\<close>

theorem task_batch_roundtrip:
  assumes "serialize_task tm mid = Inr buf"
    and "list_all (\<lambda>t. length (nt_is_core_machine t) = MACHINE_NUM) (tm_node_task_queue tm ! mid)"
  shows "length buf \<le> MAX_QUERYBUFFER_SIZE \<and> mid \<noteq> unat (tm_local_id tm) \<and>
    deserialize_task (buf @ stale) rm = Some (rm\<lparr>
      tm_cur_task_queue := tm_cur_task_queue rm @ map ComputeTask_sent (tm_task_queue tm ! mid),
      tm_cur_node_queue := tm_cur_node_queue rm @ map NodeTask_sent (tm_node_task_queue tm ! mid)\<rparr>)"
proof -
  let ?ts = "tm_task_queue tm ! mid" and ?ns = "tm_node_task_queue tm ! mid"
  from assms(1) have buf: "buf = enc_u32 (tm_local_id tm) @ enc_u32 (word_of_nat (length ?ts)) @
      concat (map ComputeTask_bytes ?ts) @ enc_u32 (word_of_nat (length ?ns)) @ concat (map NodeTask_bytes ?ns)"
    and le: "length buf \<le> MAX_QUERYBUFFER_SIZE" and mid: "mid \<noteq> unat (tm_local_id tm)"
    by (auto simp: serialize_task_def to_remote_def Let_def ComputeTask_serialize_bytes NodeTask_serialize_bytes
        foldl_append_map split: if_splits)
  have "unat (word_of_nat (length ?ts) :: u32) = length ?ts"
    by (rule batch_size [of ComputeTask_bytes]) (use le bytes_pos in \<open>auto simp: buf\<close>)
  moreover have "unat (word_of_nat (length ?ns) :: u32) = length ?ns"
    by (rule batch_size [of NodeTask_bytes]) (use le bytes_pos in \<open>auto simp: buf\<close>)
  ultimately show ?thesis
    using le mid by (simp add: buf deserialize_task_def u32.rd_enc rd_ComputeTasks rd_NodeTasks [OF assms(2)])
qed

definition tm_example :: TaskManager where
  "tm_example = (new_TaskManager 1 [query_example\<lparr>q_state := PAUSE\<rparr>])\<lparr>
     tm_task_queue := replicate 16 [remote_ComputeTask 1 0 3 64 (Dist 5) 1 1 0],
     tm_node_task_queue := replicate 16 [new_NodeTask 1 0 9 (replicate 16 0)],
     tm_result_queue := replicate 16 [(new_ResultMsg 0 1 0)\<lparr>rm_res := [(Dist 2, 4)]\<rparr>],
     tm_noncore_sync_msg := replicate 16 [(new_NonCoreSyncMsg 0)\<lparr>ns_core_micro_ngh := [6], ns_core_large_ngh := [(4096, 80)]\<rparr>]\<rparr>"

lemma tm_example_runs:
  "\<not> isl (serialize_task tm_example 2)" "\<not> isl (serialize_result tm_example 2)"
  "\<not> isl (serialize_node_sync tm_example 2)"
  by (simp_all add: serialize_task_def serialize_result_def serialize_node_sync_def to_remote_def tm_example_def
      new_TaskManager_def in_buffer_def full_buffer_def ResultMsg_serialize_bytes NonCoreSyncMsg_serialize_bytes
      ComputeTask_serialize_bytes NodeTask_serialize_bytes bytes_defs new_ResultMsg_def new_NonCoreSyncMsg_def
      new_NodeTask_def replicate_16 len_simps config_defs Let_def)

theorem task_batch_roundtrip_witness:
  "\<exists>buf rm. serialize_task tm_example 2 = Inr buf \<and> deserialize_task (buf @ []) tm_example = Some rm \<and>
     length (tm_cur_task_queue rm) = 1 \<and> length (tm_cur_node_queue rm) = 1"
proof -
  obtain buf where run: "serialize_task tm_example 2 = Inr buf"
    using tm_example_runs(1) by (cases "serialize_task tm_example 2") auto
  have ex: "list_all (\<lambda>t. length (nt_is_core_machine t) = MACHINE_NUM) (tm_node_task_queue tm_example ! 2)"
    "length (tm_task_queue tm_example ! 2) = 1" "length (tm_node_task_queue tm_example ! 2) = 1"
    "tm_cur_task_queue tm_example = []" "tm_cur_node_queue tm_example = []"
    by code_simp+
  with run task_batch_roundtrip [OF run ex(1), of "[]" tm_example] show ?thesis by simp
qed

lemma result_batch_ok:
  assumes "serialize_result tm mid = Inr buf"
  shows "length buf \<le> MAX_QUERYBUFFER_SIZE \<and> mid \<noteq> unat (tm_local_id tm) \<and>
    deserialize_result (buf @ stale) rm = Some (rm\<lparr>tm_result_queue := (tm_result_queue rm)[unat (tm_local_id rm) :=
      tm_result_queue rm ! unat (tm_local_id rm) @ tm_result_queue tm ! mid]\<rparr>)"
proof -
  have "in_buffer (ser_loop ResultMsg_serialize full_buffer (tm_result_queue tm ! mid)
      (enc_u32 (tm_local_id tm) @ enc_u32 (word_of_nat (length (tm_result_queue tm ! mid))))) = Inr buf"
    and mid: "mid \<noteq> unat (tm_local_id tm)"
    using assms by (auto simp: serialize_result_def to_remote_def Let_def split: if_splits)
  from ResultMsg.batch_read_back [OF this(1) bytes_pos(1), of stale] mid show ?thesis
    by (auto simp: deserialize_result_def u32.rd_enc Let_def)
qed

text \<open>A batch of results that \<^verbatim>\<open>serialize_result\<close> accepts fits the buffer and
  arrives complete and in order at the end of the receiver's own result queue.\<close>

theorem result_batch_roundtrip:
  assumes "serialize_result tm mid = Inr buf"
  shows "length buf \<le> MAX_QUERYBUFFER_SIZE \<and> mid \<noteq> unat (tm_local_id tm) \<and>
    deserialize_result (buf @ stale) rm = Some (rm\<lparr>tm_result_queue := (tm_result_queue rm)[unat (tm_local_id rm) :=
      tm_result_queue rm ! unat (tm_local_id rm) @ tm_result_queue tm ! mid]\<rparr>)"
  by (rule result_batch_ok [OF assms])

theorem result_batch_roundtrip_witness:
  "\<exists>buf rm. serialize_result tm_example 2 = Inr buf \<and> deserialize_result (buf @ [7]) tm_example = Some rm"
proof -
  obtain buf where run: "serialize_result tm_example 2 = Inr buf"
    using tm_example_runs(2) by (cases "serialize_result tm_example 2") auto
  with result_batch_roundtrip [OF run, of "[7]" tm_example] show ?thesis by blast
qed

text \<open>Property C32. A batch of synchronization messages from a non-core machine is applied
  completely at the core machine: each query's micro tasks are extended by those of its messages and its local
  tasks by the large neighbour lists of its messages, both in order, and other queries get neither.  The wake-ups
  are exact: every named sub-query that was paused is active again and is queued once, in this batch, however
  many messages name it; no other sub-query changes state.\<close>

theorem node_sync_batch:
  assumes "serialize_node_sync tm mid = Inr buf"
    and "list_all (\<lambda>m. unat (ns_qid m) < length (tm_global_query rm)) (tm_noncore_sync_msg tm ! mid)"
  shows "\<exists>rm' woken. deserialize_node_sync j k (buf @ stale) rm = Some rm' \<and>
    tm_subquery_queue rm' = tm_subquery_queue rm @ woken \<and> distinct woken \<and>
    set woken = {qid \<in> ns_qid ` set (tm_noncore_sync_msg tm ! mid). q_state (tm_global_query rm ! unat qid) = PAUSE} \<and>
    length (tm_global_query rm') = length (tm_global_query rm) \<and>
    (\<forall>i<length (tm_global_query rm).
       q_state (tm_global_query rm' ! i) =
         (if (\<exists>m\<in>set (tm_noncore_sync_msg tm ! mid). unat (ns_qid m) = i) \<and>
             q_state (tm_global_query rm ! i) = PAUSE then POST_STAGE
          else q_state (tm_global_query rm ! i)) \<and>
       q_local_micro_task (tm_global_query rm' ! i) = q_local_micro_task (tm_global_query rm ! i) @
         concat (map ns_core_micro_ngh [m \<leftarrow> tm_noncore_sync_msg tm ! mid. unat (ns_qid m) = i]) \<and>
       q_local_task (tm_global_query rm' ! i) = q_local_task (tm_global_query rm ! i) @
         concat (map (\<lambda>m. map (\<lambda>e. local_ComputeTask j k (tm_local_id rm)
             (ucast (q_query_id (tm_global_query rm ! i))) (snd e) (fst e) True) (ns_core_large_ngh m))
           [m \<leftarrow> tm_noncore_sync_msg tm ! mid. unat (ns_qid m) = i]))"
proof -
  have "in_buffer (ser_loop NonCoreSyncMsg_serialize full_buffer (tm_noncore_sync_msg tm ! mid)
      (enc_u32 (tm_local_id tm) @ enc_u32 (word_of_nat (length (tm_noncore_sync_msg tm ! mid))))) = Inr buf"
    using assms(1) by (auto simp: serialize_node_sync_def to_remote_def Let_def split: if_splits)
  from NonCoreSyncMsg.batch_read_back [OF this bytes_pos(3)]
  have "deserialize_node_sync j k (buf @ stale) rm = apply_node_syncs j k (tm_noncore_sync_msg tm ! mid) rm"
    by (simp add: deserialize_node_sync_def u32.rd_enc node_sync_loop_read)
  with apply_node_syncs_effect [OF assms(2), of j k] show ?thesis unfolding large_tasks_def by simp
qed

theorem node_sync_batch_witness:
  "\<exists>buf rm' woken. serialize_node_sync tm_example 2 = Inr buf \<and>
     deserialize_node_sync (Dist 0) 0 (buf @ []) tm_example = Some rm' \<and>
     tm_subquery_queue rm' = tm_subquery_queue tm_example @ woken \<and> set woken = {0} \<and>
     q_local_task (tm_global_query rm' ! 0) =
       q_local_task (tm_global_query tm_example ! 0) @ [local_ComputeTask (Dist 0) 0 1 7 80 4096 True]"
proof -
  obtain buf where run: "serialize_node_sync tm_example 2 = Inr buf"
    using tm_example_runs(3) by (cases "serialize_node_sync tm_example 2") auto
  have ex: "list_all (\<lambda>m. unat (ns_qid m) < length (tm_global_query tm_example)) (tm_noncore_sync_msg tm_example ! 2)"
    "ns_qid ` set (tm_noncore_sync_msg tm_example ! 2) = {0}"
    "q_state (tm_global_query tm_example ! 0) = PAUSE" "length (tm_global_query tm_example) = 1" "tm_local_id tm_example = 1"
    "[m \<leftarrow> tm_noncore_sync_msg tm_example ! 2. unat (ns_qid m) = 0] = tm_noncore_sync_msg tm_example ! 2"
    "map ns_core_large_ngh (tm_noncore_sync_msg tm_example ! 2) = [[(4096, 80)]]"
    by (simp_all add: tm_example_def new_TaskManager_def new_NonCoreSyncMsg_def replicate_16)
  have qid: "ucast (q_query_id (tm_global_query tm_example ! 0)) = (7 :: u32)"
    by (simp add: tm_example_def new_TaskManager_def query_example_def)
  have large: "concat (map (\<lambda>m. map f (ns_core_large_ngh m)) (tm_noncore_sync_msg tm_example ! 2)) = [f (4096, 80)]" for f :: "u64 \<times> u32 \<Rightarrow> ComputeTask"
    using arg_cong [OF ex(7), of "\<lambda>xss. concat (map (map f) xss)"] by (simp add: comp_def)
  have "{qid \<in> ns_qid ` set (tm_noncore_sync_msg tm_example ! 2).
      q_state (tm_global_query tm_example ! unat qid) = PAUSE} = {0}"
    using ex by auto
  with run node_sync_batch [OF run ex(1), of "Dist 0" 0 "[]"] show ?thesis
    by (auto simp: ex(4-6) qid large)
qed

end
