(* ===== verification/Scala_Graph.thy ===== *)
theory Scala_Graph
  imports Task_Manager
begin

unbundle bit_operations_syntax

text \<open>
  The partitioned graph \<^verbatim>\<open>ScalaGraphIndex\<close> of \<^verbatim>\<open>include/index/scala_graph.h\<close> in its V3
  format: the partition table, the writer \<^verbatim>\<open>transfer_b1_to_scala_v3\<close> (counting pass, one
  fixed-size element per vertex, one remote neighbour array per partition), the loader, and the two
  readers that turn the neighbour blocks of a vertex into tasks for the machines that hold the
  neighbours.  The last section states what the lookups in the partition table promise as the locale
  \<open>partition_lookup\<close>, of which \<^verbatim>\<open>judge_partition\<close> and \<^verbatim>\<open>get_machine_id\<close> are interpretations; the
  theorems on the format are in \<open>Graph_Format\<close>, those on the dispatch in \<open>Graph_Dispatch\<close>.  \<^verbatim>\<open>size_t\<close> offsets into a partition image are natural numbers; the offset stored in
  an element is the \<^verbatim>\<open>size_t\<close> word.  A read outside the image is \<^const>\<open>OutOfBounds\<close>.
\<close>

section \<open>The partition table\<close>

record ScalaGraphIndex =
  gi_deg_ngh :: "byte list"
  gi_vector :: "byte list"
  gi_partition_num :: nat
  gi_partition_id :: u32
  gi_partition_vec_num :: "u32 list"
  gi_cumu_partition_num :: "u32 list"
  gi_local_part_vec_num :: u32
  gi_partition_ofs :: u64
  gi_local_ngh_ele_size :: u64
  gi_vec_size :: nat

primrec cumu_from :: "u32 \<Rightarrow> u32 list \<Rightarrow> u32 list" where
  "cumu_from c [] = [c]"
| "cumu_from c (n # ns) = c # cumu_from (c + n) ns"

text \<open>The loop of \<^verbatim>\<open>get_machine_id\<close> ends without a \<^verbatim>\<open>return\<close> (\<^const>\<open>None\<close>) for an identifier
  outside every partition.\<close>

definition get_machine_id :: "ScalaGraphIndex \<Rightarrow> u32 \<Rightarrow> nat option" where
  "get_machine_id g cand_id =
     map_option (\<lambda>p. p - 1)
       (find (\<lambda>p. gi_cumu_partition_num g ! p > cand_id) [1 ..< Suc (gi_partition_num g)])"

definition scala_graph_get_internal_id :: "ScalaGraphIndex \<Rightarrow> nat \<Rightarrow> u32 \<Rightarrow> u32" where
  "scala_graph_get_internal_id g machine_id vid = vid - gi_cumu_partition_num g ! machine_id"

definition scala_graph_v3_get_ngh_ptr :: "ScalaGraphIndex \<Rightarrow> u64 \<Rightarrow> crash + byte list" where
  "scala_graph_v3_get_ngh_ptr g ofs =
     (if unat ofs > length (gi_deg_ngh g) then Inl Abort else Inr (drop (unat ofs) (gi_deg_ngh g)))"

text \<open>The result is the offset of the vector and its label from \<^verbatim>\<open>vector_ptr\<close>.\<close>

definition scala_graph_get_data :: "ScalaGraphIndex \<Rightarrow> u64 \<Rightarrow> crash + nat" where
  "scala_graph_get_data g candidate_id =
     (if candidate_id < gi_partition_ofs g \<or>
         gi_partition_ofs g + ucast (gi_local_part_vec_num g) \<le> candidate_id then Inl Abort
      else Inr ((gi_vec_size g + 8) * unat (candidate_id - gi_partition_ofs g)))"

section \<open>The writer\<close>

text \<open>\<open>cumu\<close> is \<^verbatim>\<open>cumupsize\<close>; the result \<^const>\<open>None\<close> is the value \<open>-1\<close>.\<close>

definition judge_partition :: "u32 list \<Rightarrow> u64 \<Rightarrow> nat option" where
  "judge_partition cumu vid = find (\<lambda>p. ucast (cumu ! (p + 1)) > vid) [0 ..< length cumu - 1]"

text \<open>Step 1.  The counting pass reads the neighbours through an \<^verbatim>\<open>int\<close> pointer, so an identifier
  is sign-extended when it becomes the \<^verbatim>\<open>uint64_t\<close> argument.\<close>

primrec count_ngh :: "u32 list \<Rightarrow> u32 list \<Rightarrow> nat list \<Rightarrow> crash + nat list" where
  "count_ngh cumu [] cnt = Inr cnt"
| "count_ngh cumu (v # vs) cnt =
     (case judge_partition cumu (scast v) of
        None \<Rightarrow> Inl OutOfBounds
      | Some q \<Rightarrow> count_ngh cumu vs (cnt[q := cnt ! q + 1]))"

definition add_remote_num :: "nat option \<Rightarrow> nat list \<Rightarrow> nat list \<Rightarrow> nat list" where
  "add_remote_num vid_pid cnt remote_ngh_num =
     map (\<lambda>p. if cnt ! p > INLINE_DEG_BAR \<and> Some p \<noteq> vid_pid then remote_ngh_num ! p + cnt ! p
              else remote_ngh_num ! p) [0 ..< length remote_ngh_num]"

primrec count_remote :: "u32 list \<Rightarrow> u32 list list \<Rightarrow> nat \<Rightarrow> nat list \<Rightarrow> crash + nat list" where
  "count_remote cumu [] vid num = Inr num"
| "count_remote cumu (nghs # rest) vid num =
     (case count_ngh cumu nghs (replicate (length num) 0) of
        Inl e \<Rightarrow> Inl e
      | Inr cnt \<Rightarrow> count_remote cumu rest (vid + 1)
          (add_remote_num (judge_partition cumu (word_of_nat vid)) cnt num))"

text \<open>Step 2.  The neighbours of a vertex by partition, and the order of the blocks.\<close>

primrec group_ngh :: "u32 list \<Rightarrow> u32 list \<Rightarrow> u32 list list \<Rightarrow> crash + u32 list list" where
  "group_ngh cumu [] nghs = Inr nghs"
| "group_ngh cumu (v # vs) nghs =
     (case judge_partition cumu (ucast v) of
        None \<Rightarrow> Inl OutOfBounds
      | Some q \<Rightarrow> group_ngh cumu vs (nghs[q := nghs ! q @ [v]]))"

definition part_ids :: "nat \<Rightarrow> u32 list list \<Rightarrow> nat list" where
  "part_ids p nghs = filter (\<lambda>q. nghs ! q \<noteq> [] \<and> q \<noteq> p) [0 ..< length nghs] @
     (if nghs ! p \<noteq> [] then [p] else [])"

definition block_msg :: "bool \<Rightarrow> nat \<Rightarrow> nat \<Rightarrow> nat \<Rightarrow> u16" where
  "block_msg is_last p q deg =
     (let end_flag = (if is_last then push_bit 15 1 OR (if q = p then push_bit 14 1 else 0) else 0) :: u64
      in ucast (end_flag OR push_bit 8 (word_of_nat q) OR word_of_nat deg))"

text \<open>\<open>base ! q\<close> is \<^verbatim>\<open>local_ngh_size[q]\<close>, where the remote array of partition \<open>q\<close> starts (less the
  header), \<open>rem ! q\<close> the bytes written there so far and \<open>num ! q\<close> the number of entries
  \<^verbatim>\<open>malloc\<close> reserved for it; \<open>el\<close> the bytes written into the element.\<close>

definition put_block ::
  "nat list \<Rightarrow> nat list \<Rightarrow> bool \<Rightarrow> nat \<Rightarrow> nat \<Rightarrow> u32 list \<Rightarrow> byte list \<times> byte list list \<Rightarrow>
     crash + byte list \<times> byte list list"
where
  "put_block base num is_last p q ids st = (case st of (el, rem) \<Rightarrow>
     let el = el @ enc_u16 (block_msg is_last p q (length ids)) in
     if q \<noteq> p then
       if length ids \<le> INLINE_DEG_BAR then Inr (foldl (\<lambda>el v. el @ enc_u32 v) el ids, rem)
       else let relative_ofs = base ! q + length (rem ! q);
                el = el @ enc_u64 (word_of_nat relative_ofs);
                arr = foldl (\<lambda>arr v. arr @ enc_u32 v) (rem ! q) ids
            in if length arr > 4 * num ! q then Inl OutOfBounds else Inr (el, rem[q := arr])
     else Inr (foldl (\<lambda>el v. el @ enc_u32 v) el ids, rem))"

primrec put_blocks ::
  "nat list \<Rightarrow> nat list \<Rightarrow> nat \<Rightarrow> nat \<Rightarrow> u32 list list \<Rightarrow> nat list \<Rightarrow> byte list \<times> byte list list \<Rightarrow>
     crash + byte list \<times> byte list list"
where
  "put_blocks base num ele_size p nghs [] st = Inr st"
| "put_blocks base num ele_size p nghs (q # qs) st =
     (case put_block base num (qs = []) p q (nghs ! q) st of
        Inl e \<Rightarrow> Inl e
      | Inr st \<Rightarrow> if length (fst st) > ele_size then Inl Abort
                  else put_blocks base num ele_size p nghs qs st)"

definition put_node ::
  "u32 list \<Rightarrow> nat list \<Rightarrow> nat list \<Rightarrow> nat \<Rightarrow> nat \<Rightarrow> u32 list \<Rightarrow> byte list list \<Rightarrow>
     crash + byte list \<times> byte list list"
where
  "put_node cumu base num ele_size p ids rem =
     (case group_ngh cumu ids (replicate (length base) []) of
        Inl e \<Rightarrow> Inl e
      | Inr nghs \<Rightarrow> put_blocks base num ele_size p nghs (part_ids p nghs) ([], rem))"

primrec put_part ::
  "u32 list \<Rightarrow> nat list \<Rightarrow> nat list \<Rightarrow> nat \<Rightarrow> nat \<Rightarrow> u32 list list \<Rightarrow> byte list list \<times> byte list list \<Rightarrow>
     crash + byte list list \<times> byte list list"
where
  "put_part cumu base num ele_size p [] st = Inr st"
| "put_part cumu base num ele_size p (ids # rest) st =
     (case put_node cumu base num ele_size p ids (snd st) of
        Inl e \<Rightarrow> Inl e
      | Inr (el, rem) \<Rightarrow> put_part cumu base num ele_size p rest (fst st @ [el], rem))"

text \<open>\<open>adj\<close> holds the link list of every vertex; partition \<open>p\<close> owns the vertices from \<open>cumu ! p\<close>
  on.\<close>

definition part_adj :: "u32 list \<Rightarrow> u32 list list \<Rightarrow> nat \<Rightarrow> u32 list list" where
  "part_adj cumu adj p = take (unat (cumu ! (p + 1)) - unat (cumu ! p)) (drop (unat (cumu ! p)) adj)"

primrec put_parts ::
  "u32 list \<Rightarrow> nat list \<Rightarrow> nat list \<Rightarrow> nat \<Rightarrow> u32 list list \<Rightarrow> nat list \<Rightarrow> byte list list \<Rightarrow>
     crash + byte list list list \<times> byte list list"
where
  "put_parts cumu base num ele_size adj [] rem = Inr ([], rem)"
| "put_parts cumu base num ele_size adj (p # ps) rem =
     (if unat (cumu ! (p + 1)) > length adj then Inl OutOfBounds
      else case put_part cumu base num ele_size p (part_adj cumu adj p) ([], rem) of
        Inl e \<Rightarrow> Inl e
      | Inr (els, rem) \<Rightarrow> (case put_parts cumu base num ele_size adj ps rem of
            Inl e \<Rightarrow> Inl e
          | Inr (elss, rem) \<Rightarrow> Inr (els # elss, rem)))"

definition index_meta :: "nat \<Rightarrow> nat \<Rightarrow> u32 \<Rightarrow> nat \<Rightarrow> u64 \<Rightarrow> nat \<Rightarrow> byte list" where
  "index_meta p part_num part_size ele_size enterpoint remote_num =
     enc_u32 (word_of_nat p) @ enc_u32 (word_of_nat part_num) @ enc_u32 part_size @
     enc_u32 (word_of_nat ele_size) @ enc_u64 enterpoint @ enc_u64 (word_of_nat remote_num)"

text \<open>\<open>junk\<close> is what \<^verbatim>\<open>malloc\<close> leaves in the part of an element no block is written to.\<close>

definition pad :: "(nat \<Rightarrow> byte) \<Rightarrow> nat \<Rightarrow> byte list \<Rightarrow> byte list" where
  "pad junk ele_size el = el @ map junk [length el ..< ele_size]"

definition max_deg :: nat where
  "max_deg = 48"

definition ngh_ele_size :: "nat \<Rightarrow> nat" where
  "ngh_ele_size part_num = max_deg * 4 + part_num * 2"

definition transfer_b1_to_scala_v3 ::
  "(nat \<Rightarrow> byte) \<Rightarrow> u64 \<Rightarrow> u32 list \<Rightarrow> u32 list list \<Rightarrow> crash + byte list list"
where
  "transfer_b1_to_scala_v3 junk enterpoint part_size adj =
     (let part_num = length part_size;
          cumu = cumu_from 0 part_size;
          ele_size = ngh_ele_size part_num;
          base = map (\<lambda>n. unat n * ele_size) part_size
      in case count_remote cumu adj 0 (replicate part_num 0) of
           Inl e \<Rightarrow> Inl e
         | Inr num \<Rightarrow>
             (case put_parts cumu base num ele_size adj [0 ..< part_num] (replicate part_num []) of
                Inl e \<Rightarrow> Inl e
              | Inr (elss, rem) \<Rightarrow>
                  if list_all (\<lambda>p. length (rem ! p) = 4 * num ! p) [0 ..< part_num]
                  then Inr (map (\<lambda>p. index_meta p part_num (part_size ! p) ele_size enterpoint (num ! p) @
                         concat (map (pad junk ele_size) (elss ! p)) @ rem ! p) [0 ..< part_num])
                  else Inl Abort))"

section \<open>The loader\<close>

text \<open>\<^verbatim>\<open>load_index\<close>: the index file of this partition and the data files of all partitions, whose
  header gives the partition sizes.  A file that is too short leaves memory uninitialised
  (\<^const>\<open>OutOfBounds\<close>); \<^verbatim>\<open>assert\<close> is active.\<close>

definition read_index_file :: "(u32 \<times> u32 \<times> u32 \<times> u32 \<times> u64 \<times> u64) reader" where
  "read_index_file s = do {
     (read_pid, s) \<leftarrow> rd_u32 s;
     (read_pnum, s) \<leftarrow> rd_u32 s;
     (local_vec_num, s) \<leftarrow> rd_u32 s;
     (ele_size, s) \<leftarrow> rd_u32 s;
     (enter_p, s) \<leftarrow> rd_u64 s;
     (remote_ngh_num, s) \<leftarrow> rd_u64 s;
     Some ((read_pid, read_pnum, local_vec_num, ele_size, enter_p, remote_ngh_num), s) }"

definition read_data_header :: "(u32 \<times> u32 \<times> u32 \<times> u64) reader" where
  "read_data_header s = do {
     (read_pid, s) \<leftarrow> rd_u32 s;
     (read_pnum, s) \<leftarrow> rd_u32 s;
     (vec_num, s) \<leftarrow> rd_u32 s;
     (all_vec_num, s) \<leftarrow> rd_u64 s;
     Some ((read_pid, read_pnum, vec_num, all_vec_num), s) }"

primrec load_data :: "nat \<Rightarrow> u32 \<Rightarrow> nat \<Rightarrow> byte list list \<Rightarrow> u32 list \<times> byte list \<Rightarrow> (u32 list \<times> byte list) option" where
  "load_data vec_size partition_id p [] st = Some st"
| "load_data vec_size partition_id p (file # files) st = do {
     ((_, _, n, _), s) \<leftarrow> read_data_header file;
     st \<leftarrow> (if p = unat partition_id then do {
              (_, s) \<leftarrow> rd_bytes (vec_size + 8) s;
              (vs, _) \<leftarrow> rd_bytes ((vec_size + 8) * unat n) s;
              Some (fst st @ [n], vs) }
            else Some (fst st @ [n], snd st));
     load_data vec_size partition_id (p + 1) files st }"

definition load_index ::
  "nat \<Rightarrow> u32 \<Rightarrow> u32 \<Rightarrow> byte list \<Rightarrow> byte list list \<Rightarrow> crash + ScalaGraphIndex"
where
  "load_index vec_size partition_id partition_num index_file data_files =
     (case read_index_file index_file of
        None \<Rightarrow> Inl OutOfBounds
      | Some ((read_pid, read_pnum, local_vec_num, ele_size, enter_p, remote_ngh_num), s) \<Rightarrow>
          if \<not> (read_pid = partition_id \<and> read_pnum = partition_num) then Inl Abort
          else let index_size = ucast ele_size * ucast local_vec_num + remote_ngh_num * 4 :: u64 in
            (case (rd_bytes (unat index_size) s, load_data vec_size partition_id 0 data_files ([], [])) of
               (Some (deg_ngh, _), Some (vec_num, vectors)) \<Rightarrow>
                 Inr \<lparr>gi_deg_ngh = deg_ngh, gi_vector = vectors, gi_partition_num = unat partition_num,
                   gi_partition_id = partition_id, gi_partition_vec_num = vec_num,
                   gi_cumu_partition_num = cumu_from 0 vec_num,
                   gi_local_part_vec_num = vec_num ! unat partition_id,
                   gi_partition_ofs = ucast (cumu_from 0 vec_num ! unat partition_id),
                   gi_local_ngh_ele_size = ucast ele_size, gi_vec_size = vec_size\<rparr>
             | _ \<Rightarrow> Inl OutOfBounds))"

section \<open>The readers\<close>

text \<open>One round of the \<^verbatim>\<open>while (true)\<close> loop that both readers share: what the two header bytes
  announce, whether it is the last block, and the offset of the next one.\<close>

datatype block =
    LocalBlock nat nat
  | MicroBlock nat "u32 list"
  | LargeBlock nat nat u64

definition read_block :: "byte list \<Rightarrow> nat \<Rightarrow> (block \<times> bool \<times> nat) option" where
  "read_block mem ofs = do {
     (deg, s) \<leftarrow> rd_u8 (drop ofs mem);
     (flags, s) \<leftarrow> rd_u8 s;
     let pid = unat (flags AND 0x3f) in
     if flags AND 0x40 \<noteq> 0 then Some (LocalBlock (unat deg) (ofs + 2), True, ofs + 2)
     else if unat deg \<le> INLINE_DEG_BAR then do {
       (ids, _) \<leftarrow> rd_many (unat deg) rd_u32 s;
       Some (MicroBlock pid ids, flags AND 0x80 \<noteq> 0, ofs + 2 + 4 * unat deg) }
     else do {
       (r, _) \<leftarrow> rd_u64 s;
       Some (LargeBlock pid (unat deg) r, flags AND 0x80 \<noteq> 0, ofs + 10) } }"

lemma read_block_in: "read_block mem ofs = Some (b, l, ofs') \<Longrightarrow> ofs < length mem \<and> ofs < ofs'"
  by (cases "ofs < length mem")
    (auto simp: read_block_def rd_u8_def rd_bytes_def Let_def bind_eq_Some_conv split: if_splits)

function walk :: "(block \<Rightarrow> 's \<Rightarrow> crash + 's) \<Rightarrow> byte list \<Rightarrow> nat \<Rightarrow> 's \<Rightarrow> crash + 's" where
  "walk act mem ofs st =
     (case read_block mem ofs of
        None \<Rightarrow> Inl OutOfBounds
      | Some (b, is_last, ofs') \<Rightarrow>
          (case act b st of
             Inl e \<Rightarrow> Inl e
           | Inr st' \<Rightarrow> if is_last then Inr st' else walk act mem ofs' st'))"
  by auto
termination
  by (relation "measure (\<lambda>(act, mem, ofs, st). length mem - ofs)")
    (auto dest: read_block_in)

declare walk.simps [simp del]

text \<open>\<^verbatim>\<open>scala_graph_v3_get_subquery_task_lb\<close>: the state of the loop is the task manager, the bag
  \<^verbatim>\<open>ib\<close> of local tasks and \<^verbatim>\<open>post_cnt\<close>.  \<open>j\<close>, \<open>k\<close> are the members the local-task constructor
  leaves uninitialised.\<close>

type_synonym dispatch_state = "TaskManager \<times> ComputeTask list \<times> u32"

definition upd_query :: "u32 \<Rightarrow> (QueryMsg \<Rightarrow> QueryMsg) \<Rightarrow> TaskManager \<Rightarrow> TaskManager" where
  "upd_query qid f tm =
     tm\<lparr>tm_global_query := (tm_global_query tm)[unat qid := f (tm_global_query tm ! unat qid)]\<rparr>"

definition add_micro_ngh :: "nat \<Rightarrow> u32 list \<Rightarrow> SyncMsg \<Rightarrow> SyncMsg" where
  "add_micro_ngh pid ids m =
     m\<lparr>sm_core_micro_ngh := (sm_core_micro_ngh m)[pid := sm_core_micro_ngh m ! pid @ ids]\<rparr>"

definition add_large_ngh :: "nat \<Rightarrow> u64 \<times> u32 \<Rightarrow> SyncMsg \<Rightarrow> SyncMsg" where
  "add_large_ngh pid e m =
     m\<lparr>sm_core_large_ngh := (sm_core_large_ngh m)[pid := sm_core_large_ngh m ! pid @ [e]]\<rparr>"

definition push_task :: "nat \<Rightarrow> ComputeTask \<Rightarrow> TaskManager \<Rightarrow> TaskManager" where
  "push_task pid t tm = tm\<lparr>tm_task_queue := (tm_task_queue tm)[pid := tm_task_queue tm ! pid @ [t]]\<rparr>"

definition async_read :: "ScalaGraphIndex \<Rightarrow> nat \<Rightarrow> u32 \<Rightarrow> BufferCache" where
  "async_read g pid vid = \<lparr>bc_machine_id = word_of_nat pid, bc_vector_id = ucast vid,
     bc_internal_id = ucast (scala_graph_get_internal_id g pid vid), bc_buffer_id = -1, bc_buffer_ptr = None\<rparr>"

definition subquery_block ::
  "dist_t \<Rightarrow> u8 \<Rightarrow> ScalaGraphIndex \<Rightarrow> u32 \<Rightarrow> dist_t \<Rightarrow> u8 \<Rightarrow> block \<Rightarrow> dispatch_state \<Rightarrow> crash + dispatch_state"
where
  "subquery_block j k g qid lb ef_fill b st = (case st of (tm, ib, post_cnt) \<Rightarrow>
     let is_core = (\<lambda>pid. q_is_core_machine (tm_global_query tm ! unat qid) ! pid \<noteq> 0) in
     case b of
       LocalBlock deg ofs \<Rightarrow>
         Inr (tm, ib @ [local_ComputeTask j k (gi_partition_id g) qid (word_of_nat deg) (word_of_nat ofs) True],
              post_cnt + 1)
     | MicroBlock pid ids \<Rightarrow>
         if pid \<ge> MACHINE_NUM then Inl OutOfBounds
         else if is_core pid
         then Inr (upd_query qid (\<lambda>q. q\<lparr>q_sync_msg := add_micro_ngh pid ids (q_sync_msg q)\<rparr>) tm, ib, post_cnt)
         else Inr (upd_query qid (\<lambda>q. q\<lparr>q_async_read_queue := q_async_read_queue q @ map (async_read g pid) ids\<rparr>) tm,
                   ib, post_cnt + word_of_nat (length ids))
     | LargeBlock pid deg ofs \<Rightarrow>
         if pid \<ge> MACHINE_NUM then Inl OutOfBounds
         else if is_core pid
         then Inr (upd_query qid (\<lambda>q. q\<lparr>q_sync_msg := add_large_ngh pid (ofs, word_of_nat deg) (q_sync_msg q)\<rparr>) tm,
                   ib, post_cnt)
         else Inr (push_task pid (remote_ComputeTask (gi_partition_id g) qid (word_of_nat deg) ofs lb ef_fill 1 0) tm,
                   ib, post_cnt + 1))"

definition scala_graph_v3_get_subquery_task_lb ::
  "dist_t \<Rightarrow> u8 \<Rightarrow> ScalaGraphIndex \<Rightarrow> u32 \<Rightarrow> u32 \<Rightarrow> TaskManager \<Rightarrow> ComputeTask list \<Rightarrow> crash + dispatch_state"
where
  "scala_graph_v3_get_subquery_task_lb j k g current_node_id qid tm ib =
     (if ucast current_node_id < gi_partition_ofs g \<or>
         ucast current_node_id \<ge> gi_partition_ofs g + ucast (gi_local_part_vec_num g) then Inl Abort
      else if unat qid \<ge> length (tm_global_query tm) then Inl OutOfBounds
      else let ofs = gi_local_ngh_ele_size g * (ucast current_node_id - gi_partition_ofs g);
               q = tm_global_query tm ! unat qid;
               lb = q_lowerBound q;
               ef_fill = (if length (q_top_candidates q) < unat (q_ef q) then 1 else 0)
           in walk (subquery_block j k g qid lb ef_fill) (gi_deg_ngh g) (unat ofs) (tm, ib, 0))"

text \<open>\<^verbatim>\<open>scala_graph_v3_get_nodetask_msg\<close>, the same walk for a vertex of a non-core machine: up to
  two identifiers travel packed in the offset word of a task.\<close>

fun micro_combine :: "nat \<Rightarrow> u32 list \<Rightarrow> u64 \<Rightarrow> u64" where
  "micro_combine d [] acc = acc"
| "micro_combine d (v # vs) acc = micro_combine (d + 1) vs (acc OR push_bit (d * 32) (ucast v))"

definition push_node_sync :: "nat \<Rightarrow> NonCoreSyncMsg \<Rightarrow> TaskManager \<Rightarrow> TaskManager" where
  "push_node_sync pid m tm =
     tm\<lparr>tm_noncore_sync_msg := (tm_noncore_sync_msg tm)[pid := tm_noncore_sync_msg tm ! pid @ [m]]\<rparr>"

type_synonym node_state = "TaskManager \<times> NodeTask \<times> NodeResult"

definition post_node_task :: "nat \<Rightarrow> NodeTask \<Rightarrow> nat \<Rightarrow> u64 \<Rightarrow> TaskManager \<times> NodeResult \<Rightarrow> TaskManager \<times> NodeResult" where
  "post_node_task pid task deg ofs st =
     (push_task pid (remote_ComputeTask (nt_machine_id task) (nt_qid task) (word_of_nat deg) ofs (Dist 0) 0 0 1) (fst st),
      (snd st)\<lparr>nr_post_cnt := nr_post_cnt (snd st) + 1\<rparr>)"

definition nodetask_block :: "block \<Rightarrow> node_state \<Rightarrow> crash + node_state" where
  "nodetask_block b st = (case st of (tm, task, res) \<Rightarrow>
     case b of
       LocalBlock deg ofs \<Rightarrow> Inr (tm, task\<lparr>nt_deg := word_of_nat deg, nt_offset := word_of_nat ofs\<rparr>, res)
     | MicroBlock pid ids \<Rightarrow>
         if pid \<ge> MACHINE_NUM then Inl OutOfBounds
         else if nt_is_core_machine task ! pid \<noteq> 0
         then Inr (push_node_sync pid ((new_NonCoreSyncMsg (nt_qid task))\<lparr>ns_core_micro_ngh := ids\<rparr>) tm, task, res)
         else let (tm, res) = post_node_task pid task (length ids) (micro_combine 0 ids 0) (tm, res)
              in Inr (tm, task, res)
     | LargeBlock pid deg ofs \<Rightarrow>
         if pid \<ge> MACHINE_NUM then Inl OutOfBounds
         else if nt_is_core_machine task ! pid \<noteq> 0
         then Inr (push_node_sync pid ((new_NonCoreSyncMsg (nt_qid task))\<lparr>ns_core_large_ngh := [(ofs, word_of_nat deg)]\<rparr>) tm,
                   task, res)
         else let (tm, res) = post_node_task pid task deg ofs (tm, res) in Inr (tm, task, res))"

definition scala_graph_v3_get_nodetask_msg ::
  "ScalaGraphIndex \<Rightarrow> TaskManager \<Rightarrow> NodeTask \<Rightarrow> NodeResult \<Rightarrow> crash + node_state"
where
  "scala_graph_v3_get_nodetask_msg g tm task res =
     (let ofs = gi_local_ngh_ele_size g * (ucast (nt_node_id task) - gi_partition_ofs g)
      in walk nodetask_block (gi_deg_ngh g) (unat ofs) (tm, task, res\<lparr>nr_post_cnt := 0\<rparr>))"

section \<open>The partition table as a contract\<close>

lemma length_cumu [simp]: "length (cumu_from c ns) = Suc (length ns)"
  by (induction ns arbitrary: c) auto

lemma unat_cumu:
  "unat c + sum_list (map unat ns) < 2 ^ 32 \<Longrightarrow> i \<le> length ns \<Longrightarrow>
     unat (cumu_from c ns ! i) = unat c + sum_list (map unat (take i ns))"
proof (induction ns arbitrary: c i)
  case (Cons n ns)
  have "unat c + unat n < 2 ^ 32" using Cons.prems by simp
  then have "unat (c + n) = unat c + unat n" by (simp add: unat_word_ariths)
  with Cons.IH [of "c + n" "i - 1"] Cons.prems show ?case
    by (cases i) auto
qed simp

definition table_ok :: "u32 list \<Rightarrow> bool" where
  "table_ok sizes \<longleftrightarrow> sum_list (map unat sizes) < 2 ^ 32"

definition starts :: "u32 list \<Rightarrow> nat \<Rightarrow> nat" where
  "starts sizes p = sum_list (map unat (take p sizes))"

lemma unat_cumu0: "table_ok sizes \<Longrightarrow> p \<le> length sizes \<Longrightarrow> unat (cumu_from 0 sizes ! p) = starts sizes p"
  using unat_cumu [of 0 sizes p] by (simp add: table_ok_def starts_def)

lemma starts_Suc: "p < length sizes \<Longrightarrow> starts sizes (Suc p) = starts sizes p + unat (sizes ! p)"
  by (simp add: starts_def take_Suc_conv_app_nth)

lemma starts_mono: "p \<le> q \<Longrightarrow> starts sizes p \<le> starts sizes q"
proof (induction q rule: dec_induct)
  case (step q)
  then show ?case by (cases "q < length sizes") (auto simp: starts_Suc, simp add: starts_def)
qed simp

locale partition_lookup =
  fixes lookup :: "'t \<Rightarrow> 'i \<Rightarrow> nat option"
    and sizes :: "'t \<Rightarrow> u32 list"
    and idx :: "'i \<Rightarrow> nat"
    and ok :: "'t \<Rightarrow> bool"
  assumes lookup_first: "ok t \<Longrightarrow>
      lookup t i = find (\<lambda>p. idx i < starts (sizes t) (Suc p)) [0 ..< length (sizes t)]"
begin

lemma lookup_iff:
  assumes "ok t"
  shows "lookup t i = Some p \<longleftrightarrow>
    p < length (sizes t) \<and> starts (sizes t) p \<le> idx i \<and> idx i < starts (sizes t) (Suc p)"
proof
  assume "lookup t i = Some p"
  then have p: "p < length (sizes t)" "idx i < starts (sizes t) (Suc p)" 
    and less: "\<forall>q<p. \<not> idx i < starts (sizes t) (Suc q)"
    using assms by (auto simp: lookup_first find_Some_iff)
  have "starts (sizes t) p \<le> idx i"
    using less by (cases p) (auto simp: starts_def not_less)
  with p show "p < length (sizes t) \<and> starts (sizes t) p \<le> idx i \<and> idx i < starts (sizes t) (Suc p)" by simp
next
  assume a: "p < length (sizes t) \<and> starts (sizes t) p \<le> idx i \<and> idx i < starts (sizes t) (Suc p)"
  have "q < p \<Longrightarrow> \<not> idx i < starts (sizes t) (Suc q)" for q
    using a starts_mono [of "Suc q" p "sizes t"] by simp
  with a assms show "lookup t i = Some p"
    by (auto simp: lookup_first find_Some_iff intro!: exI [of _ p])
qed

lemma lookup_total:
  assumes "ok t" "idx i < starts (sizes t) (length (sizes t))"
  shows "\<exists>p. lookup t i = Some p"
proof (rule ccontr)
  assume "\<not> ?thesis"
  with assms have "\<forall>p<length (sizes t). \<not> idx i < starts (sizes t) (Suc p)"
    by (auto simp: lookup_first find_None_iff)
  with assms(2) show False by (cases "length (sizes t)") (auto simp: starts_def)
qed

lemma lookup_none:
  assumes "ok t" "starts (sizes t) (length (sizes t)) \<le> idx i"
  shows "lookup t i = None"
  using assms lookup_iff [OF assms(1)] starts_mono [of "Suc _" "length (sizes t)" "sizes t"]
  by (cases "lookup t i") (auto, meson Suc_leI leD order.trans)

end

lemma find_cong_upt: "(\<And>p. p < n \<Longrightarrow> P p = Q p) \<Longrightarrow> find P [0 ..< n] = find Q [0 ..< n]"
  by (rule find_cong) auto

interpretation judge: partition_lookup "\<lambda>sizes. judge_partition (cumu_from 0 sizes)" "\<lambda>sizes. sizes" unat table_ok
proof
  fix t i
  assume ok: "table_ok t"
  show "judge_partition (cumu_from 0 t) i = find (\<lambda>p. unat i < starts t (Suc p)) [0 ..< length t]"
    unfolding judge_partition_def
    by (simp, rule find_cong_upt) (simp add: word_less_nat_alt unat_cumu0 ok)
qed

definition graph_ok :: "ScalaGraphIndex \<Rightarrow> bool" where
  "graph_ok g \<longleftrightarrow> gi_partition_num g = length (gi_partition_vec_num g) \<and>
     gi_cumu_partition_num g = cumu_from 0 (gi_partition_vec_num g) \<and> table_ok (gi_partition_vec_num g)"

lemma find_shift: "map_option (\<lambda>p. p - Suc 0) (find P (map Suc xs)) = find (P \<circ> Suc) xs"
  by (induction xs) auto

interpretation machine: partition_lookup get_machine_id gi_partition_vec_num unat graph_ok
proof
  fix g i
  assume ok: "graph_ok g"
  let ?n = "length (gi_partition_vec_num g)"
  have "get_machine_id g i = find ((\<lambda>p. gi_cumu_partition_num g ! p > i) \<circ> Suc) [0 ..< ?n]"
    using ok by (simp only: get_machine_id_def graph_ok_def One_nat_def flip: map_Suc_upt find_shift)
  also have "\<dots> = find (\<lambda>p. unat i < starts (gi_partition_vec_num g) (Suc p)) [0 ..< ?n]"
    using ok by (intro find_cong_upt) (simp add: graph_ok_def word_less_nat_alt unat_cumu0)
  finally show "get_machine_id g i = \<dots>" .
qed

end
