(* ===== verification/Graph_Format.thy ===== *)
theory Graph_Format
  imports Scala_Graph "HOL-Library.Sublist"
begin

text \<open>
  The V3 format of \<^verbatim>\<open>scala_graph.h\<close> read back: a block, an element and a partition image hold what
  the writer was given; the writer returns on every graph whose degrees are within the bound of the
  format; the loader accepts the image.
\<close>

section \<open>Reading back a block\<close>

lemma u8_fields:
  fixes w :: u8
  shows "unat (w AND 0x3f) = unat w mod 64" "w AND 0x40 \<noteq> 0 \<longleftrightarrow> odd (unat w div 64)"
    "w AND 0x80 \<noteq> 0 \<longleftrightarrow> odd (unat w div 128)"
proof -
  have "w AND 0x3f = take_bit 6 w" by (simp add: take_bit_eq_mask mask_eq_exp_minus_1)
  then have "unat (w AND 0x3f) = take_bit 6 (unat w)" by (simp only: unsigned_take_bit_eq)
  then show "unat (w AND 0x3f) = unat w mod 64" by (simp add: take_bit_eq_mod)
  have "w AND 2 ^ 6 = 0 \<longleftrightarrow> \<not> bit w 6" "w AND 2 ^ 7 = 0 \<longleftrightarrow> \<not> bit w 7"
    by (rule and_exp_eq_0_iff_not_bit)+
  then show "w AND 0x40 \<noteq> 0 \<longleftrightarrow> odd (unat w div 64)" "w AND 0x80 \<noteq> 0 \<longleftrightarrow> odd (unat w div 128)"
    by (simp_all add: bit_unat)
qed

definition flag_bits :: "bool \<Rightarrow> bool \<Rightarrow> nat" where
  "flag_bits is_last loc = (if is_last then if loc then 192 else 128 else 0)"

lemma unat_block_msg:
  assumes "q < 64" "deg < 256"
  shows "unat (block_msg is_last p q deg) = deg + 256 * (q + flag_bits is_last (q = p))"
proof -
  let ?f = "(if is_last then push_bit 15 1 OR (if q = p then push_bit 14 1 else 0) else 0) :: u64"
  have f: "unat ?f = push_bit 14 (flag_bits is_last (q = p) div 64)"
    by (simp add: flag_bits_def push_bit_eq_mult)
  have d: "unat (word_of_nat deg :: u64) = deg" using assms by (simp add: unat_of_nat)
  have q: "unat (push_bit 8 (word_of_nat q :: u64)) = push_bit 8 q" 
    using assms unat_push_bit64 [of q 6 8] by simp
  have q8: "push_bit 8 q < 2 ^ 14" using assms by (simp add: push_bit_eq_mult)
  have u: "unat (?f OR push_bit 8 (word_of_nat q) OR word_of_nat deg) =
      push_bit 14 (flag_bits is_last (q = p) div 64) + (push_bit 8 q + deg)"
    unfolding unsigned_or_eq f d q
    using or_shifted [of deg 8 q] or_shifted [of "push_bit 8 q + deg" 14] assms
    by (simp add: or.assoc push_bit_eq_mult)
  have "\<dots> < 2 ^ 16" using assms by (simp add: push_bit_eq_mult flag_bits_def)
  with u assms show ?thesis
    unfolding block_msg_def Let_def
    by (simp add: unsigned_ucast_eq take_bit_nat_eq_self flag_bits_def push_bit_eq_mult)
qed

lemma rd_block_header:
  assumes "q < 64" "deg < 256"
  obtains flags where "rd_u8 (enc_u16 (block_msg is_last p q deg) @ s) = Some (word_of_nat deg, flags # s)"
    "rd_u8 (flags # s) = Some (flags, s)" "unat (flags AND 0x3f) = q"
    "flags AND 0x40 \<noteq> 0 \<longleftrightarrow> is_last \<and> q = p" "flags AND 0x80 \<noteq> 0 \<longleftrightarrow> is_last"
proof
  let ?n = "q + flag_bits is_last (q = p)"
  let ?flags = "word_of_nat ?n :: u8"
  have "?n < 2 ^ 8" using assms by (simp add: flag_bits_def)
  then have n: "unat ?flags = ?n" unfolding unat_of_nat by simp
  have e: "(word_of_nat (deg + 256 * n) :: u8) = word_of_nat deg" "(deg + 256 * n) div 256 = n" for n
    using assms by (simp_all only: word_of_nat_eq_iff take_bit_eq_mod) simp_all
  have "enc_u16 (block_msg is_last p q deg) = [word_of_nat deg, ?flags]"
    by (simp only: enc_u16_def unat_block_msg [OF assms] numeral_2_eq_2 le_bytes.simps e)
  then show "rd_u8 (enc_u16 (block_msg is_last p q deg) @ s) = Some (word_of_nat deg, ?flags # s)"
    by (simp add: rd_u8_def rd_bytes_def)
  show "rd_u8 (?flags # s) = Some (?flags, s)" by (simp add: rd_u8_def rd_bytes_def)
  define k :: nat where "k = (if is_last then if q = p then 3 else 2 else 0)"
  have k: "?n = q + 64 * k" by (simp add: k_def flag_bits_def)
  have d: "(q + 64 * k) mod 64 = q" "(q + 64 * k) div 64 = k" "(q + 64 * k) div 128 = k div 2"
    using assms div_mult2_eq [of "q + 64 * k" 64 2] by simp_all
  show "unat (?flags AND 0x3f) = q" "?flags AND 0x40 \<noteq> 0 \<longleftrightarrow> is_last \<and> q = p"
     "?flags AND 0x80 \<noteq> 0 \<longleftrightarrow> is_last"
    unfolding u8_fields n unfolding k d by (use assms in \<open>auto simp: k_def\<close>)
qed

lemma rd_u32s: "rd_many (length ids) rd_u32 (concat (map enc_u32 ids) @ s) = Some (ids, s)"
  by (rule u32.rd_many_enc)

definition written :: "nat \<Rightarrow> nat list \<Rightarrow> byte list list \<Rightarrow> byte list \<Rightarrow> block \<Rightarrow> nat \<Rightarrow> u32 list \<Rightarrow> bool" where
  "written p base rem mem b q ids = (case b of
     LocalBlock deg ofs \<Rightarrow> q = p \<and> deg = length ids \<and> (\<exists>x y. mem = x @ concat (map enc_u32 ids) @ y \<and> ofs = length x)
   | MicroBlock pid vs \<Rightarrow> pid = q \<and> q \<noteq> p \<and> vs = ids
   | LargeBlock pid deg r \<Rightarrow> pid = q \<and> q \<noteq> p \<and> deg = length ids \<and>
       (\<exists>x y. rem ! q = x @ concat (map enc_u32 ids) @ y \<and> r = word_of_nat (base ! q + length x)))"

lemma prefix_update: "list_all2 prefix rem (rem[q := rem ! q @ x])"
proof (cases "q < length rem")
  case True
  then show ?thesis by (auto simp: list_all2_conv_all_nth nth_list_update)
qed (simp add: list_update_beyond list_all2_refl)

lemma put_block_appends:
  assumes "put_block base num l p q ids (el, rem) = Inr (el', rem')"
  shows "(\<exists>x. el' = el @ x) \<and> list_all2 prefix rem rem'"
  using assms prefix_update [of rem q "concat (map enc_u32 ids)"] list_all2_refl [of prefix rem]
  by (auto simp: put_block_def Let_def foldl_emit split: if_splits)

lemma read_put_block:
  assumes put: "put_block base num l p q ids (el, rem) = Inr (el', rem')"
    and q: "q < 64" "ids \<noteq> []" "length ids < 256" "q < length rem" and l: "q = p \<Longrightarrow> l"
  shows "\<exists>b n. read_block (pre @ el' @ post) (length pre + length el) = Some (b, l, n) \<and>
           (\<not> l \<longrightarrow> n = length pre + length el') \<and> written p base rem' (pre @ el' @ post) b q ids"
proof -
  have deg: "unat (word_of_nat (length ids) :: u8) = length ids" using q by (simp add: unat_of_nat)
  consider (loc) "q = p" | (micro) "q \<noteq> p" "length ids \<le> INLINE_DEG_BAR" | (large) "q \<noteq> p" "\<not> length ids \<le> INLINE_DEG_BAR"
    by blast
  then show ?thesis
  proof cases
    case loc
    let ?m = "enc_u16 (block_msg l p q (length ids))"
    from put loc have el': "el' = el @ ?m @ concat (map enc_u32 ids)" by (simp add: put_block_def foldl_emit)
    obtain fl where "rd_u8 (?m @ concat (map enc_u32 ids) @ post) = Some (word_of_nat (length ids), fl # concat (map enc_u32 ids) @ post)"
      "rd_u8 (fl # concat (map enc_u32 ids) @ post) = Some (fl, concat (map enc_u32 ids) @ post)"
      "fl AND 0x40 \<noteq> 0 \<longleftrightarrow> l \<and> q = p"
      using rd_block_header [OF q(1,3)] by metis
    then have r: "read_block (pre @ el' @ post) (length pre + length el) = Some (LocalBlock (length ids) (length pre + length el + 2), l, length pre + length el + 2)"
      using l loc by (simp add: read_block_def el' deg)
    moreover have "pre @ el' @ post = (pre @ el @ ?m) @ concat (map enc_u32 ids) @ post" by (simp add: el')
    moreover have "length pre + length el + 2 = length (pre @ el @ ?m)" by (simp add: len_simps)
    ultimately have "written p base rem' (pre @ el' @ post) (LocalBlock (length ids) (length pre + length el + 2)) q ids"
      using loc unfolding written_def block.case by blast
    with r l loc show ?thesis by blast
  next
    case micro
    let ?m = "enc_u16 (block_msg l p q (length ids))"
    from put micro have el': "el' = el @ ?m @ concat (map enc_u32 ids)" by (simp add: put_block_def foldl_emit)
    obtain fl where "rd_u8 (?m @ concat (map enc_u32 ids) @ post) = Some (word_of_nat (length ids), fl # concat (map enc_u32 ids) @ post)"
      "rd_u8 (fl # concat (map enc_u32 ids) @ post) = Some (fl, concat (map enc_u32 ids) @ post)"
      "unat (fl AND 0x3f) = q" "fl AND 0x40 \<noteq> 0 \<longleftrightarrow> l \<and> q = p" "fl AND 0x80 \<noteq> 0 \<longleftrightarrow> l"
      using rd_block_header [OF q(1,3)] by metis
    then have "read_block (pre @ el' @ post) (length pre + length el) = Some (MicroBlock q ids, l, length pre + length el + 2 + 4 * length ids)"
      using micro by (simp add: read_block_def el' deg rd_u32s)
    then show ?thesis using micro by (simp add: written_def el' len_simps)
  next
    case large
    let ?m = "enc_u16 (block_msg l p q (length ids))"
    let ?o = "enc_u64 (word_of_nat (base ! q + length (rem ! q)))"
    from put large have el': "el' = el @ ?m @ ?o" and rem': "rem' = rem[q := rem ! q @ concat (map enc_u32 ids)]"
      by (auto simp: put_block_def foldl_emit Let_def split: if_splits)
    obtain fl where "rd_u8 (?m @ ?o @ post) = Some (word_of_nat (length ids), fl # ?o @ post)"
      "rd_u8 (fl # ?o @ post) = Some (fl, ?o @ post)"
      "unat (fl AND 0x3f) = q" "fl AND 0x40 \<noteq> 0 \<longleftrightarrow> l \<and> q = p" "fl AND 0x80 \<noteq> 0 \<longleftrightarrow> l"
      using rd_block_header [OF q(1,3)] by metis
    then have r: "read_block (pre @ el' @ post) (length pre + length el) =
        Some (LargeBlock q (length ids) (word_of_nat (base ! q + length (rem ! q))), l, length pre + length el + 10)"
      using large by (simp add: read_block_def el' deg u64.rd_enc del: of_nat_add)
    moreover have "\<exists>x y. rem' ! q = x @ concat (map enc_u32 ids) @ y \<and>
        (word_of_nat (base ! q + length (rem ! q)) :: u64) = word_of_nat (base ! q + length x)"
      using q by (intro exI [of _ "rem ! q"] exI [of _ "[]"]) (simp add: rem')
    ultimately have "written p base rem' (pre @ el' @ post)
        (LargeBlock q (length ids) (word_of_nat (base ! q + length (rem ! q)))) q ids"
      using large unfolding written_def block.case by blast
    moreover have "length pre + length el + 10 = length pre + length el'" by (simp add: el' len_simps)
    ultimately show ?thesis using r by metis
  qed
qed

section \<open>Reading back an element\<close>

definition collect_blocks :: "byte list \<Rightarrow> nat \<Rightarrow> crash + block list" where
  "collect_blocks mem ofs = walk (\<lambda>b bs. Inr (bs @ [b])) mem ofs []"

lemma walk_collect_acc:
  "walk (\<lambda>b bs. Inr (bs @ [b])) mem ofs acc = map_sum id ((@) acc) (collect_blocks mem ofs)"
proof -
  have "act = (\<lambda>b bs. Inr (bs @ [b])) \<Longrightarrow>
     walk act mem ofs (x @ acc) = map_sum id ((@) x) (walk act mem ofs acc)" for x and acc :: "block list" and act :: "block \<Rightarrow> block list \<Rightarrow> crash + block list"
  proof (induction act mem ofs acc rule: walk.induct)
    case (1 act mem ofs st)
    then show ?case
      by (subst (1 2) walk.simps) (auto simp: id_def split: option.splits)
  qed
  from this [OF refl, of acc "[]"] show ?thesis by (simp add: collect_blocks_def)
qed

lemma collect_step:
  "collect_blocks mem ofs = (case read_block mem ofs of None \<Rightarrow> Inl OutOfBounds
     | Some (b, l, n) \<Rightarrow> if l then Inr [b] else map_sum id ((#) b) (collect_blocks mem n))"
  by (subst collect_blocks_def, subst walk.simps)
    (auto simp: walk_collect_acc append_single split: option.splits)

lemma written_grows:
  assumes "written p base rem mem b q ids" "list_all2 prefix rem rem'" "q < length rem"
  shows "written p base rem' mem b q ids"
proof -
  from assms(2,3) obtain z where "rem' ! q = rem ! q @ z" by (auto simp: list_all2_conv_all_nth prefix_def)
  with assms(1) show ?thesis unfolding written_def by (auto split: block.splits) (metis append.assoc)
qed

lemma prefix_all2_trans: "list_all2 prefix a b \<Longrightarrow> list_all2 prefix b c \<Longrightarrow> list_all2 prefix a c"
  by (rule list_all2_trans [of prefix prefix prefix]) auto

lemma put_blocks_appends:
  "put_blocks base num e p nghs qs (el, rem) = Inr (el', rem') \<Longrightarrow>
     (\<exists>x. el' = el @ x) \<and> list_all2 prefix rem rem' \<and> (length el \<le> e \<longrightarrow> length el' \<le> e)"
proof (induction qs arbitrary: el rem)
  case (Cons q qs)
  then obtain el1 rem1 where put: "put_block base num (qs = []) p q (nghs ! q) (el, rem) = Inr (el1, rem1)"
    "length el1 \<le> e" "put_blocks base num e p nghs qs (el1, rem1) = Inr (el', rem')"
    by (auto split: sum.splits if_splits)
  from put_block_appends [OF put(1)] Cons.IH [OF put(3)] put(2) show ?case
    by (auto intro: prefix_all2_trans)
qed (simp add: list_all2_refl)

lemma collect_put_blocks:
  assumes "put_blocks base num e p nghs qs (el, rem) = Inr (el', rem')" "qs \<noteq> []" "p \<notin> set (butlast qs)"
    and "\<forall>q\<in>set qs. q < 64 \<and> q < length rem \<and> nghs ! q \<noteq> [] \<and> length (nghs ! q) < 256"
  shows "\<exists>bs. collect_blocks (pre @ el' @ post) (length pre + length el) = Inr bs \<and>
     list_all2 (\<lambda>b q. written p base rem' (pre @ el' @ post) b q (nghs ! q)) bs qs"
  using assms
proof (induction qs arbitrary: el rem)
  case (Cons q qs)
  then obtain el1 rem1 where put: "put_block base num (qs = []) p q (nghs ! q) (el, rem) = Inr (el1, rem1)"
    "put_blocks base num e p nghs qs (el1, rem1) = Inr (el', rem')"
    by (auto split: sum.splits if_splits)
  from put_block_appends [OF put(1)] have len: "length rem1 = length rem" by (auto dest: list_all2_lengthD)
  from put_blocks_appends [OF put(2)] obtain x where el': "el' = el1 @ x" and grow: "list_all2 prefix rem1 rem'" by blast
  have "q = p \<Longrightarrow> qs = []" using Cons.prems(3) by (cases qs) auto
  with read_put_block [OF put(1), of pre "x @ post"] Cons.prems(4) obtain b n
    where r: "read_block (pre @ el' @ post) (length pre + length el) = Some (b, qs = [], n)"
      "qs \<noteq> [] \<Longrightarrow> n = length pre + length el1" "written p base rem1 (pre @ el' @ post) b q (nghs ! q)"
    by (auto simp: el')
  have w: "written p base rem' (pre @ el' @ post) b q (nghs ! q)"
    using written_grows [OF r(3) grow] Cons.prems(4) len by simp
  show ?case
  proof (cases "qs = []")
    case True
    with r w show ?thesis by (subst collect_step) simp
  next
    case False
    with Cons.prems len have "\<exists>bs. collect_blocks (pre @ el' @ post) (length pre + length el1) = Inr bs \<and>
        list_all2 (\<lambda>b q. written p base rem' (pre @ el' @ post) b q (nghs ! q)) bs qs"
      by (intro Cons.IH [OF put(2)]) auto
    with False r w show ?thesis by (subst collect_step) auto
  qed
qed simp

section \<open>What the images hold\<close>

definition part_ngh :: "u32 list \<Rightarrow> nat \<Rightarrow> u32 list \<Rightarrow> u32 list" where
  "part_ngh sizes q ids = filter (\<lambda>v. judge_partition (cumu_from 0 sizes) (ucast v) = Some q) ids"

lemma judge_lt: "judge_partition (cumu_from 0 sizes) v = Some q \<Longrightarrow> q < length sizes"
  by (auto simp: judge_partition_def find_Some_iff)

lemma group_ngh_result:
  "group_ngh (cumu_from 0 sizes) ids nghs = Inr r \<Longrightarrow> length nghs = length sizes \<Longrightarrow>
     length r = length sizes \<and> (\<forall>q<length sizes. r ! q = nghs ! q @ part_ngh sizes q ids) \<and>
     (\<forall>v\<in>set ids. judge_partition (cumu_from 0 sizes) (ucast v) \<noteq> None)"
proof (induction ids arbitrary: nghs)
  case (Cons v ids)
  then obtain q where q: "judge_partition (cumu_from 0 sizes) (ucast v) = Some q"
    and g: "group_ngh (cumu_from 0 sizes) ids (nghs[q := nghs ! q @ [v]]) = Inr r"
    by (auto split: option.splits)
  from Cons.IH [OF g] Cons.prems(2) judge_lt [OF q] q show ?case
    by (auto simp: part_ngh_def nth_list_update)
qed (simp add: part_ngh_def)

lemma part_ngh_length: "length (part_ngh sizes q ids) \<le> length ids"
  by (simp add: part_ngh_def)

definition holds_node :: "u32 list \<Rightarrow> nat \<Rightarrow> nat list \<Rightarrow> byte list list \<Rightarrow> byte list \<Rightarrow> nat \<Rightarrow> u32 list \<Rightarrow> bool" where
  "holds_node sizes p base rem mem ofs ids \<longleftrightarrow>
     (\<exists>bs qs. collect_blocks mem ofs = Inr bs \<and> distinct qs \<and> set qs = {q. part_ngh sizes q ids \<noteq> []} \<and>
        list_all2 (\<lambda>b q. written p base rem mem b q (part_ngh sizes q ids)) bs qs)"

lemma holds_node_grows:
  assumes "holds_node sizes p base rem mem ofs ids" "list_all2 prefix rem rem'" "length rem = length sizes"
  shows "holds_node sizes p base rem' mem ofs ids"
proof -
  have "part_ngh sizes q ids \<noteq> [] \<Longrightarrow> q < length sizes" for q
    using judge_lt by (auto simp: part_ngh_def filter_empty_conv)
  note lt = this
  from assms(1) obtain bs qs where c: "collect_blocks mem ofs = Inr bs" "distinct qs"
      "set qs = {q. part_ngh sizes q ids \<noteq> []}"
    and w: "list_all2 (\<lambda>b q. written p base rem mem b q (part_ngh sizes q ids)) bs qs"
    by (auto simp: holds_node_def)
  from w have "list_all2 (\<lambda>b q. written p base rem' mem b q (part_ngh sizes q ids)) bs qs"
    by (rule list.rel_mono_strong) (use lt c assms in \<open>auto intro: written_grows\<close>)
  with c show ?thesis unfolding holds_node_def by blast
qed

definition element_ok :: "u32 list \<Rightarrow> nat list \<Rightarrow> nat \<Rightarrow> byte list list \<Rightarrow> nat \<Rightarrow> byte list \<Rightarrow> u32 list \<Rightarrow> bool" where
  "element_ok sizes base e rem p el ids \<longleftrightarrow> length el \<le> e \<and> (ids \<noteq> [] \<and> length ids < 256 \<longrightarrow>
     (\<forall>pre post. holds_node sizes p base rem (pre @ el @ post) (length pre) ids))"

lemma element_ok_grows:
  "element_ok sizes base e rem p el ids \<Longrightarrow> list_all2 prefix rem rem' \<Longrightarrow> length rem = length sizes \<Longrightarrow>
     element_ok sizes base e rem' p el ids"
  unfolding element_ok_def using holds_node_grows by blast

lemma put_node_holds:
  assumes put: "put_node (cumu_from 0 sizes) base num e p ids rem = Inr (el, rem')"
    and len: "length base = length sizes" "length rem = length sizes" "length sizes \<le> 64" "p < length sizes"
  shows "list_all2 prefix rem rem' \<and> element_ok sizes base e rem' p el ids"
proof -
  from put obtain nghs where g: "group_ngh (cumu_from 0 sizes) ids (replicate (length base) []) = Inr nghs"
    and b: "put_blocks base num e p nghs (part_ids p nghs) ([], rem) = Inr (el, rem')"
    by (auto simp: put_node_def split: sum.splits)
  from group_ngh_result [OF g] len have n: "length nghs = length sizes"
      "\<And>q. q < length sizes \<Longrightarrow> nghs ! q = part_ngh sizes q ids"
    and all: "\<And>v. v \<in> set ids \<Longrightarrow> judge_partition (cumu_from 0 sizes) (ucast v) \<noteq> None" by auto
  let ?qs = "part_ids p nghs"
  have qs: "distinct ?qs" "p \<notin> set (butlast ?qs)" "set ?qs = {q. q < length sizes \<and> part_ngh sizes q ids \<noteq> []}"
    using n len by (auto simp: part_ids_def butlast_append dest: in_set_butlastD)
  have lt: "part_ngh sizes q ids \<noteq> [] \<Longrightarrow> q < length sizes" for q
    using judge_lt by (auto simp: part_ngh_def filter_empty_conv)
  have "holds_node sizes p base rem' (pre @ el @ post) (length pre) ids" if ids: "ids \<noteq> []" "length ids < 256" for pre post
  proof -
    obtain q where "judge_partition (cumu_from 0 sizes) (ucast (hd ids)) = Some q" using all [of "hd ids"] ids by auto
    then have "q \<in> set ?qs" using ids by (auto simp: qs judge_lt part_ngh_def filter_empty_conv intro!: bexI [of _ "hd ids"])
    then have "?qs \<noteq> []" by auto
    moreover have "\<forall>q\<in>set ?qs. q < 64 \<and> q < length rem \<and> nghs ! q \<noteq> [] \<and> length (nghs ! q) < 256"
      using len n ids part_ngh_length [of sizes _ ids] by (auto simp: qs intro: le_less_trans)
    ultimately obtain bs where bs: "collect_blocks (pre @ el @ post) (length pre) = Inr bs"
      "list_all2 (\<lambda>b q. written p base rem' (pre @ el @ post) b q (nghs ! q)) bs ?qs"
      using collect_put_blocks [OF b _ qs(2), of pre post] by auto
    from bs(2) have "list_all2 (\<lambda>b q. written p base rem' (pre @ el @ post) b q (part_ngh sizes q ids)) bs ?qs"
      by (rule list.rel_mono_strong) (simp add: n qs)
    moreover have "set ?qs = {q. part_ngh sizes q ids \<noteq> []}" using lt by (auto simp: qs)
    ultimately show ?thesis using bs(1) qs(1) unfolding holds_node_def by blast
  qed
  with put_blocks_appends [OF b] show ?thesis by (auto simp: element_ok_def)
qed

lemma put_part_holds:
  assumes len: "length base = length sizes" "length sizes \<le> 64" "p < length sizes"
  shows "put_part (cumu_from 0 sizes) base num e p idss (els0, rem) = Inr (els', rem') \<Longrightarrow> length rem = length sizes \<Longrightarrow>
    \<exists>els. els' = els0 @ els \<and> list_all2 prefix rem rem' \<and> 
      list_all2 (element_ok sizes base e rem' p) els idss"
proof (induction idss arbitrary: els0 rem)
  case (Cons ids idss)
  then obtain el rem1 where put: "put_node (cumu_from 0 sizes) base num e p ids rem = Inr (el, rem1)"
    and rest: "put_part (cumu_from 0 sizes) base num e p idss (els0 @ [el], rem1) = Inr (els', rem')"
    by (auto split: sum.splits)
  note node = put_node_holds [OF put len(1) Cons.prems(2) len(2,3)]
  then have len1: "length rem1 = length sizes" using Cons.prems(2) by (auto dest: list_all2_lengthD)
  from Cons.IH [OF rest len1] obtain els where "els' = (els0 @ [el]) @ els" and grow: "list_all2 prefix rem1 rem'"
    and "list_all2 (element_ok sizes base e rem' p) els idss" by blast
  with node element_ok_grows [OF _ grow len1] prefix_all2_trans [OF _ grow, of rem] show ?case
    by (intro exI [of _ "el # els"]) auto
qed (simp add: list_all2_refl)

lemma put_parts_holds:
  assumes len: "length base = length sizes" "length sizes \<le> 64"
  shows "put_parts (cumu_from 0 sizes) base num e adj ps rem = Inr (elss, rem') \<Longrightarrow> length rem = length sizes \<Longrightarrow>
    set ps \<subseteq> {..<length sizes} \<Longrightarrow> list_all2 prefix rem rem' \<and>
      list_all2 (\<lambda>els p. unat (cumu_from 0 sizes ! (p + 1)) \<le> length adj \<and>
        list_all2 (element_ok sizes base e rem' p) els (part_adj (cumu_from 0 sizes) adj p))
        elss ps"
proof (induction ps arbitrary: elss rem)
  case (Cons p ps)
  then obtain els rem1 elss1 where put: "put_part (cumu_from 0 sizes) base num e p (part_adj (cumu_from 0 sizes) adj p) ([], rem) = Inr (els, rem1)"
    and adj: "unat (cumu_from 0 sizes ! (p + 1)) \<le> length adj"
    and rest: "put_parts (cumu_from 0 sizes) base num e adj ps rem1 = Inr (elss1, rem')" and elss: "elss = els # elss1"
    by (auto split: sum.splits if_splits)
  from put_part_holds [OF len _ put Cons.prems(2)] Cons.prems(3) have part: "list_all2 prefix rem rem1"
    "list_all2 (element_ok sizes base e rem1 p) els (part_adj (cumu_from 0 sizes) adj p)"
    by auto
  then have len1: "length rem1 = length sizes" using Cons.prems(2) by (auto dest: list_all2_lengthD)
  note IH = Cons.IH [OF rest len1]
  have grow: "list_all2 prefix rem1 rem'" using IH Cons.prems(3) by simp
  from part(2) have "list_all2 (element_ok sizes base e rem' p) els (part_adj (cumu_from 0 sizes) adj p)"
    by (rule list.rel_mono_strong) (use element_ok_grows [OF _ grow len1] in blast)
  with IH Cons.prems(3) adj grow part(1) show ?case by (auto simp: elss intro: prefix_all2_trans)
qed (simp add: list_all2_refl)


lemma length_pad [simp]: "length el \<le> e \<Longrightarrow> length (pad junk e el) = e"
  by (simp add: pad_def)

lemma length_pads: "list_all2 (element_ok sizes base e rem p) els idss \<Longrightarrow> length (concat (map (pad junk e) els)) = length idss * e"
  by (induction rule: list_all2_induct) (auto simp: element_ok_def)

lemma element_at:
  assumes els: "list_all2 (element_ok sizes base e rem p) els idss" and i: "i < length idss"
    and ids: "idss ! i \<noteq> []" "length (idss ! i) < 256"
  shows "holds_node sizes p base rem (concat (map (pad junk e) els) @ s) (i * e) (idss ! i)"
proof -
  have il: "i < length els" using els i by (simp add: list_all2_lengthD)
  have "list_all2 (element_ok sizes base e rem p) (take i els) (take i idss)" using els by simp
  from length_pads [OF this] have pre: "length (concat (map (pad junk e) (take i els))) = i * e"
    using i by simp
  have "els = take i els @ els ! i # drop (Suc i) els" using il by (rule id_take_nth_drop)
  then have c: "concat (map (pad junk e) els) = concat (map (pad junk e) (take i els)) @ pad junk e (els ! i) @
      concat (map (pad junk e) (drop (Suc i) els))"
    by (metis concat.simps(2) concat_append list.simps(9) map_append)
  have "element_ok sizes base e rem p (els ! i) (idss ! i)" using els i by (simp add: list_all2_nthD2)
  then have "holds_node sizes p base rem (pre @ els ! i @ post) (length pre) (idss ! i)" for pre post
    using ids unfolding element_ok_def by blast
  from this [of "concat (map (pad junk e) (take i els))"
      "map junk [length (els ! i) ..< e] @ concat (map (pad junk e) (drop (Suc i) els)) @ s"]
  show ?thesis by (simp add: c pre pad_def)
qed

definition deg_ngh_of :: "byte list list \<Rightarrow> nat \<Rightarrow> byte list" where
  "deg_ngh_of imgs p = drop 32 (imgs ! p)"

definition block_ids :: "(nat \<Rightarrow> byte list) \<Rightarrow> nat \<Rightarrow> block \<Rightarrow> u32 list option" where
  "block_ids mem p b = (case b of
     LocalBlock deg ofs \<Rightarrow> map_option fst (rd_many deg rd_u32 (drop ofs (mem p)))
   | MicroBlock pid ids \<Rightarrow> Some ids
   | LargeBlock pid deg ofs \<Rightarrow> map_option fst (rd_many deg rd_u32 (drop (unat ofs) (mem pid))))"

definition block_part :: "nat \<Rightarrow> block \<Rightarrow> nat" where
  "block_part p b = (case b of LocalBlock deg ofs \<Rightarrow> p | MicroBlock pid ids \<Rightarrow> pid | LargeBlock pid deg ofs \<Rightarrow> pid)"

lemma written_ids:
  assumes "written p base rem (mem p) b q ids" "mem q = x @ rem ! q" "length x = base ! q" "length (mem q) < 2 ^ 64"
  shows "block_part p b = q \<and> block_ids mem p b = Some ids"
proof (cases b)
  case (LargeBlock pid deg ofs)
  with assms(1) obtain y z where y: "pid = q" "deg = length ids" "rem ! q = y @ concat (map enc_u32 ids) @ z"
    "ofs = word_of_nat (base ! q + length y)" by (auto simp: written_def)
  have "unat ofs = base ! q + length y" using assms(2-4) y unat_size64 [of "base ! q + length y"] by simp
  then have "drop (unat ofs) (mem q) = concat (map enc_u32 ids) @ z" using assms(2,3) y by simp
  with LargeBlock y show ?thesis by (simp add: block_part_def block_ids_def u32.rd_many_enc)
qed (use assms(1) in \<open>auto simp: written_def block_part_def block_ids_def u32.rd_many_enc\<close>)

lemma length_meta: "length (index_meta p n sz e ep num) = 32"
  by (simp add: index_meta_def len_simps)

lemma transfer_layout:
  assumes "transfer_b1_to_scala_v3 junk ep sizes adj = Inr imgs" "table_ok sizes"
  obtains num elss rem where
    "count_remote (cumu_from 0 sizes) adj 0 (replicate (length sizes) 0) = Inr num"
    "put_parts (cumu_from 0 sizes) (map (\<lambda>n. unat n * ngh_ele_size (length sizes)) sizes) num (ngh_ele_size (length sizes))
       adj [0 ..< length sizes] (replicate (length sizes) []) = Inr (elss, rem)"
    "length imgs = length sizes"
    "\<And>p. p < length sizes \<Longrightarrow> deg_ngh_of imgs p = concat (map (pad junk (ngh_ele_size (length sizes))) (elss ! p)) @ rem ! p"
    "\<And>p. p < length sizes \<Longrightarrow> take 32 (imgs ! p) =
        index_meta p (length sizes) (sizes ! p) (ngh_ele_size (length sizes)) ep (num ! p)"
    "\<And>p. p < length sizes \<Longrightarrow> length (rem ! p) = 4 * num ! p"
  using assms(1) unfolding transfer_b1_to_scala_v3_def Let_def
  by (auto simp: deg_ngh_of_def length_meta list_all_iff split: sum.splits if_splits)

lemma transfer_nodes:
  assumes tr: "transfer_b1_to_scala_v3 junk ep sizes adj = Inr imgs" and ok: "table_ok sizes" "length sizes \<le> 64"
    and p: "p < length sizes" "i < unat (sizes ! p)" and ids: "ids = adj ! (starts sizes p + i)" "ids \<noteq> []" "length ids < 256"
    and size: "\<forall>q<length sizes. length (imgs ! q) < 2 ^ 64"
  shows "\<exists>bs qs. collect_blocks (deg_ngh_of imgs p) (i * ngh_ele_size (length sizes)) = Inr bs \<and>
    distinct qs \<and> set qs = {q. part_ngh sizes q ids \<noteq> []} \<and>
    list_all2 (\<lambda>b q. block_part p b = q \<and> block_ids (deg_ngh_of imgs) p b = Some (part_ngh sizes q ids)) bs qs"
proof -
  let ?e = "ngh_ele_size (length sizes)"
  let ?base = "map (\<lambda>n. unat n * ngh_ele_size (length sizes)) sizes"
  let ?adj = "part_adj (cumu_from 0 sizes) adj"
  from transfer_layout [OF tr ok(1)] obtain num elss rem where
    put: "put_parts (cumu_from 0 sizes) ?base num ?e adj [0 ..< length sizes] (replicate (length sizes) []) = Inr (elss, rem)"
    and mem: "\<And>p. p < length sizes \<Longrightarrow> deg_ngh_of imgs p = concat (map (pad junk ?e) (elss ! p)) @ rem ! p"
    by metis
  from put_parts_holds [OF _ ok(2) put] have "list_all2 (\<lambda>els p. unat (cumu_from 0 sizes ! (p + 1)) \<le> length adj \<and>
      list_all2 (element_ok sizes ?base ?e rem p) els (?adj p)) elss [0 ..< length sizes]"
    by (simp add: atLeast0LessThan)
  then have els: "\<And>q. q < length sizes \<Longrightarrow> starts sizes (Suc q) \<le> length adj \<and>
      list_all2 (element_ok sizes ?base ?e rem q) (elss ! q) (?adj q)"
    using ok(1) by (auto simp: list_all2_conv_all_nth unat_cumu0)
  have adj: "length (?adj q) = unat (sizes ! q)" "j < unat (sizes ! q) \<Longrightarrow> ?adj q ! j = adj ! (starts sizes q + j)"
    if "q < length sizes" for q j
    using that els [OF that] ok(1) by (auto simp: part_adj_def unat_cumu0 starts_Suc)
  have "holds_node sizes p ?base rem (deg_ngh_of imgs p) (i * ?e) ids"
    using element_at [of sizes ?base ?e rem p "elss ! p" "?adj p" i junk "rem ! p"] els p adj ids mem by simp
  then obtain bs qs where bs: "collect_blocks (deg_ngh_of imgs p) (i * ?e) = Inr bs" "distinct qs"
      "set qs = {q. part_ngh sizes q ids \<noteq> []}"
    and w: "list_all2 (\<lambda>b q. written p ?base rem (deg_ngh_of imgs p) b q (part_ngh sizes q ids)) bs qs"
    unfolding holds_node_def by blast
  have lt: "q < length sizes" if "q \<in> set qs" for q
    using that bs(3) judge_lt by (auto simp: part_ngh_def filter_empty_conv)
  have conv: "block_part p b = q \<and> block_ids (deg_ngh_of imgs) p b = Some is"
    if "written p ?base rem (deg_ngh_of imgs p) b q is" "q < length sizes" for b q "is"
  proof (rule written_ids [OF that(1) mem [OF that(2)]])
    show "length (concat (map (pad junk ?e) (elss ! q))) = ?base ! q"
      using that(2) adj(1) [OF that(2)] length_pads [OF conjunct2 [OF els [OF that(2)]]] by simp
    show "length (deg_ngh_of imgs q) < 2 ^ 64"
      using size that(2) by (auto simp: deg_ngh_of_def intro: le_less_trans)
  qed
  from w have "list_all2 (\<lambda>b q. block_part p b = q \<and> block_ids (deg_ngh_of imgs) p b = Some (part_ngh sizes q ids)) bs qs"
    by (rule list.rel_mono_strong) (use conv lt in blast)
  with bs show ?thesis by blast
qed

section \<open>The writer returns\<close>

definition valid_nghs :: "u32 list \<Rightarrow> u32 list \<Rightarrow> bool" where
  "valid_nghs sizes ids \<longleftrightarrow> length ids \<le> max_deg \<and> (\<forall>v\<in>set ids. unat v < starts sizes (length sizes))"

definition contrib :: "u32 list \<Rightarrow> nat \<Rightarrow> nat \<Rightarrow> u32 list \<Rightarrow> nat" where
  "contrib sizes p q ids =
     (if length (part_ngh sizes q ids) > INLINE_DEG_BAR \<and> q \<noteq> p then length (part_ngh sizes q ids) else 0)"

definition remote_total :: "u32 list \<Rightarrow> nat \<Rightarrow> nat \<Rightarrow> u32 list list \<Rightarrow> nat" where
  "remote_total sizes p q idss = (\<Sum>ids\<leftarrow>idss. contrib sizes p q ids)"

lemma judge_valid:
  assumes "table_ok sizes" "unat v < starts sizes (length sizes)"
  obtains q where "judge_partition (cumu_from 0 sizes) (ucast (v :: u32)) = Some q" "q < length sizes"
  using judge.lookup_total [OF assms(1), of "ucast v"] assms(2) judge_lt by auto

lemma group_ngh_returns:
  "table_ok sizes \<Longrightarrow> \<forall>v\<in>set ids. unat v < starts sizes (length sizes) \<Longrightarrow>
     \<exists>r. group_ngh (cumu_from 0 sizes) ids nghs = Inr r"
proof (induction ids arbitrary: nghs)
  case (Cons v ids)
  then obtain q where "judge_partition (cumu_from 0 sizes) (ucast v) = Some q" by (auto elim: judge_valid)
  with Cons show ?case by simp
qed simp

lemma count_ngh_returns:
  assumes "table_ok sizes" "starts sizes (length sizes) \<le> 2 ^ 31"
  shows "\<forall>v\<in>set ids. unat v < starts sizes (length sizes) \<Longrightarrow> length cnt = length sizes \<Longrightarrow>
     count_ngh (cumu_from 0 sizes) ids cnt =
       Inr (map (\<lambda>q. cnt ! q + length (part_ngh sizes q ids)) [0 ..< length sizes])"
proof (induction ids arbitrary: cnt)
  case (Cons v ids)
  then obtain q where q: "judge_partition (cumu_from 0 sizes) (ucast v) = Some q" "q < length sizes"
    using assms(1) by (auto elim: judge_valid)
  have "scast v = (ucast v :: u64)" using Cons.prems assms(2) by (intro scast_small) auto
  with q Cons show ?case by (auto simp: part_ngh_def nth_list_update)
qed (auto simp: part_ngh_def intro: nth_equalityI)

lemma count_segment:
  assumes "table_ok sizes" "starts sizes (length sizes) \<le> 2 ^ 31" "p < length sizes"
  shows "\<lbrakk>list_all (valid_nghs sizes) seg; starts sizes p \<le> vid; vid + length seg \<le> starts sizes (Suc p);
     length num = length sizes\<rbrakk> \<Longrightarrow>
     count_remote (cumu_from 0 sizes) (seg @ rest) vid num =
       count_remote (cumu_from 0 sizes) rest (vid + length seg)
         (map (\<lambda>q. num ! q + remote_total sizes p q seg) [0 ..< length sizes])"
proof (induction seg arbitrary: vid num)
  case (Cons ids seg)
  have "starts sizes (Suc p) \<le> 2 ^ 31" using assms(2,3) starts_mono [of "Suc p" "length sizes" sizes] by simp
  then have "unat (word_of_nat vid :: u64) = vid" using Cons.prems by simp
  then have j: "judge_partition (cumu_from 0 sizes) (word_of_nat vid) = Some p"
    using judge.lookup_iff [OF assms(1)] Cons.prems assms(3) by simp
  have c: "count_ngh (cumu_from 0 sizes) ids (replicate (length sizes) 0) =
      Inr (map (\<lambda>q. length (part_ngh sizes q ids)) [0 ..< length sizes])"
    using count_ngh_returns [OF assms(1,2), of ids "replicate (length sizes) 0"] Cons.prems(1)
    by (simp add: valid_nghs_def cong: map_cong)
  let ?num = "map (\<lambda>q. num ! q + contrib sizes p q ids) [0 ..< length sizes]"
  have a: "add_remote_num (Some p) (map (\<lambda>q. length (part_ngh sizes q ids)) [0 ..< length sizes]) num = ?num"
    using Cons.prems(4) by (auto simp: add_remote_num_def contrib_def)
  have "count_remote (cumu_from 0 sizes) ((ids # seg) @ rest) vid num =
      count_remote (cumu_from 0 sizes) (seg @ rest) (vid + 1) ?num"
    using Cons.prems(4) by (simp add: c j a)
  also have "\<dots> = count_remote (cumu_from 0 sizes) rest (vid + 1 + length seg)
      (map (\<lambda>q. ?num ! q + remote_total sizes p q seg) [0 ..< length sizes])"
    using Cons.prems by (intro Cons.IH) auto
  also have "map (\<lambda>q. ?num ! q + remote_total sizes p q seg) [0 ..< length sizes] =
      map (\<lambda>q. num ! q + remote_total sizes p q (ids # seg)) [0 ..< length sizes]"
    by (rule nth_equalityI) (auto simp: remote_total_def)
  finally show ?case by (simp add: add.assoc)
qed (auto simp: remote_total_def intro!: arg_cong [where f = "count_remote _ _ _"] nth_equalityI)


lemma put_block_returns:
  assumes "q < length rem" "q \<noteq> p \<and> length ids > INLINE_DEG_BAR \<longrightarrow> length (rem ! q) + 4 * length ids \<le> 4 * num ! q"
  shows "\<exists>el' rem'. put_block base num l p q ids (el, rem) = Inr (el', rem') \<and>
     length el' \<le> length el + 2 + 4 * length ids \<and> length rem' = length rem \<and>
     (\<forall>i. length (rem' ! i) = length (rem ! i) + (if i = q \<and> q \<noteq> p \<and> length ids > INLINE_DEG_BAR then 4 * length ids else 0))"
  using assms
  by (cases "q = p"; cases "length ids \<le> INLINE_DEG_BAR")
    (auto simp: put_block_def Let_def foldl_emit len_simps nth_list_update INLINE_DEG_BAR_def)

lemma put_blocks_returns:
  "\<lbrakk>distinct qs; \<forall>q\<in>set qs. q < length rem;
    \<forall>q\<in>set qs. q \<noteq> p \<and> length (nghs ! q) > INLINE_DEG_BAR \<longrightarrow> length (rem ! q) + 4 * length (nghs ! q) \<le> 4 * num ! q;
    length el + (\<Sum>q\<leftarrow>qs. 2 + 4 * length (nghs ! q)) \<le> e\<rbrakk> \<Longrightarrow>
   \<exists>el' rem'. put_blocks base num e p nghs qs (el, rem) = Inr (el', rem') \<and> length rem' = length rem \<and>
     (\<forall>i. length (rem' ! i) = length (rem ! i) +
        (if i \<in> set qs \<and> i \<noteq> p \<and> length (nghs ! i) > INLINE_DEG_BAR then 4 * length (nghs ! i) else 0))"
proof (induction qs arbitrary: el rem)
  case (Cons q qs)
  from put_block_returns [of q rem p "nghs ! q" num base "qs = []" el] Cons.prems
  obtain el1 rem1 where b: "put_block base num (qs = []) p q (nghs ! q) (el, rem) = Inr (el1, rem1)"
    "length el1 \<le> length el + 2 + 4 * length (nghs ! q)" "length rem1 = length rem"
    and l: "\<And>i. length (rem1 ! i) = length (rem ! i) +
        (if i = q \<and> q \<noteq> p \<and> length (nghs ! q) > INLINE_DEG_BAR then 4 * length (nghs ! q) else 0)"
    by auto
  have "\<exists>el' rem'. put_blocks base num e p nghs qs (el1, rem1) = Inr (el', rem') \<and> length rem' = length rem1 \<and>
     (\<forall>i. length (rem' ! i) = length (rem1 ! i) +
        (if i \<in> set qs \<and> i \<noteq> p \<and> length (nghs ! i) > INLINE_DEG_BAR then 4 * length (nghs ! i) else 0))"
    using Cons.prems b by (intro Cons.IH) (auto simp: l)
  then obtain el' rem' where r: "put_blocks base num e p nghs qs (el1, rem1) = Inr (el', rem')" "length rem' = length rem1"
    "\<And>i. length (rem' ! i) = length (rem1 ! i) +
        (if i \<in> set qs \<and> i \<noteq> p \<and> length (nghs ! i) > INLINE_DEG_BAR then 4 * length (nghs ! i) else 0)" by blast
  have "length el1 \<le> e" using b(2) Cons.prems(4) by simp
  then have "put_blocks base num e p nghs (q # qs) (el, rem) = Inr (el', rem')" using b(1) r(1) by simp
  with r b(3) Cons.prems(1) show ?case by (auto simp: l)
qed simp

lemma sum_part_ngh: "(\<Sum>q<n. length (part_ngh sizes q ids)) \<le> length ids"
proof (induction ids)
  case (Cons v ids)
  have "(\<Sum>q<n. if judge_partition (cumu_from 0 sizes) (ucast v) = Some q then 1 else 0 :: nat) \<le> 1"
    by (cases "judge_partition (cumu_from 0 sizes) (ucast v)") auto
  moreover have "(\<Sum>q<n. length (part_ngh sizes q (v # ids))) =
    (\<Sum>q<n. if judge_partition (cumu_from 0 sizes) (ucast v) = Some q then 1 else 0 :: nat) + (\<Sum>q<n. length (part_ngh sizes q ids))"
    by (simp add: part_ngh_def flip: sum.distrib) (intro sum.cong; simp)
  ultimately show ?case using Cons.IH by simp
qed (simp add: part_ngh_def)

lemma put_node_returns:
  assumes ok: "table_ok sizes" "valid_nghs sizes ids" and p: "p < length sizes"
    and len: "length base = length sizes" "length rem = length sizes"
    and cap: "\<forall>q<length sizes. length (rem ! q) + 4 * contrib sizes p q ids \<le> 4 * num ! q"
  shows "\<exists>el rem'. put_node (cumu_from 0 sizes) base num (ngh_ele_size (length sizes)) p ids rem = Inr (el, rem') \<and>
     length rem' = length sizes \<and>
     (\<forall>q<length sizes. length (rem' ! q) = length (rem ! q) + 4 * contrib sizes p q ids)"
proof -
  obtain nghs where g: "group_ngh (cumu_from 0 sizes) ids (replicate (length base) []) = Inr nghs"
    using group_ngh_returns [OF ok(1)] ok(2) unfolding valid_nghs_def by blast
  from group_ngh_result [OF g] len have n: "length nghs = length sizes"
      "\<And>q. q < length sizes \<Longrightarrow> nghs ! q = part_ngh sizes q ids" by auto
  let ?qs = "part_ids p nghs"
  have qs: "distinct ?qs" "set ?qs = {q. q < length sizes \<and> part_ngh sizes q ids \<noteq> []}"
    using n p by (auto simp: part_ids_def)
  have "(\<Sum>q\<leftarrow>?qs. 2 + 4 * length (nghs ! q)) = (\<Sum>q\<in>set ?qs. 2 + 4 * length (nghs ! q))"
    by (rule sum_list_distinct_conv_sum_set [OF qs(1)])
  also have "\<dots> \<le> (\<Sum>q<length sizes. 2 + 4 * length (part_ngh sizes q ids))"
    unfolding qs(2) by (rule order.trans [OF eq_refl [OF sum.cong [OF refl]] sum_mono2]) (auto simp: n)
  also have "\<dots> = 2 * length sizes + 4 * (\<Sum>q<length sizes. length (part_ngh sizes q ids))"
    by (simp only: sum.distrib sum_distrib_left) simp
  also have "\<dots> \<le> ngh_ele_size (length sizes)"
    using sum_part_ngh [of sizes ids "length sizes"] ok(2) by (simp add: valid_nghs_def ngh_ele_size_def)
  finally have fit: "(\<Sum>q\<leftarrow>?qs. 2 + 4 * length (nghs ! q)) \<le> ngh_ele_size (length sizes)" .
  have "\<exists>el' rem'. put_blocks base num (ngh_ele_size (length sizes)) p nghs ?qs ([], rem) = Inr (el', rem') \<and>
     length rem' = length rem \<and> (\<forall>i. length (rem' ! i) = length (rem ! i) +
        (if i \<in> set ?qs \<and> i \<noteq> p \<and> length (nghs ! i) > INLINE_DEG_BAR then 4 * length (nghs ! i) else 0))"
    using cap len qs n fit by (intro put_blocks_returns) (auto simp: contrib_def)
  then obtain el rem' where "put_blocks base num (ngh_ele_size (length sizes)) p nghs ?qs ([], rem) = Inr (el, rem')"
    "length rem' = length rem"
    and l: "\<And>i. length (rem' ! i) = length (rem ! i) +
      (if i \<in> set ?qs \<and> i \<noteq> p \<and> length (nghs ! i) > INLINE_DEG_BAR then 4 * length (nghs ! i) else 0)" by blast
  moreover have "\<forall>q<length sizes. length (rem' ! q) = length (rem ! q) + 4 * contrib sizes p q ids"
    by (auto simp: l n qs contrib_def)
  ultimately show ?thesis using len by (intro exI [of _ el] exI [of _ rem']) (simp add: put_node_def g [simplified len(1)])
qed

lemma put_part_returns:
  assumes ok: "table_ok sizes" and p: "p < length sizes" and base: "length base = length sizes"
  shows "\<lbrakk>list_all (valid_nghs sizes) idss; length rem = length sizes;
    \<forall>q<length sizes. length (rem ! q) + 4 * remote_total sizes p q idss \<le> 4 * num ! q\<rbrakk> \<Longrightarrow>
    \<exists>els rem'. put_part (cumu_from 0 sizes) base num (ngh_ele_size (length sizes)) p idss (els0, rem) = Inr (els, rem') \<and>
     length rem' = length sizes \<and>
     (\<forall>q<length sizes. length (rem' ! q) = length (rem ! q) + 4 * remote_total sizes p q idss)"
proof (induction idss arbitrary: els0 rem)
  case (Cons ids idss)
  have "valid_nghs sizes ids" "\<forall>q<length sizes. length (rem ! q) + 4 * contrib sizes p q ids \<le> 4 * num ! q"
    using Cons.prems(1,3) by (auto simp: remote_total_def)
  from put_node_returns [OF ok this(1) p base Cons.prems(2) this(2)] obtain el rem1 where
    b: "put_node (cumu_from 0 sizes) base num (ngh_ele_size (length sizes)) p ids rem = Inr (el, rem1)"
      "length rem1 = length sizes"
    and l: "\<And>q. q < length sizes \<Longrightarrow> length (rem1 ! q) = length (rem ! q) + 4 * contrib sizes p q ids"
    by blast
  from Cons.IH [of rem1 "els0 @ [el]"] Cons.prems b l show ?case by (auto simp: remote_total_def algebra_simps)
qed (simp add: remote_total_def)


definition all_remote :: "u32 list \<Rightarrow> u32 list list \<Rightarrow> nat list \<Rightarrow> nat \<Rightarrow> nat" where
  "all_remote sizes adj ps q = (\<Sum>p\<leftarrow>ps. remote_total sizes p q (part_adj (cumu_from 0 sizes) adj p))"

definition valid_graph :: "u32 list \<Rightarrow> u32 list list \<Rightarrow> bool" where
  "valid_graph sizes adj \<longleftrightarrow> list_all (valid_nghs sizes) adj \<and> length adj = starts sizes (length sizes) \<and> length adj \<le> 2 ^ 31"

lemma valid_graph_table: "valid_graph sizes adj \<Longrightarrow> table_ok sizes"
  by (simp add: valid_graph_def table_ok_def starts_def)

lemma part_adj_split:
  assumes "valid_graph sizes adj" "p < length sizes"
  shows "drop (starts sizes p) adj = part_adj (cumu_from 0 sizes) adj p @ drop (starts sizes (Suc p)) adj"
    "length (part_adj (cumu_from 0 sizes) adj p) = unat (sizes ! p)"
    "list_all (valid_nghs sizes) (part_adj (cumu_from 0 sizes) adj p)"
    "starts sizes (Suc p) \<le> length adj"
proof -
  show le: "starts sizes (Suc p) \<le> length adj"
    using assms starts_mono [of "Suc p" "length sizes" sizes] by (simp add: valid_graph_def)
  have p: "part_adj (cumu_from 0 sizes) adj p = take (unat (sizes ! p)) (drop (starts sizes p) adj)"
    using assms valid_graph_table [OF assms(1)] by (simp add: part_adj_def unat_cumu0 starts_Suc)
  show "length (part_adj (cumu_from 0 sizes) adj p) = unat (sizes ! p)"
    using le assms(2) by (simp add: p starts_Suc)
  show "drop (starts sizes p) adj = part_adj (cumu_from 0 sizes) adj p @ drop (starts sizes (Suc p)) adj"
    using append_take_drop_id [of "unat (sizes ! p)" "drop (starts sizes p) adj"] assms(2)
    by (simp add: p starts_Suc add.commute)
  show "list_all (valid_nghs sizes) (part_adj (cumu_from 0 sizes) adj p)"
    using assms(1) by (auto simp: p valid_graph_def list_all_iff dest!: in_set_takeD in_set_dropD)
qed

lemma count_remote_result:
  assumes "valid_graph sizes adj" "k \<le> length sizes"
  shows "length num = length sizes \<Longrightarrow> count_remote (cumu_from 0 sizes) (drop (starts sizes k) adj) (starts sizes k) num =
     Inr (map (\<lambda>q. num ! q + all_remote sizes adj [k ..< length sizes] q) [0 ..< length sizes])"
  using assms(2)
proof (induction k arbitrary: num rule: inc_induct)
  case base
  then show ?case using assms(1) by (auto simp: valid_graph_def all_remote_def intro: nth_equalityI)
next
  case (step k)
  note split = part_adj_split [OF assms(1) step.hyps(2)]
  have lim: "starts sizes (length sizes) \<le> 2 ^ 31" using assms(1) by (simp add: valid_graph_def)
  let ?num = "map (\<lambda>q. num ! q + remote_total sizes k q (part_adj (cumu_from 0 sizes) adj k)) [0 ..< length sizes]"
  have "count_remote (cumu_from 0 sizes) (drop (starts sizes k) adj) (starts sizes k) num =
     count_remote (cumu_from 0 sizes) (drop (starts sizes (Suc k)) adj) (starts sizes (Suc k)) ?num"
    unfolding split(1)
    by (subst count_segment [OF valid_graph_table [OF assms(1)] lim step.hyps(2) split(3)])
      (use step split in \<open>simp_all add: starts_Suc\<close>)
  also have "\<dots> = Inr (map (\<lambda>q. ?num ! q + all_remote sizes adj [Suc k ..< length sizes] q) [0 ..< length sizes])"
    by (rule step.IH) simp
  also have "map (\<lambda>q. ?num ! q + all_remote sizes adj [Suc k ..< length sizes] q) [0 ..< length sizes] =
      map (\<lambda>q. num ! q + all_remote sizes adj [k ..< length sizes] q) [0 ..< length sizes]"
    using step.hyps(2) by (auto simp: all_remote_def upt_conv_Cons)
  finally show ?case .
qed

lemma put_parts_returns:
  assumes "valid_graph sizes adj" "length base = length sizes"
  shows "\<lbrakk>length rem = length sizes; set ps \<subseteq> {..<length sizes};
     \<forall>q<length sizes. length (rem ! q) + 4 * all_remote sizes adj ps q \<le> 4 * num ! q\<rbrakk> \<Longrightarrow>
     \<exists>elss rem'. put_parts (cumu_from 0 sizes) base num (ngh_ele_size (length sizes)) adj ps rem = Inr (elss, rem') \<and>
       (\<forall>q<length sizes. length (rem' ! q) = length (rem ! q) + 4 * all_remote sizes adj ps q)"
proof (induction ps arbitrary: rem)
  case (Cons p ps)
  note split = part_adj_split [OF assms(1), of p]
  note table = valid_graph_table [OF assms(1)]
  have p: "p < length sizes" using Cons.prems(2) by simp
  have "\<forall>q<length sizes. length (rem ! q) + 4 * remote_total sizes p q (part_adj (cumu_from 0 sizes) adj p) \<le> 4 * num ! q"
    using Cons.prems(3) by (auto simp: all_remote_def)
  from put_part_returns [OF table p assms(2) split(3) [OF p] Cons.prems(1) this, of "[]"]
  obtain els rem1 where b: "put_part (cumu_from 0 sizes) base num (ngh_ele_size (length sizes)) p
      (part_adj (cumu_from 0 sizes) adj p) ([], rem) = Inr (els, rem1)" "length rem1 = length sizes"
    and l: "\<And>q. q < length sizes \<Longrightarrow> length (rem1 ! q) = length (rem ! q) + 4 * remote_total sizes p q (part_adj (cumu_from 0 sizes) adj p)"
    by blast
  have "unat (cumu_from 0 sizes ! Suc p) \<le> length adj" using split(4) [OF p] p by (simp add: unat_cumu0 table)
  moreover have "\<exists>elss rem'. put_parts (cumu_from 0 sizes) base num (ngh_ele_size (length sizes)) adj ps rem1 = Inr (elss, rem') \<and>
       (\<forall>q<length sizes. length (rem' ! q) = length (rem1 ! q) + 4 * all_remote sizes adj ps q)"
    using Cons.prems b(2) l by (intro Cons.IH) (auto simp: all_remote_def algebra_simps)
  ultimately show ?case using b l by (auto simp: all_remote_def)
qed (simp add: all_remote_def)

lemma transfer_ok:
  assumes "valid_graph sizes adj"
  shows "\<exists>imgs. transfer_b1_to_scala_v3 junk ep sizes adj = Inr imgs \<and> length imgs = length sizes"
proof -
  let ?n = "length sizes" and ?base = "map (\<lambda>n. unat n * ngh_ele_size (length sizes)) sizes"
  let ?num = "map (all_remote sizes adj [0 ..< ?n]) [0 ..< ?n]"
  have c: "count_remote (cumu_from 0 sizes) adj 0 (replicate ?n 0) = Inr ?num"
    using count_remote_result [OF assms, of 0 "replicate ?n 0"] by (simp add: starts_def cong: map_cong)
  have "\<exists>elss rem'. put_parts (cumu_from 0 sizes) ?base ?num (ngh_ele_size ?n) adj [0 ..< ?n] (replicate ?n []) = Inr (elss, rem') \<and>
       (\<forall>q<?n. length (rem' ! q) = length ((replicate ?n [] :: byte list list) ! q) + 4 * all_remote sizes adj [0 ..< ?n] q)"
    using assms by (intro put_parts_returns) (auto simp: atLeast0LessThan)
  then obtain elss rem' where "put_parts (cumu_from 0 sizes) ?base ?num (ngh_ele_size ?n) adj [0 ..< ?n] (replicate ?n []) = Inr (elss, rem')"
    "\<forall>q<?n. length (rem' ! q) = 4 * all_remote sizes adj [0 ..< ?n] q" by auto
  with c show ?thesis unfolding transfer_b1_to_scala_v3_def Let_def by (simp add: list_all_iff)
qed

section \<open>Loading an image\<close>

lemma contrib_le: "valid_nghs sizes ids \<Longrightarrow> contrib sizes p q ids \<le> max_deg"
  using part_ngh_length [of sizes q ids] by (auto simp: contrib_def valid_nghs_def)

lemma remote_total_le: "list_all (valid_nghs sizes) idss \<Longrightarrow> remote_total sizes p q idss \<le> max_deg * length idss"
  by (induction idss) (auto simp: remote_total_def dest: contrib_le [of sizes _ p q])

lemma all_remote_le:
  assumes "valid_graph sizes adj"
  shows "k \<le> length sizes \<Longrightarrow> all_remote sizes adj [0 ..< k] q \<le> max_deg * starts sizes k"
proof (induction k)
  case (Suc k)
  then have k: "k < length sizes" by simp
  have "remote_total sizes k q (part_adj (cumu_from 0 sizes) adj k) \<le> max_deg * unat (sizes ! k)"
    using remote_total_le [OF part_adj_split(3) [OF assms k]] part_adj_split(2) [OF assms k] by metis
  with Suc k show ?case by (simp add: all_remote_def starts_Suc algebra_simps)
qed (simp add: all_remote_def)

lemma load_index_D:
  assumes "load_index vs p n file data = Inr g"
  shows "\<exists>pid pnum num e ep rnum s t. read_index_file file = Some ((pid, pnum, num, e, ep, rnum), s) \<and> pid = p \<and> pnum = n \<and>
    rd_bytes (unat (ucast e * ucast num + rnum * 4 :: u64)) s = Some (gi_deg_ngh g, t) \<and>
    gi_local_ngh_ele_size g = ucast e \<and> gi_partition_id g = p \<and> gi_partition_num g = unat n \<and>
    gi_cumu_partition_num g = cumu_from 0 (gi_partition_vec_num g) \<and>
    gi_local_part_vec_num g = gi_partition_vec_num g ! unat p \<and>
    gi_partition_ofs g = ucast (cumu_from 0 (gi_partition_vec_num g) ! unat p)"
  using assms by (auto simp: load_index_def Let_def split: option.splits if_splits prod.splits)

lemma read_index_meta:
  "read_index_file (index_meta p n sz e ep num @ s) =
     Some ((word_of_nat p, word_of_nat n, sz, word_of_nat e, ep, word_of_nat num), s)"
  by (simp add: read_index_file_def index_meta_def codec_simps)

lemma image_parts:
  assumes tr: "transfer_b1_to_scala_v3 junk ep sizes adj = Inr imgs" and ok: "valid_graph sizes adj" "length sizes \<le> 64"
    and p: "p < length sizes"
  defines "e \<equiv> ngh_ele_size (length sizes)" and "num \<equiv> all_remote sizes adj [0 ..< length sizes] p"
  shows "imgs ! p = index_meta p (length sizes) (sizes ! p) e ep num @ deg_ngh_of imgs p"
    "length (deg_ngh_of imgs p) = unat (sizes ! p) * e + 4 * num" "length (deg_ngh_of imgs p) < 2 ^ 64 - 32"
proof -
  let ?base = "map (\<lambda>n. unat n * ngh_ele_size (length sizes)) sizes"
  note table = valid_graph_table [OF ok(1)]
  from transfer_layout [OF tr table] obtain num' elss rem where
    cnt: "count_remote (cumu_from 0 sizes) adj 0 (replicate (length sizes) 0) = Inr num'"
    and put: "put_parts (cumu_from 0 sizes) ?base num' e adj [0 ..< length sizes] (replicate (length sizes) []) = Inr (elss, rem)"
    and mem: "deg_ngh_of imgs p = concat (map (pad junk e) (elss ! p)) @ rem ! p"
    and meta: "take 32 (imgs ! p) = index_meta p (length sizes) (sizes ! p) e ep (num' ! p)"
    and rem: "length (rem ! p) = 4 * num' ! p"
    using p unfolding e_def by metis
  have num: "num' ! p = num"
    using cnt count_remote_result [OF ok(1), of 0 "replicate (length sizes) 0"] p by (auto simp: starts_def num_def)
  show "imgs ! p = index_meta p (length sizes) (sizes ! p) e ep num @ deg_ngh_of imgs p"
    using meta unfolding num by (metis append_take_drop_id deg_ngh_of_def)
  from put_parts_holds [OF _ ok(2) put] have "list_all2 (\<lambda>els p. unat (cumu_from 0 sizes ! (p + 1)) \<le> length adj \<and>
      list_all2 (element_ok sizes ?base e rem p) els (part_adj (cumu_from 0 sizes) adj p)) elss [0 ..< length sizes]"
    by (simp add: atLeast0LessThan)
  then have "list_all2 (element_ok sizes ?base e rem p) (elss ! p) (part_adj (cumu_from 0 sizes) adj p)"
    using p by (auto simp: list_all2_conv_all_nth)
  from length_pads [OF this, of junk] part_adj_split(2) [OF ok(1) p]
  show len: "length (deg_ngh_of imgs p) = unat (sizes ! p) * e + 4 * num"
    by (simp add: mem rem num)
  have "unat (sizes ! p) \<le> 2 ^ 31" using part_adj_split(4) [OF ok(1) p] p ok(1) by (simp add: starts_Suc valid_graph_def)
  then have "unat (sizes ! p) * e \<le> 2 ^ 31 * 320"
    unfolding e_def using ok(2) by (intro mult_le_mono) (simp_all add: ngh_ele_size_def max_deg_def)
  moreover have "num \<le> max_deg * 2 ^ 31"
    using all_remote_le [OF ok(1), of "length sizes" p] ok(1) by (auto simp: num_def valid_graph_def intro: order.trans)
  ultimately show "length (deg_ngh_of imgs p) < 2 ^ 64 - 32" by (simp add: len max_deg_def)
qed

lemma image_small:
  "transfer_b1_to_scala_v3 junk ep sizes adj = Inr imgs \<Longrightarrow> valid_graph sizes adj \<Longrightarrow> length sizes \<le> 64 \<Longrightarrow>
     p < length sizes \<Longrightarrow> length (imgs ! p) < 2 ^ 64"
  using image_parts(1,3) [of junk ep sizes adj imgs p] by (simp add: length_meta)

lemma index_size:
  assumes "length mem = unat (sz :: u32) * e + 4 * num" "length mem < 2 ^ 64" "e < 2 ^ 32"
  shows "(ucast (word_of_nat e :: u32) :: u64) = word_of_nat e"
    "unat (ucast (word_of_nat e :: u32) * ucast sz + word_of_nat num * 4 :: u64) = length mem"
proof -
  have "unat (ucast (word_of_nat e :: u32) :: u64) = unat (word_of_nat e :: u64)" using assms(3) by simp
  then show e: "(ucast (word_of_nat e :: u32) :: u64) = word_of_nat e" by (simp only: word_unat_eq_iff)
  have "ucast (word_of_nat e :: u32) * ucast sz + word_of_nat num * 4 = (word_of_nat (length mem) :: u64)"
    unfolding e assms(1) by (simp add: mult.commute)
  then show "unat (ucast (word_of_nat e :: u32) * ucast sz + word_of_nat num * 4 :: u64) = length mem"
    using unat_size64 [OF assms(2)] by simp
qed

lemma ele_size_small: "n \<le> 64 \<Longrightarrow> ngh_ele_size n < 2 ^ 32"
  by (simp add: ngh_ele_size_def max_deg_def)

lemma load_image:
  assumes tr: "transfer_b1_to_scala_v3 junk ep sizes adj = Inr imgs" and ok: "valid_graph sizes adj" "length sizes \<le> 64"
    and p: "p < length sizes"
    and load: "load_index vs (word_of_nat p) (word_of_nat (length sizes)) (imgs ! p) data = Inr g" "gi_partition_vec_num g = sizes"
  shows "gi_deg_ngh g = deg_ngh_of imgs p" "gi_local_ngh_ele_size g = word_of_nat (ngh_ele_size (length sizes))"
    "graph_ok g" "unat (gi_partition_ofs g) = starts sizes p" "gi_local_part_vec_num g = sizes ! p"
proof -
  note img = image_parts [OF tr ok p]
  note sz = index_size [OF img(2) less_le_trans [OF img(3)] ele_size_small [OF ok(2)]]
  from load_index_D [OF load(1)] have "\<exists>t. rd_bytes (length (deg_ngh_of imgs p)) (deg_ngh_of imgs p) = Some (gi_deg_ngh g, t)"
    "gi_local_ngh_ele_size g = ucast (word_of_nat (ngh_ele_size (length sizes)) :: u32)"
    by (subst (asm) img(1), auto simp: read_index_meta sz(2))+
  then show "gi_deg_ngh g = deg_ngh_of imgs p" "gi_local_ngh_ele_size g = word_of_nat (ngh_ele_size (length sizes))"
    by (auto simp: rd_bytes_def sz(1))
  have n: "unat (word_of_nat (length sizes) :: u32) = length sizes" "unat (word_of_nat p :: u32) = p"
    using ok(2) p by simp_all
  from load_index_D [OF load(1)] n load(2) valid_graph_table [OF ok(1)] p
  show "graph_ok g" "gi_local_part_vec_num g = sizes ! p" "unat (gi_partition_ofs g) = starts sizes p"
    by (auto simp: graph_ok_def unat_cumu0)
qed

lemma load_returns:
  assumes tr: "transfer_b1_to_scala_v3 junk ep sizes adj = Inr imgs" and ok: "valid_graph sizes adj" "length sizes \<le> 64"
    and p: "p < length sizes"
    and data: "load_data vs (word_of_nat p) 0 data ([], []) = Some (sizes, vectors)"
  shows "\<exists>g. load_index vs (word_of_nat p) (word_of_nat (length sizes)) (imgs ! p) data = Inr g \<and> gi_partition_vec_num g = sizes"
proof -
  note img = image_parts [OF tr ok p]
  note sz = index_size(2) [OF img(2) less_le_trans [OF img(3)] ele_size_small [OF ok(2)]]
  show ?thesis unfolding load_index_def
    by (subst (1) img(1)) (simp add: read_index_meta Let_def sz rd_bytes_def data)
qed

lemma machine_judge:
  assumes "graph_ok g" "gi_partition_vec_num g = sizes"
  shows "get_machine_id g v = Some q \<longleftrightarrow> judge_partition (cumu_from 0 sizes) (ucast v) = Some q"
  using assms machine.lookup_iff [OF assms(1)] judge.lookup_iff [of sizes "ucast v"] by (simp add: graph_ok_def)

lemma element_offset:
  assumes load: "gi_local_ngh_ele_size g = word_of_nat e" "unat (gi_partition_ofs g) = s"
    and v: "unat (ucast v :: u64) = s + i" and fit: "i * e < 2 ^ 64"
  shows "unat (gi_local_ngh_ele_size g * (ucast (v :: u32) - gi_partition_ofs g)) = i * e"
proof -
  have w: "w = (word_of_nat n :: u64)" if "unat w = n" for w n by (simp flip: that)
  from w [OF v] w [OF load(2)] have "gi_local_ngh_ele_size g * (ucast v - gi_partition_ofs g) = word_of_nat (i * e)"
    by (simp add: load(1) mult.commute)
  then show ?thesis using fit unat_size64 [of "i * e"] by (simp del: of_nat_mult)
qed


section \<open>An example graph\<close>

text \<open>Two partitions of two and four vertices; vertex 0 has a local, and three remote neighbours.\<close>

definition ex_sizes :: "u32 list" where
  "ex_sizes = [2, 4]"

definition ex_adj :: "u32 list list" where
  "ex_adj = [[1, 2, 3, 4], [0], [3, 0], [4], [5], [2]]"

definition ex_data :: "byte list list" where
  "ex_data = [enc_u32 0 @ enc_u32 2 @ enc_u32 2 @ enc_u64 6 @ replicate 24 0, enc_u32 1 @ enc_u32 2 @ enc_u32 4 @ enc_u64 6 @ replicate 40 0]"

lemma ex_valid: "valid_graph ex_sizes ex_adj"
  by (simp add: valid_graph_def ex_sizes_def ex_adj_def valid_nghs_def starts_def max_deg_def)

lemma ex_load: "load_data 0 (word_of_nat 0) 0 ex_data ([], []) = Some (ex_sizes, replicate 16 0)"
  by (simp add: ex_data_def ex_sizes_def read_data_header_def codec_simps rd_bytes_def)

lemma ex_load1: "load_data 0 (word_of_nat 1) 0 ex_data ([], []) = Some (ex_sizes, replicate 32 0)"
  by (simp add: ex_data_def ex_sizes_def read_data_header_def codec_simps rd_bytes_def)

section \<open>Properties\<close>

text \<open>For a graph whose neighbour lists have at most \<^const>\<open>max_deg\<close> entries and stay within
  the vertices, \<^verbatim>\<open>transfer_b1_to_scala_v3\<close> returns: no element exceeds its fixed size, no remote array
  outgrows the room the counting pass reserved, and the final size check passes.\<close>

theorem transfer_returns:
  assumes "valid_graph sizes adj"
  shows "\<exists>imgs. transfer_b1_to_scala_v3 junk ep sizes adj = Inr imgs \<and> length imgs = length sizes"
  using transfer_ok [OF assms] .

theorem transfer_returns_witness:
  "\<exists>imgs. transfer_b1_to_scala_v3 (\<lambda>_. 0) 0 ex_sizes ex_adj = Inr imgs \<and> length imgs = 2"
  using transfer_returns [OF ex_valid, of "\<lambda>_. 0" 0] by (simp add: ex_sizes_def numeral_2_eq_2)

text \<open>Property C19. Round trip of the graph format: the element of a vertex in the image of its partition
  decodes into one block per partition that has neighbours of the vertex, and the identifiers a block
  holds (inline, or in the remote array of the partition it names) are exactly the neighbours in that
  partition, in their order.\<close>

theorem transfer_roundtrip:
  assumes "transfer_b1_to_scala_v3 junk ep sizes adj = Inr imgs" "valid_graph sizes adj" "length sizes \<le> 64"
    and "p < length sizes" "i < unat (sizes ! p)" "adj ! (starts sizes p + i) \<noteq> []"
  shows "\<exists>bs. collect_blocks (deg_ngh_of imgs p) (i * ngh_ele_size (length sizes)) = Inr bs \<and>
    distinct (map (block_part p) bs) \<and>
    set (map (block_part p) bs) = {q. part_ngh sizes q (adj ! (starts sizes p + i)) \<noteq> []} \<and>
    (\<forall>b\<in>set bs. block_ids (deg_ngh_of imgs) p b = Some (part_ngh sizes (block_part p b) (adj ! (starts sizes p + i))))"
proof -
  let ?ids = "adj ! (starts sizes p + i)"
  have "starts sizes p + i < length adj"
    using part_adj_split(4) [OF assms(2,4)] assms(4,5) by (simp add: starts_Suc)
  then have "length ?ids < 256"
    using assms(2) by (auto simp: valid_graph_def list_all_length valid_nghs_def max_deg_def intro: le_less_trans)
  from transfer_nodes [OF assms(1) valid_graph_table [OF assms(2)] assms(3,4,5) refl assms(6) this] image_small [OF assms(1-3)]
  obtain bs qs where bs: "collect_blocks (deg_ngh_of imgs p) (i * ngh_ele_size (length sizes)) = Inr bs" "distinct qs"
      "set qs = {q. part_ngh sizes q ?ids \<noteq> []}"
    and all: "list_all2 (\<lambda>b q. block_part p b = q \<and> block_ids (deg_ngh_of imgs) p b = Some (part_ngh sizes q ?ids)) bs qs"
    by blast
  from all have "map (block_part p) bs = qs"
    and "\<forall>b\<in>set bs. block_ids (deg_ngh_of imgs) p b = Some (part_ngh sizes (block_part p b) ?ids)"
    by (induction rule: list_all2_induct) auto
  with bs show ?thesis by blast
qed

theorem transfer_roundtrip_witness:
  "\<exists>imgs bs. transfer_b1_to_scala_v3 (\<lambda>_. 0) 0 ex_sizes ex_adj = Inr imgs \<and>
     collect_blocks (deg_ngh_of imgs 0) 0 = Inr bs \<and> set (map (block_part 0) bs) = {q. part_ngh ex_sizes q [1, 2, 3, 4] \<noteq> []}"
proof -
  obtain imgs where "transfer_b1_to_scala_v3 (\<lambda>_. 0) 0 ex_sizes ex_adj = Inr imgs" using transfer_ok [OF ex_valid] by blast
  moreover from transfer_roundtrip [OF this ex_valid, of 0 0] have
    "\<exists>bs. collect_blocks (deg_ngh_of imgs 0) 0 = Inr bs \<and> set (map (block_part 0) bs) = {q. part_ngh ex_sizes q [1, 2, 3, 4] \<noteq> []}"
    by (auto simp: ex_sizes_def ex_adj_def starts_def)
  ultimately show ?thesis by blast
qed

text \<open>The loader accepts a written image together with data files that carry the same
  partition sizes: the neighbour memory is the image without its header, the element size and the
  partition table are those of the writer.\<close>

theorem load_index_image:
  assumes "transfer_b1_to_scala_v3 junk ep sizes adj = Inr imgs" "valid_graph sizes adj" "length sizes \<le> 64"
    and "p < length sizes" "load_data vs (word_of_nat p) 0 data ([], []) = Some (sizes, vectors)"
  shows "\<exists>g. load_index vs (word_of_nat p) (word_of_nat (length sizes)) (imgs ! p) data = Inr g \<and>
    gi_deg_ngh g = drop 32 (imgs ! p) \<and> gi_local_ngh_ele_size g = word_of_nat (ngh_ele_size (length sizes)) \<and>
    unat (gi_partition_ofs g) = starts sizes p \<and> gi_local_part_vec_num g = sizes ! p \<and> graph_ok g"
  using load_returns [OF assms] load_image [OF assms(1-4)] unfolding deg_ngh_of_def by blast

theorem load_index_image_witness:
  "\<exists>imgs g. transfer_b1_to_scala_v3 (\<lambda>_. 0) 0 ex_sizes ex_adj = Inr imgs \<and>
     load_index 0 (word_of_nat 0) (word_of_nat 2) (imgs ! 0) ex_data = Inr g \<and> gi_deg_ngh g = drop 32 (imgs ! 0)"
proof -
  obtain imgs where "transfer_b1_to_scala_v3 (\<lambda>_. 0) 0 ex_sizes ex_adj = Inr imgs" using transfer_ok [OF ex_valid] by blast
  moreover from load_index_image [OF this ex_valid _ _ ex_load] have
    "\<exists>g. load_index 0 (word_of_nat 0) (word_of_nat 2) (imgs ! 0) ex_data = Inr g \<and> gi_deg_ngh g = drop 32 (imgs ! 0)"
    by (auto simp: ex_sizes_def)
  ultimately show ?thesis by blast
qed

text \<open>\<^verbatim>\<open>get_machine_id\<close> finds the one partition that owns an identifier, the internal
  identifier is its position there, and identifiers past the last partition make the search fall off
  its end.\<close>

theorem get_machine_id_owner:
  assumes "graph_ok g"
  shows "(get_machine_id g v = None \<longleftrightarrow> starts (gi_partition_vec_num g) (gi_partition_num g) \<le> unat v) \<and>
    (\<forall>p. get_machine_id g v = Some p \<longrightarrow> p < gi_partition_num g \<and>
       unat v = starts (gi_partition_vec_num g) p + unat (scala_graph_get_internal_id g p v) \<and>
       unat (scala_graph_get_internal_id g p v) < unat (gi_partition_vec_num g ! p))"
proof (intro conjI allI impI)
  let ?s = "gi_partition_vec_num g"
  have n: "gi_partition_num g = length ?s" "gi_cumu_partition_num g = cumu_from 0 ?s" "table_ok ?s"
    using assms by (auto simp: graph_ok_def)
  show "get_machine_id g v = None \<longleftrightarrow> starts ?s (gi_partition_num g) \<le> unat v"
    using machine.lookup_none [OF assms] machine.lookup_total [OF assms, of v] n(1) by (metis not_le option.distinct(1))
  fix p
  assume "get_machine_id g v = Some p"
  then have p: "p < length ?s" "starts ?s p \<le> unat v" "unat v < starts ?s p + unat (?s ! p)"
    using machine.lookup_iff [OF assms, of v p] by (auto simp: starts_Suc)
  have "unat (scala_graph_get_internal_id g p v) = unat v - starts ?s p"
    using p unat_cumu0 [OF n(3), of p] by (simp add: scala_graph_get_internal_id_def n(2) unat_sub word_le_nat_alt)
  with p n(1) show "p < gi_partition_num g" "unat v = starts ?s p + unat (scala_graph_get_internal_id g p v)"
    "unat (scala_graph_get_internal_id g p v) < unat (?s ! p)" by simp_all
qed

definition ex_graph :: ScalaGraphIndex where
  "ex_graph = \<lparr>gi_deg_ngh = [], gi_vector = [], gi_partition_num = 2, gi_partition_id = 0, gi_partition_vec_num = ex_sizes,
     gi_cumu_partition_num = cumu_from 0 ex_sizes, gi_local_part_vec_num = 2, gi_partition_ofs = 0,
     gi_local_ngh_ele_size = 196, gi_vec_size = 0\<rparr>"

theorem get_machine_id_owner_witness:
  "get_machine_id ex_graph 3 = Some 1 \<and> unat (scala_graph_get_internal_id ex_graph 1 3) < unat (ex_sizes ! 1)"
proof -
  have "graph_ok ex_graph" by (simp add: graph_ok_def ex_graph_def table_ok_def ex_sizes_def)
  moreover have "get_machine_id ex_graph 3 = Some 1" by code_simp
  ultimately show ?thesis using get_machine_id_owner [of ex_graph 3] by (simp add: ex_graph_def)
qed

end
