(* ===== verification/Graph_Dispatch.thy ===== *)
theory Graph_Dispatch
  imports Graph_Format "HOL-Library.Multiset"
begin

unbundle bit_operations_syntax

text \<open>
  What the readers of \<open>Scala_Graph\<close> hand out for a vertex, counted the way the receivers read it: a
  task or a synchronization message carries neighbours inline, packed into the offset word, or as an
  offset into the neighbour memory of the machine that computes it
  (\<^verbatim>\<open>scala_search.h\<close>: \<^verbatim>\<open>do_task\<close> and the remote task branch of \<^verbatim>\<open>scala_sub_proc_v5\<close>).
\<close>

section \<open>The neighbours of a task\<close>

definition read_ngh :: "ScalaGraphIndex \<Rightarrow> u64 \<Rightarrow> nat \<Rightarrow> crash + u32 list" where
  "read_ngh g ofs deg = (case scala_graph_v3_get_ngh_ptr g ofs of
     Inl e \<Rightarrow> Inl e
   | Inr s \<Rightarrow> (case rd_many deg rd_u32 s of None \<Rightarrow> Inl OutOfBounds | Some (ids, _) \<Rightarrow> Inr ids))"

text \<open>\<^verbatim>\<open>ngh_arr = (uint32_t *)(&task.offset)\<close> for a micro task, on a little-endian machine.\<close>

definition task_ngh_arr :: "ScalaGraphIndex \<Rightarrow> ComputeTask \<Rightarrow> crash + u32 list" where
  "task_ngh_arr g task =
     (if unat (ct_deg task) \<le> INLINE_DEG_BAR
      then Inr (take (unat (ct_deg task)) [ucast (ct_offset task), ucast (drop_bit 32 (ct_offset task))])
      else read_ngh g (ct_offset task) (unat (ct_deg task)))"

definition ids_of :: "crash + u32 list \<Rightarrow> u32 multiset" where
  "ids_of r = (case r of Inl _ \<Rightarrow> {#} | Inr ids \<Rightarrow> mset ids)"

lemma ids_of_Inr [simp]: "ids_of (Inr ids) = mset ids"
  by (simp add: ids_of_def)

lemma read_ngh_ids:
  assumes "rd_many deg rd_u32 (drop (unat ofs) (gi_deg_ngh g)) = Some (ids, t)" "ids \<noteq> []"
  shows "read_ngh g ofs deg = Inr ids"
proof -
  have "unat ofs < length (gi_deg_ngh g)"
  proof (rule ccontr)
    assume "\<not> ?thesis"
    with assms show False by (cases deg) (auto simp: rd_u32_def rd_bytes_def)
  qed
  with assms show ?thesis by (simp add: read_ngh_def scala_graph_v3_get_ngh_ptr_def)
qed

text \<open>Packing and unpacking up to two identifiers.\<close>

lemma micro_combine_unpack:
  assumes "length ids \<le> INLINE_DEG_BAR"
  shows "take (length ids) [ucast (micro_combine 0 ids 0), ucast (drop_bit 32 (micro_combine 0 ids 0))] = ids"
proof -
  have lo: "ucast (ucast (v :: u32) OR push_bit 32 (ucast w :: u64) :: u64) = v" for v w :: u32
    by (rule bit_word_eqI) (auto simp: bit_unsigned_iff bit_or_iff bit_push_bit_iff)
  have hi: "ucast (drop_bit 32 (ucast (v :: u32) OR push_bit 32 (ucast w :: u64)) :: u64) = w" for v w :: u32
    by (rule bit_word_eqI) (auto simp: bit_unsigned_iff bit_or_iff bit_push_bit_iff bit_drop_bit_eq dest: bit_imp_le_length)
  have "ids = [] \<or> (\<exists>v. ids = [v]) \<or> (\<exists>v w. ids = [v, w])"
    using assms by (cases ids; cases "tl ids"; cases "tl (tl ids)") (auto simp: INLINE_DEG_BAR_def)
  then show ?thesis using lo hi ucast_ucast_id by auto
qed

section \<open>Walks as block lists\<close>

primrec run_blocks :: "(block \<Rightarrow> 's \<Rightarrow> crash + 's) \<Rightarrow> block list \<Rightarrow> 's \<Rightarrow> crash + 's" where
  "run_blocks act [] st = Inr st"
| "run_blocks act (b # bs) st = (case act b st of Inl e \<Rightarrow> Inl e | Inr st' \<Rightarrow> run_blocks act bs st')"

lemma walk_blocks: "collect_blocks mem ofs = Inr bs \<Longrightarrow> walk act mem ofs st = run_blocks act bs st"
proof (induction act mem ofs st arbitrary: bs rule: walk.induct)
  case (1 act mem ofs st)
  obtain b l n where r: "read_block mem ofs = Some (b, l, n)"
    using "1.prems" by (cases "read_block mem ofs") (auto simp: collect_step [of mem ofs])
  show ?case
  proof (cases l)
    case True
    then have "bs = [b]" using "1.prems" r by (simp add: collect_step [of mem ofs])
    with True r show ?thesis by (subst walk.simps) (simp split: sum.split)
  next
    case False
    then obtain bs' where bs: "collect_blocks mem n = Inr bs'" "bs = b # bs'"
      using "1.prems" r by (cases "collect_blocks mem n") (auto simp: collect_step [of mem ofs])
    show ?thesis
      using "1.IH" [OF r refl refl _ False bs(1)] r False bs by (subst walk.simps) (auto split: sum.split)
  qed
qed

lemma walk_Inr_blocks: "walk act mem ofs st = Inr st' \<Longrightarrow> \<exists>bs. collect_blocks mem ofs = Inr bs"
proof (induction act mem ofs st arbitrary: st' rule: walk.induct)
  case (1 act mem ofs st)
  then show ?case
    by (subst collect_step) (subst (asm) (2) walk.simps, fastforce split: option.splits sum.splits if_splits)
qed

definition small_block :: "block \<Rightarrow> bool" where
  "small_block b = (case b of
     LocalBlock deg ofs \<Rightarrow> deg < 2 ^ 32 \<and> ofs < 2 ^ 64
   | MicroBlock pid ids \<Rightarrow> length ids \<le> INLINE_DEG_BAR
   | LargeBlock pid deg ofs \<Rightarrow> INLINE_DEG_BAR < deg \<and> deg < 2 ^ 32)"

lemma read_block_small:
  assumes "read_block mem ofs = Some (b, l, n)" "length mem < 2 ^ 64"
  shows "small_block b"
proof -
  have "unat (d :: u8) < 2 ^ 32" for d using unat_lt [of d] by simp
  then show ?thesis using assms
    by (auto simp: read_block_def Let_def bind_eq_Some_conv rd_u8_def rd_bytes_def small_block_def
        dest: rd_many_length split: if_splits)
qed

lemma collect_small: "collect_blocks mem ofs = Inr bs \<Longrightarrow> length mem < 2 ^ 64 \<Longrightarrow> b \<in> set bs \<Longrightarrow> small_block b"
proof (induction "length mem - ofs" arbitrary: ofs bs rule: less_induct)
  case less
  obtain a l n where r: "read_block mem ofs = Some (a, l, n)"
    using less.prems(1) by (cases "read_block mem ofs") (auto simp: collect_step [of mem ofs])
  have "length mem - n < length mem - ofs" using read_block_in [OF r] by auto
  note IH = less.hyps [OF this _ less.prems(2)]
  have bs: "bs = [a] \<or> (\<exists>bs'. collect_blocks mem n = Inr bs' \<and> bs = a # bs')"
    using less.prems(1) r by (cases "collect_blocks mem n") (auto simp: collect_step [of mem ofs] split: if_splits)
  then show ?case using IH less.prems(3) read_block_small [OF r less.prems(2)] by auto
qed

lemma block_reads:
  assumes "block_ids mem p b = Some ids" "ids \<noteq> []" "small_block b"
    and "gi_deg_ngh (gs p) = mem p" "gi_deg_ngh (gs (block_part p b)) = mem (block_part p b)"
  shows "case b of
     LocalBlock deg ofs \<Rightarrow> read_ngh (gs p) (word_of_nat ofs) deg = Inr ids
   | MicroBlock pid vs \<Rightarrow> vs = ids
   | LargeBlock pid deg ofs \<Rightarrow> read_ngh (gs pid) ofs deg = Inr ids"
  using assms by (auto simp: block_ids_def block_part_def small_block_def split: block.splits intro!: read_ngh_ids)

section \<open>What a sub-query hands out\<close>

definition async_ids :: "nat \<Rightarrow> BufferCache list \<Rightarrow> u32 multiset" where
  "async_ids q bcs =
     mset (map (\<lambda>bc. ucast (bc_vector_id bc)) (filter (\<lambda>bc. bc_machine_id bc = word_of_nat q) bcs))"

definition handed_tasks :: "(nat \<Rightarrow> ScalaGraphIndex) \<Rightarrow> nat \<Rightarrow> TaskManager \<Rightarrow> u32 multiset" where
  "handed_tasks gs q tm = (\<Sum>t\<leftarrow>tm_task_queue tm ! q. ids_of (task_ngh_arr (gs q) t))"

definition handed_local :: "(nat \<Rightarrow> ScalaGraphIndex) \<Rightarrow> nat \<Rightarrow> ComputeTask list \<Rightarrow> u32 multiset" where
  "handed_local gs p ib = (\<Sum>t\<leftarrow>ib. ids_of (read_ngh (gs p) (ct_offset t) (unat (ct_deg t))))"

text \<open>The neighbours machine \<open>q\<close> is asked for, by way of local tasks, asynchronous reads of its
  memory, synchronization messages and remote tasks.\<close>

definition handed :: "(nat \<Rightarrow> ScalaGraphIndex) \<Rightarrow> nat \<Rightarrow> u32 \<Rightarrow> nat \<Rightarrow> dispatch_state \<Rightarrow> u32 multiset" where
  "handed gs p qid q st =
     (let tm = fst st; m = tm_global_query tm ! unat qid; s = q_sync_msg m in
      (if q = p then handed_local gs p (fst (snd st)) else {#}) +
      async_ids q (q_async_read_queue m) +
      mset (sm_core_micro_ngh s ! q) +
      (\<Sum>(ofs, deg)\<leftarrow>sm_core_large_ngh s ! q. ids_of (read_ngh (gs q) ofs (unat deg))) +
      handed_tasks gs q tm)"

definition dispatch_wf :: "u32 \<Rightarrow> TaskManager \<Rightarrow> bool" where
  "dispatch_wf qid tm \<longleftrightarrow> unat qid < length (tm_global_query tm) \<and> length (tm_task_queue tm) = MACHINE_NUM \<and>
     (let m = tm_global_query tm ! unat qid in length (q_is_core_machine m) = MACHINE_NUM \<and>
        length (sm_core_micro_ngh (q_sync_msg m)) = MACHINE_NUM \<and> length (sm_core_large_ngh (q_sync_msg m)) = MACHINE_NUM)"

lemma word_of_nat_part: "q < MACHINE_NUM \<Longrightarrow> r < MACHINE_NUM \<Longrightarrow> (word_of_nat q :: u32) = word_of_nat r \<longleftrightarrow> q = r"
proof -
  assume a: "q < MACHINE_NUM" "r < MACHINE_NUM"
  then have "unat (word_of_nat q :: u32) = q" "unat (word_of_nat r :: u32) = r" by (simp_all add: config_defs)
  then show ?thesis by metis
qed

lemma async_ids_append: "async_ids q (xs @ ys) = async_ids q xs + async_ids q ys"
  by (simp add: async_ids_def)

lemma async_ids_reads:
  assumes "q < MACHINE_NUM" "pid < MACHINE_NUM"
  shows "async_ids q (bcs @ map (async_read g pid) ids) = async_ids q bcs + (if q = pid then mset ids else {#})"
proof -
  have "filter (\<lambda>bc. bc_machine_id bc = word_of_nat q) (map (async_read g pid) ids) =
      (if q = pid then map (async_read g pid) ids else [])"
    using word_of_nat_part [OF assms] by (auto simp: async_read_def filter_map o_def)
  then have "async_ids q (map (async_read g pid) ids) = (if q = pid then mset ids else {#})"
    unfolding async_ids_def by (simp add: o_def async_read_def ucast_ucast_id del: mset_filter mset_map)
  then show ?thesis by (simp add: async_ids_append)
qed

lemma subquery_block_hands:
  assumes wf: "dispatch_wf qid tm" and b: "block_ids mem p b = Some ids" "ids \<noteq> []" "small_block b" "block_part p b < MACHINE_NUM"
    and gs: "gi_deg_ngh (gs p) = mem p" "gi_deg_ngh (gs (block_part p b)) = mem (block_part p b)"
  shows "\<exists>tm' ib' c. subquery_block j k g qid lb ef b (tm, ib, cnt) = Inr (tm', ib', c) \<and> dispatch_wf qid tm' \<and>
     (\<forall>q<MACHINE_NUM. handed gs p qid q (tm', ib', c) = handed gs p qid q (tm, ib, cnt) + (if q = block_part p b then mset ids else {#}))"
proof (cases b)
  case (LocalBlock deg ofs)
  with b block_reads [OF b(1-3) gs] wf show ?thesis
    by (auto simp: subquery_block_def handed_def handed_local_def local_ComputeTask_def block_part_def small_block_def Let_def)
next
  case (MicroBlock pid vs)
  with block_reads [OF b(1-3) gs] have vs: "vs = ids" by simp
  have pid: "pid < MACHINE_NUM" using b(4) MicroBlock by (simp add: block_part_def)
  show ?thesis
    using wf pid MicroBlock vs
    by (auto simp: async_ids_reads subquery_block_def handed_def handed_tasks_def upd_query_def add_micro_ngh_def dispatch_wf_def
        block_part_def Let_def nth_list_update)
next
  case (LargeBlock pid deg ofs)
  with block_reads [OF b(1-3) gs] b(3) have i: "read_ngh (gs pid) ofs deg = Inr ids" "deg < 2 ^ 32" "\<not> deg \<le> INLINE_DEG_BAR"
    by (simp_all add: small_block_def)
  have pid: "pid < MACHINE_NUM" using b(4) LargeBlock by (simp add: block_part_def)
  show ?thesis
    using wf pid LargeBlock i
    by (auto simp: subquery_block_def handed_def handed_tasks_def upd_query_def add_large_ngh_def push_task_def dispatch_wf_def
        task_ngh_arr_def remote_ComputeTask_def block_part_def Let_def nth_list_update)
qed

lemma subquery_blocks_hand:
  "\<lbrakk>list_all2 (\<lambda>b q. block_part p b = q \<and> block_ids mem p b = Some (f q)) bs qs; distinct qs; \<forall>q\<in>set qs. f q \<noteq> [];
    gi_deg_ngh (gs p) = mem p; \<forall>q\<in>set qs. gi_deg_ngh (gs q) = mem q; set qs \<subseteq> {..<MACHINE_NUM};
    \<forall>b\<in>set bs. small_block b; dispatch_wf qid tm\<rbrakk> \<Longrightarrow>
   \<exists>tm' ib' c'. run_blocks (subquery_block j k g qid lb ef) bs (tm, ib, c) = Inr (tm', ib', c') \<and> dispatch_wf qid tm' \<and>
     (\<forall>q<MACHINE_NUM. handed gs p qid q (tm', ib', c') = handed gs p qid q (tm, ib, c) + (if q \<in> set qs then mset (f q) else {#}))"
proof (induction bs qs arbitrary: tm ib c rule: list_all2_induct)
  case (Cons b bs q qs)
  from subquery_block_hands [of qid tm mem p b "f q" gs j k g lb ef ib c] Cons.prems Cons.hyps
  obtain tm1 ib1 c1 where b: "subquery_block j k g qid lb ef b (tm, ib, c) = Inr (tm1, ib1, c1)" "dispatch_wf qid tm1"
    and h: "\<And>r. r < MACHINE_NUM \<Longrightarrow> handed gs p qid r (tm1, ib1, c1) = handed gs p qid r (tm, ib, c) + (if r = q then mset (f q) else {#})"
    by auto
  from Cons.IH [of tm1 ib1 c1] Cons.prems b obtain tm' ib' c' where
    "run_blocks (subquery_block j k g qid lb ef) bs (tm1, ib1, c1) = Inr (tm', ib', c')" "dispatch_wf qid tm'"
    "\<And>r. r < MACHINE_NUM \<Longrightarrow> handed gs p qid r (tm', ib', c') = handed gs p qid r (tm1, ib1, c1) + (if r \<in> set qs then mset (f r) else {#})"
    by auto
  with b h Cons.prems(1) show ?case by auto
qed simp


section \<open>The blocks of a vertex\<close>

text \<open>\<open>cluster\<close>: every machine has loaded its image of the written graph.\<close>

definition cluster :: "u32 list \<Rightarrow> u32 list list \<Rightarrow> byte list list \<Rightarrow> (nat \<Rightarrow> ScalaGraphIndex) \<Rightarrow> bool" where
  "cluster sizes adj imgs gs \<longleftrightarrow> valid_graph sizes adj \<and> length sizes \<le> MACHINE_NUM \<and>
     (\<exists>junk ep. transfer_b1_to_scala_v3 junk ep sizes adj = Inr imgs) \<and>
     (\<forall>q<length sizes. gi_partition_vec_num (gs q) = sizes \<and>
        (\<exists>vs data. load_index vs (word_of_nat q) (word_of_nat (length sizes)) (imgs ! q) data = Inr (gs q)))"

lemma cluster_graph:
  assumes "cluster sizes adj imgs gs" "p < length sizes"
  shows "gi_deg_ngh (gs p) = deg_ngh_of imgs p" "gi_local_ngh_ele_size (gs p) = word_of_nat (ngh_ele_size (length sizes))"
    "graph_ok (gs p)" "unat (gi_partition_ofs (gs p)) = starts sizes p" "gi_local_part_vec_num (gs p) = sizes ! p"
    "gi_partition_vec_num (gs p) = sizes"
proof -
  obtain junk ep vs data where c: "transfer_b1_to_scala_v3 junk ep sizes adj = Inr imgs" "valid_graph sizes adj" "length sizes \<le> 64"
    "load_index vs (word_of_nat p) (word_of_nat (length sizes)) (imgs ! p) data = Inr (gs p)" "gi_partition_vec_num (gs p) = sizes"
    using assms unfolding cluster_def MACHINE_NUM_def by force
  from load_image [OF c(1-3) assms(2) c(4,5)] c(5)
  show "gi_deg_ngh (gs p) = deg_ngh_of imgs p" "gi_local_ngh_ele_size (gs p) = word_of_nat (ngh_ele_size (length sizes))"
    "graph_ok (gs p)" "unat (gi_partition_ofs (gs p)) = starts sizes p" "gi_local_part_vec_num (gs p) = sizes ! p"
    "gi_partition_vec_num (gs p) = sizes" by simp_all
qed

lemma cluster_vertex:
  assumes cl: "cluster sizes adj imgs gs" and v: "p < length sizes" "get_machine_id (gs p) v = Some p"
  obtains i where "i < unat (sizes ! p)" "unat v = starts sizes p + i" "unat v < length adj"
    "unat (gi_local_ngh_ele_size (gs p) * (ucast v - gi_partition_ofs (gs p))) = i * ngh_ele_size (length sizes)"
    "\<not> (ucast v < gi_partition_ofs (gs p) \<or> ucast v \<ge> gi_partition_ofs (gs p) + ucast (gi_local_part_vec_num (gs p)))"
proof
  note g = cluster_graph [OF cl v(1)]
  have ok: "valid_graph sizes adj" "length sizes \<le> 64" using cl by (auto simp: cluster_def MACHINE_NUM_def)
  let ?e = "ngh_ele_size (length sizes)" and ?i = "unat v - starts sizes p"
  have at: "starts sizes p \<le> unat v" "unat v < starts sizes (Suc p)"
    using machine.lookup_iff [OF g(3)] v(2) g(6) by auto
  show i: "?i < unat (sizes ! p)" "unat v = starts sizes p + ?i" using at v(1) by (auto simp: starts_Suc)
  show adj: "unat v < length adj" using at(2) part_adj_split(4) [OF ok(1) v(1)] by simp
  obtain junk ep where tr: "transfer_b1_to_scala_v3 junk ep sizes adj = Inr imgs" using cl by (auto simp: cluster_def)
  have "?i * ?e \<le> unat (sizes ! p) * ?e" using i(1) by simp
  also have "\<dots> \<le> length (deg_ngh_of imgs p)" using image_parts(2) [OF tr ok v(1)] by simp
  also have "\<dots> < 2 ^ 64" using image_parts(3) [OF tr ok v(1)] by simp
  finally show "unat (gi_local_ngh_ele_size (gs p) * (ucast v - gi_partition_ofs (gs p))) = ?i * ?e"
    using element_offset [OF g(2,4), of v ?i] i(2) by simp
  have "starts sizes p + unat (sizes ! p) < 2 ^ 64"
    using part_adj_split(4) [OF ok(1) v(1)] v(1) ok(1) by (simp add: valid_graph_def starts_Suc)
  then have "unat (gi_partition_ofs (gs p) + ucast (gi_local_part_vec_num (gs p))) = starts sizes p + unat (sizes ! p)"
    using g(4,5) by (simp add: unat_word_ariths)
  then show "\<not> (ucast v < gi_partition_ofs (gs p) \<or> ucast v \<ge> gi_partition_ofs (gs p) + ucast (gi_local_part_vec_num (gs p)))"
    using i g(4) by (simp add: word_less_nat_alt word_le_nat_alt)
qed

definition ngh_on :: "ScalaGraphIndex \<Rightarrow> u32 list \<Rightarrow> nat \<Rightarrow> u32 list" where
  "ngh_on g ids q = filter (\<lambda>u. get_machine_id g u = Some q) ids"

lemma vertex_blocks:
  assumes cl: "cluster sizes adj imgs gs" and v: "p < length sizes" "get_machine_id (gs p) v = Some p" "adj ! unat v \<noteq> []"
  defines "f \<equiv> ngh_on (gs p) (adj ! unat v)"
  obtains bs qs where
    "collect_blocks (gi_deg_ngh (gs p)) (unat (gi_local_ngh_ele_size (gs p) * (ucast v - gi_partition_ofs (gs p)))) = Inr bs"
    "list_all2 (\<lambda>b q. block_part p b = q \<and> block_ids (deg_ngh_of imgs) p b = Some (f q)) bs qs"
    "distinct qs" "set qs = {q. f q \<noteq> []}" "set qs \<subseteq> {..<MACHINE_NUM}" "\<forall>b\<in>set bs. small_block b"
    "gi_deg_ngh (gs p) = deg_ngh_of imgs p" "\<forall>q\<in>set qs. gi_deg_ngh (gs q) = deg_ngh_of imgs q"
proof -
  note g = cluster_graph [OF cl v(1)]
  obtain junk ep where tr: "transfer_b1_to_scala_v3 junk ep sizes adj = Inr imgs" using cl by (auto simp: cluster_def)
  have ok: "valid_graph sizes adj" "length sizes \<le> 64" "length sizes \<le> MACHINE_NUM"
    using cl by (auto simp: cluster_def MACHINE_NUM_def)
  from cluster_vertex [OF cl v(1,2)] obtain i where i: "i < unat (sizes ! p)" "unat v = starts sizes p + i" "unat v < length adj"
    "unat (gi_local_ngh_ele_size (gs p) * (ucast v - gi_partition_ofs (gs p))) = i * ngh_ele_size (length sizes)" by blast
  have "length (adj ! unat v) < 256"
    using ok(1) i(3) by (auto simp: valid_graph_def list_all_length valid_nghs_def max_deg_def intro: le_less_trans)
  from transfer_nodes [OF tr valid_graph_table [OF ok(1)] ok(2) v(1) i(1) _ v(3) this] i(2) image_small [OF tr ok(1,2)]
  obtain bs qs where bs: "collect_blocks (deg_ngh_of imgs p) (i * ngh_ele_size (length sizes)) = Inr bs" "distinct qs"
      "set qs = {q. part_ngh sizes q (adj ! unat v) \<noteq> []}"
    and all: "list_all2 (\<lambda>b q. block_part p b = q \<and> block_ids (deg_ngh_of imgs) p b = Some (part_ngh sizes q (adj ! unat v))) bs qs"
    by auto
  have f: "part_ngh sizes q (adj ! unat v) = f q" for q
    by (simp add: f_def part_ngh_def ngh_on_def machine_judge [OF g(3,6)])
  have lt: "set qs \<subseteq> {..<length sizes}"
    using bs(3) judge_lt [of sizes] by (fastforce simp: part_ngh_def filter_empty_conv)
  have "length (deg_ngh_of imgs p) < 2 ^ 64" using image_parts(3) [OF tr ok(1,2) v(1)] by simp
  with collect_small [OF bs(1)] have "\<forall>b\<in>set bs. small_block b" by blast
  moreover have "\<forall>q\<in>set qs. gi_deg_ngh (gs q) = deg_ngh_of imgs q" using cluster_graph(1) [OF cl] lt by auto
  moreover have "set qs \<subseteq> {..<MACHINE_NUM}" using lt ok(3) by fastforce
  ultimately show thesis using that [of bs qs] bs all g(1) i(4) by (simp add: f)
qed

section \<open>Sub-query dispatch\<close>

lemma subquery_run:
  assumes cl: "cluster sizes adj imgs gs" and v: "p < length sizes" "get_machine_id (gs p) v = Some p" "adj ! unat v \<noteq> []"
    and wf: "dispatch_wf qid tm"
  shows "\<exists>tm' ib' cnt. scala_graph_v3_get_subquery_task_lb j k (gs p) v qid tm ib = Inr (tm', ib', cnt) \<and> dispatch_wf qid tm' \<and>
    (\<forall>q<MACHINE_NUM. handed gs p qid q (tm', ib', cnt) = handed gs p qid q (tm, ib, 0) + mset (ngh_on (gs p) (adj ! unat v) q))"
proof -
  let ?f = "ngh_on (gs p) (adj ! unat v)"
  from vertex_blocks [OF cl v] obtain bs qs where
    bs: "collect_blocks (gi_deg_ngh (gs p)) (unat (gi_local_ngh_ele_size (gs p) * (ucast v - gi_partition_ofs (gs p)))) = Inr bs"
    and all: "list_all2 (\<lambda>b q. block_part p b = q \<and> block_ids (deg_ngh_of imgs) p b = Some (?f q)) bs qs"
    and qs: "distinct qs" "set qs = {q. ?f q \<noteq> []}" "set qs \<subseteq> {..<MACHINE_NUM}" "\<forall>b\<in>set bs. small_block b"
    and gs: "gi_deg_ngh (gs p) = deg_ngh_of imgs p" "\<forall>q\<in>set qs. gi_deg_ngh (gs q) = deg_ngh_of imgs q" by blast
  have "\<forall>q\<in>set qs. ?f q \<noteq> []" using qs(2) by simp
  note run = subquery_blocks_hand [OF all qs(1) this gs qs(3,4) wf, where ib = ib and c = 0]
  have "(if q \<in> set qs then mset (?f q) else {#}) = mset (?f q)" for q using qs(2) by simp
  note run = run [unfolded this, of j k "gs p" for j k]
  from cluster_vertex [OF cl v(1,2)] have guard: "\<not> (ucast v < gi_partition_ofs (gs p) \<or>
      ucast v \<ge> gi_partition_ofs (gs p) + ucast (gi_local_part_vec_num (gs p)))" by blast
  have "\<not> length (tm_global_query tm) \<le> unat qid" using wf by (simp add: dispatch_wf_def)
  then show ?thesis unfolding scala_graph_v3_get_subquery_task_lb_def Let_def
    using guard by (simp only: if_False walk_blocks [OF bs] run)
qed

lemma walk_invariant:
  assumes step: "\<And>b st st'. I st \<Longrightarrow> act b st = Inr st' \<Longrightarrow> I st'"
  shows "walk act mem ofs st = Inr st' \<Longrightarrow> I st \<Longrightarrow> I st'"
proof (induction "length mem - ofs" arbitrary: ofs st rule: less_induct)
  case less
  from less.prems(1) obtain b l n st1 where r: "read_block mem ofs = Some (b, l, n)" and a: "act b st = Inr st1"
    and rest: "if l then st1 = st' else walk act mem n st1 = Inr st'"
    by (subst (asm) walk.simps) (auto split: option.splits sum.splits if_splits)
  have "length mem - n < length mem - ofs" using read_block_in [OF r] by auto
  from less.hyps [OF this, of st1] rest step [OF less.prems(2) a] show ?case by (auto split: if_splits)
qed

text \<open>The answers a sub-query waits for: a local task, an asynchronous read or a remote task each.\<close>

definition outstanding :: "u32 \<Rightarrow> TaskManager \<Rightarrow> ComputeTask list \<Rightarrow> nat" where
  "outstanding qid tm ib = length ib + length (q_async_read_queue (tm_global_query tm ! unat qid)) +
     (\<Sum>ts\<leftarrow>tm_task_queue tm. length ts)"

lemma count_chain: "c' + a = c + b \<Longrightarrow> c = a - z \<Longrightarrow> c' = b - (z :: u32)"
  by (simp add: algebra_simps)

lemma sum_length_push: "i < length xss \<Longrightarrow> (\<Sum>xs\<leftarrow>xss[i := xss ! i @ ys]. length xs) = (\<Sum>xs\<leftarrow>xss. length xs) + length ys"
proof (induction xss arbitrary: i)
  case (Cons xs xss)
  then show ?case by (cases i) auto
qed simp

lemma subquery_block_counts:
  assumes "dispatch_wf qid tm" "subquery_block j k g qid lb ef b (tm, ib, c) = Inr (tm', ib', c')"
  shows "dispatch_wf qid tm' \<and> c' + word_of_nat (outstanding qid tm ib) = c + word_of_nat (outstanding qid tm' ib')"
  using assms
  by (cases b)
    (auto simp: subquery_block_def dispatch_wf_def outstanding_def upd_query_def push_task_def add_micro_ngh_def add_large_ngh_def
      Let_def sum_length_push split: if_splits)

section \<open>Node task dispatch\<close>

definition handed_sync :: "(nat \<Rightarrow> ScalaGraphIndex) \<Rightarrow> nat \<Rightarrow> TaskManager \<Rightarrow> u32 multiset" where
  "handed_sync gs q tm = (\<Sum>m\<leftarrow>tm_noncore_sync_msg tm ! q. mset (ns_core_micro_ngh m) +
     (\<Sum>(ofs, deg)\<leftarrow>ns_core_large_ngh m. ids_of (read_ngh (gs q) ofs (unat deg))))"

definition handed_node :: "(nat \<Rightarrow> ScalaGraphIndex) \<Rightarrow> nat \<Rightarrow> nat \<Rightarrow> node_state \<Rightarrow> u32 multiset" where
  "handed_node gs p q st = (case st of (tm, task, res) \<Rightarrow>
     (if q = p then ids_of (read_ngh (gs p) (nt_offset task) (unat (nt_deg task))) else {#}) +
     handed_sync gs q tm + handed_tasks gs q tm)"

definition node_wf :: "TaskManager \<Rightarrow> NodeTask \<Rightarrow> bool" where
  "node_wf tm task \<longleftrightarrow> length (tm_task_queue tm) = MACHINE_NUM \<and> length (tm_noncore_sync_msg tm) = MACHINE_NUM \<and>
     length (nt_is_core_machine task) = MACHINE_NUM"

definition is_local :: "block \<Rightarrow> bool" where
  "is_local b = (case b of LocalBlock deg ofs \<Rightarrow> True | _ \<Rightarrow> False)"

lemma read_ngh_none [simp]: "ids_of (read_ngh g ofs 0) = {#}"
  by (simp add: read_ngh_def ids_of_def split: sum.split)

lemma nodetask_block_hands:
  assumes wf: "node_wf tm task" and b: "block_ids mem p b = Some ids" "ids \<noteq> []" "small_block b" "block_part p b < MACHINE_NUM"
    and gs: "gi_deg_ngh (gs p) = mem p" "gi_deg_ngh (gs (block_part p b)) = mem (block_part p b)"
    and loc: "is_local b \<Longrightarrow> nt_deg task = 0"
  shows "\<exists>tm' task' res'. nodetask_block b (tm, task, res) = Inr (tm', task', res') \<and> node_wf tm' task' \<and>
     (\<not> is_local b \<longrightarrow> nt_deg task' = nt_deg task) \<and>
     (\<forall>q<MACHINE_NUM. handed_node gs p q (tm', task', res') = handed_node gs p q (tm, task, res) + (if q = block_part p b then mset ids else {#}))"
proof (cases b)
  case (LocalBlock deg ofs)
  with b block_reads [OF b(1-3) gs] wf loc show ?thesis
    by (auto simp: nodetask_block_def handed_node_def node_wf_def block_part_def small_block_def is_local_def)
next
  case (MicroBlock pid vs)
  with block_reads [OF b(1-3) gs] b(3) have vs: "vs = ids" "length ids \<le> INLINE_DEG_BAR" by (simp_all add: small_block_def)
  have pid: "pid < MACHINE_NUM" using b(4) MicroBlock by (simp add: block_part_def)
  have "unat (word_of_nat (length ids) :: u32) = length ids" using vs(2) by (simp add: INLINE_DEG_BAR_def)
  then show ?thesis
    using wf pid MicroBlock vs micro_combine_unpack [OF vs(2)]
    by (auto simp: nodetask_block_def handed_node_def handed_sync_def handed_tasks_def post_node_task_def push_task_def
        push_node_sync_def new_NonCoreSyncMsg_def node_wf_def task_ngh_arr_def remote_ComputeTask_def block_part_def
        is_local_def Let_def nth_list_update)
next
  case (LargeBlock pid deg ofs)
  with block_reads [OF b(1-3) gs] b(3) have i: "read_ngh (gs pid) ofs deg = Inr ids" "deg < 2 ^ 32" "\<not> deg \<le> INLINE_DEG_BAR"
    by (simp_all add: small_block_def)
  have pid: "pid < MACHINE_NUM" using b(4) LargeBlock by (simp add: block_part_def)
  show ?thesis
    using wf pid LargeBlock i
    by (auto simp: nodetask_block_def handed_node_def handed_sync_def handed_tasks_def post_node_task_def push_task_def
        push_node_sync_def new_NonCoreSyncMsg_def node_wf_def task_ngh_arr_def remote_ComputeTask_def block_part_def
        is_local_def Let_def nth_list_update)
qed

lemma nodetask_blocks_hand:
  "\<lbrakk>list_all2 (\<lambda>b q. block_part p b = q \<and> block_ids mem p b = Some (f q)) bs qs; distinct qs; \<forall>q\<in>set qs. f q \<noteq> [];
    gi_deg_ngh (gs p) = mem p; \<forall>q\<in>set qs. gi_deg_ngh (gs q) = mem q; set qs \<subseteq> {..<MACHINE_NUM};
    \<forall>b\<in>set bs. small_block b; node_wf tm task; (\<exists>b\<in>set bs. is_local b) \<longrightarrow> nt_deg task = 0\<rbrakk> \<Longrightarrow>
   \<exists>tm' task' res'. run_blocks nodetask_block bs (tm, task, res) = Inr (tm', task', res') \<and>
     (\<forall>q<MACHINE_NUM. handed_node gs p q (tm', task', res') = handed_node gs p q (tm, task, res) + (if q \<in> set qs then mset (f q) else {#}))"
proof (induction bs qs arbitrary: tm task res rule: list_all2_induct)
  case (Cons b bs q qs)
  from nodetask_block_hands [of tm task mem p b "f q" gs res] Cons.prems Cons.hyps
  obtain tm1 task1 res1 where b: "nodetask_block b (tm, task, res) = Inr (tm1, task1, res1)" "node_wf tm1 task1"
    "\<not> is_local b \<longrightarrow> nt_deg task1 = nt_deg task"
    and h: "\<And>r. r < MACHINE_NUM \<Longrightarrow> handed_node gs p r (tm1, task1, res1) = handed_node gs p r (tm, task, res) + (if r = q then mset (f q) else {#})"
    by auto
  have "\<not> (\<exists>b\<in>set bs. is_local b)" if "is_local b"
  proof -
    have "q = p" using that Cons.hyps(1) by (auto simp: is_local_def block_part_def split: block.splits)
    moreover have "block_part p c \<in> set qs" if "c \<in> set bs" for c
      using Cons.hyps(2) that by (induction rule: list_all2_induct) auto
    moreover have "is_local c \<Longrightarrow> block_part p c = p" for c by (auto simp: is_local_def block_part_def split: block.splits)
    ultimately show ?thesis using Cons.prems(1) by (metis distinct.simps(2))
  qed
  with b(3) Cons.prems have "(\<exists>b\<in>set bs. is_local b) \<longrightarrow> nt_deg task1 = 0" by auto
  with Cons.IH [of tm1 task1 res1] Cons.prems b(2) obtain tm' task' res' where
    "run_blocks nodetask_block bs (tm1, task1, res1) = Inr (tm', task', res')"
    "\<And>r. r < MACHINE_NUM \<Longrightarrow> handed_node gs p r (tm', task', res') = handed_node gs p r (tm1, task1, res1) + (if r \<in> set qs then mset (f r) else {#})"
    by auto
  with b h Cons.prems(1) show ?case by auto
qed simp

lemma nodetask_block_counts:
  assumes "node_wf tm task" "nodetask_block b (tm, task, res) = Inr (tm', task', res')"
  shows "node_wf tm' task' \<and> nr_post_cnt res' + word_of_nat (\<Sum>ts\<leftarrow>tm_task_queue tm. length ts) =
    nr_post_cnt res + word_of_nat (\<Sum>ts\<leftarrow>tm_task_queue tm'. length ts)"
  using assms
  by (cases b)
    (auto simp: nodetask_block_def node_wf_def push_task_def push_node_sync_def post_node_task_def Let_def sum_length_push split: if_splits)

section \<open>Properties\<close>

text \<open>A cluster of two machines on the example graph, and the task manager of machine 0.\<close>

definition ex_tm :: TaskManager where
  "ex_tm = new_TaskManager 0 (replicate 8 query_example)"

lemma ex_cluster: "\<exists>imgs gs. cluster ex_sizes ex_adj imgs gs"
proof -
  obtain imgs where tr: "transfer_b1_to_scala_v3 (\<lambda>_. 0) 0 ex_sizes ex_adj = Inr imgs" using transfer_ok [OF ex_valid] by blast
  have data: "\<exists>data vectors. load_data 0 (word_of_nat q) 0 data ([], []) = Some (ex_sizes, vectors)" if "q < 2" for q
  proof -
    have "q = 0 \<or> q = 1" using that by auto
    then show ?thesis by (elim disjE) (use ex_load ex_load1 in blast)+
  qed
  have "\<exists>g. gi_partition_vec_num g = ex_sizes \<and>
      (\<exists>vs data. load_index vs (word_of_nat q) (word_of_nat (length ex_sizes)) (imgs ! q) data = Inr g)" if "q < length ex_sizes" for q
    using load_returns [OF tr ex_valid _ that] data [of q] that by (force simp: ex_sizes_def)
  then obtain gs where "\<forall>q<length ex_sizes. gi_partition_vec_num (gs q) = ex_sizes \<and>
      (\<exists>vs data. load_index vs (word_of_nat q) (word_of_nat (length ex_sizes)) (imgs ! q) data = Inr (gs q))" by metis
  with tr ex_valid have "cluster ex_sizes ex_adj imgs gs" by (auto simp: cluster_def ex_sizes_def config_defs)
  then show ?thesis by blast
qed

lemma ex_owner:
  assumes "cluster ex_sizes ex_adj imgs gs"
  shows "get_machine_id (gs 0) 0 = Some 0" "get_machine_id (gs 1) 2 = Some 1"
proof -
  have l: "(0 :: nat) < length ex_sizes" "1 < length ex_sizes" by (simp_all add: ex_sizes_def)
  show "get_machine_id (gs 0) 0 = Some 0"
    using machine.lookup_iff [OF cluster_graph(3) [OF assms l(1)]] cluster_graph(6) [OF assms l(1)]
    by (simp add: ex_sizes_def starts_def)
  show "get_machine_id (gs 1) 2 = Some 1"
    using machine.lookup_iff [OF cluster_graph(3) [OF assms l(2)]] cluster_graph(6) [OF assms l(2)]
    by (simp add: ex_sizes_def starts_def)
qed

lemma ex_vertex: "0 < length ex_sizes" "1 < length ex_sizes" "ex_adj ! unat (0 :: u32) \<noteq> []" "ex_adj ! unat (0 :: u32) = [1, 2, 3, 4]"
  "ex_adj ! unat (2 :: u32) \<noteq> []" "ex_adj ! unat (2 :: u32) = [3, 0]"
  by (simp_all add: ex_sizes_def ex_adj_def)

lemma ex_machine: "0 < MACHINE_NUM"
  by (simp add: MACHINE_NUM_def)

lemma ex_dispatch_wf: "dispatch_wf 7 ex_tm"
  by (simp add: dispatch_wf_def ex_tm_def new_TaskManager_def query_example_def new_SyncMsg_def MACHINE_NUM_def Let_def)

text \<open>Property C1. Dispatch of a sub-query step: for a vertex of its own partition a machine hands every
  neighbour out exactly once, and to the machine that owns it, whether it travels as a local task, an
  asynchronous read, a synchronization entry or a remote task; the receiver reads back the same
  identifiers from the words it gets.\<close>

theorem subquery_dispatch:
  assumes "cluster sizes adj imgs gs" "p < length sizes" "get_machine_id (gs p) v = Some p" "adj ! unat v \<noteq> []"
    and "dispatch_wf qid tm"
  shows "\<exists>tm' ib' cnt. scala_graph_v3_get_subquery_task_lb j k (gs p) v qid tm ib = Inr (tm', ib', cnt) \<and>
    (\<forall>q<MACHINE_NUM. handed gs p qid q (tm', ib', cnt) =
       handed gs p qid q (tm, ib, 0) + mset (filter (\<lambda>u. get_machine_id (gs p) u = Some q) (adj ! unat v)))"
  using subquery_run [OF assms, of j k ib] unfolding ngh_on_def by blast

theorem subquery_dispatch_witness:
  "\<exists>gs tm' ib' cnt. scala_graph_v3_get_subquery_task_lb (Dist 0) 0 (gs 0) 0 7 ex_tm [] = Inr (tm', ib', cnt) \<and>
     handed gs 0 7 0 (tm', ib', cnt) = handed gs 0 7 0 (ex_tm, [], 0) +
       mset (filter (\<lambda>u. get_machine_id (gs 0) u = Some 0) [1, 2, 3, 4])"
proof -
  obtain imgs gs where c: "cluster ex_sizes ex_adj imgs gs" using ex_cluster by blast
  from subquery_dispatch [OF c ex_vertex(1) ex_owner(1) [OF c] ex_vertex(3) ex_dispatch_wf, of "Dist 0" 0 "[]"]
  show ?thesis unfolding ex_vertex(4) using ex_machine by blast
qed

text \<open>Conservation of \<^verbatim>\<open>post_cnt\<close>: on any neighbour memory, the number a sub-query step
  returns is the number of local tasks, asynchronous reads and remote tasks it created (modulo the
  width of the counter), so the sub-query waits for exactly the answers it asked for.\<close>

theorem subquery_post_cnt:
  assumes "dispatch_wf qid tm" "scala_graph_v3_get_subquery_task_lb j k g v qid tm ib = Inr (tm', ib', cnt)"
  shows "cnt = word_of_nat (outstanding qid tm' ib') - word_of_nat (outstanding qid tm ib)"
proof -
  define I where "I = (\<lambda>st :: dispatch_state. case st of (t, i, c) \<Rightarrow> dispatch_wf qid t \<and>
      c = word_of_nat (outstanding qid t i) - word_of_nat (outstanding qid tm ib))"
  have step: "I st'" if "I st" "subquery_block j k g qid lb ef b st = Inr st'" for b st st' lb ef
  proof (cases st; cases st')
    fix t i c t' i' c' assume "st = (t, i, c)" "st' = (t', i', c')"
    with that subquery_block_counts [of qid t j k g lb ef b i c t' i' c'] show ?thesis
      unfolding I_def by (auto intro: count_chain)
  qed
  have init: "I (tm, ib, 0)" using assms(1) by (simp add: I_def)
  obtain lb ef ofs where w: "walk (subquery_block j k g qid lb ef) (gi_deg_ngh g) ofs (tm, ib, 0) = Inr (tm', ib', cnt)"
    using assms(2) by (auto simp: scala_graph_v3_get_subquery_task_lb_def Let_def split: if_splits)
  have "I (tm', ib', cnt)" by (rule walk_invariant [where I = I, OF _ w init]) (rule step)
  then show ?thesis by (simp add: I_def)
qed

theorem subquery_post_cnt_witness:
  "\<exists>g tm' ib' cnt. scala_graph_v3_get_subquery_task_lb (Dist 0) 0 g 0 7 ex_tm [] = Inr (tm', ib', cnt) \<and>
     cnt = word_of_nat (outstanding 7 tm' ib') - word_of_nat (outstanding 7 ex_tm [])"
proof -
  obtain imgs gs where c: "cluster ex_sizes ex_adj imgs gs" using ex_cluster by blast
  obtain tm' ib' cnt where r: "scala_graph_v3_get_subquery_task_lb (Dist 0) 0 (gs 0) 0 7 ex_tm [] = Inr (tm', ib', cnt)"
    using subquery_run [OF c ex_vertex(1) ex_owner(1) [OF c] ex_vertex(3) ex_dispatch_wf, of "Dist 0" 0 "[]"] by blast
  from r subquery_post_cnt [OF ex_dispatch_wf r] show ?thesis by blast
qed

text \<open>Property C12. Dispatch of a node task on a machine that is not a core machine: every neighbour of
  the vertex is handed out exactly once to the machine that owns it -- kept for the local computation,
  sent to a core machine as a synchronization message, or sent on as a task, whose packed offset word
  the receiver unpacks into the same identifiers -- and \<^verbatim>\<open>post_cnt\<close> reports the tasks sent on.\<close>

theorem nodetask_dispatch:
  assumes cl: "cluster sizes adj imgs gs" and v: "p < length sizes" "get_machine_id (gs p) (nt_node_id task) = Some p"
    "adj ! unat (nt_node_id task) \<noteq> []" and wf: "node_wf tm task" "nt_deg task = 0"
  shows "\<exists>tm' task' res'. scala_graph_v3_get_nodetask_msg (gs p) tm task res = Inr (tm', task', res') \<and>
    nr_post_cnt res' = word_of_nat (\<Sum>ts\<leftarrow>tm_task_queue tm'. length ts) - word_of_nat (\<Sum>ts\<leftarrow>tm_task_queue tm. length ts) \<and>
    (\<forall>q<MACHINE_NUM. handed_node gs p q (tm', task', res') = handed_node gs p q (tm, task, res) +
       mset (filter (\<lambda>u. get_machine_id (gs p) u = Some q) (adj ! unat (nt_node_id task))))"
proof -
  let ?f = "ngh_on (gs p) (adj ! unat (nt_node_id task))" and ?res = "res\<lparr>nr_post_cnt := 0\<rparr>"
  from vertex_blocks [OF cl v] obtain bs qs where
    bs: "collect_blocks (gi_deg_ngh (gs p)) (unat (gi_local_ngh_ele_size (gs p) * (ucast (nt_node_id task) - gi_partition_ofs (gs p)))) = Inr bs"
    and all: "list_all2 (\<lambda>b q. block_part p b = q \<and> block_ids (deg_ngh_of imgs) p b = Some (?f q)) bs qs"
    and qs: "distinct qs" "set qs = {q. ?f q \<noteq> []}" "set qs \<subseteq> {..<MACHINE_NUM}" "\<forall>b\<in>set bs. small_block b"
    and gs: "gi_deg_ngh (gs p) = deg_ngh_of imgs p" "\<forall>q\<in>set qs. gi_deg_ngh (gs q) = deg_ngh_of imgs q" by blast
  have ne: "\<forall>q\<in>set qs. ?f q \<noteq> []" using qs(2) by simp
  have f: "(if q \<in> set qs then mset (?f q) else {#}) = mset (?f q)" for q using qs(2) by simp
  from nodetask_blocks_hand [OF all qs(1) ne gs qs(3,4) wf(1), of ?res, unfolded f] wf(2)
  obtain tm' task' res' where run: "run_blocks nodetask_block bs (tm, task, ?res) = Inr (tm', task', res')"
    and h: "\<forall>q<MACHINE_NUM. handed_node gs p q (tm', task', res') = handed_node gs p q (tm, task, ?res) + mset (?f q)" by blast
  have w: "scala_graph_v3_get_nodetask_msg (gs p) tm task res = Inr (tm', task', res')"
    by (simp add: scala_graph_v3_get_nodetask_msg_def Let_def walk_blocks [OF bs] run)
  define I where "I = (\<lambda>st :: node_state. case st of (t, k, r) \<Rightarrow> node_wf t k \<and>
      nr_post_cnt r = word_of_nat (\<Sum>ts\<leftarrow>tm_task_queue t. length ts) - word_of_nat (\<Sum>ts\<leftarrow>tm_task_queue tm. length ts))"
  have step: "I st'" if "I st" "nodetask_block b st = Inr st'" for b st st'
  proof (cases st; cases st')
    fix t k r t' k' r' assume "st = (t, k, r)" "st' = (t', k', r')"
    with that nodetask_block_counts [of t k b r t' k' r'] show ?thesis
      unfolding I_def by (auto intro: count_chain)
  qed
  have "I (tm, task, ?res)" using wf(1) by (simp add: I_def)
  then have "I (tm', task', res')"
    by (rule walk_invariant [OF _ w [unfolded scala_graph_v3_get_nodetask_msg_def Let_def], rotated]) (rule step)
  then have "nr_post_cnt res' = word_of_nat (\<Sum>ts\<leftarrow>tm_task_queue tm'. length ts) - word_of_nat (\<Sum>ts\<leftarrow>tm_task_queue tm. length ts)"
    by (simp add: I_def)
  with w h show ?thesis unfolding ngh_on_def by (auto simp: handed_node_def)
qed

theorem nodetask_dispatch_witness:
  "\<exists>gs tm' task' res'. scala_graph_v3_get_nodetask_msg (gs 1) ex_tm (new_NodeTask 0 7 2 (replicate 16 0)) (new_NodeResult 7) =
     Inr (tm', task', res') \<and> handed_node gs 1 0 (tm', task', res') =
       handed_node gs 1 0 (ex_tm, new_NodeTask 0 7 2 (replicate 16 0), new_NodeResult 7) +
       mset (filter (\<lambda>u. get_machine_id (gs 1) u = Some 0) [3, 0])"
proof -
  obtain imgs gs where c: "cluster ex_sizes ex_adj imgs gs" using ex_cluster by blast
  let ?t = "new_NodeTask 0 7 2 (replicate 16 0)"
  have wf: "node_wf ex_tm ?t" "nt_deg ?t = 0" and id: "nt_node_id ?t = 2"
    by (simp_all add: node_wf_def ex_tm_def new_TaskManager_def new_NodeTask_def MACHINE_NUM_def)
  from nodetask_dispatch [OF c ex_vertex(2) _ _ wf, unfolded id, OF ex_owner(2) [OF c] ex_vertex(5), of "new_NodeResult 7"]
  show ?thesis unfolding ex_vertex(6) using ex_machine by blast
qed

end
