(* ===== verification/Rdma_Buffers.thy ===== *)
theory Rdma_Buffers
  imports Prelude "HOL-Library.Multiset"
begin

unbundle bit_operations_syntax

text \<open>
  The flow control of \<^verbatim>\<open>RdmaCommunication\<close> (\<^verbatim>\<open>src/rdma/rdma_comm.cc\<close>) between two machines: every
  machine owns \<^const>\<open>MAX_WRITE_NUM\<close> slots in the memory of its peer, takes one from
  \<^verbatim>\<open>buff_id_list\<close> for each RDMA write with immediate data, and gets them back in blocks of
  \<^const>\<open>RELEASE_BLOCK\<close> identifiers that travel as messages of their own.  A link has two ends,
  \<^const>\<open>True\<close> and \<^const>\<open>False\<close>; \<open>l_chan lk s\<close> are the completions that end \<open>s\<close> has caused at its
  peer and the peer has not polled yet (the queue pair delivers them in order).  A write lands in the
  slot at the latest when its completion is visible; the model lets it land when it is posted, the
  earliest point, so that a slot that is written too soon shows as lost data.
\<close>

section \<open>Control words\<close>

datatype ControlType =
    B2_START | B2_END | PART_INFO | BUILD_SYNC | DISPATCH_META | DISPATCH_ID | DISPATCH_NGH
  | SCALA_META | SCALA_NGH | TASK | RESULT | NODE_RESULT | NODE_SYNC | COMPUTE | QUERY | CORE_INFO
  | SCHEDULE | SYNC | RELEASE | TERMINATION | CLEAR

primrec control_code :: "ControlType \<Rightarrow> nat" where
  "control_code B2_START = 0" | "control_code B2_END = 1" | "control_code PART_INFO = 2"
| "control_code BUILD_SYNC = 3" | "control_code DISPATCH_META = 4" | "control_code DISPATCH_ID = 5"
| "control_code DISPATCH_NGH = 6" | "control_code SCALA_META = 7" | "control_code SCALA_NGH = 8"
| "control_code TASK = 9" | "control_code RESULT = 10" | "control_code NODE_RESULT = 11"
| "control_code NODE_SYNC = 12" | "control_code COMPUTE = 13" | "control_code QUERY = 14"
| "control_code CORE_INFO = 15" | "control_code SCHEDULE = 16" | "control_code SYNC = 17"
| "control_code RELEASE = 18" | "control_code TERMINATION = 19" | "control_code CLEAR = 20"

text \<open>The immediate word \<^verbatim>\<open>control << 16 | buf_id\<close> and its fields on the receiving side.\<close>

definition imm_data :: "ControlType \<Rightarrow> u32 \<Rightarrow> u32" where
  "imm_data control buf_id = push_bit 16 (word_of_nat (control_code control)) OR buf_id"

definition imm_control :: "u32 \<Rightarrow> nat" where
  "imm_control imm = unat (drop_bit 16 imm)"

definition imm_buf :: "u32 \<Rightarrow> u32" where
  "imm_buf imm = imm AND 0xffff"

section \<open>One end of a link\<close>

text \<open>\<open>e_free\<close> is \<^verbatim>\<open>sbuf->buff_id_list[m]\<close>, \<open>e_release\<close> is \<^verbatim>\<open>rbuf->release_id_list[m]\<close>, \<open>e_mem\<close> the
  receive slots \<^verbatim>\<open>rbuf->buffer[m]\<close>, and \<open>e_recv\<close> the copies handed to the receive queues, in order,
  each with its control code.\<close>

record link_end =
  e_free :: "u32 list"
  e_release :: "u32 list"
  e_mem :: "u32 \<Rightarrow> byte list"
  e_recv :: "(nat \<times> byte list) list"

definition slots :: "u32 list" where
  "slots = map word_of_nat [0 ..< MAX_WRITE_NUM]"

definition com_write_init :: "(u32 \<Rightarrow> byte list) \<Rightarrow> link_end" where
  "com_write_init mem = \<lparr>e_free = slots, e_release = [], e_mem = mem, e_recv = []\<rparr>"

text \<open>\<^verbatim>\<open>get_write_send_buf\<close>: an ordinary send polls until more than \<^const>\<open>RELEASE_BLOCK\<close> slots are
  free (\<^const>\<open>Busy\<close> while they are not); with \<open>send_release\<close> the program exits when none is free.
  \<open>pop\<close> is false in the clear state, where the identifier moves to the back.\<close>

definition get_write_send_buf :: "bool \<Rightarrow> bool \<Rightarrow> link_end \<Rightarrow> crash + u32 \<times> link_end" where
  "get_write_send_buf send_release pop e =
     (if \<not> send_release \<and> length (e_free e) \<le> RELEASE_BLOCK then Inl Busy
      else case e_free e of
        [] \<Rightarrow> Inl Abort
      | b # bs \<Rightarrow> Inr (b, e\<lparr>e_free := (if pop then bs else bs @ [b])\<rparr>))"

type_synonym post = "u32 \<times> ControlType \<times> byte list"

definition write_ids :: "u32 list \<Rightarrow> byte list" where
  "write_ids ids = enc_u32 (word_of_nat (length ids)) @ foldl (\<lambda>out i. out @ enc_u32 i) [] ids"

definition send_write_release :: "u32 \<Rightarrow> link_end \<Rightarrow> crash + link_end \<times> post option" where
  "send_write_release buf_id e =
     (let e = e\<lparr>e_release := e_release e @ [buf_id]\<rparr> in
      if length (e_release e) \<ge> RELEASE_BLOCK then
        (case get_write_send_buf True True e of
           Inl c \<Rightarrow> Inl c
         | Inr (b, e') \<Rightarrow> Inr (e'\<lparr>e_release := []\<rparr>, Some (b, RELEASE, write_ids (e_release e))))
      else Inr (e, None))"

definition clear_write_release :: "link_end \<Rightarrow> crash + link_end \<times> post option" where
  "clear_write_release e =
     (if e_release e \<noteq> [] then
        (case get_write_send_buf True False e of
           Inl c \<Rightarrow> Inl c
         | Inr (b, e') \<Rightarrow> Inr (e'\<lparr>e_release := []\<rparr>, Some (b, CLEAR, write_ids (e_release e))))
      else Inr (e, None))"

text \<open>One receive completion in \<^verbatim>\<open>poll_recv\<close>.  Every control the program sends, other than
  \<^const>\<open>RELEASE\<close> and \<^const>\<open>CLEAR\<close>, takes a copy of the slot (into the queue of its kind, or for
  \<^const>\<open>TERMINATION\<close> into the counters); a barrier message of the wrong size aborts; any other control
  is only reported.\<close>

definition SIZE_BUILD_SYNC :: nat where "SIZE_BUILD_SYNC = 8"

definition handled :: "nat \<Rightarrow> bool" where
  "handled control \<longleftrightarrow> List.member (map control_code [B2_START, B2_END, PART_INFO, BUILD_SYNC,
     DISPATCH_META, DISPATCH_ID, DISPATCH_NGH, SCALA_META, SCALA_NGH, CORE_INFO, QUERY, SYNC, TASK,
     RESULT, NODE_RESULT, NODE_SYNC, COMPUTE, TERMINATION]) control"

definition poll_recv_one :: "u32 \<times> nat \<Rightarrow> link_end \<Rightarrow> crash + link_end \<times> post option" where
  "poll_recv_one c e = (case c of (imm, data_size) \<Rightarrow>
     let control = imm_control imm; buf_id = imm_buf imm; ptr = take data_size (e_mem e buf_id) in
     case (if control = control_code RELEASE \<or> control = control_code CLEAR
           then (case rd_vec rd_u32 ptr of
                   None \<Rightarrow> Inl OutOfBounds
                 | Some (ids, _) \<Rightarrow> Inr (e\<lparr>e_free := e_free e @ ids\<rparr>))
           else if control = control_code BUILD_SYNC \<and> data_size \<noteq> SIZE_BUILD_SYNC then Inl Abort
           else if handled control then Inr (e\<lparr>e_recv := e_recv e @ [(control, ptr)]\<rparr>)
           else Inr e) of
       Inl x \<Rightarrow> Inl x
     | Inr e' \<Rightarrow> if control \<noteq> control_code CLEAR then send_write_release buf_id e' else Inr (e', None))"

section \<open>The link\<close>

record rlink =
  l_end :: "bool \<Rightarrow> link_end"
  l_chan :: "bool \<Rightarrow> (u32 \<times> nat) list"

definition link_init :: "(u32 \<Rightarrow> byte list) \<Rightarrow> rlink" where
  "link_init mem = \<lparr>l_end = (\<lambda>_. com_write_init mem), l_chan = (\<lambda>_. [])\<rparr>"

text \<open>\<^verbatim>\<open>post_write_send\<close>: the bytes land in the slot of the peer and a completion is queued there.\<close>

definition post_write_send :: "bool \<Rightarrow> post \<Rightarrow> rlink \<Rightarrow> crash + rlink" where
  "post_write_send s p lk = (case p of (buf_id, control, bytes) \<Rightarrow>
     if length bytes > MAX_QUERYBUFFER_SIZE then Inl Abort
     else let peer = l_end lk (\<not> s) in
       Inr (lk\<lparr>l_end := (l_end lk)(\<not> s := peer\<lparr>e_mem := (e_mem peer)(buf_id := bytes @ drop (length bytes) (e_mem peer buf_id))\<rparr>),
               l_chan := (l_chan lk)(s := l_chan lk s @ [(imm_data control buf_id, length bytes)])\<rparr>))"

definition run_post :: "bool \<Rightarrow> crash + link_end \<times> post option \<Rightarrow> rlink \<Rightarrow> crash + rlink" where
  "run_post s r lk = (case r of
     Inl c \<Rightarrow> Inl c
   | Inr (e, None) \<Rightarrow> Inr (lk\<lparr>l_end := (l_end lk)(s := e)\<rparr>)
   | Inr (e, Some p) \<Rightarrow> post_write_send s p (lk\<lparr>l_end := (l_end lk)(s := e)\<rparr>))"

text \<open>A message of the application: \<^verbatim>\<open>get_write_send_buf(m)\<close>, the message written into the slot, and
  \<^verbatim>\<open>post_write_send\<close>.\<close>

definition send_msg :: "bool \<Rightarrow> ControlType \<Rightarrow> byte list \<Rightarrow> rlink \<Rightarrow> crash + rlink" where
  "send_msg s control bytes lk =
     run_post s (case get_write_send_buf False True (l_end lk s) of
        Inl c \<Rightarrow> Inl c | Inr (b, e) \<Rightarrow> Inr (e, Some (b, control, bytes))) lk"

definition recv_msg :: "bool \<Rightarrow> rlink \<Rightarrow> crash + rlink" where
  "recv_msg s lk = (case l_chan lk (\<not> s) of
     [] \<Rightarrow> Inr lk
   | c # cs \<Rightarrow> run_post s (poll_recv_one c (l_end lk s)) (lk\<lparr>l_chan := (l_chan lk)(\<not> s := cs)\<rparr>))"

definition clear_link :: "bool \<Rightarrow> rlink \<Rightarrow> crash + rlink" where
  "clear_link s lk = run_post s (clear_write_release (l_end lk s)) lk"

text \<open>The loop of \<^verbatim>\<open>reset_sendrecv\<close> at both ends of a link on which no message is on its way: each end
  hands its remaining release list over in a \<^const>\<open>CLEAR\<close> message and the peer takes it.\<close>

definition hand_back :: "bool \<Rightarrow> rlink \<Rightarrow> crash + rlink" where
  "hand_back s lk = (case clear_link s lk of Inl x \<Rightarrow> Inl x | Inr lk' \<Rightarrow> recv_msg (\<not> s) lk')"

definition reset_sendrecv :: "rlink \<Rightarrow> crash + rlink" where
  "reset_sendrecv lk = (case hand_back True lk of Inl x \<Rightarrow> Inl x | Inr lk' \<Rightarrow> hand_back False lk')"

text \<open>The steps of a link: a send that gets a slot, the processing of one completion, and a reset of both
  ends on a quiet link.  A reset whose messages cross messages that are still on their way is not a step: the
  slot of a \<^const>\<open>CLEAR\<close> message stays on the free list and can be written again before the peer has read
  the identifiers in it.  The messages of the
  program never carry the controls of the flow control itself or \<^const>\<open>SCHEDULE\<close>, fit a slot, and
  the barrier messages have the size of their structure.\<close>

definition app_msg :: "ControlType \<Rightarrow> byte list \<Rightarrow> bool" where
  "app_msg control bytes \<longleftrightarrow> control \<notin> {RELEASE, CLEAR, SCHEDULE} \<and> length bytes \<le> MAX_QUERYBUFFER_SIZE \<and>
     (control = BUILD_SYNC \<longrightarrow> length bytes = SIZE_BUILD_SYNC)"

inductive link_step :: "rlink \<Rightarrow> rlink \<Rightarrow> bool" where
  send: "\<lbrakk>app_msg control bytes; send_msg s control bytes lk = Inr lk'\<rbrakk> \<Longrightarrow> link_step lk lk'"
| recv: "\<lbrakk>l_chan lk (\<not> s) \<noteq> []; recv_msg s lk = Inr lk'\<rbrakk> \<Longrightarrow> link_step lk lk'"
| reset: "\<lbrakk>l_chan lk True = []; l_chan lk False = []; reset_sendrecv lk = Inr lk'\<rbrakk> \<Longrightarrow> link_step lk lk'"

inductive link_reach :: "(u32 \<Rightarrow> byte list) \<Rightarrow> rlink \<Rightarrow> bool" for mem where
  init: "link_reach mem (link_init mem)"
| step: "link_reach mem lk \<Longrightarrow> link_step lk lk' \<Longrightarrow> link_reach mem lk'"

inductive_cases link_stepE: "link_step lk lk'"

text \<open>Both ends poll until no completion is left (\<^verbatim>\<open>poll_recv\<close> in the waiting loops), at most
  \<open>n\<close> times.\<close>

fun drain :: "nat \<Rightarrow> rlink \<Rightarrow> crash + rlink" where
  "drain 0 lk = Inr lk"
| "drain (Suc n) lk =
     (if l_chan lk False \<noteq> [] then (case recv_msg True lk of Inl x \<Rightarrow> Inl x | Inr lk' \<Rightarrow> drain n lk')
      else if l_chan lk True \<noteq> [] then (case recv_msg False lk of Inl x \<Rightarrow> Inl x | Inr lk' \<Rightarrow> drain n lk')
      else Inr lk)"

end
