(* ===== verification/Rdma_Invariant.thy ===== *)
theory Rdma_Invariant
  imports Rdma_Buffers
begin

unbundle bit_operations_syntax

text \<open>
  The invariant of a link: the slots of either end are partitioned over the four places a slot can be in,
  release messages on their way name \<^const>\<open>RELEASE_BLOCK\<close> slots each, and an end that is short of
  free slots either has a release message coming before it has to send one itself, or has
  already sent as many release messages as it is short of.  The invariant holds initially and every step
  keeps it.
\<close>

section \<open>Immediate words and release messages\<close>

lemma control_code_le: "control_code c \<le> 20"
  by (cases c) simp_all

lemma control_code_eq: "control_code c = 18 \<longleftrightarrow> c = RELEASE" "control_code c = 20 \<longleftrightarrow> c = CLEAR"
    "control_code c = 3 \<longleftrightarrow> c = BUILD_SYNC"
  by (cases c; simp)+

lemma handled_code: "handled (control_code c) \<longleftrightarrow> c \<notin> {RELEASE, CLEAR, SCHEDULE}"
  by (cases c) (simp_all add: handled_def)

lemma imm_fields:
  assumes "unat b < 2 ^ 16"
  shows "imm_control (imm_data c b) = control_code c" "imm_buf (imm_data c b) = b"
proof -
  have c: "control_code c < 2 ^ 16" using control_code_le [of c] by simp
  then have w: "unat (word_of_nat (control_code c) :: u32) = control_code c" by simp
  have "unat (push_bit 16 (word_of_nat (control_code c) :: u32)) = push_bit 16 (control_code c)"
    unfolding unsigned_push_bit_eq w using c control_code_le [of c] by (simp add: take_bit_nat_eq_self push_bit_eq_mult)
  then have u: "unat (imm_data c b) = push_bit 16 (control_code c) + unat b"
    by (simp only: imm_data_def unsigned_or_eq or_shifted [OF assms])
  then show "imm_control (imm_data c b) = control_code c"
    using assms unfolding imm_control_def unat_drop_bit_eq u by (simp add: drop_bit_eq_div push_bit_eq_mult)
  have "imm_data c b AND 0xffff = take_bit 16 (imm_data c b)" by (simp add: take_bit_eq_mask mask_eq_exp_minus_1)
  then have "unat (imm_buf (imm_data c b)) = take_bit 16 (unat (imm_data c b))"
    by (simp only: imm_buf_def unsigned_take_bit_eq)
  also have "\<dots> = unat b" using assms by (simp add: u take_bit_eq_mod push_bit_eq_mult)
  finally show "imm_buf (imm_data c b) = b" by (simp only: word_unat_eq_iff)
qed

lemma write_ids_vec: "write_ids ids = enc_vec enc_u32 ids"
  by (simp add: write_ids_def enc_vec_def foldl_emit)

lemma read_ids: "length ids < 2 ^ 32 \<Longrightarrow> rd_vec rd_u32 (write_ids ids) = Some (ids, [])"
  using u32.rd_vec_enc [of ids "[]"] by (simp add: write_ids_vec)

lemma length_write_ids: "length (write_ids ids) = 4 + 4 * length ids"
  by (simp add: write_ids_vec len_simps)

abbreviation ctl :: "u32 \<times> nat \<Rightarrow> nat" where "ctl c \<equiv> imm_control (fst c)"
abbreviation buf :: "u32 \<times> nat \<Rightarrow> u32" where "buf c \<equiv> imm_buf (fst c)"

definition is_rel :: "u32 \<times> nat \<Rightarrow> bool" where
  "is_rel c \<longleftrightarrow> ctl c = control_code RELEASE"

definition slot_ids :: "(u32 \<Rightarrow> byte list) \<Rightarrow> u32 \<times> nat \<Rightarrow> u32 list" where
  "slot_ids mem c = (case rd_vec rd_u32 (take (snd c) (mem (buf c))) of None \<Rightarrow> [] | Some (ids, _) \<Rightarrow> ids)"

definition ret_ids :: "(u32 \<Rightarrow> byte list) \<Rightarrow> u32 \<times> nat \<Rightarrow> u32 multiset" where
  "ret_ids mem c = (if is_rel c then mset (slot_ids mem c) else {#})"

definition owned :: "bool \<Rightarrow> rlink \<Rightarrow> u32 multiset" where
  "owned s lk = mset (e_free (l_end lk s)) + mset (map buf (l_chan lk s)) + mset (e_release (l_end lk (\<not> s))) +
     (\<Sum>c\<leftarrow>l_chan lk (\<not> s). ret_ids (e_mem (l_end lk s)) c)"

definition chan_ok :: "bool \<Rightarrow> rlink \<Rightarrow> bool" where
  "chan_ok s lk \<longleftrightarrow> (\<forall>c\<in>set (l_chan lk (\<not> s)). (is_rel c \<or> handled (ctl c)) \<and>
     (ctl c = control_code BUILD_SYNC \<longrightarrow> snd c = SIZE_BUILD_SYNC) \<and>
     (is_rel c \<longrightarrow> (\<exists>ids. length ids = RELEASE_BLOCK \<and>
        rd_vec rd_u32 (take (snd c) (e_mem (l_end lk s) (buf c))) = Some (ids, []))))"

definition ahead :: "(u32 \<times> nat) list \<Rightarrow> nat" where
  "ahead J = length (takeWhile (\<lambda>c. \<not> is_rel c) J)"

definition reserve_at :: "nat \<Rightarrow> nat \<Rightarrow> (u32 \<times> nat) list \<Rightarrow> (u32 \<times> nat) list \<Rightarrow> bool" where
  "reserve_at F L I J \<longleftrightarrow>
     (if \<exists>c\<in>set J. is_rel c then (L + ahead J) div RELEASE_BLOCK < F
      else RELEASE_BLOCK \<le> F \<or>
        (RELEASE_BLOCK - F \<le> length I \<and> list_all is_rel (drop (length I - (RELEASE_BLOCK - F)) I)))"

abbreviation reserve :: "bool \<Rightarrow> rlink \<Rightarrow> bool" where
  "reserve s lk \<equiv> reserve_at (length (e_free (l_end lk s))) (length (e_release (l_end lk s))) (l_chan lk s) (l_chan lk (\<not> s))"

definition link_inv :: "rlink \<Rightarrow> bool" where
  "link_inv lk \<longleftrightarrow> (\<forall>s. owned s lk = mset slots \<and> chan_ok s lk \<and> length (e_release (l_end lk s)) < RELEASE_BLOCK \<and>
     reserve s lk)"

lemma slots_facts: "distinct slots" "length slots = MAX_WRITE_NUM" "b \<in> set slots \<Longrightarrow> unat b < MAX_WRITE_NUM"
proof -
  have w: "n < MAX_WRITE_NUM \<Longrightarrow> unat (word_of_nat n :: u32) = n" for n by (simp add: MAX_WRITE_NUM_def)
  have "inj_on (word_of_nat :: nat \<Rightarrow> u32) {..<MAX_WRITE_NUM}"
    by (rule inj_onI) (metis lessThan_iff w)
  then show "distinct slots" by (simp add: slots_def distinct_map atLeast0LessThan)
  show "length slots = MAX_WRITE_NUM" by (simp add: slots_def)
  show "b \<in> set slots \<Longrightarrow> unat b < MAX_WRITE_NUM" by (auto simp: slots_def w)
qed

lemma owned_slot:
  assumes "owned s lk = mset slots" "e_free (l_end lk s) = b # bs"
  shows "unat b < 2 ^ 16" "b \<notin> buf ` set (l_chan lk s)" 
proof -
  have "b \<in># owned s lk" using assms(2) by (simp add: owned_def)
  then show "unat b < 2 ^ 16" using slots_facts(3) [of b] assms(1) by (simp add: MAX_WRITE_NUM_def)
  have "count (mset slots) b \<le> 1" using slots_facts(1) by (simp add: distinct_count_atmost_1)
  then have "count (mset (map buf (l_chan lk s))) b = 0" using assms by (simp add: owned_def flip: assms(1))
  then show "b \<notin> buf ` set (l_chan lk s)" by (metis count_eq_zero_iff list.set_map set_mset_mset)
qed

lemma owned_size:
  assumes "owned s lk = mset slots" "chan_ok s lk"
  shows "length (e_free (l_end lk s)) + length (l_chan lk s) + length (e_release (l_end lk (\<not> s))) +
     RELEASE_BLOCK * length (filter is_rel (l_chan lk (\<not> s))) = MAX_WRITE_NUM"
proof -
  have "size (\<Sum>c\<leftarrow>J. ret_ids (e_mem (l_end lk s)) c) = RELEASE_BLOCK * length (filter is_rel J)"
    if "set J \<subseteq> set (l_chan lk (\<not> s))" for J
    using that assms(2) by (induction J) (auto simp: chan_ok_def ret_ids_def slot_ids_def)
  from this [of "l_chan lk (\<not> s)"] arg_cong [OF assms(1), of size] slots_facts(2) show ?thesis by (simp add: owned_def)
qed


lemma ret_ids_other: "b \<notin> buf ` set J \<Longrightarrow> (\<Sum>c\<leftarrow>J. ret_ids (mem(b := x)) c) = (\<Sum>c\<leftarrow>J. ret_ids mem c)"
  by (induction J) (auto simp: ret_ids_def slot_ids_def)

lemma ahead_append: "\<exists>c\<in>set J. is_rel c \<Longrightarrow> ahead (J @ K) = ahead J"
  unfolding ahead_def by (metis takeWhile_append1)

lemma ahead_Cons: "\<not> is_rel c \<Longrightarrow> ahead (c # J) = Suc (ahead J)"
  by (simp add: ahead_def)

lemma reserve_full:
  assumes "RELEASE_BLOCK \<le> F" "L \<le> RELEASE_BLOCK" "length J \<le> MAX_WRITE_NUM"
  shows "reserve_at F L I J"
proof -
  have "ahead J \<le> MAX_WRITE_NUM"
    using assms(3) length_takeWhile_le [of _ J] unfolding ahead_def by (rule order.trans [rotated])
  then have "(L + ahead J) div RELEASE_BLOCK < 6"
    using assms(2) by (intro less_mult_imp_div_less) (simp add: config_defs)
  then show ?thesis using assms(1) by (auto simp: reserve_at_def config_defs)
qed

lemma reserve_peer_sends: "reserve_at F L I J \<Longrightarrow> \<not> is_rel c \<Longrightarrow> reserve_at F L I (J @ [c])"
  by (auto simp: reserve_at_def ahead_append split: if_splits)

text \<open>What one post does to the two ends: end \<open>s\<close> has taken slot \<open>b\<close> from its free list.\<close>

definition posted :: "bool \<Rightarrow> u32 \<Rightarrow> ControlType \<Rightarrow> byte list \<Rightarrow> link_end \<Rightarrow> rlink \<Rightarrow> rlink" where
  "posted s b control bytes e lk =
     lk\<lparr>l_end := (l_end lk)(s := e, \<not> s := (l_end lk (\<not> s))\<lparr>e_mem := (e_mem (l_end lk (\<not> s)))(b := bytes @ drop (length bytes) (e_mem (l_end lk (\<not> s)) b))\<rparr>),
        l_chan := (l_chan lk)(s := l_chan lk s @ [(imm_data control b, length bytes)])\<rparr>"

lemma run_post_Some:
  "length bytes \<le> MAX_QUERYBUFFER_SIZE \<Longrightarrow> run_post s (Inr (e, Some (b, control, bytes))) lk = Inr (posted s b control bytes e lk)"
  by (simp add: run_post_def post_write_send_def posted_def Let_def fun_upd_twist)

lemma send_result:
  assumes "send_msg s control bytes lk = Inr lk'"
  obtains b bs where "e_free (l_end lk s) = b # bs" "RELEASE_BLOCK < length (e_free (l_end lk s))"
    "lk' = posted s b control bytes ((l_end lk s)\<lparr>e_free := bs\<rparr>) lk"
proof (cases "e_free (l_end lk s)")
  case (Cons b bs)
  have "length bytes \<le> MAX_QUERYBUFFER_SIZE"
    using assms Cons by (auto simp: send_msg_def get_write_send_buf_def run_post_def post_write_send_def split: if_splits)
  with assms Cons that show thesis
    by (auto simp: send_msg_def get_write_send_buf_def run_post_Some run_post_def [of _ "Inl _"] split: if_splits)
qed (use assms in \<open>simp add: send_msg_def get_write_send_buf_def run_post_def split: if_splits\<close>)

lemma send_possible:
  assumes "RELEASE_BLOCK < length (e_free (l_end lk s))" "length bytes \<le> MAX_QUERYBUFFER_SIZE"
  shows "\<exists>lk'. send_msg s control bytes lk = Inr lk'"
  using assms by (cases "e_free (l_end lk s)") (auto simp: send_msg_def get_write_send_buf_def run_post_Some not_le)

lemma send_inv:
  assumes inv: "link_inv lk" and send: "app_msg control bytes" "send_msg t control bytes lk = Inr lk'"
  shows "link_inv lk'"
proof -
  from send_result [OF send(2)] obtain b bs where f: "e_free (l_end lk t) = b # bs" "RELEASE_BLOCK < length (e_free (l_end lk t))"
    and lk': "lk' = posted t b control bytes ((l_end lk t)\<lparr>e_free := bs\<rparr>) lk" by blast
  have o: "owned s lk = mset slots" "chan_ok s lk" "length (e_release (l_end lk s)) < RELEASE_BLOCK" "reserve s lk" for s
    using inv by (auto simp: link_inv_def)
  note slot = owned_slot [OF o(1) f(1)]
  note imm = imm_fields [OF slot(1), of control]
  have rel: "\<not> is_rel (imm_data control b, n)" for n using send(1) imm control_code_eq by (simp add: is_rel_def app_msg_def)
  have app: "handled (control_code control)" "control = BUILD_SYNC \<Longrightarrow> length bytes = SIZE_BUILD_SYNC"
    using send(1) by (auto simp: handled_code app_msg_def)
  have own: "owned t lk' = mset slots" "owned (\<not> t) lk' = mset slots"
    using o(1) [of t] o(1) [of "\<not> t"] ret_ids_other [OF slot(2)] imm rel
    by (auto simp: owned_def lk' posted_def f(1) ret_ids_def)
  have chan: "chan_ok t lk'" "chan_ok (\<not> t) lk'"
    using o(2) [of t] o(2) [of "\<not> t"] slot(2) imm rel app control_code_eq
    by (auto simp: chan_ok_def lk' posted_def image_iff)
  have release: "length (e_release (l_end lk' s)) < RELEASE_BLOCK" for s
    using o(3) [of s] by (auto simp: lk' posted_def)
  have "reserve t lk'"
    using f release [of t] owned_size [OF own(2) chan(2)] by (intro reserve_full) (auto simp: lk' posted_def less_imp_le)
  moreover have "reserve (\<not> t) lk'"
    using reserve_peer_sends [OF o(4) [of "\<not> t"]] rel by (auto simp: lk' posted_def)
  ultimately have "reserve s lk'" for s by (cases "s = t") (auto simp: \<open>reserve t lk'\<close>)
  moreover have "owned s lk' = mset slots" "chan_ok s lk'" for s
    using own chan by (cases "s = t"; auto)+
  ultimately show ?thesis using release by (simp add: link_inv_def)
qed


text \<open>The four ways a processed completion changes the reserve of an end.\<close>

lemma reserve_some: "reserve_at F L I J \<Longrightarrow> length (filter is_rel I) < RELEASE_BLOCK \<Longrightarrow> 0 < F"
proof (cases "\<exists>c\<in>set J. is_rel c")
  case False
  assume a: "reserve_at F L I J" "length (filter is_rel I) < RELEASE_BLOCK"
  have "F = 0 \<Longrightarrow> length (filter is_rel I) \<ge> RELEASE_BLOCK"
  proof -
    assume F: "F = 0"
    let ?D = "drop (length I - RELEASE_BLOCK) I"
    have "RELEASE_BLOCK \<le> length I" "list_all is_rel ?D" using a(1) False F by (auto simp: reserve_at_def config_defs)
    then have "RELEASE_BLOCK = length (filter is_rel ?D)" by (simp add: list_all_iff filter_id_conv [THEN iffD2])
    also have "\<dots> \<le> length (filter is_rel I)"
      by (metis append_take_drop_id filter_append le_add2 length_append)
    finally show ?thesis .
  qed
  with a(2) show ?thesis by fastforce
qed (auto simp: reserve_at_def)

lemma reserve_deficit:
  assumes "reserve_at F L I J" "\<not> (\<exists>c\<in>set J. is_rel c)"
  shows "RELEASE_BLOCK \<le> F + length (filter is_rel I)"
proof (cases "RELEASE_BLOCK \<le> F")
  case False
  let ?D = "drop (length I - (RELEASE_BLOCK - F)) I"
  have "RELEASE_BLOCK - F \<le> length I" "list_all is_rel ?D" using assms False by (auto simp: reserve_at_def)
  then have "RELEASE_BLOCK - F = length (filter is_rel ?D)" by (simp add: list_all_iff filter_id_conv [THEN iffD2])
  also have "\<dots> \<le> length (filter is_rel I)" by (metis append_take_drop_id filter_append le_add2 length_append)
  finally show ?thesis by simp
qed simp

lemma reserve_take_plain:
  assumes "reserve_at F L I (c # J)" "\<not> is_rel c"
  shows "reserve_at F (Suc L) I J"
  using assms by (auto simp: reserve_at_def ahead_Cons split: if_splits)

lemma reserve_flush:
  assumes "reserve_at F L I J" "L = RELEASE_BLOCK" "0 < F" "is_rel r"
  shows "reserve_at (F - 1) 0 (I @ [r]) J"
proof (cases "\<exists>c\<in>set J. is_rel c")
  case True
  then have "(RELEASE_BLOCK + ahead J) div RELEASE_BLOCK < F" using assms(1,2) by (simp add: reserve_at_def)
  then have "Suc (ahead J div RELEASE_BLOCK) < F" by (simp add: config_defs)
  with True show ?thesis by (auto simp: reserve_at_def)
next
  case False
  show ?thesis
  proof (cases "RELEASE_BLOCK \<le> F - 1")
    case True
    with False show ?thesis by (simp add: reserve_at_def)
  next
    case small: False
    have d: "RELEASE_BLOCK - (F - 1) = Suc (RELEASE_BLOCK - F)" using assms(3) small by simp
    have "RELEASE_BLOCK - F \<le> length I \<and> list_all is_rel (drop (length I - (RELEASE_BLOCK - F)) I)"
      using assms(1) False by (cases "RELEASE_BLOCK \<le> F") (auto simp: reserve_at_def)
    with False assms(4) show ?thesis by (simp add: reserve_at_def d [simplified])
  qed
qed

lemma reserve_peer_takes:
  assumes "reserve_at F L (c # I) J" "length I + F + M = MAX_WRITE_NUM - 1" "M < RELEASE_BLOCK"
    "\<not> (\<exists>c\<in>set J. is_rel c)" "length (filter is_rel (c # I)) \<le> 4"
  shows "reserve_at F L I J"
proof (cases "RELEASE_BLOCK \<le> F")
  case False
  have "RELEASE_BLOCK - F \<le> 4" using reserve_deficit [OF assms(1,4)] assms(5) by simp
  moreover have "4 < length I" using assms(2,3) False by (simp add: config_defs)
  ultimately have l: "RELEASE_BLOCK - F \<le> length I" by simp
  then have "length (c # I) - (RELEASE_BLOCK - F) = Suc (length I - (RELEASE_BLOCK - F))" by simp
  then have "drop (length (c # I) - (RELEASE_BLOCK - F)) (c # I) = drop (length I - (RELEASE_BLOCK - F)) I" by (simp only: drop_Suc_Cons)
  with assms(1,4) l False show ?thesis unfolding reserve_at_def by (metis (no_types, lifting))
qed (use assms(4) in \<open>simp add: reserve_at_def\<close>)


text \<open>Processing a completion: the two outcomes.\<close>

definition taken :: "u32 \<times> nat \<Rightarrow> link_end \<Rightarrow> link_end" where
  "taken c e = (if is_rel c then e\<lparr>e_free := e_free e @ slot_ids (e_mem e) c, e_release := e_release e @ [buf c]\<rparr>
     else e\<lparr>e_recv := e_recv e @ [(ctl c, take (snd c) (e_mem e (buf c)))], e_release := e_release e @ [buf c]\<rparr>)"

lemma recv_result:
  assumes chan: "l_chan lk (\<not> t) = c # cs" and ok: "chan_ok t lk"
  shows "length (e_release (l_end lk t)) + 1 < RELEASE_BLOCK \<Longrightarrow>
      recv_msg t lk = Inr (lk\<lparr>l_end := (l_end lk)(t := taken c (l_end lk t)), l_chan := (l_chan lk)(\<not> t := cs)\<rparr>)"
    "\<lbrakk>length (e_release (l_end lk t)) + 1 = RELEASE_BLOCK; e_free (taken c (l_end lk t)) = b # bs\<rbrakk> \<Longrightarrow>
      recv_msg t lk = Inr (posted t b RELEASE (write_ids (e_release (taken c (l_end lk t))))
        ((taken c (l_end lk t))\<lparr>e_free := bs, e_release := []\<rparr>) (lk\<lparr>l_chan := (l_chan lk)(\<not> t := cs)\<rparr>))"
proof -
  have c: "is_rel c \<or> handled (ctl c)" "ctl c = control_code BUILD_SYNC \<longrightarrow> snd c = SIZE_BUILD_SYNC"
    using ok chan by (auto simp: chan_ok_def)
  have n: "\<not> handled (control_code RELEASE)" "\<not> handled (control_code CLEAR)" by (simp_all only: handled_code) simp_all
  have poll: "poll_recv_one c (l_end lk t) = send_write_release (buf c)
      ((taken c (l_end lk t))\<lparr>e_release := e_release (l_end lk t)\<rparr>)"
  proof (cases "is_rel c")
    case True
    with ok chan obtain ids where "rd_vec rd_u32 (take (snd c) (e_mem (l_end lk t) (buf c))) = Some (ids, [])"
      by (auto simp: chan_ok_def)
    with True show ?thesis by (cases c) (simp add: poll_recv_one_def is_rel_def taken_def slot_ids_def)
  next
    case False
    with c n have "handled (ctl c)" "ctl c \<noteq> control_code CLEAR" "ctl c \<noteq> control_code RELEASE" by auto
    with c(2) False show ?thesis by (cases c) (auto simp: poll_recv_one_def taken_def Let_def)
  qed
  have rel: "e_release (taken c (l_end lk t)) = e_release (l_end lk t) @ [buf c]" by (simp add: taken_def)
  show "length (e_release (l_end lk t)) + 1 < RELEASE_BLOCK \<Longrightarrow>
      recv_msg t lk = Inr (lk\<lparr>l_end := (l_end lk)(t := taken c (l_end lk t)), l_chan := (l_chan lk)(\<not> t := cs)\<rparr>)"
    by (simp add: recv_msg_def chan poll send_write_release_def run_post_def not_le Let_def) (simp add: taken_def)
  assume full: "length (e_release (l_end lk t)) + 1 = RELEASE_BLOCK" and free: "e_free (taken c (l_end lk t)) = b # bs"
  have "send_write_release (buf c) ((taken c (l_end lk t))\<lparr>e_release := e_release (l_end lk t)\<rparr>) =
      Inr ((taken c (l_end lk t))\<lparr>e_free := bs, e_release := []\<rparr>, Some (b, RELEASE, write_ids (e_release (taken c (l_end lk t)))))"
    using full free by (simp add: send_write_release_def get_write_send_buf_def rel Let_def)
  moreover have "length (write_ids (e_release (taken c (l_end lk t)))) \<le> MAX_QUERYBUFFER_SIZE"
    using full by (simp add: length_write_ids rel config_defs)
  ultimately show "recv_msg t lk = Inr (posted t b RELEASE (write_ids (e_release (taken c (l_end lk t))))
        ((taken c (l_end lk t))\<lparr>e_free := bs, e_release := []\<rparr>) (lk\<lparr>l_chan := (l_chan lk)(\<not> t := cs)\<rparr>))"
    by (simp add: recv_msg_def chan poll run_post_Some)
qed

text \<open>The invariant up to the bound on the release list, which is reached while a completion is
  processed.\<close>

definition link_pre :: "rlink \<Rightarrow> bool" where
  "link_pre lk \<longleftrightarrow> (\<forall>s. owned s lk = mset slots \<and> chan_ok s lk \<and> length (e_release (l_end lk s)) \<le> RELEASE_BLOCK \<and>
     reserve s lk)"

lemma rel_bound:
  assumes "link_pre lk"
  shows "length (filter is_rel (l_chan lk s)) \<le> 4" "length (l_chan lk s) \<le> MAX_WRITE_NUM"
  using owned_size [of "\<not> s" lk] owned_size [of s lk] assms by (simp_all add: link_pre_def config_defs)

lemma link_inv_pre: "link_inv lk \<longleftrightarrow> link_pre lk \<and> (\<forall>s. length (e_release (l_end lk s)) < RELEASE_BLOCK)"
  by (auto simp: link_inv_def link_pre_def less_imp_le)

lemma free_pos:
  assumes "link_pre lk" shows "0 < length (e_free (l_end lk t))"
proof -
  have "reserve t lk" using assms by (simp add: link_pre_def)
  moreover have "length (filter is_rel (l_chan lk t)) < RELEASE_BLOCK"
    using rel_bound(1) [OF assms, of t] by (simp add: config_defs)
  ultimately show ?thesis by (rule reserve_some)
qed

lemma length_free_taken:
  assumes "chan_ok t lk" "l_chan lk (\<not> t) = c # cs"
  shows "length (e_free (taken c (l_end lk t))) = length (e_free (l_end lk t)) + (if is_rel c then RELEASE_BLOCK else 0)"
  using assms by (auto simp: chan_ok_def taken_def slot_ids_def)

lemma taken_mem [simp]: "e_mem (taken c e) = e_mem e" "e_release (taken c e) = e_release e @ [buf c]"
  by (simp_all add: taken_def)

lemma taken_free: "mset (e_free (taken c e)) = mset (e_free e) + ret_ids (e_mem e) c"
  by (simp add: taken_def ret_ids_def)

lemma side_all: "P t \<Longrightarrow> P (\<not> t) \<Longrightarrow> P (s :: bool)"
  by (cases s; cases t) auto

lemma link_preI:
  assumes "\<And>s. s = t \<or> s = (\<not> t) \<Longrightarrow>
    owned s lk = mset slots \<and> chan_ok s lk \<and> length (e_release (l_end lk s)) \<le> RELEASE_BLOCK \<and> reserve s lk"
  shows "link_pre lk"
  unfolding link_pre_def by (intro allI assms) auto

definition took :: "bool \<Rightarrow> u32 \<times> nat \<Rightarrow> (u32 \<times> nat) list \<Rightarrow> rlink \<Rightarrow> rlink" where
  "took t c cs lk = lk\<lparr>l_end := (l_end lk)(t := taken c (l_end lk t)), l_chan := (l_chan lk)(\<not> t := cs)\<rparr>"

lemma took_pre:
  assumes inv: "link_inv lk" and chan: "l_chan lk (\<not> t) = c # cs"
  shows "link_pre (took t c cs lk)"
proof -
  let ?lk = "took t c cs lk"
  have pre: "link_pre lk" and room: "length (e_release (l_end lk s)) < RELEASE_BLOCK" for s
    using inv by (auto simp: link_inv_pre)
  have o: "owned s lk = mset slots" "chan_ok s lk" "reserve s lk" for s using pre by (auto simp: link_pre_def)
  note free = length_free_taken [OF o(2) chan]
  have own: "owned t ?lk = mset slots" "owned (\<not> t) ?lk = mset slots"
    using o(1) [of t] o(1) [of "\<not> t"] chan by (simp_all add: owned_def took_def taken_free ac_simps)
  have ok: "chan_ok t ?lk" "chan_ok (\<not> t) ?lk"
    using o(2) [of t] o(2) [of "\<not> t"] chan by (auto simp: chan_ok_def took_def)
  have rt: "reserve t ?lk"
  proof (cases "is_rel c")
    case True
    then show ?thesis using free room [of t] rel_bound(2) [OF pre, of "\<not> t"] chan
      by (intro reserve_full) (auto simp: took_def)
  next
    case False
    with reserve_take_plain [of _ _ _ c cs] o(3) [of t] chan free show ?thesis by (auto simp: took_def)
  qed
  have rn: "reserve (\<not> t) ?lk"
  proof (cases "\<exists>c\<in>set (l_chan lk t). is_rel c")
    case True
    with o(3) [of "\<not> t"] show ?thesis by (auto simp: took_def reserve_at_def)
  next
    case False
    have "length cs + length (e_free (l_end lk (\<not> t))) + length (e_release (l_end lk t)) = MAX_WRITE_NUM - 1"
      using owned_size [OF o(1,2) [of "\<not> t"]] False chan by (simp add: filter_empty_conv [THEN iffD2])
    from reserve_peer_takes [OF _ this room False] o(3) [of "\<not> t"] chan rel_bound(1) [OF pre, of "\<not> t"]
    show ?thesis by (simp add: took_def)
  qed
  show ?thesis
  proof (rule link_preI [where t = t])
    fix s assume s: "s = t \<or> s = (\<not> t)"
    have "length (e_release (l_end ?lk s)) \<le> RELEASE_BLOCK"
      using room [of s] by (cases "s = t") (simp_all add: took_def)
    with s own ok rt rn show "owned s ?lk = mset slots \<and> chan_ok s ?lk \<and> length (e_release (l_end ?lk s)) \<le> RELEASE_BLOCK \<and> reserve s ?lk"
      by blast
  qed
qed

definition flushed :: "bool \<Rightarrow> u32 \<Rightarrow> u32 list \<Rightarrow> rlink \<Rightarrow> rlink" where
  "flushed t b bs lk = posted t b RELEASE (write_ids (e_release (l_end lk t)))
     ((l_end lk t)\<lparr>e_free := bs, e_release := []\<rparr>) lk"

lemma flushed_inv:
  assumes pre: "link_pre lk" and full: "length (e_release (l_end lk t)) = RELEASE_BLOCK"
    and room: "length (e_release (l_end lk (\<not> t))) < RELEASE_BLOCK" and f: "e_free (l_end lk t) = b # bs"
  shows "link_inv (flushed t b bs lk)"
proof -
  let ?lk = "flushed t b bs lk" let ?ids = "e_release (l_end lk t)"
  let ?r = "(imm_data RELEASE b, length (write_ids ?ids))"
  have o: "owned s lk = mset slots" "chan_ok s lk" "reserve s lk" for s using pre by (auto simp: link_pre_def)
  note slot = owned_slot [OF o(1) f]
  note imm = imm_fields [OF slot(1), of RELEASE]
  have r: "is_rel ?r" by (simp add: is_rel_def imm)
  have ids: "rd_vec rd_u32 (write_ids ?ids) = Some (?ids, [])"
    by (rule read_ids) (simp add: full config_defs)
  have own: "owned t ?lk = mset slots" "owned (\<not> t) ?lk = mset slots"
    using o(1) [of t] o(1) [of "\<not> t"] ret_ids_other [OF slot(2)] r
    by (simp_all add: owned_def flushed_def posted_def f imm ret_ids_def slot_ids_def ids ac_simps)
  have ok: "chan_ok t ?lk" "chan_ok (\<not> t) ?lk"
    using o(2) [of t] o(2) [of "\<not> t"] slot(2) full r
    by (auto simp: chan_ok_def flushed_def posted_def imm ids image_iff)
  have rt: "reserve t ?lk"
    using reserve_flush [OF o(3) [of t] full _ r] f by (simp add: flushed_def posted_def)
  have rn: "reserve (\<not> t) ?lk"
  proof (cases "\<exists>c\<in>set (l_chan lk t). is_rel c")
    case True
    with o(3) [of "\<not> t"] show ?thesis by (auto simp: flushed_def posted_def reserve_at_def ahead_append)
  next
    case False
    have "RELEASE_BLOCK \<le> length (e_free (l_end lk (\<not> t))) + 4"
      using reserve_deficit [OF o(3) [of "\<not> t"]] False rel_bound(1) [OF pre, of "\<not> t"] by simp
    moreover have "ahead (l_chan lk t @ [?r]) \<le> MAX_WRITE_NUM"
      using rel_bound(2) [OF pre, of t] r False by (simp add: ahead_def takeWhile_append2)
    then have "(length (e_release (l_end lk (\<not> t))) + ahead (l_chan lk t @ [?r])) div RELEASE_BLOCK < 5"
      using room by (intro less_mult_imp_div_less) (simp add: config_defs)
    ultimately show ?thesis using r by (simp add: flushed_def posted_def reserve_at_def config_defs)
  qed
  have rel: "length (e_release (l_end ?lk s)) < RELEASE_BLOCK" for s
    using room by (cases "s = t") (auto simp: flushed_def posted_def config_defs)
  have "link_pre ?lk"
  proof (rule link_preI [where t = t])
    fix s assume "s = t \<or> s = (\<not> t)"
    with own ok rt rn rel [of s]
    show "owned s ?lk = mset slots \<and> chan_ok s ?lk \<and> length (e_release (l_end ?lk s)) \<le> RELEASE_BLOCK \<and> reserve s ?lk"
      using less_imp_le by blast
  qed
  with rel show ?thesis by (simp add: link_inv_pre)
qed

lemma recv_outcome:
  assumes inv: "link_inv lk" and chan: "l_chan lk (\<not> t) = c # cs"
  obtains (took) "recv_msg t lk = Inr (took t c cs lk)" "length (e_release (l_end lk t)) + 1 < RELEASE_BLOCK"
  | (flushed) b bs where "recv_msg t lk = Inr (flushed t b bs (took t c cs lk))"
      "length (e_release (l_end lk t)) + 1 = RELEASE_BLOCK" "e_free (l_end (took t c cs lk) t) = b # bs"
proof -
  have ok: "chan_ok t lk" and room: "length (e_release (l_end lk t)) < RELEASE_BLOCK" using inv by (auto simp: link_inv_def)
  show ?thesis
  proof (cases "length (e_release (l_end lk t)) + 1 < RELEASE_BLOCK")
    case True
    then show ?thesis using recv_result(1) [OF chan ok] by (intro took) (simp_all add: took_def)
  next
    case False
    then have full: "length (e_release (l_end lk t)) + 1 = RELEASE_BLOCK" using room by simp
    obtain b bs where f: "e_free (l_end (took t c cs lk) t) = b # bs"
      using free_pos [OF took_pre [OF inv chan], of t] by (cases "e_free (l_end (took t c cs lk) t)") auto
    then show ?thesis using recv_result(2) [OF chan ok full, of b bs] full
      by (intro flushed) (simp_all add: took_def flushed_def posted_def)
  qed
qed

lemma recv_inv:
  assumes inv: "link_inv lk" and chan: "l_chan lk (\<not> t) \<noteq> []" and r: "recv_msg t lk = Inr lk'"
  shows "link_inv lk'"
proof -
  obtain c cs where c: "l_chan lk (\<not> t) = c # cs" using chan by (cases "l_chan lk (\<not> t)") auto
  have room: "length (e_release (l_end lk s)) < RELEASE_BLOCK" for s using inv by (auto simp: link_inv_def)
  from inv c show ?thesis
  proof (cases rule: recv_outcome)
    case took
    then show ?thesis using took_pre [OF inv c] room r by (auto simp: link_inv_pre took_def)
  next
    case (flushed b bs)
    then show ?thesis
      using flushed_inv [OF took_pre [OF inv c], of t b bs] r room [of "\<not> t"] by (simp add: took_def)
  qed
qed

lemma link_init_inv: "link_inv (link_init mem)"
  by (auto simp: link_inv_def link_init_def com_write_init_def owned_def chan_ok_def reserve_at_def slots_facts(2) config_defs)

section \<open>Returning the last identifiers\<close>

lemma hand_back_ok:
  assumes quiet: "l_chan lk s = []" and f: "e_free (l_end lk s) = b # bs" "unat b < 2 ^ 16"
    and rel: "length (e_release (l_end lk s)) < RELEASE_BLOCK"
  obtains lk' where "hand_back s lk = Inr lk'" "l_chan lk' = l_chan lk"
    "mset (e_free (l_end lk' s)) = mset (e_free (l_end lk s))" "e_release (l_end lk' s) = []"
    "e_free (l_end lk' (\<not> s)) = e_free (l_end lk (\<not> s)) @ e_release (l_end lk s)"
    "e_release (l_end lk' (\<not> s)) = e_release (l_end lk (\<not> s))"
proof (cases "e_release (l_end lk s) = []")
  case True
  then have "hand_back s lk = Inr lk"
    using quiet by (simp add: hand_back_def clear_link_def clear_write_release_def run_post_def recv_msg_def)
  with True that [of lk] show thesis by simp
next
  case False
  let ?ids = "e_release (l_end lk s)"
  let ?e = "(l_end lk s)\<lparr>e_free := bs @ [b], e_release := []\<rparr>"
  let ?m = "posted s b CLEAR (write_ids ?ids) ?e lk"
  have ids: "rd_vec rd_u32 (write_ids ?ids) = Some (?ids, [])" by (rule read_ids) (use rel in \<open>simp add: config_defs\<close>)
  have fits: "length (write_ids ?ids) \<le> MAX_QUERYBUFFER_SIZE" using rel by (simp add: length_write_ids config_defs)
  have c: "clear_link s lk = Inr ?m"
    using False f by (simp add: clear_link_def clear_write_release_def get_write_send_buf_def run_post_Some [OF fits])
  define q where "q = l_end ?m (\<not> s)"
  have q: "e_mem q b = write_ids ?ids @ drop (length (write_ids ?ids)) (e_mem (l_end lk (\<not> s)) b)"
    "e_free q = e_free (l_end lk (\<not> s))" "e_release q = e_release (l_end lk (\<not> s))"
    by (simp_all add: q_def posted_def)
  have chan: "l_chan ?m s = [(imm_data CLEAR b, length (write_ids ?ids))]" by (simp add: posted_def quiet)
  have "poll_recv_one (imm_data CLEAR b, length (write_ids ?ids)) q = Inr (q\<lparr>e_free := e_free q @ ?ids\<rparr>, None)"
    by (simp add: poll_recv_one_def imm_fields [OF f(2)] q(1) ids Let_def)
  then have "recv_msg (\<not> s) ?m = Inr (?m\<lparr>l_end := (l_end ?m)(\<not> s := q\<lparr>e_free := e_free q @ ?ids\<rparr>), l_chan := (l_chan ?m)(s := [])\<rparr>)"
    (is "_ = Inr ?r")
    using chan by (simp add: recv_msg_def q_def [symmetric] run_post_def)
  with c have "hand_back s lk = Inr ?r" by (simp add: hand_back_def)
  then show thesis
    by (rule that) (use quiet f q in \<open>auto simp: posted_def fun_eq_iff\<close>)
qed

text \<open>The slot of a \<^const>\<open>CLEAR\<close> message is counted twice while the message is on its way.\<close>

lemma clear_twice:
  assumes inv: "link_inv lk" and rel: "e_release (l_end lk s) \<noteq> []"
  obtains b lk' where "clear_link s lk = Inr lk'" "owned s lk' = add_mset b (mset slots)"
    "b \<in> set (e_free (l_end lk' s))" "b \<in> buf ` set (l_chan lk' s)"
proof -
  have o: "owned s lk = mset slots" "length (e_release (l_end lk s)) < RELEASE_BLOCK" using inv by (auto simp: link_inv_def)
  have "0 < length (e_free (l_end lk s))" using inv by (intro free_pos) (simp add: link_inv_pre)
  then obtain b bs where f: "e_free (l_end lk s) = b # bs" by (cases "e_free (l_end lk s)") auto
  note b = owned_slot(1) [OF o(1) f]
  let ?ids = "e_release (l_end lk s)"
  let ?m = "posted s b CLEAR (write_ids ?ids) ((l_end lk s)\<lparr>e_free := bs @ [b], e_release := []\<rparr>) lk"
  have fits: "length (write_ids ?ids) \<le> MAX_QUERYBUFFER_SIZE" using o(2) by (simp add: length_write_ids config_defs)
  have "clear_link s lk = Inr ?m"
    using rel f by (simp add: clear_link_def clear_write_release_def get_write_send_buf_def run_post_Some [OF fits])
  moreover have "owned s ?m = add_mset b (owned s lk)"
    by (simp add: owned_def posted_def f imm_fields [OF b])
  moreover have "b \<in> set (e_free (l_end ?m s))" "b \<in> buf ` set (l_chan ?m s)"
    by (simp_all add: posted_def imm_fields [OF b])
  ultimately show thesis using o(1) that by simp
qed

lemma quiet_free:
  assumes "link_inv lk" "\<And>s. l_chan lk s = []"
  shows "RELEASE_BLOCK < length (e_free (l_end lk s))"
proof -
  have "length (e_release (l_end lk (\<not> s))) < RELEASE_BLOCK" "owned s lk = mset slots" "chan_ok s lk"
    using assms(1) by (auto simp: link_inv_def)
  then show ?thesis using owned_size [of s lk] assms(2) by (simp add: config_defs)
qed

lemma reset_ok:
  assumes inv: "link_inv lk" and quiet: "\<And>s. l_chan lk s = []"
  shows "\<exists>lk'. reset_sendrecv lk = Inr lk' \<and> (\<forall>s. l_chan lk' s = [] \<and> e_release (l_end lk' s) = [] \<and>
     mset (e_free (l_end lk' s)) = mset slots)"
proof -
  have o: "owned s lk = mset slots" "length (e_release (l_end lk s)) < RELEASE_BLOCK" for s using inv by (auto simp: link_inv_def)
  have own: "mset (e_free (l_end lk s)) + mset (e_release (l_end lk (\<not> s))) = mset slots" for s
    using o(1) [of s] by (simp add: owned_def quiet)
  obtain b bs where f: "e_free (l_end lk True) = b # bs"
    using quiet_free [OF inv quiet, of True] by (cases "e_free (l_end lk True)") auto
  obtain lk1 where h1: "hand_back True lk = Inr lk1" and 1: "l_chan lk1 = l_chan lk"
      "mset (e_free (l_end lk1 True)) = mset (e_free (l_end lk True))" "e_release (l_end lk1 True) = []"
      "e_free (l_end lk1 False) = e_free (l_end lk False) @ e_release (l_end lk True)"
      "e_release (l_end lk1 False) = e_release (l_end lk False)"
    using hand_back_ok [OF quiet f owned_slot(1) [OF o(1) f] o(2)] by auto
  obtain b bs where f: "e_free (l_end lk1 False) = b # bs"
    using quiet_free [OF inv quiet, of False] 1(4) by (cases "e_free (l_end lk False)") auto
  have "mset (e_free (l_end lk1 False)) = mset slots" using own [of False] by (simp add: 1(4))
  then have "b \<in># mset slots" by (simp add: f flip: \<open>mset (e_free (l_end lk1 False)) = mset slots\<close>)
  then have b: "unat b < 2 ^ 16" using slots_facts(3) [of b] by (simp add: config_defs)
  have c: "l_chan lk1 False = []" "length (e_release (l_end lk1 False)) < RELEASE_BLOCK" using quiet o(2) 1 by simp_all
  obtain lk2 where h2: "hand_back False lk1 = Inr lk2" and 2: "l_chan lk2 = l_chan lk1"
      "mset (e_free (l_end lk2 False)) = mset (e_free (l_end lk1 False))" "e_release (l_end lk2 False) = []"
      "e_free (l_end lk2 True) = e_free (l_end lk1 True) @ e_release (l_end lk1 False)"
      "e_release (l_end lk2 True) = e_release (l_end lk1 True)"
    using hand_back_ok [OF c(1) f b c(2)] by auto
  have "mset (e_free (l_end lk2 s)) = mset slots \<and> e_release (l_end lk2 s) = []" for s
    using own [of True] own [of False] 1 2 by (cases s) simp_all
  then show ?thesis using h1 h2 1(1) 2(1) quiet by (auto simp: reset_sendrecv_def)
qed

lemma reset_inv:
  assumes "link_inv lk" "l_chan lk True = []" "l_chan lk False = []" "reset_sendrecv lk = Inr lk'"
  shows "link_inv lk'"
proof -
  have "l_chan lk s = []" for s using assms(2,3) by (cases s) auto
  from reset_ok [OF assms(1) this] assms(4)
  have home: "l_chan lk' s = []" "e_release (l_end lk' s) = []" "mset (e_free (l_end lk' s)) = mset slots" for s by auto
  from arg_cong [OF home(3), of size] have "length (e_free (l_end lk' s)) = MAX_WRITE_NUM" for s
    by (simp add: slots_facts(2))
  then show ?thesis by (simp add: link_inv_def owned_def chan_ok_def reserve_at_def home config_defs)
qed

section \<open>Every reachable state\<close>

lemma reach_inv: "link_reach mem lk \<Longrightarrow> link_inv lk"
proof (induction rule: link_reach.induct)
  case init
  show ?case by (rule link_init_inv)
next
  case (step lk lk')
  from \<open>link_step lk lk'\<close> show ?case using send_inv [OF step.IH] recv_inv [OF step.IH] reset_inv [OF step.IH] by (cases rule: link_step.cases) auto
qed

end
