(* ===== verification/Rdma_Link.thy ===== *)
theory Rdma_Link
  imports Rdma_Invariant
begin

text \<open>
  What the flow control promises to its clients: a link is a pair of lossless queues, its flow control
  never runs out of slots for its own messages, waiting for a slot ends, and a reset returns every slot.
\<close>

section \<open>The link as a pair of lossless queues\<close>

text \<open>The abstract channel of one direction: what the peer has taken, and what is on its way.\<close>

type_synonym fifo = "bool \<Rightarrow> (nat \<times> byte list) list \<times> (nat \<times> byte list) list"

definition fifo_put :: "bool \<Rightarrow> nat \<times> byte list \<Rightarrow> fifo \<Rightarrow> fifo" where
  "fifo_put s m q = q(s := (fst (q s), snd (q s) @ [m]))"

definition fifo_get :: "bool \<Rightarrow> fifo \<Rightarrow> fifo" where
  "fifo_get s q = q(s := (fst (q s) @ take 1 (snd (q s)), drop 1 (snd (q s))))"

definition link_abs :: "rlink \<Rightarrow> fifo" where
  "link_abs lk = (\<lambda>s. (e_recv (l_end lk (\<not> s)),
     map (\<lambda>c. (ctl c, take (snd c) (e_mem (l_end lk (\<not> s)) (buf c)))) (filter (\<lambda>c. \<not> is_rel c) (l_chan lk s))))"

lemma posted_abs:
  assumes "b \<notin> buf ` set (l_chan lk t)" "unat b < 2 ^ 16" "e_mem e = e_mem (l_end lk t)" "e_recv e = e_recv (l_end lk t)"
  shows "link_abs (posted t b control bytes e lk) =
    (if control = RELEASE then link_abs lk else fifo_put t (control_code control, bytes) (link_abs lk))"
proof -
  let ?view = "\<lambda>mem. map (\<lambda>c. (ctl c, take (snd c) (mem (buf c)))) (filter (\<lambda>c. \<not> is_rel c) (l_chan lk t))"
  have old: "?view (mem(b := x)) = ?view mem" for mem :: "u32 \<Rightarrow> byte list" and x
    using assms(1) by (intro map_cong refl arg_cong2 [where f = Pair] arg_cong [where f = "take _"]) force
  have rel: "is_rel (imm_data control b, n) \<longleftrightarrow> control = RELEASE" for n
    using control_code_eq(1) [of control] by (simp add: is_rel_def imm_fields [OF assms(2)])
  let ?lk = "posted t b control bytes e lk"
  let ?x = "bytes @ drop (length bytes) (e_mem (l_end lk (\<not> t)) b)"
  have parts: "e_mem (l_end ?lk (\<not> t)) = (e_mem (l_end lk (\<not> t)))(b := ?x)" "e_recv (l_end ?lk u) = e_recv (l_end lk u)"
    "e_mem (l_end ?lk t) = e_mem (l_end lk t)" "l_chan ?lk (\<not> t) = l_chan lk (\<not> t)"
    "l_chan ?lk t = l_chan lk t @ [(imm_data control b, length bytes)]" for u
    by (simp_all add: posted_def assms(3,4))
  have "link_abs ?lk (\<not> t) = link_abs lk (\<not> t)" by (simp add: link_abs_def parts)
  moreover have "link_abs ?lk t =
      (if control = RELEASE then link_abs lk else fifo_put t (control_code control, bytes) (link_abs lk)) t"
    by (simp add: link_abs_def parts old fifo_put_def rel imm_fields [OF assms(2)] del: fun_upd_apply)
      (simp add: imm_fields [OF assms(2)])
  ultimately have "link_abs ?lk s =
      (if control = RELEASE then link_abs lk else fifo_put t (control_code control, bytes) (link_abs lk)) s" for s
    by (cases "s = t") (auto simp: fifo_put_def)
  then show ?thesis by (rule ext)
qed

lemma took_abs:
  assumes "l_chan lk (\<not> t) = c # cs"
  shows "link_abs (took t c cs lk) = (if is_rel c then link_abs lk else fifo_get (\<not> t) (link_abs lk))"
  using assms by (auto simp: link_abs_def took_def fifo_get_def taken_def fun_eq_iff)

lemma recv_abs:
  assumes inv: "link_inv lk" and chan: "l_chan lk (\<not> t) = c # cs" and r: "recv_msg t lk = Inr lk'"
  shows "link_abs lk' = (if is_rel c then link_abs lk else fifo_get (\<not> t) (link_abs lk))"
  using inv chan
proof (cases rule: recv_outcome)
  case took
  with r took_abs [OF chan] show ?thesis by simp
next
  case (flushed b bs)
  let ?m = "took t c cs lk"
  have "owned t ?m = mset slots" using took_pre [OF inv chan] by (simp add: link_pre_def)
  note slot = owned_slot [OF this flushed(3)]
  have "link_abs (flushed t b bs ?m) = link_abs ?m"
    by (simp add: flushed_def posted_abs [OF slot(2,1)])
  with flushed(1) r took_abs [OF chan] show ?thesis by simp
qed

lemma send_abs:
  assumes inv: "link_inv lk" and send: "app_msg control bytes" "send_msg t control bytes lk = Inr lk'"
  shows "link_abs lk' = fifo_put t (control_code control, bytes) (link_abs lk)"
proof -
  from send_result [OF send(2)] obtain b bs where f: "e_free (l_end lk t) = b # bs"
    and lk': "lk' = posted t b control bytes ((l_end lk t)\<lparr>e_free := bs\<rparr>) lk" by blast
  have "owned t lk = mset slots" using inv by (simp add: link_inv_def)
  note slot = owned_slot [OF this f]
  show ?thesis unfolding lk' using send(1) by (simp add: posted_abs [OF slot(2,1)] app_msg_def)
qed

section \<open>Draining a link\<close>

definition link_work :: "rlink \<Rightarrow> nat" where
  "link_work lk = (\<Sum>s\<leftarrow>[False, True]. 2 * length (l_chan lk s) + length (e_release (l_end lk s)))"

lemma recv_work:
  assumes inv: "link_inv lk" and chan: "l_chan lk (\<not> t) \<noteq> []"
  obtains lk' where "recv_msg t lk = Inr lk'" "link_inv lk'" "link_work lk' < link_work lk"
    "\<And>s. fst (link_abs lk' s) @ snd (link_abs lk' s) = fst (link_abs lk s) @ snd (link_abs lk s)"
proof -
  obtain c cs where c: "l_chan lk (\<not> t) = c # cs" using chan by (cases "l_chan lk (\<not> t)") auto
  have q: "fst (fifo_get u q v) @ snd (fifo_get u q v) = fst (q v) @ snd (q v)" for u v q
    by (cases "snd (q v)") (auto simp: fifo_get_def)
  from inv c show thesis
  proof (cases rule: recv_outcome)
    case took
    have "link_work (took t c cs lk) < link_work lk"
      using c by (cases t) (auto simp: link_work_def took_def)
    then show thesis using that [OF took(1) recv_inv [OF inv chan took(1)]] recv_abs [OF inv c took(1)] q by auto
  next
    case (flushed b bs)
    have "link_work (flushed t b bs (took t c cs lk)) < link_work lk"
      using c flushed(2) by (cases t) (auto simp: link_work_def took_def flushed_def posted_def config_defs)
    then show thesis using that [OF flushed(1) recv_inv [OF inv chan flushed(1)]] recv_abs [OF inv c flushed(1)] q by auto
  qed
qed

lemma drain_ok:
  assumes "link_inv lk" "link_work lk \<le> n"
  shows "\<exists>lk'. drain n lk = Inr lk' \<and> link_inv lk' \<and> (\<forall>s. l_chan lk' s = [] \<and>
     fst (link_abs lk' s) @ snd (link_abs lk' s) = fst (link_abs lk s) @ snd (link_abs lk s))"
  using assms
proof (induction n arbitrary: lk)
  case 0
  then have "l_chan lk s = []" for s by (cases s) (simp_all add: link_work_def)
  with 0 show ?case by simp
next
  case (Suc n)
  have *: ?case if t: "l_chan lk (\<not> t) \<noteq> []" and d: "\<And>lk'. recv_msg t lk = Inr lk' \<Longrightarrow> drain (Suc n) lk = drain n lk'" for t
  proof -
    obtain lk' where r: "recv_msg t lk = Inr lk'" "link_inv lk'" "link_work lk' < link_work lk"
      "\<And>s. fst (link_abs lk' s) @ snd (link_abs lk' s) = fst (link_abs lk s) @ snd (link_abs lk s)"
      using recv_work [OF Suc.prems(1) t] by blast
    have "link_work lk' \<le> n" using r(3) Suc.prems(2) by simp
    from Suc.IH [OF r(2) this] show ?thesis by (simp only: d [OF r(1)] r(4))
  qed
  show ?case
  proof (cases "l_chan lk False = []")
    case False
    with * [of True] show ?thesis by simp
  next
    case f: True
    show ?thesis
    proof (cases "l_chan lk True = []")
      case False
      with f * [of False] show ?thesis by simp
    next
      case True
      with f have "l_chan lk s = []" for s by (cases s) auto
      with f True Suc.prems show ?thesis by simp
    qed
  qed
qed

section \<open>Properties of the link\<close>

text \<open>Property C28. In every state two machines can reach, over any number of resets of a quiet link, each of
  the \<^const>\<open>MAX_WRITE_NUM\<close> slots of either end is in exactly one place: free, carrying a message that is on its
  way, on the release list of the peer, or named in a release message that is on its way back.  The exception is
  a reset in progress: the \<^const>\<open>CLEAR\<close> message that hands a release list over takes its slot without removing
  it from the free list, so that this one slot is both free and in flight.  Once the peers of a quiet link have
  taken these messages, both release lists are empty and both ends own all their slots again.\<close>

theorem slots_conserved:
  assumes "link_reach mem lk"
  shows "owned s lk = mset slots \<and>
    (e_release (l_end lk s) \<noteq> [] \<longrightarrow> (\<exists>b lk'. clear_link s lk = Inr lk' \<and> owned s lk' = add_mset b (mset slots) \<and>
       b \<in> set (e_free (l_end lk' s)) \<and> b \<in> buf ` set (l_chan lk' s))) \<and>
    ((\<forall>t. l_chan lk t = []) \<longrightarrow> (\<exists>lk'. reset_sendrecv lk = Inr lk' \<and> link_reach mem lk' \<and>
       (\<forall>t. l_chan lk' t = [] \<and> e_release (l_end lk' t) = [] \<and> mset (e_free (l_end lk' t)) = mset slots)))"
proof (intro conjI impI)
  note inv = reach_inv [OF assms]
  show "owned s lk = mset slots" using inv by (simp add: link_inv_def)
  show "\<exists>b lk'. clear_link s lk = Inr lk' \<and> owned s lk' = add_mset b (mset slots) \<and>
      b \<in> set (e_free (l_end lk' s)) \<and> b \<in> buf ` set (l_chan lk' s)" if "e_release (l_end lk s) \<noteq> []"
    using clear_twice [OF inv that] by blast
  assume quiet: "\<forall>t. l_chan lk t = []"
  obtain lk' where r: "reset_sendrecv lk = Inr lk'" "\<forall>t. l_chan lk' t = [] \<and> e_release (l_end lk' t) = [] \<and>
      mset (e_free (l_end lk' t)) = mset slots"
    using reset_ok [OF inv] quiet by blast
  have "link_reach mem lk'" by (rule link_reach.step [OF assms link_step.reset]) (use quiet r(1) in simp_all)
  with r show "\<exists>lk'. reset_sendrecv lk = Inr lk' \<and> link_reach mem lk' \<and>
      (\<forall>t. l_chan lk' t = [] \<and> e_release (l_end lk' t) = [] \<and> mset (e_free (l_end lk' t)) = mset slots)" by blast
qed

text \<open>Property C5. The link refines a pair of lossless first-in-first-out queues: a send appends its
  message to the queue of its direction and changes nothing else, whatever was in the slot it reuses;
  processing a completion moves the oldest message of the other direction to the receiver, or changes
  neither queue when the completion carries released identifiers.\<close>

theorem link_refines_fifo:
  assumes "link_reach mem lk"
  shows "(\<forall>s control bytes lk'. app_msg control bytes \<longrightarrow>
       send_msg s control bytes lk = Inr lk' \<longrightarrow> link_abs lk' = fifo_put s (control_code control, bytes) (link_abs lk)) \<and>
     (\<forall>s c cs lk'. l_chan lk (\<not> s) = c # cs \<longrightarrow> recv_msg s lk = Inr lk' \<longrightarrow>
       link_abs lk' = (if is_rel c then link_abs lk else fifo_get (\<not> s) (link_abs lk)))"
  using send_abs [OF reach_inv [OF assms]] recv_abs [OF reach_inv [OF assms]] by blast

text \<open>Property C10. The reserve of \<^const>\<open>RELEASE_BLOCK\<close> slots that ordinary sends leave untouched is
  enough: in every reachable state the next completion can be processed, so the program never exits
  because no slot is left for a release message, never reads past a slot and never meets a barrier
  message of the wrong size.\<close>

theorem release_always_possible:
  assumes "link_reach mem lk"
  shows "\<exists>lk'. recv_msg s lk = Inr lk'"
proof (cases "l_chan lk (\<not> s)")
  case Nil
  then show ?thesis by (simp add: recv_msg_def)
next
  case (Cons c cs)
  then show ?thesis using recv_work [OF reach_inv [OF assms], of s] by auto
qed

text \<open>Property C38. The waiting loop of \<^verbatim>\<open>get_write_send_buf\<close> ends: from every reachable state finitely
  many polls (as many as \<^const>\<open>link_work\<close>) empty both directions without losing or reordering a
  message, and then either end can send every message that fits a slot.\<close>

theorem drained_link_can_send:
  assumes "link_reach mem lk" "link_work lk \<le> n"
  shows "\<exists>lk'. drain n lk = Inr lk' \<and> (\<forall>s. link_abs lk' s = (fst (link_abs lk s) @ snd (link_abs lk s), [])) \<and>
     (\<forall>s control bytes. length bytes \<le> MAX_QUERYBUFFER_SIZE \<longrightarrow> (\<exists>lk''. send_msg s control bytes lk' = Inr lk''))"
proof -
  obtain lk' where d: "drain n lk = Inr lk'" "link_inv lk'" "\<And>s. l_chan lk' s = []"
    "\<And>s. fst (link_abs lk' s) @ snd (link_abs lk' s) = fst (link_abs lk s) @ snd (link_abs lk s)"
    using drain_ok [OF reach_inv [OF assms(1)] assms(2)] by blast
  have "snd (link_abs lk' s) = []" for s by (simp add: link_abs_def d(3))
  then have "link_abs lk' s = (fst (link_abs lk s) @ snd (link_abs lk s), [])" for s
    using d(4) [of s] by (metis append_Nil2 prod.collapse)
  then show ?thesis using d(1) send_possible [OF quiet_free [OF d(2,3)]] by blast
qed

section \<open>Witnesses\<close>

text \<open>A link on which one message has been sent.\<close>

definition ex_mem :: "u32 \<Rightarrow> byte list" where "ex_mem = (\<lambda>_. [])"

lemma ex_send: "\<exists>lk. send_msg True TASK [7, 9] (link_init ex_mem) = Inr lk \<and> link_reach ex_mem lk \<and>
  link_abs lk True = ([], [(9, [7, 9])]) \<and> length (l_chan lk True) = 1"
proof -
  let ?lk = "link_init ex_mem"
  have init: "link_reach ex_mem ?lk" by (rule link_reach.init)
  have s: "RELEASE_BLOCK < length (e_free (l_end ?lk True))" "app_msg TASK [7, 9]"
    by (simp_all add: link_init_def com_write_init_def slots_facts(2) config_defs app_msg_def)
  have bytes: "length [7, 9 :: byte] \<le> MAX_QUERYBUFFER_SIZE" by (simp add: config_defs)
  obtain lk where lk: "send_msg True TASK [7, 9] ?lk = Inr lk" using send_possible [OF s(1) bytes] by blast
  moreover have "length (l_chan lk True) = 1" by (rule send_result [OF lk]) (simp add: posted_def link_init_def)
  ultimately obtain lk where lk: "send_msg True TASK [7, 9] ?lk = Inr lk" "length (l_chan lk True) = 1" by blast
  have "link_reach ex_mem lk" by (rule link_reach.step [OF init link_step.send [OF s(2) lk(1)]])
  moreover have "link_abs lk True = ([], [(9, [7, 9])])"
    using send_abs [OF reach_inv [OF init] s(2) lk(1)] by (simp add: fifo_put_def link_abs_def link_init_def com_write_init_def)
  ultimately show ?thesis using lk by blast
qed

theorem slots_conserved_witness:
  "\<exists>lk lk'. send_msg True TASK [7, 9] (link_init ex_mem) = Inr lk \<and> owned True lk = mset slots \<and>
     reset_sendrecv (link_init ex_mem) = Inr lk' \<and> mset (e_free (l_end lk' True)) = mset slots"
proof -
  obtain lk where lk: "send_msg True TASK [7, 9] (link_init ex_mem) = Inr lk" "link_reach ex_mem lk" using ex_send by blast
  have "\<forall>t. l_chan (link_init ex_mem) t = []" by (simp add: link_init_def)
  then obtain lk' where "reset_sendrecv (link_init ex_mem) = Inr lk'" "mset (e_free (l_end lk' True)) = mset slots"
    using slots_conserved [OF link_reach.init [of ex_mem], of True] by blast
  with lk slots_conserved [OF lk(2), of True] show ?thesis by blast
qed

theorem link_refines_fifo_witness:
  "\<exists>lk lk'. send_msg True TASK [7, 9] (link_init ex_mem) = Inr lk \<and> recv_msg False lk = Inr lk' \<and>
     link_abs lk' True = ([(9, [7, 9])], [])"
proof -
  obtain lk where lk: "send_msg True TASK [7, 9] (link_init ex_mem) = Inr lk" "link_reach ex_mem lk"
    "link_abs lk True = ([], [(9, [7, 9])])" "length (l_chan lk True) = 1" using ex_send by blast
  then have "filter (\<lambda>c. \<not> is_rel c) (l_chan lk True) \<noteq> []" by (auto simp: link_abs_def)
  then obtain c where c: "l_chan lk (\<not> False) = [c]" "\<not> is_rel c"
    using lk(4) by (cases "l_chan lk True") (auto split: if_splits)
  obtain lk' where r: "recv_msg False lk = Inr lk'" using recv_work [OF reach_inv [OF lk(2)], of False] c(1) by auto
  have "link_abs lk' = fifo_get True (link_abs lk)" using link_refines_fifo [OF lk(2)] c r by fastforce
  then have "link_abs lk' True = ([(9, [7, 9])], [])" by (simp add: fifo_get_def lk(3))
  with lk(1) r show ?thesis by blast
qed

theorem release_always_possible_witness:
  "\<exists>lk. send_msg True TASK [7, 9] (link_init ex_mem) = Inr lk \<and> (\<exists>lk'. recv_msg False lk = Inr lk')"
  using ex_send release_always_possible [of ex_mem _ False] by blast

theorem drained_link_can_send_witness:
  "\<exists>lk n lk'. send_msg True TASK [7, 9] (link_init ex_mem) = Inr lk \<and> drain n lk = Inr lk' \<and>
     link_abs lk' True = ([(9, [7, 9])], []) \<and> (\<exists>lk''. send_msg False RESULT [1] lk' = Inr lk'')"
proof -
  obtain lk where lk: "send_msg True TASK [7, 9] (link_init ex_mem) = Inr lk" "link_reach ex_mem lk"
    "link_abs lk True = ([], [(9, [7, 9])])" using ex_send by blast
  obtain lk' where "drain (link_work lk) lk = Inr lk'"
    "link_abs lk' True = (fst (link_abs lk True) @ snd (link_abs lk True), [])"
    "\<exists>lk''. send_msg False RESULT [1] lk' = Inr lk''"
    using drained_link_can_send [OF lk(2) order_refl] by (force simp: config_defs)
  moreover from this(2) have "link_abs lk' True = ([(9, [7, 9])], [])" by (simp only: lk(3) fst_conv snd_conv append_Nil)
  ultimately show ?thesis using lk(1) by blast
qed

end
