(* ===== verification/Sub_Query.thy ===== *)
theory Sub_Query
  imports Beam_Search Scala_Graph
begin

text \<open>
  The first half of the search coroutine \<^verbatim>\<open>coro_sub_query_v5\<close> (\<^verbatim>\<open>include/anns/scala_search.h\<close>): the
  search in the cached top index and the dispatch of the sub-queries to the core machines.  The top
  index enters as its link arrays and labels (\<^verbatim>\<open>HNSWTopIndex\<close>), the distance of its vectors to the
  query as the argument \<open>dist\<close>.  The comparison \<^verbatim>\<open>(float)filter_num[m] / su_cnt > 1.0 / MACHINE_NUM\<close> is
  modelled with its rounding: both counts are converted to the nearest \<^verbatim>\<open>float\<close> and so is their quotient.
\<close>

section \<open>The search in the top index\<close>

record TopIndex =
  ti_links :: "u32 list list"
  ti_labels :: "u64 list"

definition get_global_id :: "TopIndex \<Rightarrow> u32 \<Rightarrow> u32 option" where
  "get_global_id ti vid = (if unat vid < length (ti_labels ti) then Some (ucast (ti_labels ti ! unat vid)) else None)"

text \<open>The loop \<^verbatim>\<open>for (d = 0; d < ngh_arr[0]; d++)\<close> reads \<^verbatim>\<open>ngh_arr[d]\<close>: the first element it
  visits is the degree itself, and the last neighbour is not visited.\<close>

definition get_ngh_arr :: "TopIndex \<Rightarrow> u32 \<Rightarrow> u32 list" where
  "get_ngh_arr ti vid = (if unat vid < length (ti_links ti) then ti_links ti ! unat vid else [0])"

definition pre_nghs :: "TopIndex \<Rightarrow> u32 \<Rightarrow> u32 list" where
  "pre_nghs ti vid = (let ngh_arr = get_ngh_arr ti vid in map (\<lambda>d. ngh_arr ! d) [0 ..< unat (ngh_arr ! 0)])"

definition pre_visit :: "nat \<Rightarrow> TopIndex \<Rightarrow> u32 \<Rightarrow> OptHashPosVector \<Rightarrow> (bool \<times> OptHashPosVector) option" where
  "pre_visit vf ti vid h = (case get_global_id ti vid of None \<Rightarrow> None | Some gt_id \<Rightarrow> CheckAndSet vf gt_id h)"

definition pre_stage ::
  "nat \<Rightarrow> TopIndex \<Rightarrow> (u32 \<Rightarrow> dist_t) \<Rightarrow> nat \<Rightarrow> nat \<Rightarrow> OptHashPosVector \<Rightarrow>
     search_stop + (u32, OptHashPosVector) search_state" where
  "pre_stage vf ti dist fuel ef h = beam_search (pre_visit vf ti) h (pre_nghs ti) dist fuel ef 0"

section \<open>The dispatch\<close>

text \<open>\<^verbatim>\<open>filterred\<close>, \<^verbatim>\<open>filter_num\<close> and \<^verbatim>\<open>top_candidates\<close> while \<^verbatim>\<open>pre_top_cand\<close> is emptied.\<close>

definition file_cand :: "TopIndex \<Rightarrow> ScalaGraphIndex \<Rightarrow> dist_t \<times> u32 \<Rightarrow> QueryMsg \<Rightarrow> crash + QueryMsg" where
  "file_cand ti g c q =
     (case get_global_id ti (snd c) of
        None \<Rightarrow> Inl OutOfBounds
      | Some gt_id \<Rightarrow>
          (case get_machine_id g gt_id of
             None \<Rightarrow> Inl OutOfBounds
           | Some mid \<Rightarrow>
               if mid < length (q_filterred q) \<and> mid < length (q_filter_num q) then
                 Inr (q\<lparr>q_filterred := (q_filterred q)[mid := q_filterred q ! mid @ [(- fst c, gt_id)]],
                        q_filter_num := (q_filter_num q)[mid := q_filter_num q ! mid + 1],
                        q_top_candidates := pq_push fst (fst c, gt_id) (q_top_candidates q)\<rparr>)
               else Inl OutOfBounds))"

primrec file_cands :: "TopIndex \<Rightarrow> ScalaGraphIndex \<Rightarrow> (dist_t \<times> u32) list \<Rightarrow> QueryMsg \<Rightarrow> crash + QueryMsg" where
  "file_cands ti g [] q = Inr q"
| "file_cands ti g (c # cs) q =
     (case file_cand ti g c q of Inl e \<Rightarrow> Inl e | Inr q' \<Rightarrow> file_cands ti g cs q')"

text \<open>The machine with the most candidates; the variable is not initialised (\<open>junk\<close>).\<close>

primrec max_machine :: "u32 list \<Rightarrow> nat list \<Rightarrow> u32 \<times> nat \<Rightarrow> u32 \<times> nat" where
  "max_machine filter_num [] mx = mx"
| "max_machine filter_num (m # ms) mx =
     max_machine filter_num ms (if filter_num ! m > fst mx then (filter_num ! m, m) else mx)"

text \<open>The \<^verbatim>\<open>float\<close> arithmetic of the core machine ratio (binary32, round to nearest, ties to even).
  \<open>rnd_div a b\<close> is the integer nearest to \<open>a / b\<close>; \<open>float32 n\<close> is \<^verbatim>\<open>(float)n\<close>: a number of more than 24 bits
  loses the bits in excess.  The quotient is compared with \<^verbatim>\<open>1.0 / 16\<close>, which is exact.  The floats between \<open>1/16\<close> and
  \<open>1/8\<close> are the multiples of \<open>2 ^ -27\<close>; quotients below round to at most \<open>1/16\<close> and those above stay above,
  so the rounded quotient is greater than \<open>1/16\<close> when the quotient rounded in units of \<open>2 ^ -27\<close> is greater than
  \<open>2 ^ 23\<close>.  A division by zero gives infinity, or a NaN for \<^verbatim>\<open>0 / 0\<close>.\<close>

definition rnd_div :: "int \<Rightarrow> int \<Rightarrow> int" where
  "rnd_div a b = (let q = a div b; r = a mod b in if 2 * r > b \<or> 2 * r = b \<and> odd q then q + 1 else q)"

fun excess_bits :: "int \<Rightarrow> nat" where
  "excess_bits n = (if n < 2 ^ 24 then 0 else Suc (excess_bits (n div 2)))"

declare excess_bits.simps [simp del]

definition float32 :: "int \<Rightarrow> int" where
  "float32 n = rnd_div n (2 ^ excess_bits n) * 2 ^ excess_bits n"

definition is_core :: "u32 list \<Rightarrow> u32 \<Rightarrow> nat \<Rightarrow> bool" where
  "is_core filter_num su_cnt m \<longleftrightarrow>
     (if su_cnt = 0 then filter_num ! m \<noteq> 0
      else rnd_div (float32 (uint (filter_num ! m)) * 2 ^ 27) (float32 (uint su_cnt)) > 2 ^ 23)"

text \<open>The loop over the machines.  A machine that is not core gives its candidates to the leader;
  when the leader itself is not core the loop appends to the vector it iterates over, which is undefined
  unless that vector is empty.\<close>

primrec split_core :: "u32 \<Rightarrow> nat \<Rightarrow> nat list \<Rightarrow> QueryMsg \<Rightarrow> crash + QueryMsg" where
  "split_core su_cnt mx_mid [] q = Inr q"
| "split_core su_cnt mx_mid (m # ms) q =
     (if is_core (q_filter_num q) su_cnt m then
        split_core su_cnt mx_mid ms
          (q\<lparr>q_core_machine := q_core_machine q @ [word_of_nat m], q_is_core_machine := (q_is_core_machine q)[m := 1]\<rparr>)
      else if q_filterred q ! m = [] then split_core su_cnt mx_mid ms (q\<lparr>q_is_core_machine := (q_is_core_machine q)[m := 0]\<rparr>)
      else if m = mx_mid \<or> mx_mid \<ge> length (q_filterred q) then Inl OutOfBounds
      else split_core su_cnt mx_mid ms
          (q\<lparr>q_is_core_machine := (q_is_core_machine q)[m := 0],
             q_filterred := (q_filterred q)[mx_mid := q_filterred q ! mx_mid @ q_filterred q ! m]\<rparr>))"

definition select_core :: "nat \<Rightarrow> QueryMsg \<Rightarrow> crash + QueryMsg" where
  "select_core junk q =
     (let mx_mid = snd (max_machine (q_filter_num q) [0 ..< MACHINE_NUM] (0, junk))
      in split_core (sum_list (q_filter_num q)) mx_mid [0 ..< MACHINE_NUM] (q\<lparr>q_leader_machine := word_of_nat mx_mid\<rparr>))"

text \<open>\<^verbatim>\<open>fork_query\<close> for the other core machines, the local share into \<^verbatim>\<open>candidate_set\<close>; \<open>sent\<close> are the
  messages in the order of the posts.\<close>

primrec fork_core ::
  "u32 \<Rightarrow> u32 list \<Rightarrow> QueryMsg \<times> (u32 \<times> byte list) list \<Rightarrow> crash + QueryMsg \<times> (u32 \<times> byte list) list" where
  "fork_core local_id [] st = Inr st"
| "fork_core local_id (m # ms) st =
     (case st of (q, sent) \<Rightarrow>
       if m = local_id then
         fork_core local_id ms (q\<lparr>q_candidate_set := push_all fst (q_filterred q ! unat m) (q_candidate_set q)\<rparr>, sent)
       else
         (case fork (unat m) q of
            Inl e \<Rightarrow> Inl e
          | Inr (q', msg) \<Rightarrow> if length msg \<ge> MAX_QUERYBUFFER_SIZE then Inl Abort
                              else fork_core local_id ms (q', sent @ [(m, msg)])))"

definition dispatch_query ::
  "nat \<Rightarrow> u32 \<Rightarrow> TopIndex \<Rightarrow> ScalaGraphIndex \<Rightarrow> (dist_t \<times> u32) list \<Rightarrow> QueryMsg \<Rightarrow>
     crash + QueryMsg \<times> (u32 \<times> byte list) list" where
  "dispatch_query junk local_id ti g pre_top_cand q =
     (case file_cands ti g (pq_drain pre_top_cand) (q\<lparr>q_filter_num := replicate MACHINE_NUM 0\<rparr>) of
        Inl e \<Rightarrow> Inl e
      | Inr q \<Rightarrow>
          (case select_core junk q of
             Inl e \<Rightarrow> Inl e
           | Inr q \<Rightarrow>
               (case fork_core local_id (q_core_machine q) (q, []) of
                  Inl e \<Rightarrow> Inl e
                | Inr (q, sent) \<Rightarrow>
                    Inr (q\<lparr>q_visit_hash := clear (q_visit_hash q),
                           q_has_token := if local_id \<in> set (q_core_machine q) \<and> q_leader_machine q = local_id
                                          then 1 else q_has_token q\<rparr>, sent))))"

text \<open>The whole first activation of the coroutine for a new query.\<close>

definition start_query ::
  "nat \<Rightarrow> nat \<Rightarrow> u32 \<Rightarrow> TopIndex \<Rightarrow> ScalaGraphIndex \<Rightarrow> (u32 \<Rightarrow> dist_t) \<Rightarrow> nat \<Rightarrow> nat \<Rightarrow> QueryMsg \<Rightarrow>
     crash + QueryMsg \<times> (u32 \<times> byte list) list" where
  "start_query vf junk local_id ti g dist fuel ef q =
     (case pre_stage vf ti dist fuel ef (q_visit_hash q) of
        Inl _ \<Rightarrow> Inl Busy
      | Inr st \<Rightarrow>
          dispatch_query junk local_id ti g (s_top st)
            (q\<lparr>q_ef := word_of_nat ef, q_is_new := False, q_state := PRE_STAGE, q_lowerBound := s_lowerBound st,
               q_visit_hash := s_visited st\<rparr>))"

end
