(* ===== verification/Sub_Dispatch.thy ===== *)
theory Sub_Dispatch
  imports Sub_Query
begin

text \<open>
  Correctness of the first activation of a query: the candidates are filed under the machines that own
  them, the machines above the average are chosen as core machines, the rest of the candidates goes to
  the leader, and nothing is lost or duplicated on the way to the core machines.
\<close>

section \<open>The shares\<close>

definition gid :: "TopIndex \<Rightarrow> u32 \<Rightarrow> u32" where
  "gid ti v = the (get_global_id ti v)"

definition filed :: "nat \<Rightarrow> QueryMsg \<Rightarrow> bool" where
  "filed n q \<longleftrightarrow> length (q_filterred q) = MACHINE_NUM \<and> length (q_filter_num q) = MACHINE_NUM \<and>
     (\<forall>m<MACHINE_NUM. unat (q_filter_num q ! m) = length (q_filterred q ! m)) \<and>
     sum_list (map length (q_filterred q)) = n"

lemma concat_update:
  "m < length xss \<Longrightarrow> mset (concat (xss[m := xss ! m @ ys])) = mset (concat xss) + mset ys"
  by (induction xss arbitrary: m) (auto simp: nth_Cons split: nat.splits)

lemma file_cand_ok:
  assumes "file_cand ti g c q = Inr q'" "filed n q" "n + 1 < 2 ^ 32"
  shows "filed (n + 1) q'" "mset (concat (q_filterred q')) = add_mset (- fst c, gid ti (snd c)) (mset (concat (q_filterred q)))"
    "q_core_machine q' = q_core_machine q" "q_is_core_machine q' = q_is_core_machine q" "q_candidate_set q' = q_candidate_set q"
proof -
  from assms(1) obtain gt mid where gt: "get_global_id ti (snd c) = Some gt" "mid < length (q_filterred q)" "mid < length (q_filter_num q)"
    and q': "q' = q\<lparr>q_filterred := (q_filterred q)[mid := q_filterred q ! mid @ [(- fst c, gt)]],
                        q_filter_num := (q_filter_num q)[mid := q_filter_num q ! mid + 1],
                        q_top_candidates := pq_push fst (fst c, gt) (q_top_candidates q)\<rparr>"
    by (auto simp: file_cand_def split: option.splits if_splits)
  show m: "mset (concat (q_filterred q')) = add_mset (- fst c, gid ti (snd c)) (mset (concat (q_filterred q)))"
    using concat_update [OF gt(2)] by (simp add: q' gid_def gt(1))
  have "length (q_filterred q ! mid) \<le> n"
    using assms(2) gt(2) elem_le_sum_list [of mid "map length (q_filterred q)"] by (simp add: filed_def)
  then have "unat (q_filter_num q ! mid + 1) = length (q_filterred q ! mid) + 1"
    using assms(2,3) gt by (simp add: filed_def unat_word_ariths)
  then have "\<forall>m<MACHINE_NUM. unat (q_filter_num q' ! m) = length (q_filterred q' ! m)"
    using assms(2) gt by (auto simp: q' filed_def nth_list_update)
  moreover have "sum_list (map length (q_filterred q')) = n + 1"
    using arg_cong [OF m, of size] assms(2) by (simp add: filed_def length_concat)
  ultimately show "filed (n + 1) q'" using assms(2) by (simp add: filed_def q')
qed (use assms(1) in \<open>auto simp: file_cand_def split: option.splits if_splits\<close>)

lemma file_cands_ok:
  assumes "file_cands ti g cs q = Inr q'" "filed n q" "n + length cs < 2 ^ 32"
  shows "filed (n + length cs) q' \<and>
    mset (concat (q_filterred q')) = mset (concat (q_filterred q)) + image_mset (\<lambda>c. (- fst c, gid ti (snd c))) (mset cs) \<and>
    q_core_machine q' = q_core_machine q \<and> q_is_core_machine q' = q_is_core_machine q \<and> q_candidate_set q' = q_candidate_set q"
  using assms
proof (induction cs arbitrary: q n)
  case (Cons c cs)
  from Cons.prems(1) obtain q1 where q1: "file_cand ti g c q = Inr q1" "file_cands ti g cs q1 = Inr q'" by (auto split: sum.splits)
  note f = file_cand_ok [OF q1(1) Cons.prems(2)]
  have "n + 1 < 2 ^ 32" using Cons.prems(3) by simp
  with f Cons.IH [OF q1(2), of "n + 1"] Cons.prems(3) show ?case by simp
qed simp

lemma unat_sum_list: "sum_list (map unat ws) < 2 ^ 32 \<Longrightarrow> unat (sum_list ws :: u32) = sum_list (map unat ws)"
  by (induction ws) (simp_all add: unat_word_ariths)

lemma total_count:
  assumes "filed n q" "n < 2 ^ 32"
  shows "unat (sum_list (q_filter_num q)) = n"
proof -
  have "map unat (q_filter_num q) = map length (q_filterred q)"
    using assms(1) by (auto simp: filed_def intro!: nth_equalityI)
  with unat_sum_list [of "q_filter_num q"] assms show ?thesis by (simp add: filed_def)
qed

lemma max_machine_spec:
  assumes "max_machine fn ms (v, k) = (v', k')"
  shows "v \<le> v'" "\<forall>m\<in>set ms. fn ! m \<le> v'" "(v', k') = (v, k) \<or> k' \<in> set ms \<and> v' = fn ! k'"
  using assms by (induction ms arbitrary: v k) (force split: if_splits)+

text \<open>The leader has the most candidates.\<close>

definition leader :: "nat \<Rightarrow> QueryMsg \<Rightarrow> nat" where
  "leader junk q = snd (max_machine (q_filter_num q) [0 ..< MACHINE_NUM] (0, junk))"

lemma leader_max:
  assumes "filed n q" "0 < n"
  shows "leader junk q < MACHINE_NUM" "q_filterred q ! leader junk q \<noteq> []"
    "\<And>m. m < MACHINE_NUM \<Longrightarrow> length (q_filterred q ! m) \<le> length (q_filterred q ! leader junk q)"
proof -
  obtain v k where mm: "max_machine (q_filter_num q) [0 ..< MACHINE_NUM] (0, junk) = (v, k)" by fastforce
  note s = max_machine_spec [OF mm]
  have k: "leader junk q = k" by (simp add: leader_def mm)
  have f: "\<And>m. m < MACHINE_NUM \<Longrightarrow> unat (q_filter_num q ! m) = length (q_filterred q ! m)"
    and l: "length (q_filterred q) = MACHINE_NUM" "sum_list (map length (q_filterred q)) = n"
    using assms(1) by (auto simp: filed_def)
  have "\<exists>xs\<in>set (q_filterred q). xs \<noteq> []"
  proof (rule ccontr)
    assume "\<not> ?thesis"
    then have "map length (q_filterred q) = replicate (length (q_filterred q)) 0" by (intro nth_equalityI) auto
    then show False using l(2) assms(2) by (simp add: sum_list_replicate)
  qed
  then obtain m where m: "m < MACHINE_NUM" "q_filterred q ! m \<noteq> []" using l(1) by (metis in_set_conv_nth)
  then have "q_filter_num q ! m \<noteq> 0" using f [of m] by auto
  then have "v \<noteq> 0" using s(2) m(1) by (metis atLeast0LessThan lessThan_iff atLeastLessThan_upt word_le_0_iff)
  then have kk: "k < MACHINE_NUM" "v = q_filter_num q ! k" using s(3) by auto
  then show "leader junk q < MACHINE_NUM" by (simp add: k)
  show "length (q_filterred q ! m) \<le> length (q_filterred q ! leader junk q)" if "m < MACHINE_NUM" for m
  proof -
    have "q_filter_num q ! m \<le> q_filter_num q ! k" using s(2) that kk(2) by simp
    then show ?thesis using f [OF that] f [OF kk(1)] by (simp add: k word_le_nat_alt)
  qed
  from this [OF m(1)] m(2) show "q_filterred q ! leader junk q \<noteq> []" by auto
qed

lemma split_core_ok:
  assumes "is_core (q_filter_num q) su mx" "mx < length (q_filterred q)"
  shows "split_core su mx ms q =
    Inr (q\<lparr>q_core_machine := q_core_machine q @ map word_of_nat (filter (is_core (q_filter_num q) su) ms),
           q_is_core_machine := foldl (\<lambda>a m. a[m := if is_core (q_filter_num q) su m then 1 else 0]) (q_is_core_machine q) ms,
           q_filterred := (q_filterred q)[mx := q_filterred q ! mx @
             concat (map (\<lambda>m. q_filterred q ! m) (filter (\<lambda>m. \<not> is_core (q_filter_num q) su m) ms))]\<rparr>)"
  using assms
proof (induction ms arbitrary: q)
  case (Cons m ms)
  show ?case
  proof (cases "is_core (q_filter_num q) su m")
    case True
    then show ?thesis using Cons.prems by (simp add: Cons.IH)
  next
    case False
    then have ne: "m \<noteq> mx" using Cons.prems(1) by auto
    have other: "map (\<lambda>m. (q_filterred q)[mx := x] ! m) (filter (\<lambda>m. \<not> is_core (q_filter_num q) su m) ms) =
        map (\<lambda>m. q_filterred q ! m) (filter (\<lambda>m. \<not> is_core (q_filter_num q) su m) ms)" for x
      using Cons.prems(1) by (intro map_cong refl nth_list_update_neq) auto
    show ?thesis
      using False ne Cons.prems by (cases "q_filterred q ! m = []") (simp_all add: Cons.IH other)
  qed
qed simp

text \<open>When the leader is not core the loop reaches its vector, which is not empty.\<close>

lemma split_core_stuck:
  assumes "\<not> is_core (q_filter_num q) su mx" "mx \<in> set ms" "mx < length (q_filterred q)" "q_filterred q ! mx \<noteq> []"
  shows "split_core su mx ms q = Inl OutOfBounds"
  using assms by (induction ms arbitrary: q) auto

abbreviation core_of :: "QueryMsg \<Rightarrow> nat list" where
  "core_of q \<equiv> filter (is_core (q_filter_num q) (sum_list (q_filter_num q))) [0 ..< MACHINE_NUM]"

lemma select_core_ok:
  assumes f: "filed n q" "0 < n" and c: "is_core (q_filter_num q) (sum_list (q_filter_num q)) (leader junk q)"
  shows "select_core junk q =
    Inr (q\<lparr>q_leader_machine := word_of_nat (leader junk q), q_core_machine := q_core_machine q @ map word_of_nat (core_of q),
       q_is_core_machine := foldl (\<lambda>a m. a[m := if is_core (q_filter_num q) (sum_list (q_filter_num q)) m then 1 else 0]) (q_is_core_machine q) [0 ..< MACHINE_NUM],
       q_filterred := (q_filterred q)[leader junk q := q_filterred q ! leader junk q @
         concat (map (\<lambda>m. q_filterred q ! m) (filter (\<lambda>m. m \<notin> set (core_of q)) [0 ..< MACHINE_NUM]))]\<rparr>)"
proof -
  have "leader junk q < length (q_filterred q)" using leader_max(1) [OF f] f(1) by (simp add: filed_def)
  moreover have "filter (\<lambda>m. m \<notin> set (core_of q)) [0 ..< MACHINE_NUM] =
      filter (\<lambda>m. \<not> is_core (q_filter_num q) (sum_list (q_filter_num q)) m) [0 ..< MACHINE_NUM]"
    by (intro filter_cong refl) auto
  ultimately show ?thesis
    using c split_core_ok [where q = "q\<lparr>q_leader_machine := word_of_nat (leader junk q)\<rparr>" and su = "sum_list (q_filter_num q)" and mx = "leader junk q"]
    by (simp add: select_core_def leader_def [symmetric] Let_def)
qed

lemma select_core_stuck:
  assumes f: "filed n q" "0 < n" and c: "\<not> is_core (q_filter_num q) (sum_list (q_filter_num q)) (leader junk q)"
  shows "select_core junk q = Inl OutOfBounds"
  using leader_max [where junk = junk, OF f] f(1) c
  by (simp add: select_core_def leader_def [symmetric] Let_def) (rule split_core_stuck; simp add: filed_def)

section \<open>The ratio of a core machine\<close>

text \<open>Rounding an integer quotient is the comparison with the midpoint above it; the midpoint itself goes to
  an even integer.\<close>

lemma rnd_div_gt:
  assumes "even c" "0 < b"
  shows "c < rnd_div a b \<longleftrightarrow> (2 * c + 1) * b < 2 * a"
proof -
  define k r where kr: "k = a div b" "r = a mod b"
  have a: "a = k * b + r" "0 \<le> r" "r < b" using assms(2) by (simp_all add: kr)
  have rd: "rnd_div a b = (if 2 * r > b \<or> 2 * r = b \<and> odd k then k + 1 else k)" by (simp add: rnd_div_def kr Let_def)
  consider "k < c" | "k = c" | "c < k" by linarith
  then show ?thesis
  proof cases
    case 1
    then have "(k + 1) * b \<le> c * b" using assms(2) by (intro mult_right_mono) simp_all
    then have "\<not> (2 * c + 1) * b < 2 * a" using a by (simp add: algebra_simps)
    moreover have "\<not> c < rnd_div a b" using 1 by (simp add: rd)
    ultimately show ?thesis by blast
  next
    case 2
    then have "c < rnd_div a b \<longleftrightarrow> b < 2 * r" using assms(1) by (auto simp: rd)
    moreover have "(2 * c + 1) * b < 2 * a \<longleftrightarrow> b < 2 * r" using 2 by (simp add: a(1) algebra_simps)
    ultimately show ?thesis by simp
  next
    case 3
    then have "(c + 1) * b \<le> k * b" using assms(2) by (intro mult_right_mono) simp_all
    then have "(2 * c + 1) * b < 2 * a" using a assms(2) by (simp add: algebra_simps)
    with 3 show ?thesis by (simp add: rd)
  qed
qed

lemma float32_exact: "n < 2 ^ 24 \<Longrightarrow> float32 n = n"
  by (simp add: float32_def excess_bits.simps [of n] rnd_div_def)

text \<open>Counts below \<open>2 ^ 24\<close> are floats, and the quotient is on the same side of \<open>1/16\<close> as its rounding.\<close>

lemma is_core_exact:
  assumes su: "unat su < 2 ^ 24" and f: "unat (fn ! m) \<le> unat su"
  shows "is_core fn su m \<longleftrightarrow> unat su < unat (fn ! m) * MACHINE_NUM"
proof (cases "su = 0")
  case True
  with f have "fn ! m = 0" by (simp add: unat_eq_0)
  with True show ?thesis by (simp add: is_core_def)
next
  case False
  define s k where sk: "s = uint su" "k = uint (fn ! m)"
  have w: "int (unat su) = s" "int (unat (fn ! m)) = k" by (simp_all add: sk)
  have "int (unat su) < int (2 ^ 24)" "int (unat (fn ! m)) \<le> int (unat su)"
    using su f by (simp_all only: of_nat_less_iff of_nat_le_iff)
  moreover have "0 < int (unat su)" using False by (simp only: of_nat_0_less_iff unat_gt_0 not_False_eq_True)
  ultimately have b: "0 < s" "s < 2 ^ 24" "k < 2 ^ 24" unfolding w by simp_all
  have "is_core fn su m \<longleftrightarrow> 2 ^ 23 < rnd_div (k * 2 ^ 27) s"
    using False b by (simp only: is_core_def float32_exact sk if_False)
  also have "\<dots> \<longleftrightarrow> (2 * 2 ^ 23 + 1) * s < 2 * (k * 2 ^ 27)" using b by (intro rnd_div_gt) simp_all
  also have "\<dots> \<longleftrightarrow> s < k * 16" using b by (intro iffI; simp)
  also have "\<dots> \<longleftrightarrow> int (unat su) < int (unat (fn ! m) * MACHINE_NUM)" using w by (simp add: MACHINE_NUM_def)
  finally show ?thesis by linarith
qed

lemma sum_list_all_eq:
  assumes "\<And>x. x \<in> set xs \<Longrightarrow> x * length xs \<le> sum_list xs" "x \<in> set xs"
  shows "x * length xs = sum_list (xs :: nat list)"
proof (rule ccontr)
  assume "x * length xs \<noteq> sum_list xs"
  then have "x * length xs < sum_list xs" using assms by fastforce
  then have "(\<Sum>i<length xs. xs ! i * length xs) < (\<Sum>i<length xs. sum_list xs)"
    using assms by (intro sum_strict_mono_ex1) (auto simp: in_set_conv_nth)
  moreover have "(\<Sum>i<length xs. xs ! i) = sum_list xs" by (simp add: sum_list_sum_nth atLeast0LessThan)
  ultimately show False by (simp add: sum_distrib_left [symmetric] mult.commute)
qed

text \<open>With fewer than \<open>2 ^ 24\<close> candidates the leader, which has the most of them, is core unless all machines
  have the same number.\<close>

lemma leader_core_iff:
  assumes f: "filed n q" and n: "0 < n" "n < 2 ^ 24"
  shows "is_core (q_filter_num q) (sum_list (q_filter_num q)) (leader junk q) \<longleftrightarrow>
    (\<exists>m<MACHINE_NUM. length (q_filterred q ! m) * MACHINE_NUM \<noteq> n)"
proof -
  note l = leader_max [where junk = junk, OF f n(1)]
  let ?xs = "map length (q_filterred q)" and ?k = "length (q_filterred q ! leader junk q)"
  have len: "length ?xs = MACHINE_NUM" "sum_list ?xs = n" "unat (q_filter_num q ! leader junk q) = ?k"
    using f l(1) by (auto simp: filed_def)
  have "?k \<in> set ?xs" using l(1) len(1) by simp
  then have "?k \<le> n" using member_le_sum_list [of ?k ?xs] len(2) by simp
  then have core: "is_core (q_filter_num q) (sum_list (q_filter_num q)) (leader junk q) \<longleftrightarrow> n < ?k * MACHINE_NUM"
    using is_core_exact [of "sum_list (q_filter_num q)" "q_filter_num q" "leader junk q"] total_count [OF f] n(2) len(3) by simp
  have le: "x \<le> ?k" if "x \<in> set ?xs" for x using that l(3) len(1) by (auto simp: in_set_conv_nth)
  have "length (q_filterred q ! m) * MACHINE_NUM = n" if "?k * MACHINE_NUM \<le> n" and m: "m < MACHINE_NUM" for m
  proof -
    have "x * length ?xs \<le> sum_list ?xs" if "x \<in> set ?xs" for x
      using order.trans [OF mult_le_mono1 [OF le [OF that], of MACHINE_NUM] \<open>?k * MACHINE_NUM \<le> n\<close>] len(1,2) by simp
    from sum_list_all_eq [OF this, of "length (q_filterred q ! m)"] show ?thesis using m len(1,2) by simp
  qed
  with core l(1) show ?thesis by (metis le_less_linear less_irrefl)
qed

lemma shares_complete:
  assumes "distinct core" "set core \<subseteq> {0 ..< n}" "length xss = n" "l \<in> set core"
  shows "mset (concat (map (\<lambda>m. (xss[l := xss ! l @ concat (map (\<lambda>m. xss ! m) (filter (\<lambda>m. m \<notin> set core) [0 ..< n]))]) ! m) core)) =
    mset (concat xss)"
proof -
  let ?rest = "concat (map (\<lambda>m. xss ! m) (filter (\<lambda>m. m \<notin> set core) [0 ..< n]))"
  have sums: "mset (concat (map f ms)) = (\<Sum>m\<in>set ms. mset (f m))" if "distinct ms" for f :: "nat \<Rightarrow> 'a list" and ms
    using that by (induction ms) auto
  have "mset (concat (map (\<lambda>m. (xss[l := xss ! l @ ?rest]) ! m) core)) = (\<Sum>m\<in>set core. mset ((xss[l := xss ! l @ ?rest]) ! m))"
    by (rule sums [OF assms(1)])
  also have "\<dots> = (\<Sum>m\<in>set core. mset (xss ! m) + (if m = l then mset ?rest else {#}))"
    using assms(2-4) by (intro sum.cong refl) (auto simp: nth_list_update)
  also have "\<dots> = (\<Sum>m\<in>set core. mset (xss ! m)) + mset ?rest"
    using assms(4) by (simp add: sum.distrib)
  also have "mset ?rest = (\<Sum>m\<in>{0 ..< n} - set core. mset (xss ! m))"
    by (subst sums) (auto intro!: sum.cong)
  also have "(\<Sum>m\<in>set core. mset (xss ! m)) + (\<Sum>m\<in>{0 ..< n} - set core. mset (xss ! m)) = (\<Sum>m\<in>{0 ..< n}. mset (xss ! m))"
    using sum.subset_diff [OF assms(2), of "\<lambda>m. mset (xss ! m)"] by (simp add: ac_simps)
  also have "\<dots> = mset (concat xss)"
    using sums [of "[0 ..< n]" "\<lambda>m. xss ! m"] assms(3) by (metis atLeastLessThan_upt distinct_upt map_nth)
  finally show ?thesis .
qed

lemma fork_core_ok:
  assumes "fork_core l ms (q, sent) = Inr (q', sent')" "distinct ms"
  shows "q_filterred q' = q_filterred q \<and> q_core_machine q' = q_core_machine q \<and> q_is_core_machine q' = q_is_core_machine q \<and>
    q_leader_machine q' = q_leader_machine q \<and>
    mset (q_candidate_set q') = mset (q_candidate_set q) + (if l \<in> set ms then mset (q_filterred q ! unat l) else {#}) \<and>
    (\<exists>new. sent' = sent @ new \<and> map fst new = filter (\<lambda>m. m \<noteq> l) ms \<and>
      (\<forall>x\<in>set new. \<exists>p r. fork (unat (fst x)) p = Inr (r, snd x) \<and> q_filterred p = q_filterred q))"
  using assms
proof (induction ms arbitrary: q sent)
  case (Cons m ms)
  show ?case
  proof (cases "m = l")
    case True
    with Cons.prems Cons.IH [of "q\<lparr>q_candidate_set := push_all fst (q_filterred q ! unat m) (q_candidate_set q)\<rparr>" sent]
    show ?thesis by auto
  next
    case False
    with Cons.prems(1) obtain r msg where r: "fork (unat m) q = Inr (r, msg)" "fork_core l ms (r, sent @ [(m, msg)]) = Inr (q', sent')"
      by (auto split: sum.splits if_splits)
    have "r = q\<lparr>q_result := []\<rparr>" using r(1) by (auto simp: fork_def check_size_def Let_def split: sum.splits if_splits)
    then have same: "q_filterred r = q_filterred q" "q_core_machine r = q_core_machine q" "q_is_core_machine r = q_is_core_machine q"
      "q_leader_machine r = q_leader_machine q" "q_candidate_set r = q_candidate_set q" by simp_all
    have d: "distinct ms" using Cons.prems(2) by simp
    from Cons.IH [OF r(2) d] obtain new where new: "sent' = (sent @ [(m, msg)]) @ new" "map fst new = filter (\<lambda>m. m \<noteq> l) ms"
      "\<forall>x\<in>set new. \<exists>p r. fork (unat (fst x)) p = Inr (r, snd x) \<and> q_filterred p = q_filterred q" by (auto simp: same)
    have "\<exists>new. sent' = sent @ new \<and> map fst new = filter (\<lambda>m. m \<noteq> l) (m # ms) \<and>
      (\<forall>x\<in>set new. \<exists>p r. fork (unat (fst x)) p = Inr (r, snd x) \<and> q_filterred p = q_filterred q)"
      using new r(1) False by (intro exI [of _ "(m, msg) # new"]) auto
    with Cons.IH [OF r(2) d] False show ?thesis by (simp add: same)
  qed
qed auto

lemma flags_nth:
  assumes "m < length a"
  shows "foldl (\<lambda>a m. a[m := if P m then 1 else 0]) a ms ! m = (if m \<in> set ms then if P m then 1 else 0 else a ! m :: u32)"
  using assms by (induction ms arbitrary: a) (auto simp: nth_list_update)

definition fresh_query :: "QueryMsg \<Rightarrow> bool" where
  "fresh_query q \<longleftrightarrow> q_filterred q = replicate MACHINE_NUM [] \<and> q_core_machine q = [] \<and> q_candidate_set q = [] \<and>
     length (q_is_core_machine q) = MACHINE_NUM"

lemma fresh_filed: "fresh_query q \<Longrightarrow> filed 0 (q\<lparr>q_filter_num := replicate MACHINE_NUM 0\<rparr>)"
  by (auto simp: fresh_query_def filed_def sum_list_replicate)


lemma dispatch_steps:
  assumes "fresh_query q" "pre \<noteq> []" "length pre < 2 ^ 32" "dispatch_query junk l ti g pre q = Inr (q', sent)"
  obtains q1 q2 q3 where "filed (length pre) q1"
    "mset (concat (q_filterred q1)) = image_mset (\<lambda>c. (- fst c, gid ti (snd c))) (mset pre)"
    "q_core_machine q1 = []" "q_is_core_machine q1 = q_is_core_machine q" "q_candidate_set q1 = []"
    "select_core junk q1 = Inr q2" "fork_core l (q_core_machine q2) (q2, []) = Inr (q3, sent)"
    "q' = q3\<lparr>q_visit_hash := clear (q_visit_hash q3), q_has_token := if l \<in> set (q_core_machine q3) \<and> q_leader_machine q3 = l then 1 else q_has_token q3\<rparr>"
proof -
  from assms(4) obtain q1 q2 q3 where s: "file_cands ti g pre (q\<lparr>q_filter_num := replicate MACHINE_NUM 0\<rparr>) = Inr q1"
    "select_core junk q1 = Inr q2" "fork_core l (q_core_machine q2) (q2, []) = Inr (q3, sent)"
    "q' = q3\<lparr>q_visit_hash := clear (q_visit_hash q3), q_has_token := if l \<in> set (q_core_machine q3) \<and> q_leader_machine q3 = l then 1 else q_has_token q3\<rparr>"
    by (auto simp: dispatch_query_def split: sum.splits)
  with file_cands_ok [OF s(1) fresh_filed [OF assms(1)]] assms(1,3) show thesis
    by (intro that [of q1 q2 q3]) (simp_all add: fresh_query_def)
qed

lemma dispatch_ok:
  assumes fresh: "fresh_query q" and pre: "pre \<noteq> []" "length pre < 2 ^ 32" and run: "dispatch_query junk l ti g pre q = Inr (q', sent)"
  shows "q_leader_machine q' \<in> set (q_core_machine q') \<and> distinct (q_core_machine q') \<and>
    mset (concat (map (\<lambda>m. q_filterred q' ! unat m) (q_core_machine q'))) = image_mset (\<lambda>c. (- fst c, gid ti (snd c))) (mset pre) \<and>
    mset (q_candidate_set q') = (if l \<in> set (q_core_machine q') then mset (q_filterred q' ! unat l) else {#}) \<and>
    map fst sent = filter (\<lambda>m. m \<noteq> l) (q_core_machine q') \<and>
    (\<forall>x\<in>set sent. \<exists>p r. fork (unat (fst x)) p = Inr (r, snd x) \<and> q_filterred p = q_filterred q') \<and>
    (\<forall>m<MACHINE_NUM. q_is_core_machine q' ! m = (if word_of_nat m \<in> set (q_core_machine q') then 1 else 0))"
proof -
  obtain q1 q2 q3 where f: "filed (length pre) q1"
    and all: "mset (concat (q_filterred q1)) = image_mset (\<lambda>c. (- fst c, gid ti (snd c))) (mset pre)"
    and q1: "q_core_machine q1 = []" "q_is_core_machine q1 = q_is_core_machine q" "q_candidate_set q1 = []"
    and sel: "select_core junk q1 = Inr q2" and fk: "fork_core l (q_core_machine q2) (q2, []) = Inr (q3, sent)"
    and q': "q' = q3\<lparr>q_visit_hash := clear (q_visit_hash q3), q_has_token := if l \<in> set (q_core_machine q3) \<and> q_leader_machine q3 = l then 1 else q_has_token q3\<rparr>"
    by (rule dispatch_steps [OF assms])
  have n: "0 < length pre" using pre(1) by simp
  have lc: "is_core (q_filter_num q1) (sum_list (q_filter_num q1)) (leader junk q1)"
    using select_core_stuck [OF f n, of junk] sel by force
  let ?core = "core_of q1" and ?l = "leader junk q1"
  have core: "distinct ?core" "set ?core \<subseteq> {0 ..< MACHINE_NUM}" "?l \<in> set ?core"
    using lc leader_max(1) [OF f n, of junk] by auto
  note q2 = select_core_ok [OF f n lc, unfolded sel, simplified]
  have w: "unat (word_of_nat i :: u32) = i" if "i < MACHINE_NUM" for i using that by (simp add: config_defs)
  have inj: "inj_on (word_of_nat :: nat \<Rightarrow> u32) {0 ..< MACHINE_NUM}" by (rule inj_onI) (metis atLeastLessThan_iff w)
  have cm: "q_core_machine q2 = map word_of_nat ?core" by (simp add: q2 q1)
  have d: "distinct (q_core_machine q2)" using core inj by (simp add: cm distinct_map inj_on_subset)
  note fk = fork_core_ok [OF fk d]
  have shares: "map (\<lambda>m. q_filterred q2 ! unat m) (q_core_machine q2) = map (\<lambda>m. q_filterred q2 ! m) ?core"
    using core(2) w by (auto simp: cm)
  have "length (q_filterred q1) = MACHINE_NUM" using f by (simp add: filed_def)
  from shares_complete [OF core(1,2) this core(3)]
  have "mset (concat (map (\<lambda>m. q_filterred q2 ! unat m) (q_core_machine q2))) = image_mset (\<lambda>c. (- fst c, gid ti (snd c))) (mset pre)"
    unfolding shares all [symmetric] by (simp only: q2) simp
  moreover have "q_leader_machine q2 \<in> set (q_core_machine q2)"
    using core(3) by (simp only: cm set_map) (simp add: q2)
  moreover have "q_is_core_machine q2 ! i = (if word_of_nat i \<in> set (q_core_machine q2) then 1 else 0)" if i: "i < MACHINE_NUM" for i
  proof -
    have "(word_of_nat i :: u32) \<in> word_of_nat ` set ?core \<longleftrightarrow> i \<in> set ?core"
      using inj_on_image_mem_iff [OF inj _ core(2), of i] i by simp
    moreover have "i \<in> set ?core \<longleftrightarrow> is_core (q_filter_num q1) (sum_list (q_filter_num q1)) i" using i by auto
    moreover have "q_is_core_machine q2 ! i = (if is_core (q_filter_num q1) (sum_list (q_filter_num q1)) i then 1 else 0)"
      using i fresh by (simp add: q2 flags_nth q1 fresh_query_def)
    ultimately show ?thesis by (simp only: cm set_map)
  qed
  moreover have "q_candidate_set q2 = []" by (simp add: q2 q1)
  ultimately show ?thesis using fk d by (simp add: q')
qed

section \<open>The top index as a graph\<close>









section \<open>Properties\<close>

text \<open>The loop over a link array that stores the degree in front of the neighbours.\<close>

lemma pre_nghs_layout:
  assumes "unat v < length (ti_links ti)" "ti_links ti ! unat v = word_of_nat (length ns) # ns" "ns \<noteq> []" "length ns < 2 ^ 32"
  shows "pre_nghs ti v = word_of_nat (length ns) # butlast ns"
proof -
  obtain k where k: "length ns = Suc k" using assms(3) by (cases ns) auto
  have "map (\<lambda>d. (word_of_nat (length ns) # ns) ! d) [0 ..< Suc k] = word_of_nat (length ns) # map ((!) ns) [0 ..< k]"
    by (simp add: upt_conv_Cons map_Suc_upt [symmetric] comp_def del: upt_Suc)
  moreover have "map ((!) ns) [0 ..< k] = butlast ns" using k by (intro nth_equalityI) (auto simp: nth_butlast)
  moreover have "unat (word_of_nat (length ns) :: u32) = Suc k" using assms(4) by (simp only: k unsigned_of_nat take_bit_nat_eq_self word_size) (simp add: take_bit_nat_eq_self)
  ultimately show ?thesis using assms(1,2) by (simp only: pre_nghs_def get_ngh_arr_def Let_def if_True nth_Cons_0)
qed

text \<open>Property C8. Dispatching a query hands every candidate of the pre-stage to exactly one core
  machine, with the candidates of machines that are not core going to the leader: the shares of the
  core machines together are the candidates, negated for the queue and renamed to global identifiers.
  The leader is a core machine, the flags agree with the list, the local share is in the candidate set,
  and every other core machine is sent exactly one message, forked with its share.\<close>

theorem dispatch_query_complete:
  assumes "fresh_query q" and "pre \<noteq> []" and "length pre < 2 ^ 32"
    and "dispatch_query junk local_id ti g pre q = Inr (q', sent)"
  shows "q_leader_machine q' \<in> set (q_core_machine q') \<and> distinct (q_core_machine q') \<and>
    mset (concat (map (\<lambda>m. q_filterred q' ! unat m) (q_core_machine q'))) =
      image_mset (\<lambda>c. (- fst c, gid ti (snd c))) (mset pre) \<and>
    mset (q_candidate_set q') = (if local_id \<in> set (q_core_machine q') then mset (q_filterred q' ! unat local_id) else {#}) \<and>
    map fst sent = filter (\<lambda>m. m \<noteq> local_id) (q_core_machine q') \<and>
    (\<forall>x\<in>set sent. \<exists>p r. fork (unat (fst x)) p = Inr (r, snd x) \<and> q_filterred p = q_filterred q') \<and>
    (\<forall>m<MACHINE_NUM. q_is_core_machine q' ! m = (if word_of_nat m \<in> set (q_core_machine q') then 1 else 0))"
  by (rule dispatch_ok [OF assms])

text \<open>Property C33. With fewer than \<open>2 ^ 24\<close> candidates, in spite of the rounding of the ratio, the selection
  of core machines breaks down exactly when the candidates are spread evenly over all machines: no machine is
  above the average then, no core machine is chosen, and the loop appends the candidates of the leader to the
  vector it is iterating over.\<close>

theorem balanced_dispatch_undefined:
  assumes "fresh_query q" and "pre \<noteq> []" and "length pre < 2 ^ 24"
    and "file_cands ti g pre (q\<lparr>q_filter_num := replicate MACHINE_NUM 0\<rparr>) = Inr q1"
  shows "select_core junk q1 = Inl OutOfBounds \<longleftrightarrow>
    (\<forall>m<MACHINE_NUM. length (q_filterred q1 ! m) * MACHINE_NUM = length pre)"
proof -
  have f: "filed (length pre) q1" "0 < length pre"
    using file_cands_ok [OF assms(4) fresh_filed [OF assms(1)]] assms(2,3) by auto
  show ?thesis
    using select_core_stuck [OF f, of junk] select_core_ok [OF f, of junk] leader_core_iff [OF f assms(3), of junk]
    by (cases "is_core (q_filter_num q1) (sum_list (q_filter_num q1)) (leader junk q1)") auto
qed

text \<open>The bound is sharp up to the rounding of the sum: with \<open>2 ^ 20 + 1\<close> candidates on fifteen machines and
  \<open>2 ^ 20\<close> on one, the ratios are rounded to \<open>1/16\<close> and no machine is core although the spread is uneven.\<close>

lemma uneven_without_core:
  "let fn = replicate 15 (2 ^ 20 + 1) @ [2 ^ 20] in
     uint (sum_list fn) = 2 ^ 24 + 15 \<and> list_all (\<lambda>m. \<not> is_core fn (sum_list fn) m) [0 ..< 16]"
  by code_simp


section \<open>Witnesses\<close>

definition ex_top :: TopIndex where
  "ex_top = \<lparr>ti_links = map (\<lambda>i. [1, word_of_nat (i + 1)]) [0 ..< 16], ti_labels = map word_of_nat [0 ..< 16]\<rparr>"

definition ex_parts :: ScalaGraphIndex where
  "ex_parts = \<lparr>gi_deg_ngh = [], gi_vector = [], gi_partition_num = 16, gi_partition_id = 0,
     gi_partition_vec_num = replicate 16 1, gi_cumu_partition_num = map word_of_nat [0 ..< 17],
     gi_local_part_vec_num = 1, gi_partition_ofs = 0, gi_local_ngh_ele_size = 0, gi_vec_size = 0\<rparr>"

definition ex_new_query :: QueryMsg where
  "ex_new_query = query_example\<lparr>q_filterred := replicate 16 [], q_core_machine := [], q_candidate_set := []\<rparr>"

lemma ex_fresh: "fresh_query ex_new_query"
  by (simp add: fresh_query_def ex_new_query_def query_example_def config_defs)

definition ex_pre :: "(dist_t \<times> u32) list" where
  "ex_pre = [(Dist 8, 3), (Dist 5, 3)]"

lemma ex_dispatch:
  "(case dispatch_query 0 3 ex_top ex_parts ex_pre ex_new_query of
      Inr (q, sent) \<Rightarrow> q_core_machine q = [3] \<and> sent = [] \<and> q_has_token q = 1 | Inl _ \<Rightarrow> False)"
  by code_simp

theorem dispatch_query_complete_witness:
  "\<exists>q' sent. dispatch_query 0 3 ex_top ex_parts ex_pre ex_new_query = Inr (q', sent) \<and>
     q_core_machine q' = [3] \<and> q_leader_machine q' = 3 \<and>
     mset (q_filterred q' ! 3) = image_mset (\<lambda>c. (- fst c, gid ex_top (snd c))) (mset ex_pre)"
proof -
  obtain q' sent where run: "dispatch_query 0 3 ex_top ex_parts ex_pre ex_new_query = Inr (q', sent)" and c: "q_core_machine q' = [3]"
    using ex_dispatch by (auto split: sum.splits)
  have "ex_pre \<noteq> []" "length ex_pre < 2 ^ 32" by (simp_all add: ex_pre_def)
  from dispatch_query_complete [OF ex_fresh this run] run c show ?thesis by auto
qed

definition ex_even :: "(dist_t \<times> u32) list" where
  "ex_even = map (\<lambda>i. (Dist (word_of_nat i), word_of_nat i)) [0 ..< 16]"

lemma ex_even_files:
  "(case file_cands ex_top ex_parts ex_even (ex_new_query\<lparr>q_filter_num := replicate MACHINE_NUM 0\<rparr>) of
      Inr q \<Rightarrow> map length (q_filterred q) = replicate 16 1 | Inl _ \<Rightarrow> False)"
  by code_simp

theorem balanced_dispatch_undefined_witness:
  "\<exists>q1. file_cands ex_top ex_parts ex_even (ex_new_query\<lparr>q_filter_num := replicate MACHINE_NUM 0\<rparr>) = Inr q1 \<and>
     select_core 0 q1 = Inl OutOfBounds"
proof -
  obtain q1 where run: "file_cands ex_top ex_parts ex_even (ex_new_query\<lparr>q_filter_num := replicate MACHINE_NUM 0\<rparr>) = Inr q1"
    and l: "map length (q_filterred q1) = replicate 16 1"
    using ex_even_files by (auto split: sum.splits)
  have "length (q_filterred q1 ! m) = 1" if "m < MACHINE_NUM" for m
    using l that by (metis MACHINE_NUM_def length_map length_replicate nth_map nth_replicate)
  moreover have "ex_even \<noteq> []" "length ex_even = 16" by (simp_all add: ex_even_def)
  ultimately show ?thesis
    using balanced_dispatch_undefined [OF ex_fresh _ _ run, of 0] run by (auto simp: MACHINE_NUM_def)
qed





end
