(* ===== verification/Build_Sync.thy ===== *)
theory Build_Sync
  imports Rdma_Buffers
begin

text \<open>
  The barrier \<^verbatim>\<open>RdmaCommunication::build_sync\<close> (\<^verbatim>\<open>src/rdma/rdma_comm.cc\<close>) among \<^const>\<open>MACHINE_NUM\<close>
  machines.  A machine enters with the next round number, sends it to every other machine, and stays
  until it has seen a message of its round from each of them; messages of a later round go back to the
  end of the queue, messages of an earlier one are dropped.  In the system, \<open>sy_net s m\<close> are the messages
  on their way to machine \<open>m\<close>; they may arrive in any order.  The clock enters as the outcome \<open>expired\<close> of the
  test behind each pass over the queue; a machine that aborts takes no further step.
\<close>

section \<open>One machine\<close>

definition bsm_bytes :: "u32 \<Rightarrow> u32 \<Rightarrow> byte list" where
  "bsm_bytes round machine_id = enc_u32 round @ enc_u32 machine_id"

definition bsm_read :: "byte list \<Rightarrow> (u32 \<times> u32) option" where
  "bsm_read msg = do { (round, s) \<leftarrow> rd_u32 msg; (machine_id, _) \<leftarrow> rd_u32 s; Some (round, machine_id) }"

record bs_machine =
  bs_round :: u32
  bs_inside :: bool
  bs_seen :: "bool list"
  bs_cnt :: nat
  bs_queue :: "byte list list"

text \<open>The start of \<^verbatim>\<open>build_sync\<close>, with the message to the other machines.\<close>

definition bs_enter :: "nat \<Rightarrow> bs_machine \<Rightarrow> bs_machine \<times> byte list" where
  "bs_enter my_id b =
     (b\<lparr>bs_round := bs_round b + 1, bs_inside := True, bs_seen := (replicate MACHINE_NUM False)[my_id := True], bs_cnt := 1\<rparr>,
      bsm_bytes (bs_round b) (word_of_nat my_id))"

text \<open>The loop over the messages that are queued when it starts.\<close>

primrec bs_scan :: "nat \<Rightarrow> u32 \<Rightarrow> bs_machine \<Rightarrow> crash + bs_machine" where
  "bs_scan 0 round b = Inr b"
| "bs_scan (Suc n) round b =
     (case bs_queue b of
        [] \<Rightarrow> Inl OutOfBounds
      | msg # rest \<Rightarrow>
          (case bsm_read msg of
             None \<Rightarrow> Inl OutOfBounds
           | Some (r, mid) \<Rightarrow>
               if unat mid \<ge> MACHINE_NUM then Inl Abort
               else if r > round then bs_scan n round (b\<lparr>bs_queue := rest @ [msg]\<rparr>)
               else if r = round \<and> \<not> bs_seen b ! unat mid
                 then bs_scan n round (b\<lparr>bs_queue := rest, bs_seen := (bs_seen b)[unat mid := True], bs_cnt := bs_cnt b + 1\<rparr>)
                 else bs_scan n round (b\<lparr>bs_queue := rest\<rparr>)))"

definition bs_poll :: "bs_machine \<Rightarrow> crash + bs_machine" where
  "bs_poll b = bs_scan (length (bs_queue b)) (bs_round b - 1) b"

text \<open>One pass of the waiting loop with the test of the deadline at its end, which is made also when the pass
  has just counted the last machine.\<close>

definition bs_pass :: "bool \<Rightarrow> bs_machine \<Rightarrow> crash + bs_machine" where
  "bs_pass expired b =
     (case bs_poll b of Inl e \<Rightarrow> Inl e | Inr b \<Rightarrow> if expired then Inl Abort else Inr b)"

section \<open>The machines together\<close>

record bs_sys =
  sy_machine :: "nat \<Rightarrow> bs_machine"
  sy_net :: "nat \<Rightarrow> byte list list"

definition bs_init :: bs_sys where
  "bs_init = \<lparr>sy_machine = (\<lambda>_. \<lparr>bs_round = 0, bs_inside = False, bs_seen = [], bs_cnt = 0, bs_queue = []\<rparr>),
     sy_net = (\<lambda>_. [])\<rparr>"

text \<open>A run has fewer than \<open>2 ^ 32\<close> barriers: the round counter does not wrap around.\<close>

inductive bs_step :: "bs_sys \<Rightarrow> bs_sys \<Rightarrow> bool" where
  enter: "\<lbrakk>m < MACHINE_NUM; \<not> bs_inside (sy_machine s m); bs_round (sy_machine s m) < -1; bs_enter m (sy_machine s m) = (b, msg)\<rbrakk> \<Longrightarrow>
    bs_step s (s\<lparr>sy_machine := (sy_machine s)(m := b),
      sy_net := (\<lambda>p. if p < MACHINE_NUM \<and> p \<noteq> m then sy_net s p @ [msg] else sy_net s p)\<rparr>)"
| deliver: "\<lbrakk>m < MACHINE_NUM; sy_net s m = xs @ msg # ys\<rbrakk> \<Longrightarrow>
    bs_step s (s\<lparr>sy_machine := (sy_machine s)(m := (sy_machine s m)\<lparr>bs_queue := bs_queue (sy_machine s m) @ [msg]\<rparr>),
      sy_net := (sy_net s)(m := xs @ ys)\<rparr>)"
| poll: "\<lbrakk>m < MACHINE_NUM; bs_inside (sy_machine s m); bs_cnt (sy_machine s m) < MACHINE_NUM; bs_pass expired (sy_machine s m) = Inr b\<rbrakk> \<Longrightarrow>
    bs_step s (s\<lparr>sy_machine := (sy_machine s)(m := b)\<rparr>)"
| leave: "\<lbrakk>m < MACHINE_NUM; bs_inside (sy_machine s m); \<not> bs_cnt (sy_machine s m) < MACHINE_NUM\<rbrakk> \<Longrightarrow>
    bs_step s (s\<lparr>sy_machine := (sy_machine s)(m := (sy_machine s m)\<lparr>bs_inside := False\<rparr>)\<rparr>)"

inductive bs_reach :: "bs_sys \<Rightarrow> bool" where
  init: "bs_reach bs_init"
| step: "bs_reach s \<Longrightarrow> bs_step s s' \<Longrightarrow> bs_reach s'"

text \<open>The barriers a machine has entered and the ones it has left.\<close>

definition entered :: "bs_sys \<Rightarrow> nat \<Rightarrow> nat" where
  "entered s m = unat (bs_round (sy_machine s m))"

definition left :: "bs_sys \<Rightarrow> nat \<Rightarrow> nat" where
  "left s m = entered s m - (if bs_inside (sy_machine s m) then 1 else 0)"

section \<open>The invariant\<close>

lemma bsm_roundtrip [simp]: "bsm_read (bsm_bytes r m) = Some (r, m)"
  using u32.rd_enc [of m "[]"] by (simp add: bsm_read_def bsm_bytes_def u32.rd_enc)

definition valid_msg :: "bs_sys \<Rightarrow> nat \<Rightarrow> byte list \<Rightarrow> bool" where
  "valid_msg s m msg \<longleftrightarrow> (\<exists>r k. msg = bsm_bytes r (word_of_nat k) \<and> k < MACHINE_NUM \<and> k \<noteq> m \<and> unat r < entered s k)"

definition waiting :: "bs_sys \<Rightarrow> nat \<Rightarrow> byte list set" where
  "waiting s m = set (sy_net s m) \<union> set (bs_queue (sy_machine s m))"

definition machine_ok :: "bs_sys \<Rightarrow> nat \<Rightarrow> bool" where
  "machine_ok s m \<longleftrightarrow>
     (\<forall>msg\<in>waiting s m. valid_msg s m msg) \<and>
     (bs_inside (sy_machine s m) \<longrightarrow> 0 < entered s m \<and> length (bs_seen (sy_machine s m)) = MACHINE_NUM \<and>
        bs_cnt (sy_machine s m) = count_list (bs_seen (sy_machine s m)) True \<and>
        (\<forall>k<MACHINE_NUM. bs_seen (sy_machine s m) ! k \<longrightarrow> left s m < entered s k) \<and> bs_seen (sy_machine s m) ! m) \<and>
     (\<forall>k<MACHINE_NUM. left s m \<le> entered s k)"

text \<open>No message is lost before its round: a round that machine \<open>k\<close> has entered and machine \<open>m\<close> has not
  left is either counted or still waiting.\<close>

definition pair_ok :: "bs_sys \<Rightarrow> nat \<Rightarrow> nat \<Rightarrow> bool" where
  "pair_ok s m k \<longleftrightarrow> (\<forall>r. left s m \<le> unat r \<and> unat r < entered s k \<longrightarrow>
     (bs_inside (sy_machine s m) \<and> unat r = left s m \<and> bs_seen (sy_machine s m) ! k) \<or>
     bsm_bytes r (word_of_nat k) \<in> waiting s m)"

definition bs_inv :: "bs_sys \<Rightarrow> bool" where
  "bs_inv s \<longleftrightarrow> (\<forall>m<MACHINE_NUM. machine_ok s m \<and> (\<forall>k<MACHINE_NUM. k \<noteq> m \<longrightarrow> pair_ok s m k))"

definition later :: "u32 \<Rightarrow> byte list \<Rightarrow> bool" where
  "later round msg = (case bsm_read msg of None \<Rightarrow> False | Some (r, _) \<Rightarrow> r > round)"

lemma count_seen_update:
  "k < length xs \<Longrightarrow> \<not> xs ! k \<Longrightarrow> count_list (xs[k := True]) True = Suc (count_list xs True)"
  by (induction xs arbitrary: k) (auto split: nat.splits simp: nth_Cons)

lemma count_seen_all: "length xs \<le> count_list xs True \<Longrightarrow> k < length xs \<Longrightarrow> xs ! k"
proof (induction xs arbitrary: k)
  case (Cons x xs)
  have "count_list xs True \<le> length xs" by (rule count_le_length)
  with Cons show ?case by (cases k) (auto split: if_splits)
qed simp

lemma bs_scan_ok:
  assumes "bs_queue b = q1 @ q2" "n = length q1" "length (bs_seen b) = MACHINE_NUM"
    "\<forall>msg\<in>set q1. \<exists>r k. msg = bsm_bytes r (word_of_nat k) \<and> k < MACHINE_NUM" "bs_cnt b = count_list (bs_seen b) True"
  shows "\<exists>b'. bs_scan n round b = Inr b' \<and> bs_round b' = bs_round b \<and> bs_inside b' = bs_inside b \<and>
    bs_queue b' = q2 @ filter (later round) q1 \<and> length (bs_seen b') = MACHINE_NUM \<and> bs_cnt b' = count_list (bs_seen b') True \<and>
    (\<forall>k<MACHINE_NUM. bs_seen b' ! k \<longleftrightarrow> bs_seen b ! k \<or> bsm_bytes round (word_of_nat k) \<in> set q1)"
  using assms
proof (induction q1 arbitrary: n b q2)
  case (Cons msg q1)
  have w: "unat (word_of_nat k :: u32) = k" if "k < MACHINE_NUM" for k using that by (simp add: config_defs)
  obtain r k where msg: "msg = bsm_bytes r (word_of_nat k)" "k < MACHINE_NUM" using Cons.prems(4) by auto
  obtain n' where n: "n = Suc n'" "n' = length q1" using Cons.prems(2) by auto
  have eq: "bsm_bytes r' (word_of_nat j) = bsm_bytes r (word_of_nat k) \<longleftrightarrow> r' = r \<and> j = k" if "j < MACHINE_NUM" for r' j
    using bsm_roundtrip [of r' "word_of_nat j"] bsm_roundtrip [of r "word_of_nat k"] w [OF that] w [OF msg(2)] by (metis option.inject prod.inject)
  let ?b = "if r > round then b\<lparr>bs_queue := q1 @ (q2 @ [msg])\<rparr>
    else if r = round \<and> \<not> bs_seen b ! k then b\<lparr>bs_queue := q1 @ q2, bs_seen := (bs_seen b)[k := True], bs_cnt := bs_cnt b + 1\<rparr>
    else b\<lparr>bs_queue := q1 @ q2\<rparr>"
  have step: "bs_scan n round b = bs_scan n' round ?b"
    using Cons.prems(1) msg by (simp add: n w)
  have q: "bs_queue ?b = q1 @ (q2 @ (if r > round then [msg] else []))" by simp
  have l: "length (bs_seen ?b) = MACHINE_NUM" "bs_cnt ?b = count_list (bs_seen ?b) True"
    using Cons.prems(3,5) msg(2) count_seen_update [of k "bs_seen b"] by auto
  have seen: "bs_seen ?b ! j \<longleftrightarrow> bs_seen b ! j \<or> bsm_bytes round (word_of_nat j) = msg" if "j < MACHINE_NUM" for j
    using Cons.prems(3) that eq [OF that] by (auto simp: msg nth_list_update)
  have later: "later round msg \<longleftrightarrow> r > round" by (simp add: later_def msg)
  from Cons.IH [OF q n(2) l(1) _ l(2)] Cons.prems(4) obtain b' where "bs_scan n' round ?b = Inr b'"
    "bs_round b' = bs_round ?b \<and> bs_inside b' = bs_inside ?b \<and>
      bs_queue b' = (q2 @ (if r > round then [msg] else [])) @ filter (later round) q1 \<and> length (bs_seen b') = MACHINE_NUM \<and> bs_cnt b' = count_list (bs_seen b') True"
    "\<forall>k<MACHINE_NUM. bs_seen b' ! k \<longleftrightarrow> bs_seen ?b ! k \<or> bsm_bytes round (word_of_nat k) \<in> set q1"
    by auto
  then show ?case using seen later by (auto simp: step)
qed auto

lemma mid_unat: "k < MACHINE_NUM \<Longrightarrow> unat (word_of_nat k :: u32) = k"
  by (simp add: config_defs)

lemma bs_init_inv: "bs_inv bs_init"
  by (simp add: bs_inv_def bs_init_def machine_ok_def pair_ok_def waiting_def left_def entered_def)

lemma valid_mono: "valid_msg s m msg \<Longrightarrow> (\<And>k. entered s k \<le> entered s' k) \<Longrightarrow> valid_msg s' m msg"
  unfolding valid_msg_def by (elim exE conjE) (metis less_le_trans)

lemma enter_inv:
  assumes inv: "bs_inv s" and m: "m < MACHINE_NUM" "\<not> bs_inside (sy_machine s m)" "bs_round (sy_machine s m) < -1"
    "bs_enter m (sy_machine s m) = (b, msg)"
    and s': "s' = s\<lparr>sy_machine := (sy_machine s)(m := b), sy_net := (\<lambda>p. if p < MACHINE_NUM \<and> p \<noteq> m then sy_net s p @ [msg] else sy_net s p)\<rparr>"
  shows "bs_inv s'"
proof -
  let ?r = "bs_round (sy_machine s m)"
  have b: "b = (sy_machine s m)\<lparr>bs_round := ?r + 1, bs_inside := True, bs_seen := (replicate MACHINE_NUM False)[m := True], bs_cnt := 1\<rparr>"
    and msg: "msg = bsm_bytes ?r (word_of_nat m)" using m(4) by (auto simp: bs_enter_def)
  have suc: "unat (?r + 1) = unat ?r + 1"
  proof -
    have "unat (-1 :: u32) = 2 ^ 32 - 1" by (simp add: unsigned_minus_1_eq_mask mask_eq_exp_minus_1)
    then have "unat ?r < 2 ^ 32 - 1" using m(3) by (simp add: word_less_nat_alt)
    then show ?thesis by (simp add: unat_word_ariths)
  qed
  have e: "entered s' k = entered s k + (if k = m then 1 else 0)" for k by (simp add: entered_def s' b suc)
  have l: "left s' k = left s k" for k using m(2) by (simp add: left_def e) (simp add: s' b)
  have w: "waiting s' k = waiting s k \<union> (if k < MACHINE_NUM \<and> k \<noteq> m then {msg} else {})" for k by (auto simp: waiting_def s' b)
  have k: "k \<noteq> m \<Longrightarrow> sy_machine s' k = sy_machine s k" for k by (simp add: s')
  have inv': "machine_ok s p" "q \<noteq> p \<Longrightarrow> q < MACHINE_NUM \<Longrightarrow> pair_ok s p q" if "p < MACHINE_NUM" for p q
    using inv that by (auto simp: bs_inv_def)
  have "machine_ok s' p" if p: "p < MACHINE_NUM" for p
  proof -
    have val: "valid_msg s' p x" if "x \<in> waiting s' p" for x
    proof (cases "x \<in> waiting s p")
      case True
      then show ?thesis using inv'(1) [OF p] valid_mono [of s p x s'] by (auto simp: machine_ok_def e)
    next
      case False
      then have "x = msg" "p \<noteq> m" using that by (auto simp: w split: if_splits)
      moreover have "unat ?r < entered s' m" unfolding e by (simp add: entered_def)
      ultimately show ?thesis using m(1) unfolding valid_msg_def msg by blast
    qed
    show ?thesis
    proof (cases "p = m")
      case True
      have "count_list ((replicate MACHINE_NUM False)[m := True]) True = 1"
        using m(1) count_seen_update [of m "replicate MACHINE_NUM False"] by (simp add: count_list_0_iff)
      then show ?thesis using True val inv'(1) [OF m(1)] m(1,2) p
        by (auto simp: machine_ok_def l e) (auto simp: s' b left_def nth_list_update split: if_splits)
    next
      case False
      then show ?thesis using val inv'(1) [OF p] by (auto simp: machine_ok_def l e k trans_le_add1 less_SucI)
    qed
  qed
  moreover have "pair_ok s' p q" if "p < MACHINE_NUM" "q < MACHINE_NUM" "q \<noteq> p" for p q
  proof -
    have old: "pair_ok s p q" using inv'(2) that by blast
    show ?thesis
      unfolding pair_ok_def
    proof (intro allI impI)
      fix r :: u32 assume r: "left s' p \<le> unat r \<and> unat r < entered s' q"
      show "(bs_inside (sy_machine s' p) \<and> unat r = left s' p \<and> bs_seen (sy_machine s' p) ! q) \<or> bsm_bytes r (word_of_nat q) \<in> waiting s' p"
      proof (cases "unat r < entered s q")
        case True
        with old r have "(bs_inside (sy_machine s p) \<and> unat r = left s p \<and> bs_seen (sy_machine s p) ! q) \<or> bsm_bytes r (word_of_nat q) \<in> waiting s p"
          by (auto simp: pair_ok_def l)
        then show ?thesis using m(2) k [of p] by (cases "p = m") (auto simp: w l)
      next
        case False
        have "unat r < entered s q + (if q = m then 1 else 0)" using r unfolding e by blast
        with False have "q = m" "unat r = entered s q" by (auto split: if_splits)
        then have "q = m" "unat r = unat ?r" by (simp_all add: entered_def)
        then have "r = ?r" by (simp only: word_unat_eq_iff)
        then have "bsm_bytes r (word_of_nat q) = msg" using \<open>q = m\<close> by (simp only: msg)
        then show ?thesis using that \<open>q = m\<close> by (simp add: w)
      qed
    qed
  qed
  ultimately show ?thesis by (simp add: bs_inv_def)
qed

lemma deliver_inv:
  assumes inv: "bs_inv s" and net: "sy_net s m = xs @ msg # ys"
    and s': "s' = s\<lparr>sy_machine := (sy_machine s)(m := (sy_machine s m)\<lparr>bs_queue := bs_queue (sy_machine s m) @ [msg]\<rparr>), sy_net := (sy_net s)(m := xs @ ys)\<rparr>"
  shows "bs_inv s'"
proof -
  have "waiting s' k = waiting s k" for k using net by (auto simp: waiting_def s')
  moreover have "bs_inside (sy_machine s' k) = bs_inside (sy_machine s k)" "bs_seen (sy_machine s' k) = bs_seen (sy_machine s k)"
    "bs_cnt (sy_machine s' k) = bs_cnt (sy_machine s k)" "entered s' k = entered s k" "left s' k = left s k" for k
    by (simp_all add: s' left_def entered_def)
  ultimately show ?thesis using inv by (simp add: bs_inv_def machine_ok_def pair_ok_def valid_msg_def)
qed

lemma bs_poll_ok:
  assumes inv: "bs_inv s" and m: "m < MACHINE_NUM" "bs_inside (sy_machine s m)"
  obtains b where "bs_poll (sy_machine s m) = Inr b" "bs_round b = bs_round (sy_machine s m)" "bs_inside b"
    "set (bs_queue b) = {msg \<in> set (bs_queue (sy_machine s m)). later (bs_round (sy_machine s m) - 1) msg}"
    "length (bs_seen b) = MACHINE_NUM" "bs_cnt b = count_list (bs_seen b) True"
    "\<forall>k<MACHINE_NUM. bs_seen b ! k \<longleftrightarrow> bs_seen (sy_machine s m) ! k \<or>
       bsm_bytes (bs_round (sy_machine s m) - 1) (word_of_nat k) \<in> set (bs_queue (sy_machine s m))"
proof -
  have ok: "machine_ok s m" using inv m(1) by (simp add: bs_inv_def)
  then have v: "\<forall>msg\<in>set (bs_queue (sy_machine s m)). \<exists>r k. msg = bsm_bytes r (word_of_nat k) \<and> k < MACHINE_NUM"
    unfolding machine_ok_def waiting_def valid_msg_def by blast
  have "length (bs_seen (sy_machine s m)) = MACHINE_NUM" "bs_cnt (sy_machine s m) = count_list (bs_seen (sy_machine s m)) True"
    using ok m(2) by (auto simp: machine_ok_def)
  from bs_scan_ok [where ?q1.0 = "bs_queue (sy_machine s m)" and ?q2.0 = "[]", OF _ refl this(1) v this(2), of "bs_round (sy_machine s m) - 1"]
  show thesis using that m(2) by (auto simp: bs_poll_def)
qed

lemma round_pred:
  assumes "0 < entered s m" "bs_inside (sy_machine s m)"
  shows "unat (bs_round (sy_machine s m) - 1) = left s m"
proof -
  have "bs_round (sy_machine s m) \<noteq> 0" using assms(1) by (auto simp: entered_def)
  then show ?thesis using assms(2) by (simp add: left_def entered_def unat_minus_one)
qed

lemma later_iff: "later round (bsm_bytes r k) \<longleftrightarrow> unat round < unat r"
  by (simp add: later_def word_less_nat_alt)

lemma bs_pass_poll: "bs_pass expired x = Inr b \<Longrightarrow> bs_poll x = Inr b"
  by (simp add: bs_pass_def split: sum.splits if_splits)

lemma poll_inv:
  assumes inv: "bs_inv s" and m: "m < MACHINE_NUM" "bs_inside (sy_machine s m)" and b: "bs_poll (sy_machine s m) = Inr b"
    and s': "s' = s\<lparr>sy_machine := (sy_machine s)(m := b)\<rparr>"
  shows "bs_inv s'"
proof -
  let ?q = "bs_queue (sy_machine s m)" and ?r = "bs_round (sy_machine s m) - 1"
  have ok: "machine_ok s p" "q \<noteq> p \<Longrightarrow> q < MACHINE_NUM \<Longrightarrow> pair_ok s p q" if "p < MACHINE_NUM" for p q
    using inv that by (auto simp: bs_inv_def)
  obtain b1 where b1: "bs_poll (sy_machine s m) = Inr b1" "bs_round b1 = bs_round (sy_machine s m)" "bs_inside b1"
    "set (bs_queue b1) = {msg \<in> set ?q. later ?r msg}" "length (bs_seen b1) = MACHINE_NUM" "bs_cnt b1 = count_list (bs_seen b1) True"
    "\<forall>k<MACHINE_NUM. bs_seen b1 ! k \<longleftrightarrow> bs_seen (sy_machine s m) ! k \<or> bsm_bytes ?r (word_of_nat k) \<in> set ?q"
    by (rule bs_poll_ok [OF inv m])
  have "b1 = b" using b1(1) b by simp
  note b = b1(2-6) [unfolded this] b1(7) [unfolded this, rule_format]
  have e: "entered s' k = entered s k" "left s' k = left s k" for k
    using b(1,2) m(2) by (simp_all add: entered_def left_def s')
  have other: "k \<noteq> m \<Longrightarrow> sy_machine s' k = sy_machine s k \<and> waiting s' k = waiting s k" for k by (simp add: s' waiting_def)
  have sm: "sy_machine s' m = b" by (simp add: s')
  have w: "waiting s' m = set (sy_net s m) \<union> {msg \<in> set ?q. later ?r msg}" using b(3) by (simp add: waiting_def s')
  have r: "unat ?r = left s m" using round_pred ok(1) [OF m(1)] m(2) by (simp add: machine_ok_def)
  have val: "valid_msg s' p x \<longleftrightarrow> valid_msg s p x" for p x by (simp add: valid_msg_def e)
  have vm: "valid_msg s m x" if "x \<in> set ?q" for x using ok(1) [OF m(1)] that by (simp add: machine_ok_def waiting_def)
  have seen: "left s m < entered s k" if "k < MACHINE_NUM" "bs_seen b ! k" for k
  proof (cases "bs_seen (sy_machine s m) ! k")
    case True
    then show ?thesis using ok(1) [OF m(1)] m(2) that(1) by (simp add: machine_ok_def)
  next
    case False
    then have "valid_msg s m (bsm_bytes ?r (word_of_nat k))" using b(6) [OF that(1)] that(2) vm by blast
    then obtain r' k' where eq: "bsm_bytes ?r (word_of_nat k) = bsm_bytes r' (word_of_nat k')" and k': "k' < MACHINE_NUM" "unat r' < entered s k'"
      by (auto simp: valid_msg_def)
    have "?r = r'" "(word_of_nat k :: u32) = word_of_nat k'" using arg_cong [OF eq, of bsm_read] by auto
    then have "?r = r'" "k = k'" using mid_unat [OF that(1)] mid_unat [OF k'(1)] by metis+
    then show ?thesis using k'(2) r by simp
  qed
  have "machine_ok s' m"
    using ok(1) [OF m(1)] m b(4-6) seen by (auto simp: machine_ok_def val e sm w) (auto simp: waiting_def)
  moreover have "machine_ok s' p" if "p < MACHINE_NUM" "p \<noteq> m" for p
    using ok(1) [OF that(1)] other [OF that(2)] by (simp add: machine_ok_def val e)
  moreover have "pair_ok s' m k" if k: "k < MACHINE_NUM" "k \<noteq> m" for k
    unfolding pair_ok_def
  proof (intro allI impI)
    fix r' :: u32 assume r': "left s' m \<le> unat r' \<and> unat r' < entered s' k"
    consider "unat r' = left s m" "bs_seen (sy_machine s m) ! k" | "bsm_bytes r' (word_of_nat k) \<in> waiting s m"
      using ok(2) [OF m(1) k(2,1)] r' by (auto simp: pair_ok_def e)
    then show "(bs_inside (sy_machine s' m) \<and> unat r' = left s' m \<and> bs_seen (sy_machine s' m) ! k) \<or> bsm_bytes r' (word_of_nat k) \<in> waiting s' m"
    proof cases
      case 1
      then show ?thesis using b(2) b(6) [OF k(1)] by (simp add: sm e)
    next
      case 2
      show ?thesis
      proof (cases "unat r' = left s m \<and> bsm_bytes r' (word_of_nat k) \<in> set ?q")
        case True
        then have "r' = ?r" using r by (simp add: word_unat_eq_iff)
        then show ?thesis using True b(2) b(6) [OF k(1)] by (simp add: sm e)
      next
        case False
        have "left s m \<le> unat r'" using r' by (simp add: e)
        with 2 False r have "bsm_bytes r' (word_of_nat k) \<in> set (sy_net s m) \<union> {msg \<in> set ?q. later ?r msg}"
          by (auto simp: waiting_def later_iff)
        then show ?thesis by (simp only: w) simp
      qed
    qed
  qed
  moreover have "pair_ok s' p k" if "p < MACHINE_NUM" "p \<noteq> m" "k < MACHINE_NUM" "k \<noteq> p" for p k
    using ok(2) [OF that(1,4,3)] other [OF that(2)] by (simp add: pair_ok_def e)
  ultimately show ?thesis unfolding bs_inv_def by metis
qed

lemma leave_inv:
  assumes inv: "bs_inv s" and m: "m < MACHINE_NUM" "bs_inside (sy_machine s m)" "\<not> bs_cnt (sy_machine s m) < MACHINE_NUM"
    and s': "s' = s\<lparr>sy_machine := (sy_machine s)(m := (sy_machine s m)\<lparr>bs_inside := False\<rparr>)\<rparr>"
  shows "bs_inv s'"
proof -
  have ok: "machine_ok s p" "q \<noteq> p \<Longrightarrow> q < MACHINE_NUM \<Longrightarrow> pair_ok s p q" if "p < MACHINE_NUM" for p q
    using inv that by (auto simp: bs_inv_def)
  have e: "entered s' k = entered s k" for k by (simp add: entered_def s')
  have l: "left s' k = left s k + (if k = m then 1 else 0)" for k
    using m ok(1) [OF m(1)] by (simp add: left_def e) (simp add: machine_ok_def s')
  have w: "waiting s' k = waiting s k" for k by (simp add: waiting_def s')
  have other: "k \<noteq> m \<Longrightarrow> sy_machine s' k = sy_machine s k" for k by (simp add: s')
  have val: "valid_msg s' p x \<longleftrightarrow> valid_msg s p x" for p x by (simp add: valid_msg_def e)
  have all: "left s m < entered s k" if "k < MACHINE_NUM" for k
    using ok(1) [OF m(1)] m count_seen_all [of "bs_seen (sy_machine s m)" k] that by (auto simp: machine_ok_def)
  have "machine_ok s' p" if "p < MACHINE_NUM" for p
  proof (cases "p = m")
    case True
    then show ?thesis using ok(1) [OF m(1)] all by (auto simp: machine_ok_def val w e l Suc_le_eq) (simp_all add: s')
  next
    case False
    then show ?thesis using ok(1) [OF that] other [OF False] by (simp add: machine_ok_def val w e l)
  qed
  moreover have "pair_ok s' p k" if "p < MACHINE_NUM" "k < MACHINE_NUM" "k \<noteq> p" for p k
  proof (cases "p = m")
    case True
    have "bsm_bytes r (word_of_nat k) \<in> waiting s m" if "Suc (left s m) \<le> unat r" "unat r < entered s k" for r
      using ok(2) [OF m(1), of k, unfolded pair_ok_def, rule_format, of r] \<open>k < MACHINE_NUM\<close> \<open>k \<noteq> p\<close> True that by auto
    then show ?thesis by (simp add: True pair_ok_def w e l)
  next
    case False
    then show ?thesis using ok(2) [OF that(1,3,2)] other [OF False] by (simp add: pair_ok_def w e l)
  qed
  ultimately show ?thesis by (simp add: bs_inv_def)
qed

lemma bs_reach_inv: "bs_reach s \<Longrightarrow> bs_inv s"
proof (induction rule: bs_reach.induct)
  case init
  show ?case by (rule bs_init_inv)
next
  case (step s s')
  from step.hyps(2) step.IH show ?case
    by (cases rule: bs_step.cases) (blast intro: enter_inv deliver_inv poll_inv leave_inv dest: bs_pass_poll)+
qed

section \<open>Properties\<close>

text \<open>Property C20. The barrier separates its rounds: in every reachable state, whatever the order in
  which messages arrive, a machine that has left its \<open>n\<close>-th barrier can rely on every machine having
  entered its own \<open>n\<close>-th barrier; and no machine is more than one barrier ahead of another.\<close>

theorem build_sync_separates:
  assumes "bs_reach s" and "m < MACHINE_NUM" and "k < MACHINE_NUM"
  shows "left s m \<le> entered s k \<and> entered s m \<le> entered s k + 1"
proof -
  have "machine_ok s m" using bs_reach_inv [OF assms(1)] assms(2) by (simp add: bs_inv_def)
  then have "left s m \<le> entered s k" using assms(3) by (simp add: machine_ok_def)
  moreover have "entered s m \<le> left s m + 1" unfolding left_def by (split if_split) arith
  ultimately show ?thesis by linarith
qed

text \<open>A pass counts exactly the machines that have entered the round, once their messages have arrived.\<close>

lemma bs_poll_counts:
  assumes "bs_reach s" and "m < MACHINE_NUM" and "bs_inside (sy_machine s m)" and "sy_net s m = []"
  obtains b where "bs_poll (sy_machine s m) = Inr b" "bs_inside b" "bs_round b = bs_round (sy_machine s m)"
    "bs_cnt b = MACHINE_NUM \<longleftrightarrow> (\<forall>k<MACHINE_NUM. left s m < entered s k)"
proof -
  note inv = bs_reach_inv [OF assms(1)]
  obtain b where b1: "bs_poll (sy_machine s m) = Inr b" "bs_round b = bs_round (sy_machine s m)" "bs_inside b"
    "set (bs_queue b) = {msg \<in> set (bs_queue (sy_machine s m)). later (bs_round (sy_machine s m) - 1) msg}"
    "length (bs_seen b) = MACHINE_NUM" "bs_cnt b = count_list (bs_seen b) True"
    "\<forall>k<MACHINE_NUM. bs_seen b ! k \<longleftrightarrow> bs_seen (sy_machine s m) ! k \<or>
       bsm_bytes (bs_round (sy_machine s m) - 1) (word_of_nat k) \<in> set (bs_queue (sy_machine s m))"
    by (rule bs_poll_ok [OF inv assms(2,3)])
  note b = b1(1,5,6) b1(7) [rule_format]
  have ok: "machine_ok s m" using inv assms(2) by (simp add: bs_inv_def)
  then have r: "unat (bs_round (sy_machine s m) - 1) = left s m" using round_pred assms(3) by (simp add: machine_ok_def)
  let ?s = "s\<lparr>sy_machine := (sy_machine s)(m := b)\<rparr>"
  have e: "entered ?s k = entered s k" "left ?s m = left s m" for k
    using b1(2,3) assms(3) by (simp_all add: entered_def left_def)
  have "machine_ok ?s m" using poll_inv [OF inv assms(2,3) b(1) refl] assms(2) by (simp add: bs_inv_def)
  then have seen: "left s m < entered s k" if "k < MACHINE_NUM" "bs_seen b ! k" for k
    using that b1(3) by (simp add: machine_ok_def e)
  have all: "bs_seen b ! k" if k: "k < MACHINE_NUM" and in_k: "left s m < entered s k" for k
  proof (cases "k = m")
    case True
    then show ?thesis using ok assms(3) b(4) [OF k] by (simp add: machine_ok_def)
  next
    case False
    let ?r = "bs_round (sy_machine s m) - 1"
    have "pair_ok s m k" using False inv assms(2) k by (simp add: bs_inv_def)
    then have "bs_seen (sy_machine s m) ! k \<or> bsm_bytes ?r (word_of_nat k) \<in> waiting s m"
      using in_k r spec [OF \<open>pair_ok s m k\<close> [unfolded pair_ok_def], of ?r] by auto
    then show ?thesis using assms(4) by (simp add: b(4) [OF k] waiting_def)
  qed
  have "bs_cnt b = MACHINE_NUM \<longleftrightarrow> (\<forall>k<MACHINE_NUM. bs_seen b ! k)"
  proof
    assume "bs_cnt b = MACHINE_NUM"
    then show "\<forall>k<MACHINE_NUM. bs_seen b ! k" using count_seen_all [of "bs_seen b"] b(2,3) by simp
  next
    assume "\<forall>k<MACHINE_NUM. bs_seen b ! k"
    then have "bs_seen b = replicate MACHINE_NUM True" using b(2) by (intro nth_equalityI) auto
    moreover have "count_list (replicate n x) x = n" for n and x :: bool by (induction n) auto
    ultimately show "bs_cnt b = MACHINE_NUM" using b(3) by simp
  qed
  with seen all have "bs_cnt b = MACHINE_NUM \<longleftrightarrow> (\<forall>k<MACHINE_NUM. left s m < entered s k)" by blast
  with b1(1-3) show thesis by (intro that [of b])
qed

text \<open>Property C39. The end of a barrier: when the messages for a waiting machine have arrived, one pass over
  its queue succeeds (no message is malformed) and counts all machines exactly when every machine has entered
  the round.  If the deadline has not passed at the end of that pass, the machine then leaves the barrier.  If it
  has, the machine aborts, also when all machines are counted.\<close>

theorem build_sync_completes:
  assumes "bs_reach s" and "m < MACHINE_NUM" and "bs_inside (sy_machine s m)" and "bs_cnt (sy_machine s m) < MACHINE_NUM"
    and "sy_net s m = []"
  shows "\<exists>b. bs_pass False (sy_machine s m) = Inr b \<and> bs_pass True (sy_machine s m) = Inl Abort \<and>
    (bs_cnt b = MACHINE_NUM \<longleftrightarrow> (\<forall>k<MACHINE_NUM. left s m < entered s k)) \<and>
    (bs_cnt b = MACHINE_NUM \<longrightarrow>
       (\<exists>s1 s2. sy_machine s1 m = b \<and> bs_step s s1 \<and> bs_step s1 s2 \<and> left s2 m = left s m + 1))"
proof -
  obtain b where b: "bs_poll (sy_machine s m) = Inr b" "bs_inside b" "bs_round b = bs_round (sy_machine s m)"
    "bs_cnt b = MACHINE_NUM \<longleftrightarrow> (\<forall>k<MACHINE_NUM. left s m < entered s k)"
    by (rule bs_poll_counts [OF assms(1-3,5)])
  have pass: "bs_pass False (sy_machine s m) = Inr b" "bs_pass True (sy_machine s m) = Inl Abort"
    using b(1) by (simp_all add: bs_pass_def)
  let ?s1 = "s\<lparr>sy_machine := (sy_machine s)(m := b)\<rparr>"
  let ?s2 = "?s1\<lparr>sy_machine := (sy_machine ?s1)(m := (sy_machine ?s1 m)\<lparr>bs_inside := False\<rparr>)\<rparr>"
  have "bs_step s ?s1 \<and> bs_step ?s1 ?s2 \<and> left ?s2 m = left s m + 1" if full: "bs_cnt b = MACHINE_NUM"
  proof (intro conjI)
    show "bs_step s ?s1" by (rule bs_step.poll [OF assms(2-4) pass(1)])
    show "bs_step ?s1 ?s2" by (rule bs_step.leave) (use assms(2) b(2) full in simp_all)
    have "0 < entered s m" using bs_reach_inv [OF assms(1)] assms(2,3) by (simp add: bs_inv_def machine_ok_def)
    then show "left ?s2 m = left s m + 1" using assms(3) b(3) by (simp add: left_def entered_def)
  qed
  moreover have "sy_machine ?s1 m = b" by simp
  ultimately show ?thesis using pass b(4) by blast
qed

section \<open>Witnesses\<close>

text \<open>Every machine in turn enters its first barrier.\<close>

primrec ex_entered :: "nat \<Rightarrow> bs_sys" where
  "ex_entered 0 = bs_init"
| "ex_entered (Suc m) = (ex_entered m)\<lparr>sy_machine := (sy_machine (ex_entered m))(m := fst (bs_enter m (sy_machine (ex_entered m) m))),
     sy_net := (\<lambda>p. if p < MACHINE_NUM \<and> p \<noteq> m then sy_net (ex_entered m) p @ [snd (bs_enter m (sy_machine (ex_entered m) m))]
       else sy_net (ex_entered m) p)\<rparr>"

lemma ex_entered_machine:
  "sy_machine (ex_entered n) m = (if m < n then fst (bs_enter m (sy_machine bs_init m)) else sy_machine bs_init m)"
  by (induction n) auto

lemma ex_entered_reach: "n \<le> MACHINE_NUM \<Longrightarrow> bs_reach (ex_entered n)"
proof (induction n)
  case 0
  show ?case by (simp add: bs_reach.init)
next
  case (Suc n)
  let ?s = "ex_entered n"
  have m: "sy_machine ?s n = sy_machine bs_init n" by (simp add: ex_entered_machine)
  have "bs_step ?s (ex_entered (Suc n))"
    unfolding ex_entered.simps
    by (rule bs_step.enter) (use Suc.prems in \<open>simp_all add: m bs_init_def word_less_nat_alt unsigned_minus_1_eq_mask mask_eq_exp_minus_1\<close>)
  with Suc show ?case by (auto intro: bs_reach.step)
qed

theorem build_sync_separates_witness:
  "left (ex_entered 2) 0 \<le> entered (ex_entered 2) 5 \<and> entered (ex_entered 2) 0 \<le> entered (ex_entered 2) 5 + 1 \<and>
   entered (ex_entered 2) 0 = 1"
  using build_sync_separates [OF ex_entered_reach, of 2 0 5] by (simp add: config_defs entered_def ex_entered_machine bs_enter_def bs_init_def)

primrec ex_delivered :: "nat \<Rightarrow> bs_sys" where
  "ex_delivered 0 = ex_entered 16"
| "ex_delivered (Suc n) = (let s = ex_delivered n in
     s\<lparr>sy_machine := (sy_machine s)(0 := (sy_machine s 0)\<lparr>bs_queue := bs_queue (sy_machine s 0) @ [hd (sy_net s 0)]\<rparr>),
       sy_net := (sy_net s)(0 := tl (sy_net s 0))\<rparr>)"

lemma ex_delivered_net: "length (sy_net (ex_delivered n) 0) = 15 - n"
proof (induction n)
  case 0
  have "length (sy_net (ex_entered n) 0) = n - 1" for n by (induction n) (auto simp: bs_init_def config_defs)
  then show ?case by simp
qed (simp add: Let_def)

lemma ex_delivered_reach: "n \<le> 15 \<Longrightarrow> bs_reach (ex_delivered n)"
proof (induction n)
  case 0
  show ?case using ex_entered_reach [of 16] by (simp add: config_defs)
next
  case (Suc n)
  obtain msg ys where net: "sy_net (ex_delivered n) 0 = msg # ys"
    using ex_delivered_net [of n] Suc.prems by (cases "sy_net (ex_delivered n) 0") auto
  have "bs_step (ex_delivered n) (ex_delivered (Suc n))"
    using bs_step.deliver [of 0 "ex_delivered n" "[]" msg ys] net by (simp add: Let_def config_defs)
  with Suc show ?case by (auto intro: bs_reach.step)
qed

lemma ex_delivered_state:
  "bs_round (sy_machine (ex_delivered n) k) = bs_round (sy_machine (ex_entered 16) k)"
  "bs_inside (sy_machine (ex_delivered n) k) = bs_inside (sy_machine (ex_entered 16) k)"
  "bs_cnt (sy_machine (ex_delivered n) k) = bs_cnt (sy_machine (ex_entered 16) k)"
  by (induction n arbitrary: k) (simp_all add: Let_def)

lemmas ex_delivered_simps = left_def entered_def ex_delivered_state ex_entered_machine bs_enter_def bs_init_def config_defs

theorem build_sync_completes_witness:
  "\<exists>b. bs_pass False (sy_machine (ex_delivered 15) 0) = Inr b \<and> bs_cnt b = MACHINE_NUM \<and>
     bs_pass True (sy_machine (ex_delivered 15) 0) = Inl Abort"
proof -
  let ?s = "ex_delivered 15"
  have "bs_reach ?s" by (rule ex_delivered_reach) simp
  moreover have "sy_net ?s 0 = []" using ex_delivered_net [of 15] by simp
  moreover have "0 < MACHINE_NUM" "bs_inside (sy_machine ?s 0)" "bs_cnt (sy_machine ?s 0) < MACHINE_NUM"
    by (simp_all add: ex_delivered_simps)
  moreover have "left ?s 0 < entered ?s k" if "k < MACHINE_NUM" for k
    using that by (simp add: ex_delivered_simps)
  ultimately show ?thesis using build_sync_completes [of ?s 0] by blast
qed

end
