(* ===== verification/Index_Exchange.thy ===== *)
theory Index_Exchange
  imports Rdma_Buffers
begin

text \<open>
  The exchange of remote neighbour arrays while a partitioned index is built:
  \<^verbatim>\<open>swap_scala_index_meta_info\<close> (how many neighbours each machine will send to each other) and
  \<^verbatim>\<open>swap_scalagraph_remote_ngh\<close> (the arrays themselves, cut into messages of at most
  \<^const>\<open>MAX_QUERYBUFFER_SIZE\<close> bytes) of \<^verbatim>\<open>src/rdma/rdma_comm.cc\<close>.  Arrays are their bytes; the queue of
  a receiver holds the messages of one sender in the order of the posts.
\<close>

section \<open>Sizes\<close>

definition meta_msg :: "u32 \<Rightarrow> u64 list \<Rightarrow> byte list" where
  "meta_msg machine_id out_remote_ngh_num = [] @ enc_u32 machine_id @ concat (map enc_u64 out_remote_ngh_num)"

definition recv_meta :: "byte list \<Rightarrow> u64 list list \<Rightarrow> u64 list list option" where
  "recv_meta msg in_remote_ngh_num = do {
     (send_machine_id, s) \<leftarrow> rd_u32 msg;
     (in_ngh_num, _) \<leftarrow> rd_many MACHINE_NUM rd_u64 s;
     if unat send_machine_id < length in_remote_ngh_num
     then Some (in_remote_ngh_num[unat send_machine_id := in_remote_ngh_num ! unat send_machine_id @ in_ngh_num])
     else None }"

section \<open>Neighbour arrays\<close>

definition trans_max :: nat where
  "trans_max = (MAX_QUERYBUFFER_SIZE - 4 - 4) div 4"

text \<open>The sender's loop; \<open>send_cnt\<close> counts the identifiers that have been sent.\<close>

function send_ngh :: "u32 \<Rightarrow> byte list \<Rightarrow> nat \<Rightarrow> nat \<Rightarrow> crash + byte list list" where
  "send_ngh machine_id ptr num send_cnt =
     (if send_cnt < num then
        let n = min trans_max (num - send_cnt) in
        if length ptr < 4 * (send_cnt + n) then Inl OutOfBounds
        else case send_ngh machine_id ptr num (send_cnt + n) of
            Inl e \<Rightarrow> Inl e
          | Inr msgs \<Rightarrow> Inr ((enc_u32 machine_id @ enc_u32 (word_of_nat n) @ take (4 * n) (drop (4 * send_cnt) ptr)) # msgs)
      else Inr [])"
  by pat_completeness auto
termination
  by (relation "measure (\<lambda>(_, _, num, send_cnt). num - send_cnt)") (auto simp: trans_max_def config_defs)

declare send_ngh.simps [simp del]

definition write_at :: "nat \<Rightarrow> byte list \<Rightarrow> byte list \<Rightarrow> crash + byte list" where
  "write_at ofs bs mem = (if ofs + length bs \<le> length mem then Inr (take ofs mem @ bs @ drop (ofs + length bs) mem) else Inl OutOfBounds)"

text \<open>The receiver's loop, with the rest of the queue; \<^const>\<open>Busy\<close> while a message is missing.\<close>

fun recv_ngh :: "nat \<Rightarrow> nat \<Rightarrow> nat \<Rightarrow> byte list list \<Rightarrow> byte list \<Rightarrow> crash + byte list \<times> byte list list" where
  "recv_ngh expect_num start cnt queue recv_ptr =
     (if cnt < expect_num then
        (case queue of
           [] \<Rightarrow> Inl Busy
         | msg # rest \<Rightarrow>
             (case (do { (_, s) \<leftarrow> rd_u32 msg; (recv_num, s) \<leftarrow> rd_u32 s; (bs, _) \<leftarrow> rd_bytes (4 * unat recv_num) s; Some (recv_num, bs) }) of
                None \<Rightarrow> Inl OutOfBounds
              | Some (recv_num, bs) \<Rightarrow>
                  (case write_at (start + 4 * cnt) bs recv_ptr of
                     Inl e \<Rightarrow> Inl e
                   | Inr recv_ptr \<Rightarrow> recv_ngh expect_num start (cnt + unat recv_num) rest recv_ptr)))
      else Inr (recv_ptr, queue))"

declare recv_ngh.simps [simp del]

section \<open>Correctness\<close>

lemma write_twice:
  assumes "start + length a + length b \<le> length mem"
  shows "write_at (start + length a) b (take start mem @ a @ drop (start + length a) mem) = write_at start (a @ b) mem"
  using assms by (simp add: write_at_def ac_simps)

lemma send_ngh_step:
  assumes "send_cnt < num" "length ptr = 4 * num" "num < 2 ^ 32"
  defines "n \<equiv> min trans_max (num - send_cnt)"
  shows "0 < n" "unat (word_of_nat n :: u32) = n" "send_cnt + n \<le> num" "\<not> length ptr < 4 * (send_cnt + n)"
    "length (enc_u32 mid @ enc_u32 (word_of_nat n) @ take (4 * n) (drop (4 * send_cnt) ptr)) \<le> MAX_QUERYBUFFER_SIZE"
proof -
  have n: "n \<le> trans_max" "n \<le> num - send_cnt" by (simp_all add: n_def)
  show "0 < n" using assms(1) by (simp add: n_def trans_max_def config_defs)
  show "unat (word_of_nat n :: u32) = n" using n(2) assms(3) by simp
  show "send_cnt + n \<le> num" "\<not> length ptr < 4 * (send_cnt + n)" using n(2) assms(1,2) by simp_all
  show "length (enc_u32 mid @ enc_u32 (word_of_nat n) @ take (4 * n) (drop (4 * send_cnt) ptr)) \<le> MAX_QUERYBUFFER_SIZE"
    using n(1) by (simp add: len_simps trans_max_def config_defs)
qed

lemma transfer_from:
  assumes "send_cnt \<le> num" "length ptr = 4 * num" "num < 2 ^ 32" "start + 4 * num \<le> length mem"
  shows "\<exists>msgs. send_ngh mid ptr num send_cnt = Inr msgs \<and> list_all (\<lambda>m. length m \<le> MAX_QUERYBUFFER_SIZE) msgs \<and>
    recv_ngh num start send_cnt (msgs @ rest) (take start mem @ take (4 * send_cnt) ptr @ drop (start + 4 * send_cnt) mem) =
      Inr (take start mem @ ptr @ drop (start + 4 * num) mem, rest)"
  using assms(1)
proof (induction "num - send_cnt" arbitrary: send_cnt rule: less_induct)
  case less
  show ?case
  proof (cases "send_cnt < num")
    case True
    let ?n = "min trans_max (num - send_cnt)"
    let ?bs = "take (4 * ?n) (drop (4 * send_cnt) ptr)"
    let ?msg = "enc_u32 mid @ enc_u32 (word_of_nat ?n) @ ?bs"
    let ?mem = "\<lambda>c. take start mem @ take (4 * c) ptr @ drop (start + 4 * c) mem"
    note st = send_ngh_step [OF True assms(2,3)]
    have "num - (send_cnt + ?n) < num - send_cnt" using st(1) True by simp
    from less.hyps [OF this st(3)] obtain msgs where IH: "send_ngh mid ptr num (send_cnt + ?n) = Inr msgs"
      "list_all (\<lambda>m. length m \<le> MAX_QUERYBUFFER_SIZE) msgs"
      "recv_ngh num start (send_cnt + ?n) (msgs @ rest) (?mem (send_cnt + ?n)) = Inr (take start mem @ ptr @ drop (start + 4 * num) mem, rest)"
      by blast
    have run: "send_ngh mid ptr num send_cnt = Inr (?msg # msgs)"
      using True st(4) by (subst send_ngh.simps) (simp add: Let_def IH(1))
    have len: "length ?bs = 4 * ?n" using st(3) assms(2) by simp
    have read: "(do { (_, s) \<leftarrow> rd_u32 ?msg; (recv_num, s) \<leftarrow> rd_u32 s; (bs, _) \<leftarrow> rd_bytes (4 * unat recv_num) s; Some (recv_num, bs) }) =
        Some (word_of_nat ?n, ?bs)"
      using rd_bytes_append [OF len, of "[]"] by (simp add: u32.rd_enc st(2))
    have "take (4 * (send_cnt + ?n)) ptr = take (4 * send_cnt) ptr @ ?bs" by (simp add: take_add [symmetric] distrib_left)
    then have w: "write_at (start + 4 * send_cnt) ?bs (?mem send_cnt) = Inr (?mem (send_cnt + ?n))"
      using write_twice [of start "take (4 * send_cnt) ptr" ?bs mem] st(3) assms(2,4) less.prems
      by (simp add: write_at_def len distrib_left ac_simps)
    have "recv_ngh num start send_cnt ((?msg # msgs) @ rest) (?mem send_cnt) =
        recv_ngh num start (send_cnt + ?n) (msgs @ rest) (?mem (send_cnt + ?n))"
      by (subst recv_ngh.simps) (simp only: True if_True append_Cons list.case read option.case prod.case w sum.case st(2))
    with IH run st(5) [of mid] show ?thesis by (intro exI [of _ "?msg # msgs"]) simp
  next
    case False
    then have "send_cnt = num" using less.prems by simp
    then show ?thesis using assms(2) by (subst send_ngh.simps, subst recv_ngh.simps) simp
  qed
qed

text \<open>The sizes reach their row of the receiver's table unchanged.\<close>

lemma meta_roundtrip:
  assumes "length nums = MACHINE_NUM" and "unat machine_id < length table"
  shows "recv_meta (meta_msg machine_id nums) table = Some (table[unat machine_id := table ! unat machine_id @ nums])"
  using assms u64.rd_many_enc [of nums "[]"] by (simp add: recv_meta_def meta_msg_def u32.rd_enc)

section \<open>Properties\<close>

text \<open>Property C31. The exchange of neighbour arrays is lossless for every array of fewer than \<open>2 ^ 32\<close>
  identifiers: the sender cuts it into messages that fit a slot, and the receiver, given these messages
  in order, writes exactly the array to its place, changes no other byte, and leaves the following messages
  in the queue.\<close>

theorem remote_ngh_transfer:
  assumes "length ptr = 4 * num" and "num < 2 ^ 32" and "start + 4 * num \<le> length mem"
  shows "\<exists>msgs. send_ngh machine_id ptr num 0 = Inr msgs \<and> list_all (app_msg SCALA_NGH) msgs \<and>
    recv_ngh num start 0 (msgs @ rest) mem = Inr (take start mem @ ptr @ drop (start + 4 * num) mem, rest)"
  using transfer_from [OF _ assms, of 0 machine_id rest] by (auto simp: app_msg_def list_all_iff)

theorem remote_ngh_transfer_witness:
  "\<exists>msgs. send_ngh 3 [1, 0, 0, 0, 2, 0, 0, 0] 2 0 = Inr msgs \<and>
     recv_ngh 2 1 0 (msgs @ [[9]]) [7, 7, 7, 7, 7, 7, 7, 7, 7, 8] = Inr ([7, 1, 0, 0, 0, 2, 0, 0, 0, 8], [[9]])"
  using remote_ngh_transfer [of "[1, 0, 0, 0, 2, 0, 0, 0]" 2 1 "[7, 7, 7, 7, 7, 7, 7, 7, 7, 8]" 3 "[[9]]"] by auto

end
