(* ===== verification/Baseline2.thy ===== *)
theory Baseline2
  imports Query_Msg
begin

text \<open>
  The shared-nothing baseline (``B2''): every machine searches its own partition, and the machine that
  owns the query merges the answers.  \<^verbatim>\<open>post_b2_start\<close>, \<^verbatim>\<open>poll_b2_start\<close> of \<^verbatim>\<open>src/rdma/rdma_comm.cc\<close>
  and \<^verbatim>\<open>post_b2_end\<close>, \<^verbatim>\<open>poll_b2_end\<close> of \<^verbatim>\<open>include/rdma/rdma_comm.h\<close>.  A queue of received messages is a
  list; a polling loop that finds it empty is \<^const>\<open>Busy\<close>.
\<close>

definition post_b2_start :: "u32 \<Rightarrow> byte list \<Rightarrow> u64 \<Rightarrow> byte list" where
  "post_b2_start qid query ef =
     (let buf = [] @ enc_u64 (word_of_nat (length query)); buf = buf @ query; buf = buf @ enc_u64 ef in buf @ enc_u32 qid)"

definition poll_b2_start :: "byte list \<Rightarrow> (byte list \<times> u64 \<times> u32) option" where
  "poll_b2_start msg = do {
     (query_size, s) \<leftarrow> rd_u64 msg;
     (query, s) \<leftarrow> rd_bytes (unat query_size) s;
     (ef, s) \<leftarrow> rd_u64 s;
     (qid, _) \<leftarrow> rd_u32 s;
     Some (query, ef, qid) }"

definition post_b2_end :: "u32 \<Rightarrow> (dist_t \<times> u64) list \<Rightarrow> u64 \<Rightarrow> byte list" where
  "post_b2_end qid result_buf compute_cnt =
     (let buf = [] @ enc_u32 qid; buf = buf @ enc_u64 (word_of_nat (length result_buf));
          buf = foldl (\<lambda>buf res. buf @ enc_label res) buf result_buf
      in buf @ enc_u64 compute_cnt)"

text \<open>One message of \<^verbatim>\<open>poll_b2_end\<close>: the answers are pushed, then the queue is cut to \<open>k\<close>.\<close>

definition merge_b2_end :: "nat \<Rightarrow> byte list \<Rightarrow> (dist_t \<times> u64) list \<times> u32 \<times> u64 \<Rightarrow> ((dist_t \<times> u64) list \<times> u32 \<times> u64) option" where
  "merge_b2_end k msg st = do {
     (qid, s) \<leftarrow> rd_u32 msg;
     (buf_sz, s) \<leftarrow> rd_u64 s;
     (rs, s) \<leftarrow> rd_many (unat buf_sz) rd_label s;
     (recv_comp_cnt, _) \<leftarrow> rd_u64 s;
     Some (pq_trim k (push_all result_key rs (fst st)), qid, snd (snd st) + recv_comp_cnt) }"

fun poll_b2_end ::
  "nat \<Rightarrow> nat \<Rightarrow> byte list list \<Rightarrow> (dist_t \<times> u64) list \<times> u32 \<times> u64 \<Rightarrow> crash + ((dist_t \<times> u64) list \<times> u32 \<times> u64) \<times> byte list list" where
  "poll_b2_end k 0 queue st = Inr (st, queue)"
| "poll_b2_end k (Suc missing) [] st = Inl Busy"
| "poll_b2_end k (Suc missing) (msg # queue) st =
     (case merge_b2_end k msg st of None \<Rightarrow> Inl OutOfBounds | Some st' \<Rightarrow> poll_b2_end k missing queue st')"

text \<open>\<^verbatim>\<open>dispatch_kmeans_query_end\<close>: the local answers in the order of the pops.  The assertion behind the
  loop compares \<open>k\<close> with a counter that is never incremented; assertions are disabled in every build that
  compiles, and it is left out.\<close>

definition dispatch_query_end :: "u32 \<Rightarrow> (dist_t \<times> u64) list \<Rightarrow> byte list" where
  "dispatch_query_end qid result = post_b2_end qid (pq_drain result) 0"

section \<open>Correctness\<close>

lemma b2_start_roundtrip:
  "length query < 2 ^ 64 \<Longrightarrow> poll_b2_start (post_b2_start qid query ef) = Some (query, ef, qid)"
  using u32.rd_enc [of qid "[]"] by (simp add: poll_b2_start_def post_b2_start_def u64.rd_enc u32.rd_enc rd_bytes_append)

lemma merge_b2_end_msg:
  assumes "length rs < 2 ^ 64"
  shows "merge_b2_end k (post_b2_end qid rs cnt) st = Some (pq_trim k (push_all result_key rs (fst st)), qid, snd (snd st) + cnt)"
proof -
  have "post_b2_end qid rs cnt = enc_u32 qid @ enc_u64 (word_of_nat (length rs)) @ concat (map enc_label rs) @ enc_u64 cnt"
    by (simp add: post_b2_end_def foldl_emit)
  then show ?thesis using assms u64.rd_enc [of cnt "[]"]
    by (simp add: merge_b2_end_def u32.rd_enc u64.rd_enc label.rd_many_enc)
qed

lemma best_of_more:
  assumes "best_of key k M R" "best_of key k (R + N) R'"
  shows "best_of key k (M + N) R'"
proof -
  obtain L where M: "M = R + L" using assms(1) by (metis best_of_def subset_mset.le_iff_add)
  obtain P where RN: "R + N = R' + P" using assms(2) by (metis best_of_def subset_mset.le_iff_add)
  have all: "M + N = R' + (P + L)" using M RN by (simp add: ac_simps)
  have sz: "size R = min k (size M)" "size R' = min k (size R + size N)" using assms by (auto simp: best_of_def)
  have "size R' = min k (size (M + N))" using sz M by auto
  moreover have "key x \<le> key y" if x: "x \<in># R'" and y: "y \<in># P + L" for x y
  proof (cases "y \<in># P")
    case True
    then show ?thesis using assms(2) x RN by (auto simp: best_of_def)
  next
    case False
    then have yL: "y \<in># L" using y by simp
    then have full: "size R = k" "\<forall>z\<in>#R. key z \<le> key y"
      using assms(1) M by (auto simp: best_of_def min_def split: if_splits)
    show ?thesis
    proof (cases "P \<inter># R = {#}")
      case True
      have "R \<subseteq># R'"
      proof (rule mset_subset_eqI)
        fix a
        have "count R a + count N a = count R' a + count P a" using arg_cong [OF RN, of "\<lambda>X. count X a"] by simp
        moreover have "count P a = 0 \<or> count R a = 0" using True by (metis count_eq_zero_iff disjunct_not_in)
        ultimately show "count R a \<le> count R' a" by auto
      qed
      then have "R = R'" using sz full(1) by (metis min.cobounded1 mset_subset_size not_less subset_mset.le_less)
      then show ?thesis using full(2) x by blast
    next
      case False
      then obtain z where "z \<in># P" "z \<in># R" by (meson disjunct_not_in)
      then show ?thesis using assms(2) x RN full(2) by (fastforce simp: best_of_def)
    qed
  qed
  ultimately show ?thesis using all by (auto simp: best_of_def)
qed

lemma best_of_unique:
  assumes "best_of key k M R" "best_of key k M R'" "inj key"
  shows "R = R'"
proof (rule ccontr)
  assume "R \<noteq> R'"
  have sub: "R \<subseteq># M" "R' \<subseteq># M" "size R = size R'" using assms(1,2) by (auto simp: best_of_def)
  have ex: "\<exists>x. count B x < count A x" if "A \<noteq> B" "size A = size B" for A B :: "'a multiset"
    using that by (metis le_less_linear mset_subset_eqI mset_subset_size nat_neq_iff subset_mset.le_less)
  obtain x y where xy: "count R' x < count R x" "count R y < count R' y"
    using ex [of R R'] ex [of R' R] sub(3) \<open>R \<noteq> R'\<close> by metis
  have "x \<in># R" "y \<in># R'" using xy by (auto simp: count_greater_zero_iff [symmetric] simp del: count_greater_zero_iff)
  moreover have "x \<in># M - R'" "y \<in># M - R"
    using xy mset_subset_eq_count [OF sub(1), of x] mset_subset_eq_count [OF sub(2), of y] by (auto simp: in_diff_count)
  ultimately have "key x \<le> key y" "key y \<le> key x" using assms(1,2) by (auto simp: best_of_def)
  then have "x = y" using assms(3) by (simp add: inj_eq)
  with xy show False by simp
qed

lemma best_of_sorted: "best_of (\<lambda>x. x) k (mset xs) (mset (take k (sort (xs :: 'a::linorder list))))"
proof -
  let ?s = "sort xs"
  have split: "mset xs = mset (take k ?s) + mset (drop k ?s)" by (metis append_take_drop_id mset_append mset_sort)
  have "x \<le> y" if "x \<in> set (take k ?s)" "y \<in> set (drop k ?s)" for x y
    using that sorted_sort [of xs] by (metis append_take_drop_id sorted_append)
  with split show ?thesis by (auto simp: best_of_def min.commute)
qed

lemma pq_wf_sorted:
  assumes "pq_wf result_key q" "mset q = mset xs" "sorted xs"
  shows "q = rev xs"
proof -
  have "sorted (rev q)" using assms(1) by (simp add: pq_wf_def result_key_def sorted_wrt_rev)
  then have "rev q = sort xs" using properties_for_sort [of "rev q" xs] assms(2) by simp
  then show ?thesis using assms(3) by (simp add: sorted_sort_id) (metis rev_rev_ident)
qed

lemma merge_all:
  assumes "list_all (\<lambda>a. length (fst (snd a)) < 2 ^ 64) answers" "pq_wf result_key result"
  shows "\<exists>result' qid'. poll_b2_end k (length answers) (map (\<lambda>a. post_b2_end (fst a) (fst (snd a)) (snd (snd a))) answers @ rest) (result, qid, cnt) =
      Inr ((result', qid', cnt + sum_list (map (\<lambda>a. snd (snd a)) answers)), rest) \<and> pq_wf result_key result' \<and>
    (\<forall>M. best_of result_key k M (mset result) \<longrightarrow>
       best_of result_key k (M + mset (concat (map (\<lambda>a. fst (snd a)) answers))) (mset result'))"
  using assms
proof (induction answers arbitrary: result qid cnt)
  case Nil
  then show ?case by simp
next
  case (Cons a answers)
  let ?r = "pq_trim k (push_all result_key (fst (snd a)) result)"
  have wf: "pq_wf result_key (push_all result_key (fst (snd a)) result)" by (rule push_all_wf [OF Cons.prems(2)])
  note t = pq_trim_best [OF wf, of k]
  have ok: "list_all (\<lambda>a. length (fst (snd a)) < 2 ^ 64) answers" using Cons.prems(1) by simp
  obtain result' qid' where r: "poll_b2_end k (length answers) (map (\<lambda>a. post_b2_end (fst a) (fst (snd a)) (snd (snd a))) answers @ rest)
      (?r, fst a, cnt + snd (snd a)) = Inr ((result', qid', cnt + snd (snd a) + sum_list (map (\<lambda>a. snd (snd a)) answers)), rest)"
    "pq_wf result_key result'"
    "\<And>M. best_of result_key k M (mset ?r) \<Longrightarrow> best_of result_key k (M + mset (concat (map (\<lambda>a. fst (snd a)) answers))) (mset result')"
    using Cons.IH [OF ok t(1), of "fst a" "cnt + snd (snd a)"] by blast
  have "best_of result_key k (M + mset (concat (map (\<lambda>a. fst (snd a)) (a # answers)))) (mset result')" if "best_of result_key k M (mset result)" for M
  proof -
    have "best_of result_key k (mset result + mset (fst (snd a))) (mset ?r)" using t(2) by (simp add: ac_simps)
    from r(3) [OF best_of_more [OF that this]] show ?thesis by (simp add: ac_simps)
  qed
  then show ?case using r(1,2) Cons.prems(1) by (auto simp: merge_b2_end_msg add.assoc)
qed

section \<open>Properties\<close>

text \<open>Property C23. Merging the answers of the machines is the same as sorting all of them and keeping
  the \<open>k\<close> nearest: whatever the order in which the messages arrive, the result queue holds, in the order
  of its pops, the reverse of the first \<open>k\<close> of the sorted answers, and the computation counts are added
  up.\<close>

theorem poll_b2_end_sorts:
  assumes "list_all (\<lambda>a. length (fst (snd a)) < 2 ^ 64) answers"
  shows "\<exists>qid'. poll_b2_end k (length answers) (map (\<lambda>a. post_b2_end (fst a) (fst (snd a)) (snd (snd a))) answers @ rest) ([], qid, cnt) =
    Inr ((rev (take k (sort (concat (map (\<lambda>a. fst (snd a)) answers)))), qid', cnt + sum_list (map (\<lambda>a. snd (snd a)) answers)), rest)"
proof -
  let ?all = "concat (map (\<lambda>a. fst (snd a)) answers)"
  have "pq_wf result_key []" by (simp add: pq_wf_def)
  from merge_all [OF assms this, of k rest qid cnt] obtain result' qid' where
    run: "poll_b2_end k (length answers) (map (\<lambda>a. post_b2_end (fst a) (fst (snd a)) (snd (snd a))) answers @ rest) ([], qid, cnt) =
      Inr ((result', qid', cnt + sum_list (map (\<lambda>a. snd (snd a)) answers)), rest)"
    and wf: "pq_wf result_key result'" and best: "best_of result_key k (mset ?all) (mset result')"
    using best_of_refl [of "{#}" k result_key] by force
  have "mset result' = mset (take k (sort ?all))"
    by (rule best_of_unique [OF best]) (use best_of_sorted [of k ?all] in \<open>simp_all add: result_key_def [abs_def] inj_on_def\<close>)
  then have "result' = rev (take k (sort ?all))" by (rule pq_wf_sorted [OF wf]) (simp add: sorted_wrt_take)
  with run show ?thesis by blast
qed

theorem poll_b2_end_sorts_witness:
  "\<exists>qid'. poll_b2_end 2 (Suc (Suc 0)) [post_b2_end 7 [(Dist 5, 1), (Dist 2, 9)] 3, post_b2_end 7 [(Dist 4, 8)] 4] ([], 0, 0) =
    Inr (([(Dist 4, 8), (Dist 2, 9)], qid', 7), [])"
  using poll_b2_end_sorts [of "[(7, [(Dist 5, 1), (Dist 2, 9)], 3), (7, [(Dist 4, 8)], 4)]" 2 "[]" 0 0]
  by (simp add: less_eq_prod_def less_dist_t_def less_eq_dist_t_def del: poll_b2_end.simps)

end
