(* ===== verification/Kmeans_Reorder.thy ===== *)
theory Kmeans_Reorder
  imports Prelude
begin

unbundle bit_operations_syntax

text \<open>
  The reordering of the data set by partition, \<^verbatim>\<open>include/index/kmeans.h\<close> and its caller
  \<^verbatim>\<open>transfer_kmeans\<close> of \<^verbatim>\<open>include/index/vamana/vamana.h\<close>: the identifier lists of the partitions
  give every vector a position, the two maps between labels and positions are written and read
  back, and the vectors are copied to their positions and checked at random places.  An \<^verbatim>\<open>int\<close> array
  holds the 32-bit words its elements are stored as, read by \<^const>\<open>sint\<close> where it is an index.  A file
  is its bytes, and \<^const>\<open>None\<close> when it does not exist.
\<close>

section \<open>Reading a stream\<close>

text \<open>\<^verbatim>\<open>istream::read\<close> of \<open>n\<close> bytes into a buffer: a short stream overwrites the front of the buffer only,
  and every later read of that stream finds nothing.\<close>

definition ifs_read :: "nat \<Rightarrow> byte list \<Rightarrow> byte list \<Rightarrow> byte list \<times> byte list" where
  "ifs_read n s buf = (take n s @ drop (min n (length s)) buf, drop n s)"

lemma ifs_read_append [codec_simps]: "length a = n \<Longrightarrow> length buf = n \<Longrightarrow> ifs_read n (a @ s) buf = (a, s)"
  by (simp add: ifs_read_def)

text \<open>\<^verbatim>\<open>seekg\<close> to a byte offset and a read: a stream that failed once stays failed and leaves the buffer as
  it is.\<close>

definition seek_read :: "byte list \<Rightarrow> int \<Rightarrow> nat \<Rightarrow> bool \<times> byte list \<Rightarrow> bool \<times> byte list" where
  "seek_read file ofs n st =
     (if fst st \<or> ofs < 0 then (True, snd st)
      else let s = drop (nat ofs) file in (length s < n, fst (ifs_read n s (snd st))))"

section \<open>The partitions\<close>

record part_state =
  ps_pid :: "u32 list"
  ps_label_pos :: "u32 list"
  ps_pos_label :: "u32 list"
  ps_part_offset :: "u32 list"
  ps_part_size :: "u32 list"
  ps_cnt :: nat

text \<open>The arrays of \<^verbatim>\<open>transfer_kmeans\<close> after \<^verbatim>\<open>memset(..., -1, ...)\<close>.\<close>

definition part_init :: "nat \<Rightarrow> nat \<Rightarrow> part_state" where
  "part_init vec_size part_num = \<lparr>ps_pid = replicate (2 * vec_size) (- 1), ps_label_pos = replicate vec_size (- 1),
     ps_pos_label = replicate vec_size (- 1), ps_part_offset = replicate vec_size (- 1),
     ps_part_size = replicate part_num (- 1), ps_cnt = 0\<rparr>"

text \<open>One identifier \<open>l\<close> of partition \<open>i\<close>, the \<open>k\<close>-th of it.\<close>

definition assign_label :: "nat \<Rightarrow> nat \<Rightarrow> u32 \<Rightarrow> part_state \<Rightarrow> crash + part_state" where
  "assign_label i k l st =
     (let n = length (ps_label_pos st); v = unat l; second = (ps_pid st ! (2 * v) \<noteq> - 1)
      in if v < n \<and> ps_cnt st < n then
           Inr (st\<lparr>ps_label_pos := (ps_label_pos st)[v := word_of_nat (ps_cnt st)],
             ps_pos_label := (ps_pos_label st)[ps_cnt st := l],
             ps_part_offset := (ps_part_offset st)[v := push_bit 28 (word_of_nat i) OR word_of_nat k],
             ps_pid := (ps_pid st)[(if second then 2 * v + 1 else 2 * v) := word_of_nat (i + 1)],
             ps_cnt := ps_cnt st + 1\<rparr>)
         else Inl OutOfBounds)"

text \<open>The loop \<^verbatim>\<open>while (input.tellg() < total_filesize)\<close>.  After a short read \<^verbatim>\<open>tellg()\<close> is -1, so the loop
  goes on until it leaves the arrays.\<close>

function assign_ids :: "nat \<Rightarrow> nat \<Rightarrow> byte list \<Rightarrow> part_state \<Rightarrow> crash + nat \<times> part_state" where
  "assign_ids i k s st =
     (if s = [] then Inr (k, st)
      else case rd_u32 s of
        None \<Rightarrow> Inl OutOfBounds
      | Some (l, s') \<Rightarrow> (case assign_label i k l st of
            Inl e \<Rightarrow> Inl e
          | Inr st \<Rightarrow> assign_ids i (k + 1) s' st))"
  by pat_completeness auto
termination
  by (relation "measure (\<lambda>(i, k, s, st). length s)")
    (auto simp: rd_u32_def rd_bytes_def split: if_splits)

declare assign_ids.simps [simp del]

definition read_part :: "nat \<Rightarrow> byte list option \<Rightarrow> part_state \<Rightarrow> crash + part_state" where
  "read_part i file st =
     (case file of
        None \<Rightarrow> Inr st
      | Some f \<Rightarrow> (case rd_bytes 8 f of
            None \<Rightarrow> Inl OutOfBounds
          | Some (_, s) \<Rightarrow> (case assign_ids i 0 s st of
                Inl e \<Rightarrow> Inl e
              | Inr (k, st) \<Rightarrow> Inr (st\<lparr>ps_part_size := (ps_part_size st)[i := word_of_nat k]\<rparr>))))"

primrec read_parts :: "nat \<Rightarrow> byte list option list \<Rightarrow> part_state \<Rightarrow> crash + part_state" where
  "read_parts i [] st = Inr st"
| "read_parts i (file # files) st =
     (case read_part i file st of Inl e \<Rightarrow> Inl e | Inr st \<Rightarrow> read_parts (i + 1) files st)"

text \<open>The second component is whether the final check prints that a vector has no partition.\<close>

definition read_partition :: "byte list option list \<Rightarrow> part_state \<Rightarrow> crash + part_state \<times> bool" where
  "read_partition files st =
     (case read_parts 0 files st of
        Inl e \<Rightarrow> Inl e
      | Inr st \<Rightarrow> Inr (st, list_ex (\<lambda>i. ps_pid st ! (2 * i) = 0) [0 ..< length (ps_label_pos st)]))"

section \<open>The map files\<close>

definition write_map_file :: "byte list option \<Rightarrow> nat \<Rightarrow> nat \<Rightarrow> u32 list \<Rightarrow> u32 list \<Rightarrow> byte list" where
  "write_map_file old vec_size part_num part_size m =
     (case old of
        Some f \<Rightarrow> f
      | None \<Rightarrow> enc_u32 (word_of_nat vec_size) @ enc_u32 (word_of_nat part_num) @
          concat (map enc_u32 (take part_num part_size)) @ concat (map enc_u32 (take vec_size m)))"

definition write_map ::
  "part_state \<Rightarrow> nat \<Rightarrow> nat \<Rightarrow> byte list option \<Rightarrow> byte list option \<Rightarrow> byte list \<times> byte list"
where
  "write_map st vec_size part_num pos_label_file label_pos_file =
     (write_map_file pos_label_file vec_size part_num (ps_part_size st) (ps_pos_label st),
      write_map_file label_pos_file vec_size part_num (ps_part_size st) (ps_label_pos st))"

text \<open>\<^verbatim>\<open>get_pos_label_map\<close> and \<^verbatim>\<open>get_label_pos_map\<close> are the same code on two files: a missing file ends the
  program, \<^verbatim>\<open>4 * vec_size\<close> and \<^verbatim>\<open>4 * part_num\<close> are \<^verbatim>\<open>int\<close> products, and a short file leaves the arrays
  uninitialised.\<close>

definition get_map :: "byte list option \<Rightarrow> crash + nat \<times> nat \<times> u32 list \<times> u32 list" where
  "get_map file =
     (case file of
        None \<Rightarrow> Inl Abort
      | Some f \<Rightarrow>
          (case do {
             (vec_size, s) \<leftarrow> rd_u32 f;
             (part_num, s) \<leftarrow> rd_u32 s;
             if 4 * unat part_num < 2 ^ 31 \<and> 4 * unat vec_size < 2 ^ 31 then do {
               (part_size, s) \<leftarrow> rd_many (unat part_num) rd_u32 s;
               (m, s) \<leftarrow> rd_many (unat vec_size) rd_u32 s;
               Some (unat vec_size, unat part_num, part_size, m) } else None } of
             None \<Rightarrow> Inl OutOfBounds
           | Some r \<Rightarrow> Inr r))"

section \<open>Copying the vectors\<close>

definition put_row :: "u32 \<Rightarrow> byte list \<Rightarrow> byte list list \<Rightarrow> crash + byte list list" where
  "put_row pos row mem =
     (if 0 \<le> sint pos \<and> nat (sint pos) < length mem then Inr (mem[nat (sint pos) := row]) else Inl OutOfBounds)"

primrec copy_rows ::
  "nat \<Rightarrow> u32 list \<Rightarrow> nat list \<Rightarrow> byte list \<Rightarrow> byte list \<Rightarrow> byte list list \<Rightarrow> crash + byte list list"
where
  "copy_rows len label_pos [] s massb mem = Inr mem"
| "copy_rows len label_pos (j # js) s massb mem =
     (case ifs_read len s massb of (massb, s) \<Rightarrow>
        if j < length label_pos then
          (case put_row (label_pos ! j) massb mem of
             Inl e \<Rightarrow> Inl e
           | Inr mem \<Rightarrow> copy_rows len label_pos js s massb mem)
        else Inl OutOfBounds)"

text \<open>The random check against the original file: \<open>rs\<close> are the values of \<^verbatim>\<open>rand()\<close>.\<close>

primrec check_rows ::
  "nat \<Rightarrow> nat \<Rightarrow> u32 list \<Rightarrow> byte list \<Rightarrow> byte list list \<Rightarrow> nat list \<Rightarrow> bool \<times> byte list \<Rightarrow> crash + unit"
where
  "check_rows len vec_size pos_label origin mem [] st = Inr ()"
| "check_rows len vec_size pos_label origin mem (r # rs) st =
     (let v = r mod vec_size in
      if v < length pos_label \<and> v < length mem then
        (case seek_read origin (sint (pos_label ! v) * int len + 8) len st of (bad, vec) \<Rightarrow>
           if mem ! v \<noteq> vec then Inl Abort else check_rows len vec_size pos_label origin mem rs (bad, vec))
      else Inl OutOfBounds)"

text \<open>The writing loop: \<open>w\<close> bytes at a time, the last time what is left.\<close>

function write_chunks :: "nat \<Rightarrow> nat \<Rightarrow> byte list \<Rightarrow> byte list" where
  "write_chunks w i bytes =
     (if i < length bytes \<and> 0 < w then
        (let w = (if i + w > length bytes then length bytes - i else w)
         in take w (drop i bytes) @ write_chunks w (i + w) bytes)
      else [])"
  by pat_completeness auto
termination
  by (relation "measure (\<lambda>(w, i, bytes). length bytes - i)") auto

declare write_chunks.simps [simp del]

lemma write_chunks_all: "0 < w \<Longrightarrow> write_chunks w i bytes = drop i bytes"
proof (induction w i bytes rule: write_chunks.induct)
  case (1 w i bytes)
  let ?w = "if i + w > length bytes then length bytes - i else w"
  show ?case
  proof (cases "i < length bytes")
    case True
    then have "write_chunks ?w (i + ?w) bytes = drop (i + ?w) bytes"
      using "1.prems" by (intro "1.IH") auto
    moreover have "take ?w (drop i bytes) @ drop (i + ?w) bytes = drop i bytes"
      by (metis append_take_drop_id drop_drop add.commute)
    ultimately show ?thesis
      using True "1.prems" by (subst write_chunks.simps) (simp add: Let_def del: if_split)
  qed (simp add: write_chunks.simps)
qed

text \<open>\<open>junk b\<close> is what \<^verbatim>\<open>malloc\<close> and \<^verbatim>\<open>new\<close> leave in buffer \<open>b\<close>: \<^verbatim>\<open>massb\<close> (0), \<^verbatim>\<open>origin_vec\<close> (1) and
  \<^verbatim>\<open>reorder_data\<close> (2) here, the two buffers of the final check (3, 4).  \<^verbatim>\<open>assert\<close> is active.  A data file
  that cannot be opened reads as the empty one.\<close>

definition fresh :: "(nat \<Rightarrow> byte) \<Rightarrow> nat \<Rightarrow> nat \<Rightarrow> byte list" where
  "fresh junk ofs len = map junk [ofs ..< ofs + len]"

definition kmeans_reorder ::
  "(nat \<Rightarrow> nat \<Rightarrow> byte) \<Rightarrow> nat list \<Rightarrow> u32 list \<Rightarrow> u32 list \<Rightarrow> nat \<Rightarrow> byte list \<Rightarrow> nat \<Rightarrow> nat \<Rightarrow> crash + byte list"
where
  "kmeans_reorder junk rs label_pos pos_label vec_size data vecdim len =
     (case ifs_read 4 data (replicate 4 0) of (vecnum_1b, s) \<Rightarrow>
        if le_val vecnum_1b \<noteq> 1000000000 then Inl Abort
        else (case ifs_read 4 s (replicate 4 0) of (read_dim, s) \<Rightarrow>
          if le_val read_dim \<noteq> vecdim then Inl Abort
          else (case copy_rows len label_pos [0 ..< max 1 vec_size] s (fresh (junk 0) 0 len)
                       (map (\<lambda>v. fresh (junk 2) (v * len) len) [0 ..< vec_size]) of
              Inl e \<Rightarrow> Inl e
            | Inr mem \<Rightarrow> (case check_rows len vec_size pos_label data mem rs (False, fresh (junk 1) 0 len) of
                  Inl e \<Rightarrow> Inl e
                | Inr _ \<Rightarrow> Inr (write_chunks 100000000 0 (concat mem))))))"

primrec verify_rows ::
  "nat \<Rightarrow> byte list \<Rightarrow> byte list \<Rightarrow> u32 list \<Rightarrow> nat \<Rightarrow> nat list \<Rightarrow> bool \<times> byte list \<Rightarrow> bool \<times> byte list \<Rightarrow> crash + unit"
where
  "verify_rows len origin reorder pos_label vec_size [] a b = Inr ()"
| "verify_rows len origin reorder pos_label vec_size (r # rs) a b =
     (let v = r mod vec_size in
      if v < length pos_label then
        (let b = seek_read reorder (int (v * len)) len b;
             a = seek_read origin (sint (pos_label ! v) * int len + 8) len a
         in if snd b \<noteq> snd a then Inl Abort else verify_rows len origin reorder pos_label vec_size rs a b)
      else Inl OutOfBounds)"

definition verify_reorder_data ::
  "(nat \<Rightarrow> nat \<Rightarrow> byte) \<Rightarrow> nat list \<Rightarrow> byte list \<Rightarrow> byte list \<Rightarrow> u32 list \<Rightarrow> nat \<Rightarrow> nat \<Rightarrow> crash + unit"
where
  "verify_reorder_data junk rs data output pos_label vec_size len =
     verify_rows len data output pos_label vec_size rs (False, fresh (junk 3) 0 len) (False, fresh (junk 4) 0 len)"

text \<open>What the run reads and what the environment chooses: the files it finds, the values of
  \<^verbatim>\<open>rand()\<close> in the two checks and the content of fresh buffers.\<close>

record kmeans_env =
  ke_part_files :: "byte list option list"
  ke_data :: "byte list"
  ke_pos_label_file :: "byte list option"
  ke_label_pos_file :: "byte list option"
  ke_rand1 :: "nat list"
  ke_rand2 :: "nat list"
  ke_junk :: "nat \<Rightarrow> nat \<Rightarrow> byte"

text \<open>The files after the run: the two maps and the reordered data.  \<^verbatim>\<open>vec_size * 2 * 4\<close> is an \<^verbatim>\<open>int\<close>
  product; when it overflows the arrays are not the size the code uses.\<close>

definition transfer_kmeans ::
  "kmeans_env \<Rightarrow> nat \<Rightarrow> nat \<Rightarrow> nat \<Rightarrow> crash + byte list \<times> byte list \<times> byte list"
where
  "transfer_kmeans env vec_size vecdim len =
     (let part_num = length (ke_part_files env) in
      if vec_size * 2 * 4 \<ge> 2 ^ 31 then Inl OutOfBounds
      else case read_partition (ke_part_files env) (part_init vec_size part_num) of
        Inl e \<Rightarrow> Inl e
      | Inr (st, _) \<Rightarrow>
          (case write_map st vec_size part_num (ke_pos_label_file env) (ke_label_pos_file env) of (pl, lp) \<Rightarrow>
             (case kmeans_reorder (ke_junk env) (ke_rand1 env) (ps_label_pos st) (ps_pos_label st)
                     vec_size (ke_data env) vecdim len of
                Inl e \<Rightarrow> Inl e
              | Inr output \<Rightarrow>
                  (case get_map (Some pl) of
                     Inl e \<Rightarrow> Inl e
                   | Inr (_, _, _, tmp_pos_label) \<Rightarrow>
                       (case verify_reorder_data (ke_junk env) (ke_rand2 env) (ke_data env) output
                               tmp_pos_label vec_size len of
                          Inl e \<Rightarrow> Inl e
                        | Inr _ \<Rightarrow> Inr (pl, lp, output))))))"

section \<open>The positions\<close>

text \<open>The specification: the position of a label is its index in the concatenation of the lists.\<close>

definition label_index :: "u32 list \<Rightarrow> u32 \<Rightarrow> nat" where
  "label_index d l = length (takeWhile (\<lambda>x. x \<noteq> l) d)"

lemma label_index_nth: "distinct d \<Longrightarrow> p < length d \<Longrightarrow> label_index d (d ! p) = p"
  unfolding label_index_def by (induction d arbitrary: p) (auto simp: nth_Cons split: nat.splits)

lemma nth_label_index: "l \<in> set d \<Longrightarrow> label_index d l < length d \<and> d ! label_index d l = l"
  unfolding label_index_def by (induction d) auto

lemma label_index_append [simp]: "l \<in> set d \<Longrightarrow> label_index (d @ e) l = label_index d l"
  unfolding label_index_def by (induction d) auto

lemma label_index_new [simp]: "l \<notin> set d \<Longrightarrow> label_index (d @ [l]) l = length d"
  unfolding label_index_def by (induction d) auto

text \<open>The arrays after the identifiers \<open>d\<close>.\<close>

definition assigned :: "nat \<Rightarrow> u32 list \<Rightarrow> part_state \<Rightarrow> bool" where
  "assigned n d st \<longleftrightarrow> ps_cnt st = length d \<and> ps_pos_label st = d @ replicate (n - length d) (- 1) \<and>
     ps_label_pos st = map (\<lambda>v. if word_of_nat v \<in> set d then word_of_nat (label_index d (word_of_nat v)) else - 1) [0 ..< n]"

definition labels_ok :: "nat \<Rightarrow> u32 list \<Rightarrow> bool" where
  "labels_ok n d \<longleftrightarrow> distinct d \<and> (\<forall>l\<in>set d. unat l < n)"

lemma labels_ok_length: "labels_ok n d \<Longrightarrow> length d \<le> n"
proof -
  assume d: "labels_ok n d"
  then have "card (unat ` set d) \<le> card {..<n}" by (intro card_mono) (auto simp: labels_ok_def)
  moreover have "inj_on unat (set d)" by (rule inj_onI) (simp add: unsigned_word_eqI)
  ultimately show ?thesis using d by (simp add: card_image distinct_card labels_ok_def)
qed

lemma labels_ok_append: "labels_ok n (d @ e) \<Longrightarrow> labels_ok n d"
  by (simp add: labels_ok_def)

lemma word_of_nat_eq_unat: "v < 2 ^ 32 \<Longrightarrow> word_of_nat v = l \<longleftrightarrow> v = unat (l :: u32)"
  by (metis unat_size32 unsigned_word_eqI)

lemma assign_label_step:
  assumes st: "assigned n d st" and ok: "labels_ok n (d @ [l])" and n: "n \<le> 2 ^ 32"
  obtains st' where "assign_label i k l st = Inr st'" "assigned n (d @ [l]) st'"
    "ps_part_size st' = ps_part_size st"
proof -
  have len: "length d < n" using labels_ok_length [OF ok] by simp
  have l: "unat l < n" "l \<notin> set d" using ok by (auto simp: labels_ok_def)
  have rep: "(d @ replicate (n - length d) (- 1))[length d := l] = (d @ [l]) @ replicate (n - length (d @ [l])) (- 1)"
    using len by (cases "n - length d") (auto simp: list_update_append)
  have map: "(map f [0 ..< n])[unat l := word_of_nat (length d)] = map g [0 ..< n]"
    if "\<And>v. v < n \<Longrightarrow> g v = (if v = unat l then word_of_nat (length d) else f v)" for f g :: "nat \<Rightarrow> u32"
    using that by (auto intro!: nth_equalityI simp: nth_list_update)
  have "assign_label i k l st = Inr (st\<lparr>ps_label_pos := (ps_label_pos st)[unat l := word_of_nat (ps_cnt st)],
             ps_pos_label := (ps_pos_label st)[ps_cnt st := l],
             ps_part_offset := (ps_part_offset st)[unat l := push_bit 28 (word_of_nat i) OR word_of_nat k],
             ps_pid := (ps_pid st)[(if ps_pid st ! (2 * unat l) \<noteq> - 1 then 2 * unat l + 1 else 2 * unat l) := word_of_nat (i + 1)],
             ps_cnt := ps_cnt st + 1\<rparr>)" (is "_ = Inr ?st")
    using st len l by (simp add: assign_label_def assigned_def Let_def)
  moreover have "assigned n (d @ [l]) ?st"
  proof -
    have "(ps_label_pos st)[unat l := word_of_nat (length d)] = map (\<lambda>v. if word_of_nat v \<in> set (d @ [l])
        then word_of_nat (label_index (d @ [l]) (word_of_nat v)) else - 1) [0 ..< n]"
      using st l n by (auto simp: assigned_def word_of_nat_eq_unat intro!: map)
    with st len show ?thesis by (simp add: assigned_def rep del: append_assoc)
  qed
  ultimately show thesis using that by simp
qed

lemma assign_ids_all:
  assumes "assigned n d st" "labels_ok n (d @ ls)" "n \<le> 2 ^ 32"
  shows "\<exists>st'. assign_ids i k (concat (map enc_u32 ls)) st = Inr (k + length ls, st') \<and>
     assigned n (d @ ls) st' \<and> ps_part_size st' = ps_part_size st"
  using assms
proof (induction ls arbitrary: d k st)
  case Nil
  then show ?case by (simp add: assign_ids.simps)
next
  case (Cons l ls)
  have ok: "labels_ok n (d @ [l])" "labels_ok n ((d @ [l]) @ ls)"
    using Cons.prems(2) labels_ok_append [of n "d @ [l]" ls] by simp_all
  obtain st1 where st1: "assign_label i k l st = Inr st1" "assigned n (d @ [l]) st1" "ps_part_size st1 = ps_part_size st"
    using assign_label_step [OF Cons.prems(1) ok(1) Cons.prems(3)] .
  have "enc_u32 l \<noteq> []" using u32.length_enc [of l] by auto
  with Cons.IH [OF st1(2) ok(2) Cons.prems(3), of "k + 1"] st1 show ?case
    by (subst assign_ids.simps) (auto simp: u32.rd_enc)
qed

text \<open>The file of a partition: a header of two numbers and the identifiers.\<close>

definition part_file :: "byte list \<Rightarrow> u32 list \<Rightarrow> byte list" where
  "part_file header ls = header @ concat (map enc_u32 ls)"

lemma read_parts_all:
  assumes "assigned n d st" "labels_ok n (d @ concat parts)" "n \<le> 2 ^ 32" "length header = 8"
    "ps_part_size st = map (\<lambda>ls. word_of_nat (length ls)) pre @ replicate (length parts) (- 1)" "i = length pre"
  shows "\<exists>st'. read_parts i (map (\<lambda>ls. Some (part_file header ls)) parts) st = Inr st' \<and>
     assigned n (d @ concat parts) st' \<and> ps_part_size st' = map (\<lambda>ls. word_of_nat (length ls)) (pre @ parts)"
  using assms
proof (induction parts arbitrary: i d st pre)
  case (Cons ls parts)
  have ok: "labels_ok n (d @ ls)" "labels_ok n ((d @ ls) @ concat parts)"
    using Cons.prems(2) labels_ok_append [of n "d @ ls" "concat parts"] by simp_all
  obtain st1 where st1: "assign_ids i 0 (concat (map enc_u32 ls)) st = Inr (length ls, st1)"
      "assigned n (d @ ls) st1" "ps_part_size st1 = ps_part_size st"
    using assign_ids_all [OF Cons.prems(1) ok(1) Cons.prems(3), of i 0] by auto
  let ?st = "st1\<lparr>ps_part_size := (ps_part_size st1)[i := word_of_nat (length ls)]\<rparr>"
  have "read_part i (Some (part_file header ls)) st = Inr ?st"
    using Cons.prems(4) st1(1) by (simp add: read_part_def part_file_def rd_bytes_append)
  moreover have "assigned n (d @ ls) ?st" using st1(2) by (simp add: assigned_def)
  moreover have "ps_part_size ?st = map (\<lambda>ls. word_of_nat (length ls)) (pre @ [ls]) @ replicate (length parts) (- 1)"
    using Cons.prems(5,6) st1(3) by (simp add: list_update_append)
  ultimately show ?case
    using Cons.IH [of "d @ ls" ?st "pre @ [ls]" "i + 1"] ok(2) Cons.prems(3,4,6) by simp
qed simp

text \<open>When the lists hold every vector once.\<close>

definition is_partition :: "nat \<Rightarrow> u32 list list \<Rightarrow> bool" where
  "is_partition n parts \<longleftrightarrow> labels_ok n (concat parts) \<and> length (concat parts) = n"

definition label_pos_of :: "u32 list \<Rightarrow> u32 list" where
  "label_pos_of d = map (\<lambda>v. word_of_nat (label_index d (word_of_nat v))) [0 ..< length d]"

lemma labels_all:
  assumes "labels_ok n d" "length d = n" "n \<le> 2 ^ 32" "v < n"
  shows "word_of_nat v \<in> set d"
proof -
  have "inj_on unat (set d)" by (rule inj_onI) (simp add: unsigned_word_eqI)
  then have "card (unat ` set d) = n" using assms by (simp add: card_image distinct_card labels_ok_def)
  then have "unat ` set d = {..<n}"
    using assms(1) by (intro card_subset_eq) (auto simp: labels_ok_def)
  then obtain l where "l \<in> set d" "unat l = v" using assms(4) by (metis imageE lessThan_iff)
  then show ?thesis by (metis word_of_nat_eq_unat assms(3,4) less_le_trans)
qed

lemma assigned_init: "assigned n [] (part_init n k)"
  by (simp add: assigned_def part_init_def map_replicate_const)

lemma read_partition_all:
  assumes "is_partition n parts" "n \<le> 2 ^ 32" "length header = 8"
  shows "\<exists>st b. read_partition (map (\<lambda>ls. Some (part_file header ls)) parts) (part_init n (length parts)) = Inr (st, b) \<and>
     ps_pos_label st = concat parts \<and> ps_label_pos st = label_pos_of (concat parts) \<and>
     ps_part_size st = map (\<lambda>ls. word_of_nat (length ls)) parts"
proof -
  obtain st where st: "read_parts 0 (map (\<lambda>ls. Some (part_file header ls)) parts) (part_init n (length parts)) = Inr st"
      "assigned n (concat parts) st" "ps_part_size st = map (\<lambda>ls. word_of_nat (length ls)) parts"
    using read_parts_all [OF assigned_init _ assms(2,3), of parts "length parts" "[]" 0] assms(1)
    by (auto simp: is_partition_def part_init_def)
  have "ps_label_pos st = label_pos_of (concat parts)"
    using st(2) assms labels_all [of n "concat parts"]
    by (simp add: assigned_def label_pos_of_def is_partition_def)
  with st assms(1) show ?thesis by (simp add: read_partition_def assigned_def is_partition_def)
qed

text \<open>What the users of the two maps rely on.\<close>

definition inverse_maps :: "nat \<Rightarrow> u32 list \<Rightarrow> u32 list \<Rightarrow> bool" where
  "inverse_maps n pl lp \<longleftrightarrow> length pl = n \<and> length lp = n \<and>
     (\<forall>p<n. unat (pl ! p) < n \<and> lp ! unat (pl ! p) = word_of_nat p) \<and>
     (\<forall>l<n. unat (lp ! l) < n \<and> pl ! unat (lp ! l) = word_of_nat l)"

lemma inverse_maps_eq:
  assumes "inverse_maps n pl lp" "n \<le> 2 ^ 31" "a < n" "p < n"
  shows "unat (pl ! p) = a \<longleftrightarrow> p = unat (lp ! a)"
proof
  assume "unat (pl ! p) = a"
  then have "lp ! a = word_of_nat p" using assms by (auto simp: inverse_maps_def)
  then show "p = unat (lp ! a)" using assms by simp
next
  assume "p = unat (lp ! a)"
  then have "pl ! p = word_of_nat a" using assms by (simp add: inverse_maps_def)
  then show "unat (pl ! p) = a" using assms by simp
qed

lemma label_pos_inverse:
  assumes d: "labels_ok n d" "length d = n" and n: "n \<le> 2 ^ 32"
  shows "inverse_maps n d (label_pos_of d)"
proof -
  have "unat (d ! p) < n \<and> label_pos_of d ! unat (d ! p) = word_of_nat p" if p: "p < n" for p
    using d p label_index_nth [of d p] by (auto simp: labels_ok_def label_pos_of_def)
  moreover have "unat (label_pos_of d ! l) < n \<and> d ! unat (label_pos_of d ! l) = word_of_nat l" if l: "l < n" for l
  proof -
    have i: "label_index d (word_of_nat l) < n \<and> d ! label_index d (word_of_nat l) = word_of_nat l"
      using nth_label_index [OF labels_all [OF d n l]] d(2) by simp
    then have "unat (word_of_nat (label_index d (word_of_nat l)) :: u32) = label_index d (word_of_nat l)"
      using n by (intro unat_size32) simp
    with i l d(2) show ?thesis by (simp add: label_pos_of_def)
  qed
  moreover have "length (label_pos_of d) = n" using d(2) by (simp add: label_pos_of_def)
  ultimately show ?thesis using d(2) unfolding inverse_maps_def by blast
qed

lemma get_map_write:
  assumes "4 * n < 2 ^ 31" "4 * k < 2 ^ 31" "length sizes = k" "length m = n"
  shows "get_map (Some (write_map_file None n k sizes m)) = Inr (n, k, sizes, m)"
proof -
  have "rd_many k rd_u32 (concat (map enc_u32 sizes) @ s) = Some (sizes, s)" 
    "rd_many n rd_u32 (concat (map enc_u32 m)) = Some (m, [])" for s
    using u32.rd_many_enc [of sizes s] u32.rd_many_enc [of m "[]"] assms by simp_all
  moreover have "unat (word_of_nat n :: u32) = n" "unat (word_of_nat k :: u32) = k" using assms by simp_all
  ultimately show ?thesis using assms by (simp add: get_map_def write_map_file_def u32.rd_enc)
qed

section \<open>The copy\<close>

lemma sint_unat32: "unat (w :: u32) < 2 ^ 31 \<Longrightarrow> sint w = int (unat w)"
proof -
  assume "unat w < 2 ^ 31"
  then have u: "int (unat w) < 2 ^ 31" using of_nat_less_iff [of "unat w" "2 ^ 31", where 'a = int] by simp
  have "uint w = int (unat w)" by simp
  with u have "- (2 ^ 31) \<le> uint w" "uint w < 2 ^ 31" by linarith+
  then have "signed_take_bit 31 (uint w) = uint w" by (rule signed_take_bit_int_eq_self)
  then show ?thesis by (simp add: sint_uint)
qed

lemma put_row_at: "unat pos < length mem \<Longrightarrow> length mem \<le> 2 ^ 31 \<Longrightarrow> put_row pos row mem = Inr (mem[unat pos := row])"
  by (simp add: put_row_def sint_unat32)

definition placed :: "nat \<Rightarrow> u32 list \<Rightarrow> byte list list \<Rightarrow> byte list list \<Rightarrow> byte list list" where
  "placed a pl rows mem = map (\<lambda>p. if unat (pl ! p) < a then rows ! unat (pl ! p) else mem ! p) [0 ..< length pl]"

lemma copy_rows_all:
  assumes m: "inverse_maps n pl lp" and n: "n \<le> 2 ^ 31" and rows: "list_all (\<lambda>r. length r = len) rows" "n \<le> length rows"
  shows "a \<le> n \<Longrightarrow> length buf = len \<Longrightarrow>
     copy_rows len lp [a ..< n] (concat (drop a rows) @ rest) buf (placed a pl rows mem) = Inr (placed n pl rows mem)"
proof (induction "n - a" arbitrary: a buf)
  case (Suc k)
  then have a: "a < n" by simp
  let ?r = "rows ! a"
  have r: "length ?r = len" using rows a by (simp add: list_all_length)
  have s: "concat (drop a rows) = ?r @ concat (drop (Suc a) rows)"
    using a rows(2) by (simp flip: Cons_nth_drop_Suc)
  have la: "length lp = n" "length pl = n" "unat (lp ! a) < n" "pl ! unat (lp ! a) = word_of_nat a"
    using m a by (auto simp: inverse_maps_def)
  note eq = inverse_maps_eq [OF m n a]
  have "(placed a pl rows mem)[unat (lp ! a) := ?r] = placed (Suc a) pl rows mem"
  proof (rule nth_equalityI)
    fix p assume "p < length ((placed a pl rows mem)[unat (lp ! a) := ?r])"
    then have p: "p < n" using la(2) by (simp add: placed_def)
    show "(placed a pl rows mem)[unat (lp ! a) := ?r] ! p = placed (Suc a) pl rows mem ! p"
    proof (cases "p = unat (lp ! a)")
      case True
      then show ?thesis using p eq [OF p] la(2) by (simp add: placed_def)
    next
      case False
      then show ?thesis using p eq [OF p] la(2) by (simp add: placed_def less_Suc_eq)
    qed
  qed (simp add: placed_def)
  moreover have "put_row (lp ! a) ?r (placed a pl rows mem) = Inr ((placed a pl rows mem)[unat (lp ! a) := ?r])"
    using la n by (intro put_row_at) (simp_all add: placed_def)
  ultimately have "copy_rows len lp [a ..< n] (concat (drop a rows) @ rest) buf (placed a pl rows mem) =
      copy_rows len lp [Suc a ..< n] (concat (drop (Suc a) rows) @ rest) ?r (placed (Suc a) pl rows mem)"
    using a la(1) Suc.prems r by (simp add: upt_conv_Cons s ifs_read_append)
  also have "\<dots> = Inr (placed n pl rows mem)" using Suc a r by (intro Suc.hyps) auto
  finally show ?case .
qed simp

text \<open>A row of a file of rows of equal length.\<close>

lemma seek_row:
  assumes "list_all (\<lambda>r. length r = len) rows" "k < length rows" "length buf = len"
  shows "seek_read (h @ concat rows @ rest) (int (k * len) + int (length h)) len (False, buf) = (False, rows ! k)"
proof -
  have split: "rows = take k rows @ rows ! k # drop (Suc k) rows" using assms(2) by (rule id_take_nth_drop)
  have r: "length (rows ! k) = len" using assms by (simp add: list_all_length)
  have "length (concat (take k rows)) = k * len"
    using assms(1,2) by (induction k) (auto simp: take_Suc_conv_app_nth list_all_length)
  moreover have "concat rows = concat (take k rows) @ rows ! k @ concat (drop (Suc k) rows)"
    by (subst split) simp
  moreover have "nat (int (k * len) + int (length h)) = length h + k * len"
    by (simp add: nat_add_distrib nat_mult_distrib)
  ultimately have "drop (nat (int (k * len) + int (length h))) (h @ concat rows @ rest) = rows ! k @ concat (drop (Suc k) rows) @ rest"
    by (simp del: of_nat_mult)
  then show ?thesis using r assms(3) by (simp add: seek_read_def ifs_read_append Let_def del: of_nat_mult)
qed

section \<open>The run\<close>

text \<open>The data file: its header and the vectors, of which the first \<open>n\<close> are used.\<close>

definition data_file :: "u32 \<Rightarrow> byte list list \<Rightarrow> byte list" where
  "data_file dim rows = enc_u32 1000000000 @ enc_u32 dim @ concat rows"

lemma seek_data:
  assumes "list_all (\<lambda>r. length r = len) rows" "unat (w :: u32) < length rows" "unat w < 2 ^ 31" "length buf = len"
  shows "seek_read (data_file dim rows) (sint w * int len + 8) len (False, buf) = (False, rows ! unat w)"
  using seek_row [OF assms(1,2,4), of "enc_u32 1000000000 @ enc_u32 dim" "[]"] sint_unat32 [OF assms(3)]
  by (simp add: data_file_def len_simps)

lemma check_rows_all:
  assumes m: "inverse_maps n pl lp" "0 < n" "n \<le> 2 ^ 31" and rows: "list_all (\<lambda>r. length r = len) rows" "n \<le> length rows"
  shows "length buf = len \<Longrightarrow> check_rows len n pl (data_file dim rows) (map (\<lambda>l. rows ! unat l) pl) rs (False, buf) = Inr ()"
proof (induction rs arbitrary: buf)
  case (Cons r rs)
  let ?v = "r mod n"
  have v: "?v < n" "length pl = n" "unat (pl ! ?v) < n" using m by (auto simp: inverse_maps_def)
  then have "seek_read (data_file dim rows) (sint (pl ! ?v) * int len + 8) len (False, buf) = (False, rows ! unat (pl ! ?v))"
    using m rows Cons.prems by (intro seek_data) auto
  moreover have "length (rows ! unat (pl ! ?v)) = len" using rows v by (simp add: list_all_length)
  ultimately show ?case using v Cons.IH by (simp add: Let_def)
qed simp

lemma verify_rows_all:
  assumes m: "inverse_maps n pl lp" "0 < n" "n \<le> 2 ^ 31" and rows: "list_all (\<lambda>r. length r = len) rows" "n \<le> length rows"
  shows "length a = len \<Longrightarrow> length b = len \<Longrightarrow>
     verify_rows len (data_file dim rows) (concat (map (\<lambda>l. rows ! unat l) pl)) pl n rs (False, a) (False, b) = Inr ()"
proof (induction rs arbitrary: a b)
  case (Cons r rs)
  let ?v = "r mod n" and ?out = "map (\<lambda>l. rows ! unat l) pl"
  have v: "?v < n" "length pl = n" "unat (pl ! ?v) < n" using m by (auto simp: inverse_maps_def)
  then have "seek_read (data_file dim rows) (sint (pl ! ?v) * int len + 8) len (False, a) = (False, rows ! unat (pl ! ?v))"
    using m rows Cons.prems by (intro seek_data) auto
  moreover have "list_all (\<lambda>r. length r = len) ?out"
    using m(1) rows by (auto simp: list_all_length inverse_maps_def)
  then have "seek_read (concat ?out) (int (?v * len)) len (False, b) = (False, rows ! unat (pl ! ?v))"
    using seek_row [of len ?out ?v b "[]" "[]"] v Cons.prems by simp
  moreover have "length (rows ! unat (pl ! ?v)) = len" using rows v by (simp add: list_all_length)
  ultimately show ?case using v Cons.IH by (simp add: Let_def)
qed simp

lemma length_fresh [simp]: "length (fresh junk ofs len) = len"
  by (simp add: fresh_def)

lemma kmeans_reorder_all:
  assumes m: "inverse_maps n pl lp" "0 < n" "n \<le> 2 ^ 31" and rows: "list_all (\<lambda>r. length r = len) rows" "n \<le> length rows"
  shows "kmeans_reorder junk rs lp pl n (data_file dim rows) (unat dim) len = Inr (concat (map (\<lambda>l. rows ! unat l) pl))"
proof -
  let ?mem = "map (\<lambda>v. fresh (junk 2) (v * len) len) [0 ..< n]"
  have pl: "length pl = n" "\<And>p. p < n \<Longrightarrow> unat (pl ! p) < n" using m by (auto simp: inverse_maps_def)
  have "placed 0 pl rows ?mem = ?mem" "placed n pl rows ?mem = map (\<lambda>l. rows ! unat l) pl"
    using pl by (auto simp: placed_def intro!: nth_equalityI [of "map _ _" "map _ _"])
  moreover have "max 1 n = n" using m by simp
  ultimately have c: "copy_rows len lp [0 ..< max 1 n] (concat rows) (fresh (junk 0) 0 len) ?mem = Inr (map (\<lambda>l. rows ! unat l) pl)"
    using copy_rows_all [OF m(1,3) rows, of 0 "fresh (junk 0) 0 len" "[]" ?mem] by simp
  have v: "le_val (enc_u32 x) = unat x" for x
    using unat_lt [of x] by (simp add: enc_u32_def le_val_le_bytes)
  have "data_file dim rows = enc_u32 1000000000 @ enc_u32 dim @ concat rows" by (rule data_file_def)
  then have r: "ifs_read 4 (data_file dim rows) (replicate 4 0) = (enc_u32 1000000000, enc_u32 dim @ concat rows)"
    "ifs_read 4 (enc_u32 dim @ concat rows) (replicate 4 0) = (enc_u32 dim, concat rows)"
    by (simp_all only: ifs_read_append len_simps length_replicate)
  show ?thesis
    unfolding kmeans_reorder_def r prod.case v c sum.case check_rows_all [OF m rows length_fresh]
    by (simp add: write_chunks_all)
qed

lemma transfer_kmeans_ok:
  assumes p: "is_partition n parts" "0 < n" "8 * n < 2 ^ 31" "4 * length parts < 2 ^ 31"
    and rows: "list_all (\<lambda>r. length r = len) rows" "n \<le> length rows"
    and env: "ke_part_files env = map (\<lambda>ls. Some (part_file header ls)) parts" "length header = 8"
      "ke_data env = data_file dim rows" "ke_pos_label_file env = None" "ke_label_pos_file env = None"
  shows "\<exists>pl lp. transfer_kmeans env n (unat dim) len = Inr (pl, lp, concat (map (\<lambda>l. rows ! unat l) (concat parts))) \<and>
     get_map (Some pl) = Inr (n, length parts, map (\<lambda>ls. word_of_nat (length ls)) parts, concat parts) \<and>
     get_map (Some lp) = Inr (n, length parts, map (\<lambda>ls. word_of_nat (length ls)) parts, label_pos_of (concat parts)) \<and>
     inverse_maps n (concat parts) (label_pos_of (concat parts))"
proof -
  have n: "n \<le> 2 ^ 32" "n \<le> 2 ^ 31" using p(3) by simp_all
  obtain st b where st: "read_partition (ke_part_files env) (part_init n (length (ke_part_files env))) = Inr (st, b)"
      "ps_pos_label st = concat parts" "ps_label_pos st = label_pos_of (concat parts)"
      "ps_part_size st = map (\<lambda>ls. word_of_nat (length ls)) parts"
    using read_partition_all [OF p(1) n(1) env(2)] env(1) by auto
  have inv: "inverse_maps n (concat parts) (label_pos_of (concat parts))"
    using p(1) n(1) by (intro label_pos_inverse) (auto simp: is_partition_def)
  then have len: "length (concat parts) = n" "length (label_pos_of (concat parts)) = n"
    by (auto simp: inverse_maps_def)
  let ?sizes = "map (\<lambda>ls. word_of_nat (length ls)) parts :: u32 list"
  let ?pl = "write_map_file None n (length parts) ?sizes (concat parts)"
  let ?lp = "write_map_file None n (length parts) ?sizes (label_pos_of (concat parts))"
  have g: "get_map (Some ?pl) = Inr (n, length parts, ?sizes, concat parts)"
     "get_map (Some ?lp) = Inr (n, length parts, ?sizes, label_pos_of (concat parts))"
    using p len by (simp_all add: get_map_write)
  have len_files: "length (ke_part_files env) = length parts" by (simp add: env(1))
  note k = kmeans_reorder_all [OF inv p(2) n(2) rows, of _ _ dim, folded env(3)]
  have v: "verify_reorder_data (ke_junk env) rs (ke_data env) (concat (map (\<lambda>l. rows ! unat l) (concat parts))) (concat parts) n len = Inr ()" for rs
    unfolding verify_reorder_data_def env(3) by (rule verify_rows_all [OF inv p(2) n(2) rows length_fresh length_fresh])
  have "transfer_kmeans env n (unat dim) len = Inr (?pl, ?lp, concat (map (\<lambda>l. rows ! unat l) (concat parts)))"
    using p(3) by (simp add: transfer_kmeans_def Let_def st [unfolded len_files] write_map_def env(4,5) len_files k g(1) v)
  with g inv show ?thesis by blast
qed

section \<open>Lists that are no partition\<close>

text \<open>What holds of the arrays for every list of identifiers that was accepted.\<close>

definition accepted :: "nat \<Rightarrow> u32 list \<Rightarrow> part_state \<Rightarrow> bool" where
  "accepted n d st \<longleftrightarrow> ps_cnt st = length d \<and> length d \<le> n \<and> (\<forall>l\<in>set d. unat l < n) \<and>
     length (ps_label_pos st) = n \<and> (\<forall>v<n. word_of_nat v \<notin> set d \<longrightarrow> ps_label_pos st ! v = - 1)"

lemma assign_label_accepted:
  assumes "assign_label i k l st = Inr st'" "accepted n d st"
  shows "accepted n (d @ [l]) st'"
proof -
  from assms have "unat l < n" "length d < n"
    "ps_label_pos st' = (ps_label_pos st)[unat l := word_of_nat (length d)]" "ps_cnt st' = Suc (length d)"
    by (auto simp: assign_label_def accepted_def Let_def split: if_splits)
  with assms(2) show ?thesis by (auto simp: accepted_def nth_list_update)
qed

lemma assign_ids_accepted:
  assumes "assign_ids i k (concat (map enc_u32 ls)) st = Inr (k', st')" "accepted n d st"
  shows "accepted n (d @ ls) st'"
  using assms
proof (induction ls arbitrary: k st d)
  case Nil
  then show ?case by (simp add: assign_ids.simps)
next
  case (Cons l ls)
  have "enc_u32 l \<noteq> []" using u32.length_enc [of l] by auto
  with Cons.prems(1) obtain st1 where st1: "assign_label i k l st = Inr st1"
      "assign_ids i (k + 1) (concat (map enc_u32 ls)) st1 = Inr (k', st')"
    by (subst (asm) assign_ids.simps) (auto simp: u32.rd_enc split: sum.splits)
  from Cons.IH [OF st1(2) assign_label_accepted [OF st1(1) Cons.prems(2)]] show ?case by simp
qed

lemma read_parts_accepted:
  assumes "read_parts i (map (\<lambda>ls. Some (part_file header ls)) parts) st = Inr st'" "accepted n d st" "length header = 8"
  shows "accepted n (d @ concat parts) st'"
  using assms
proof (induction parts arbitrary: i st d)
  case (Cons ls parts)
  then obtain k st1 st2 where st1: "assign_ids i 0 (concat (map enc_u32 ls)) st = Inr (k, st1)"
      "st2 = st1\<lparr>ps_part_size := (ps_part_size st1)[i := word_of_nat k]\<rparr>"
      "read_parts (i + 1) (map (\<lambda>ls. Some (part_file header ls)) parts) st2 = Inr st'"
    by (auto simp: read_part_def part_file_def rd_bytes_append split: sum.splits)
  have "accepted n (d @ ls) st2"
    using assign_ids_accepted [OF st1(1) Cons.prems(2)] by (simp add: accepted_def st1(2))
  from Cons.IH [OF st1(3) this Cons.prems(3)] show ?case by simp
qed simp

lemma copy_rows_needs:
  "copy_rows len lp js s buf mem = Inr mem' \<Longrightarrow> \<forall>j\<in>set js. j < length lp \<and> 0 \<le> sint (lp ! j)"
  by (induction js arbitrary: s buf mem) (auto simp: put_row_def split: sum.splits if_splits prod.splits)

lemma all_labels_partition:
  assumes d: "length d \<le> n" "\<forall>l\<in>set d. unat l < n" "\<forall>v<n. word_of_nat v \<in> set d" and n: "n \<le> 2 ^ 32"
  shows "labels_ok n d \<and> length d = n"
proof -
  have "{..<n} \<subseteq> unat ` set d"
  proof
    fix v assume "v \<in> {..<n}"
    then have "word_of_nat v \<in> set d" "unat (word_of_nat v :: u32) = v" using d(3) n by auto
    then show "v \<in> unat ` set d" by (metis imageI)
  qed
  from card_mono [OF _ this] have "n \<le> card (unat ` set d)" by simp
  also have "\<dots> \<le> card (set d)" by (rule card_image_le) simp
  finally have "n \<le> card (set d)" .
  with card_length [of d] d(1) have "card (set d) = length d" "length d = n" by linarith+
  with d(2) show ?thesis by (simp add: labels_ok_def card_distinct)
qed

lemma transfer_kmeans_needs:
  assumes r: "transfer_kmeans env n dim len = Inr r"
    and env: "ke_part_files env = map (\<lambda>ls. Some (part_file header ls)) parts" "length header = 8"
  shows "0 < n \<and> is_partition n parts"
proof -
  from r obtain st b out where st: "read_partition (ke_part_files env) (part_init n (length parts)) = Inr (st, b)"
      "kmeans_reorder (ke_junk env) (ke_rand1 env) (ps_label_pos st) (ps_pos_label st) n (ke_data env) dim len = Inr out"
      and n: "n * 2 * 4 < 2 ^ 31"
    by (auto simp: transfer_kmeans_def Let_def env(1) split: sum.splits prod.splits if_splits)
  have "accepted n [] (part_init n (length parts))" by (simp add: accepted_def part_init_def)
  with st(1) env have acc: "accepted n (concat parts) st"
    using read_parts_accepted [of 0 header parts "part_init n (length parts)" st n "[]"]
    by (auto simp: read_partition_def split: sum.splits)
  from st(2) obtain s mem mem' where "copy_rows len (ps_label_pos st) [0 ..< max 1 n] s (fresh (ke_junk env 0) 0 len) mem = Inr mem'"
    by (auto simp: kmeans_reorder_def split: sum.splits prod.splits if_splits)
  from copy_rows_needs [OF this] have c: "j < max 1 n \<Longrightarrow> j < length (ps_label_pos st) \<and> 0 \<le> sint (ps_label_pos st ! j)" for j
    by simp
  have "word_of_nat v \<in> set (concat parts)" if "v < n" for v
    using c [of v] acc that by (auto simp: accepted_def)
  then have "is_partition n parts"
    using acc n all_labels_partition [of "concat parts" n] by (simp add: accepted_def is_partition_def)
  moreover have "0 < n" using c [of 0] acc by (auto simp: accepted_def)
  ultimately show ?thesis by simp
qed

text \<open>The check for vectors without a partition compares with 0, but a free entry is -1.\<close>

definition pid_ok :: "part_state \<Rightarrow> bool" where
  "pid_ok st \<longleftrightarrow> 0 \<notin> set (ps_pid st) \<and> length (ps_pid st) = 2 * length (ps_label_pos st)"

lemma assign_label_pid:
  assumes "assign_label i k l st = Inr st'" "pid_ok st" "i + 1 < 2 ^ 32"
  shows "pid_ok st'"
proof -
  have "(word_of_nat (i + 1) :: u32) \<noteq> 0"
    using assms(3) word_of_nat_eq_unat [of "i + 1" 0] by simp
  then have "0 \<notin> set ((ps_pid st)[j := word_of_nat (i + 1)])" for j
    using assms(2) set_update_subset_insert [of "ps_pid st" j "word_of_nat (i + 1)"] by (auto simp: pid_ok_def)
  then show ?thesis using assms(1,2) by (auto simp: assign_label_def pid_ok_def Let_def split: if_splits)
qed

lemma assign_ids_pid:
  "assign_ids i k s st = Inr (k', st') \<Longrightarrow> pid_ok st \<Longrightarrow> i + 1 < 2 ^ 32 \<Longrightarrow> pid_ok st'"
proof (induction i k s st rule: assign_ids.induct)
  case (1 i k s st)
  show ?case
  proof (cases "s = []")
    case True
    then show ?thesis using "1.prems" by (simp add: assign_ids.simps)
  next
    case False
    with "1.prems"(1) obtain l s' st1 where s: "rd_u32 s = Some (l, s')" "assign_label i k l st = Inr st1"
        "assign_ids i (k + 1) s' st1 = Inr (k', st')"
      by (subst (asm) assign_ids.simps) (auto split: option.splits sum.splits)
    show ?thesis
      using "1.IH" [OF False s(1) refl s(2) s(3)] assign_label_pid [OF s(2)] "1.prems" by simp
  qed
qed

lemma pid_ok_part_size [simp]: "pid_ok (st\<lparr>ps_part_size := x\<rparr>) \<longleftrightarrow> pid_ok st"
  by (simp add: pid_ok_def)

lemma read_part_pid: "read_part i f st = Inr st' \<Longrightarrow> pid_ok st \<Longrightarrow> i + 1 < 2 ^ 32 \<Longrightarrow> pid_ok st'"
  using assign_ids_pid [of i 0 _ st] by (auto simp: read_part_def split: option.splits sum.splits)

lemma read_parts_pid:
  "read_parts i files st = Inr st' \<Longrightarrow> pid_ok st \<Longrightarrow> i + length files < 2 ^ 32 \<Longrightarrow> pid_ok st'"
proof (induction files arbitrary: i st)
  case (Cons f files)
  then obtain st1 where st1: "read_part i f st = Inr st1" "read_parts (i + 1) files st1 = Inr st'"
    by (auto split: sum.splits)
  have "pid_ok st1" using read_part_pid [OF st1(1)] Cons.prems by simp
  with Cons.IH [OF st1(2)] Cons.prems(3) show ?case by simp
qed simp

lemma partition_check_silent:
  assumes "read_partition files (part_init n (length files)) = Inr (st, warned)" "length files < 2 ^ 32"
  shows "\<not> warned"
proof -
  from assms(1) obtain st' where r: "read_parts 0 files (part_init n (length files)) = Inr st'"
      "warned = list_ex (\<lambda>i. ps_pid st' ! (2 * i) = 0) [0 ..< length (ps_label_pos st')]"
    by (auto simp: read_partition_def split: sum.splits)
  have "pid_ok (part_init n (length files))" by (simp add: pid_ok_def part_init_def)
  then have "pid_ok st'" using read_parts_pid [OF r(1)] assms(2) by simp
  then show ?thesis
    unfolding r(2) by (auto simp: list_ex_iff pid_ok_def) (metis nth_mem mult_less_mono2 zero_less_numeral)
qed

text \<open>Property C24.  On identifier lists of the partitions, with the data file as it should be and no map file yet,
  the reordering run returns exactly when the lists hold every vector once (and there is a vector);
  a duplicate, a missing vector or an identifier out of range ends in an access out of bounds, and no
  run is stopped by the check for vectors without a partition, which never reports one.\<close>

theorem transfer_kmeans_iff_partition:
  assumes "list_all (\<lambda>r. length r = len) rows" "n \<le> length rows" "8 * n < 2 ^ 31" "4 * length parts < 2 ^ 31"
    and "ke_part_files env = map (\<lambda>ls. Some (part_file header ls)) parts" "length header = 8"
      "ke_data env = data_file dim rows" "ke_pos_label_file env = None" "ke_label_pos_file env = None"
  shows "((\<exists>r. transfer_kmeans env n (unat dim) len = Inr r) \<longleftrightarrow> 0 < n \<and> is_partition n parts) \<and>
     (\<forall>st warned. read_partition (ke_part_files env) (part_init n (length parts)) = Inr (st, warned) \<longrightarrow> \<not> warned)"
proof (intro conjI allI impI)
  show "(\<exists>r. transfer_kmeans env n (unat dim) len = Inr r) \<longleftrightarrow> 0 < n \<and> is_partition n parts"
    using transfer_kmeans_ok [OF _ _ assms(3,4,1,2,5-9)] transfer_kmeans_needs [OF _ assms(5,6)] by blast
next
  fix st warned assume "read_partition (ke_part_files env) (part_init n (length parts)) = Inr (st, warned)"
  then show "\<not> warned" using partition_check_silent [of "ke_part_files env" n st warned] assms(4,5) by simp
qed

text \<open>Property C25.  When the identifier lists of the partitions hold every vector once, the run writes the
  vectors in the order of the lists, partition after partition, and two map files that read back as
  the concatenated lists with the partition sizes and as the map from a label to its index there;
  the two maps are inverse to each other.\<close>

theorem transfer_kmeans_reorders:
  assumes "is_partition n parts" "0 < n" "8 * n < 2 ^ 31" "4 * length parts < 2 ^ 31"
    and "list_all (\<lambda>r. length r = len) rows" "n \<le> length rows"
    and "ke_part_files env = map (\<lambda>ls. Some (part_file header ls)) parts" "length header = 8"
      "ke_data env = data_file dim rows" "ke_pos_label_file env = None" "ke_label_pos_file env = None"
  shows "\<exists>pl lp. transfer_kmeans env n (unat dim) len = Inr (pl, lp, concat (map (\<lambda>l. rows ! unat l) (concat parts))) \<and>
     get_map (Some pl) = Inr (n, length parts, map (\<lambda>ls. word_of_nat (length ls)) parts, concat parts) \<and>
     get_map (Some lp) = Inr (n, length parts, map (\<lambda>ls. word_of_nat (length ls)) parts, label_pos_of (concat parts)) \<and>
     inverse_maps n (concat parts) (label_pos_of (concat parts))"
  by (rule transfer_kmeans_ok [OF assms])

text \<open>Three vectors of two bytes; the first partition holds the vectors 2 and 0, the second holds 1.\<close>

definition demo_env :: "u32 list list \<Rightarrow> kmeans_env" where
  "demo_env parts = \<lparr>ke_part_files = map (\<lambda>ls. Some (part_file (replicate 8 0) ls)) parts,
     ke_data = data_file 2 [[1, 2], [3, 4], [5, 6]], ke_pos_label_file = None, ke_label_pos_file = None,
     ke_rand1 = [7, 8, 9], ke_rand2 = [3, 4], ke_junk = (\<lambda>b i. 0)\<rparr>"

theorem transfer_kmeans_reorders_witness:
  "\<exists>pl lp. transfer_kmeans (demo_env [[2, 0], [1]]) 3 2 2 = Inr (pl, lp, [5, 6, 1, 2, 3, 4]) \<and>
     get_map (Some pl) = Inr (3, 2, [2, 1], [2, 0, 1]) \<and> get_map (Some lp) = Inr (3, 2, [2, 1], [1, 2, 0])"
  using transfer_kmeans_reorders [of 3 "[[2, 0], [1]]" 2 "[[1, 2], [3, 4], [5, 6]]" "demo_env [[2, 0], [1]]" "replicate 8 0" 2]
  by (auto simp: demo_env_def is_partition_def labels_ok_def label_pos_of_def label_index_def upt_rec simp flip: numeral_2_eq_2)

theorem transfer_kmeans_iff_partition_witness:
  "\<not> (\<exists>r. transfer_kmeans (demo_env [[2, 0], [2]]) 3 2 2 = Inr r)"
  using transfer_kmeans_iff_partition [of 2 "[[1, 2], [3, 4], [5, 6]]" 3 "[[2, 0], [2]]" "demo_env [[2, 0], [2]]" "replicate 8 0" 2]
  by (simp add: demo_env_def is_partition_def labels_ok_def)

end
