(* ===== verification/B1_Transfer.thy ===== *)
theory B1_Transfer
  imports Kmeans_Reorder Graph_Format
begin

text \<open>
  The graph files of the two baselines, \<^verbatim>\<open>transfer_vamana_to_b1graph\<close> and
  \<^verbatim>\<open>transfer_vamana_to_b2graph\<close> of \<^verbatim>\<open>include/index/vamana/vamana.h\<close>: the Vamana index is read vertex by
  vertex and written into an array of elements (degree and neighbours, vector, label), for B1 at the
  positions of the k-means reordering, for B2 one file per contiguous part; then the reader of the B1
  file in \<^verbatim>\<open>transfer_b1_to_scala_v3\<close>.  The array is flat memory: a store that leaves it is
  \<^const>\<open>OutOfBounds\<close>, one that leaves its element only changes the next one.
\<close>

section \<open>Elements in flat memory\<close>

definition store :: "nat \<Rightarrow> byte list \<Rightarrow> byte list \<Rightarrow> crash + byte list" where
  "store ofs bs mem =
     (if ofs + length bs \<le> length mem then Inr (take ofs mem @ bs @ drop (ofs + length bs) mem) else Inl OutOfBounds)"

text \<open>Reading one vertex: \<^verbatim>\<open>deg\<close> starts as 0, \<^verbatim>\<open>ngh_buf\<close> has \<open>4 * max_degree\<close> bytes and keeps what a short
  stream does not overwrite.\<close>

definition buf_u32 :: "byte list \<Rightarrow> nat \<Rightarrow> u32" where
  "buf_u32 buf d = word_of_nat (le_val (take 4 (drop (4 * d) buf)))"

definition read_node :: "byte list \<Rightarrow> byte list \<Rightarrow> crash + u32 list \<times> byte list \<times> byte list" where
  "read_node s buf =
     (case ifs_read 4 s (replicate 4 0) of (b, s) \<Rightarrow>
        let deg = le_val b in
        if 4 * deg > length buf then Inl OutOfBounds
        else (case ifs_read (4 * deg) s buf of (buf, s) \<Rightarrow> Inr (map (buf_u32 buf) [0 ..< deg], s, buf)))"

text \<open>Writing the links and the label at element \<open>pos\<close> and the next vector of the data stream \<open>d\<close> at element
  \<open>j\<close>.\<close>

definition put_element ::
  "nat \<Rightarrow> nat \<Rightarrow> nat \<Rightarrow> nat \<Rightarrow> nat \<Rightarrow> u32 list \<Rightarrow> nat \<Rightarrow> byte list \<Rightarrow> byte list \<Rightarrow> crash + byte list \<times> byte list"
where
  "put_element ele md len pos j ids i d mem =
     (case store (pos * ele) (enc_vec enc_u32 ids) mem of
        Inl e \<Rightarrow> Inl e
      | Inr mem \<Rightarrow> (case store (pos * ele + 4 * (md + 1) + len) (enc_u64 (word_of_nat i)) mem of
            Inl e \<Rightarrow> Inl e
          | Inr mem \<Rightarrow> (case store (j * ele + 4 * (md + 1)) (take len d) mem of
                Inl e \<Rightarrow> Inl e
              | Inr mem \<Rightarrow> Inr (drop len d, mem))))"

section \<open>The B1 graph\<close>

primrec map_links :: "u32 list \<Rightarrow> u32 list \<Rightarrow> crash + u32 list" where
  "map_links lp [] = Inr []"
| "map_links lp (v # vs) =
     (if unat v < length lp then
        (case map_links lp vs of Inl e \<Rightarrow> Inl e | Inr ws \<Rightarrow> Inr (lp ! unat v # ws))
      else Inl OutOfBounds)"

primrec b1_nodes ::
  "nat \<Rightarrow> nat \<Rightarrow> nat \<Rightarrow> u32 list \<Rightarrow> nat list \<Rightarrow> byte list \<Rightarrow> byte list \<Rightarrow> byte list \<Rightarrow> byte list \<Rightarrow> crash + byte list"
where
  "b1_nodes ele md len lp [] s buf d mem = Inr mem"
| "b1_nodes ele md len lp (i # is) s buf d mem =
     (case read_node s buf of
        Inl e \<Rightarrow> Inl e
      | Inr (ids, s, buf) \<Rightarrow>
          if \<not> (i < length lp \<and> 0 \<le> sint (lp ! i)) then Inl OutOfBounds
          else (case map_links lp ids of
              Inl e \<Rightarrow> Inl e
            | Inr links \<Rightarrow> (case put_element ele md len (nat (sint (lp ! i))) i links i d mem of
                  Inl e \<Rightarrow> Inl e
                | Inr (d, mem) \<Rightarrow> b1_nodes ele md len lp is s buf d mem)))"

text \<open>The header of the Vamana index; \<^verbatim>\<open>start\<close> is not initialised.\<close>

definition read_vamana_header :: "(nat \<Rightarrow> byte) \<Rightarrow> byte list \<Rightarrow> nat \<times> u32 \<times> byte list" where
  "read_vamana_header junk s =
     (case ifs_read 8 s (replicate 8 0) of (index_size, s) \<Rightarrow>
      case ifs_read 4 s (replicate 4 0) of (max_degree, s) \<Rightarrow>
      case ifs_read 4 s (fresh junk 0 4) of (start, s) \<Rightarrow>
      case ifs_read 8 s (replicate 8 0) of (tmp_num, s) \<Rightarrow>
        (le_val max_degree, word_of_nat (le_val start), s))"

definition b1_ele_size :: "nat \<Rightarrow> nat \<Rightarrow> nat" where
  "b1_ele_size max_degree vec_size = (max_degree + 1) * 4 + vec_size + 8"

text \<open>\<open>junk\<close> as in \<^const>\<open>kmeans_reorder\<close>: \<^verbatim>\<open>start\<close> (0), \<^verbatim>\<open>ngh_buf\<close> (1), \<^verbatim>\<open>kmeans_graph\<close> (2).\<close>

definition transfer_vamana_to_b1graph ::
  "(nat \<Rightarrow> nat \<Rightarrow> byte) \<Rightarrow> nat \<Rightarrow> nat \<Rightarrow> nat \<Rightarrow> byte list \<Rightarrow> byte list option \<Rightarrow> byte list option \<Rightarrow> byte list \<Rightarrow>
     crash + byte list"
where
  "transfer_vamana_to_b1graph junk node_num param_degree len index_file label_pos_file pos_label_file data =
     (case read_vamana_header (junk 0) index_file of (max_degree, start, s) \<Rightarrow>
       (case get_map label_pos_file of
          Inl e \<Rightarrow> Inl e
        | Inr (_, _, _, label_pos) \<Rightarrow>
            (case get_map pos_label_file of
               Inl e \<Rightarrow> Inl e
             | Inr (kmeans_vec_size, _, _, _) \<Rightarrow>
                 if node_num \<noteq> kmeans_vec_size then Inl Abort
                 else if param_degree \<noteq> max_degree then Inl Abort
                 else let ele = b1_ele_size param_degree len in
                   (case b1_nodes ele max_degree len label_pos [0 ..< node_num] s (fresh (junk 1) 0 (4 * max_degree))
                           data (fresh (junk 2) 0 (ele * node_num)) of
                      Inl e \<Rightarrow> Inl e
                    | Inr mem \<Rightarrow> Inr (enc_u64 (word_of_nat node_num) @ enc_u32 start @ write_chunks (2 ^ 30) 0 mem)))))"

section \<open>The B2 graphs\<close>

primrec b2_nodes ::
  "nat \<Rightarrow> nat \<Rightarrow> nat list \<Rightarrow> byte list \<Rightarrow> byte list \<Rightarrow> byte list \<Rightarrow> byte list \<Rightarrow>
     crash + byte list \<times> byte list \<times> byte list"
where
  "b2_nodes md L [] s buf d mem = Inr (s, d, mem)"
| "b2_nodes md L (i # is) s buf d mem =
     (case read_node s buf of
        Inl e \<Rightarrow> Inl e
      | Inr (ids, s, buf) \<Rightarrow>
          (case put_element 332 md 128 (i - L) (i - L) (map (\<lambda>v. v - word_of_nat L) ids) i d mem of
             Inl e \<Rightarrow> Inl e
           | Inr (d, mem) \<Rightarrow> b2_nodes md L is s buf d mem))"

text \<open>The parts one after the other; the two input streams go on where the last part ended.\<close>

primrec b2_parts ::
  "(nat \<Rightarrow> nat \<Rightarrow> byte) \<Rightarrow> nat \<Rightarrow> u32 \<Rightarrow> nat \<Rightarrow> nat list \<Rightarrow> byte list \<Rightarrow> byte list \<Rightarrow> crash + byte list list"
where
  "b2_parts junk md start part_sz [] s d = Inr []"
| "b2_parts junk md start part_sz (p # ps) s d =
     (case b2_nodes md (part_sz * p) [part_sz * p ..< part_sz * (p + 1)] s (fresh (junk (2 * p + 1)) 0 (4 * md)) d
             (fresh (junk (2 * p + 2)) 0 (332 * part_sz)) of
        Inl e \<Rightarrow> Inl e
      | Inr (s, d, mem) \<Rightarrow>
          (case b2_parts junk md start part_sz ps s d of
             Inl e \<Rightarrow> Inl e
           | Inr files \<Rightarrow>
               Inr ((enc_u64 (word_of_nat part_sz) @ enc_u32 start @ write_chunks (2 ^ 30) 0 mem) # files)))"

definition transfer_vamana_to_b2graph ::
  "(nat \<Rightarrow> nat \<Rightarrow> byte) \<Rightarrow> nat \<Rightarrow> nat \<Rightarrow> byte list \<Rightarrow> byte list \<Rightarrow> crash + byte list list"
where
  "transfer_vamana_to_b2graph junk part_num node_num index_file data =
     (case read_vamana_header (junk 0) index_file of (max_degree, start, s) \<Rightarrow>
        b2_parts junk max_degree start (node_num div part_num) [0 ..< part_num] s (drop 8 data))"

section \<open>Reading a B1 file\<close>

text \<open>An element as its readers see it: degree, links, vector, label.  \<open>None\<close> when the file is too short or a degree
  exceeds the links of its element.\<close>

definition rd_element :: "nat \<Rightarrow> nat \<Rightarrow> (u32 list \<times> byte list \<times> u64) reader" where
  "rd_element md len s = do {
     (deg, s) \<leftarrow> rd_u32 s;
     (links, s) \<leftarrow> rd_many md rd_u32 s;
     (vec, s) \<leftarrow> rd_bytes len s;
     (label, s) \<leftarrow> rd_u64 s;
     if unat deg \<le> md then Some ((take (unat deg) links, vec, label), s) else None }"

text \<open>\<^verbatim>\<open>enterpoint_node_\<close> has 64 bits, of which 32 are read and the others stay uninitialised (\<open>hi\<close>).\<close>

definition load_b1 :: "u32 \<Rightarrow> byte list \<Rightarrow> crash + u64 \<times> (u32 list \<times> byte list \<times> u64) list" where
  "load_b1 hi file =
     (case do {
        (max_elements, s) \<leftarrow> rd_u64 file;
        (enterpoint, s) \<leftarrow> rd_u32 s;
        (els, s) \<leftarrow> rd_many (unat max_elements) (rd_element 48 128) s;
        Some (push_bit 32 (ucast hi) OR ucast enterpoint, els) } of
        None \<Rightarrow> Inl OutOfBounds
      | Some r \<Rightarrow> Inr r)"

section \<open>The array as a list of elements\<close>

text \<open>An element by its three fields, in bytes.\<close>

type_synonym fields = "byte list \<times> byte list \<times> byte list"

definition flat :: "fields list \<Rightarrow> byte list" where
  "flat ts = concat (map (\<lambda>t. fst t @ fst (snd t) @ snd (snd t)) ts)"

definition shape :: "nat \<Rightarrow> nat \<Rightarrow> fields \<Rightarrow> bool" where
  "shape md len t \<longleftrightarrow> length (fst t) = 4 * (md + 1) \<and> length (fst (snd t)) = len \<and> length (snd (snd t)) = 8"

definition over :: "byte list \<Rightarrow> byte list \<Rightarrow> byte list" where
  "over bs old = bs @ drop (length bs) old"

lemma store_split:
  assumes "length a = ofs" "length bs \<le> length b"
  shows "store ofs bs (a @ b @ c) = Inr (a @ over bs b @ c)"
  using assms by (simp add: store_def over_def)

lemma length_flat: "list_all (shape md len) us \<Longrightarrow> length (flat us) = length us * b1_ele_size md len"
  by (induction us) (auto simp: flat_def shape_def b1_ele_size_def)

lemma flat_split:
  assumes "list_all (shape md len) ts" "p < length ts"
  shows "flat ts = flat (take p ts) @ fst (ts ! p) @ fst (snd (ts ! p)) @ snd (snd (ts ! p)) @ flat (drop (Suc p) ts)"
    "length (flat (take p ts)) = p * b1_ele_size md len"
proof -
  have "flat ts = flat (take p ts @ ts ! p # drop (Suc p) ts)"
    by (rule arg_cong [OF id_take_nth_drop [OF assms(2)]])
  also have "\<dots> = flat (take p ts) @ fst (ts ! p) @ fst (snd (ts ! p)) @ snd (snd (ts ! p)) @ flat (drop (Suc p) ts)"
    by (simp add: flat_def)
  finally show "flat ts = \<dots>" .
  have "list_all (shape md len) (take p ts)" using assms(1) by (auto simp: list_all_iff dest: in_set_takeD)
  from length_flat [OF this] show "length (flat (take p ts)) = p * b1_ele_size md len" using assms(2) by simp
qed

lemma flat_update:
  assumes "p < length ts"
  shows "flat (ts[p := t]) = flat (take p ts) @ fst t @ fst (snd t) @ snd (snd t) @ flat (drop (Suc p) ts)"
  using assms by (simp add: flat_def upd_conv_take_nth_drop)

lemma list_all_update: "list_all P xs \<Longrightarrow> P y \<Longrightarrow> list_all P (xs[i := y])"
  using set_update_subset_insert [of xs i y] by (auto simp: list_all_iff)

text \<open>What \<^const>\<open>put_element\<close> does to the list of elements.\<close>

definition put_links :: "nat \<Rightarrow> u32 list \<Rightarrow> nat \<Rightarrow> fields list \<Rightarrow> fields list" where
  "put_links p ids i ts =
     ts[p := (over (enc_vec enc_u32 ids) (fst (ts ! p)), fst (snd (ts ! p)), enc_u64 (word_of_nat i))]"

definition put_vector :: "nat \<Rightarrow> byte list \<Rightarrow> fields list \<Rightarrow> fields list" where
  "put_vector j row ts = ts[j := (fst (ts ! j), row, snd (snd (ts ! j)))]"

lemma put_links_shape:
  "list_all (shape md len) ts \<Longrightarrow> p < length ts \<Longrightarrow> length ids \<le> md \<Longrightarrow> list_all (shape md len) (put_links p ids i ts)"
  unfolding put_links_def by (rule list_all_update) (auto simp: shape_def over_def len_simps list_all_length)

lemma put_vector_shape:
  "list_all (shape md len) ts \<Longrightarrow> j < length ts \<Longrightarrow> length row = len \<Longrightarrow> list_all (shape md len) (put_vector j row ts)"
  unfolding put_vector_def by (rule list_all_update) (auto simp: shape_def list_all_length)

lemma put_element_flat:
  assumes ts: "list_all (shape md len) ts" and p: "p < length ts" "j < length ts"
    and ids: "length ids \<le> md" and row: "length row = len"
  shows "put_element (b1_ele_size md len) md len p j ids i (row @ d) (flat ts) =
     Inr (d, flat (put_vector j row (put_links p ids i ts)))"
proof -
  let ?e = "b1_ele_size md len" and ?L = "enc_vec enc_u32 ids" and ?B = "enc_u64 (word_of_nat i)"
  have sh: "shape md len (ts ! p)" using ts p by (simp add: list_all_length)
  have L: "length ?L \<le> 4 * (md + 1)" using ids by (simp add: len_simps)
  let ?t1 = "(over ?L (fst (ts ! p)), fst (snd (ts ! p)), snd (snd (ts ! p)))"
  have s1: "store (p * ?e) ?L (flat ts) = Inr (flat (ts[p := ?t1]))"
    using flat_split [OF ts p(1)] sh L store_split [of "flat (take p ts)" "p * ?e" ?L "fst (ts ! p)"]
    by (simp add: flat_update [OF p(1)] shape_def)
  have s2: "store (p * ?e + 4 * (md + 1) + len) ?B (flat (ts[p := ?t1])) = Inr (flat (put_links p ids i ts))"
    using flat_split [OF ts p(1)] sh L
      store_split [of "flat (take p ts) @ over ?L (fst (ts ! p)) @ fst (snd (ts ! p))" "p * ?e + 4 * (md + 1) + len" ?B "snd (snd (ts ! p))"]
    by (simp add: put_links_def flat_update [OF p(1)] shape_def over_def len_simps)
  let ?ts = "put_links p ids i ts"
  have j: "j < length ?ts" "list_all (shape md len) ?ts"
    using p put_links_shape [OF ts p(1) ids] by (simp_all add: put_links_def)
  have s3: "store (j * ?e + 4 * (md + 1)) row (flat ?ts) = Inr (flat (put_vector j row ?ts))"
    using flat_split [OF j(2,1)] j row
      store_split [of "flat (take j ?ts) @ fst (?ts ! j)" "j * ?e + 4 * (md + 1)" row "fst (snd (?ts ! j))" "snd (snd (?ts ! j)) @ flat (drop (Suc j) ?ts)"]
    by (simp add: put_vector_def flat_update [OF j(1)] shape_def over_def list_all_length)
  have row: "take len (row @ d) = row" "drop len (row @ d) = d" using row by simp_all
  show ?thesis unfolding put_element_def row s1 sum.case s2 s3 ..
qed

section \<open>Reading the Vamana index\<close>

lemma buf_u32_enc: "d < length ids \<Longrightarrow> buf_u32 (concat (map enc_u32 ids) @ rest) d = ids ! d"
proof (induction ids arbitrary: d)
  case (Cons v ids)
  have "word_of_nat (le_val (enc_u32 v)) = v"
    using unat_lt [of v] by (simp add: enc_u32_def le_val_le_bytes)
  with Cons show ?case by (cases d) (auto simp: buf_u32_def len_simps)
qed simp

lemma read_node_enc:
  assumes "4 * length ids \<le> length buf" "length ids < 2 ^ 32"
  shows "\<exists>buf'. read_node (enc_vec enc_u32 ids @ s) buf = Inr (ids, s, buf') \<and> length buf' = length buf"
proof -
  let ?n = "enc_u32 (word_of_nat (length ids))"
  have "le_val ?n = length ids"
    using assms(2) by (simp add: enc_u32_def le_val_le_bytes)
  moreover have "ifs_read 4 (enc_vec enc_u32 ids @ s) (replicate 4 0) = (?n, concat (map enc_u32 ids) @ s)"
    unfolding enc_vec_def append_assoc by (rule ifs_read_append) (simp_all add: len_simps)
  moreover have "ifs_read (4 * length ids) (concat (map enc_u32 ids) @ s) buf =
      (concat (map enc_u32 ids) @ drop (4 * length ids) buf, s)"
    by (simp add: ifs_read_def len_simps)
  moreover have "map (buf_u32 (concat (map enc_u32 ids) @ rest)) [0 ..< length ids] = ids" for rest
    by (rule nth_equalityI) (auto simp: buf_u32_enc)
  ultimately show ?thesis using assms(1) by (simp add: read_node_def Let_def len_simps)
qed

lemma map_links_ok: "\<forall>v\<in>set ids. unat v < length lp \<Longrightarrow> map_links lp ids = Inr (map (\<lambda>v. lp ! unat v) ids)"
  by (induction ids) auto

section \<open>The array after the loop\<close>

text \<open>The elements after the vertices below \<open>a\<close>: at position \<open>p\<close> the links and the label of vertex \<open>pl ! p\<close>,
  and the \<open>p\<close>-th vector of the data; labels start at \<open>L\<close>.\<close>

definition filled :: "nat \<Rightarrow> nat \<Rightarrow> u32 list \<Rightarrow> u32 list list \<Rightarrow> byte list list \<Rightarrow> fields list \<Rightarrow> fields list" where
  "filled L a pl links rows ts = map (\<lambda>p.
     (if unat (pl ! p) < a then over (enc_vec enc_u32 (links ! unat (pl ! p))) (fst (ts ! p)) else fst (ts ! p),
      if p < a then rows ! p else fst (snd (ts ! p)),
      if unat (pl ! p) < a then enc_u64 (word_of_nat (L + unat (pl ! p))) else snd (snd (ts ! p)))) [0 ..< length pl]"

lemma filled_step:
  assumes m: "inverse_maps n pl lp" "n \<le> 2 ^ 31" and a: "a < n"
  shows "put_vector a (rows ! a) (put_links (unat (lp ! a)) (links ! a) (L + a) (filled L a pl links rows ts)) = filled L (Suc a) pl links rows ts"
    (is "?l = ?r")
proof (rule nth_equalityI)
  have n: "length pl = n" "unat (lp ! a) < n" using m a by (auto simp: inverse_maps_def)
  show "length ?l = length ?r" by (simp add: filled_def put_vector_def put_links_def)
  fix p assume "p < length ?l"
  then have p: "p < n" using n by (simp add: filled_def put_vector_def put_links_def)
  note eq = inverse_maps_eq [OF m a p]
  show "?l ! p = ?r ! p"
  proof (cases "p = unat (lp ! a)")
    case True
    then have pa: "unat (pl ! p) = a" using eq by simp
    show ?thesis
      by (cases "p = a") (use p pa True n a in \<open>simp_all add: filled_def put_vector_def put_links_def less_Suc_eq\<close>)
  next
    case False
    then have pa: "unat (pl ! p) \<noteq> a" using eq by simp
    show ?thesis
      by (cases "p = a") (use p pa False n a in \<open>simp_all add: filled_def put_vector_def put_links_def less_Suc_eq\<close>)
  qed
qed

lemma filled_shape:
  assumes "list_all (shape md len) ts" "length pl \<le> length ts" "\<forall>p<length pl. unat (pl ! p) < length links"
    "list_all (\<lambda>ids. length ids \<le> md) links" "list_all (\<lambda>r. length r = len) rows" "length pl \<le> length rows"
  shows "list_all (shape md len) (filled L a pl links rows ts)"
  using assms by (auto simp: list_all_length filled_def shape_def over_def len_simps)

text \<open>The links of a vertex by position.\<close>

definition moved :: "u32 list \<Rightarrow> u32 list list \<Rightarrow> u32 list list" where
  "moved lp adj = map (map (\<lambda>v. lp ! unat v)) adj"

lemma b1_nodes_all:
  assumes m: "inverse_maps n pl lp" "n \<le> 2 ^ 31" and adj: "length adj = n" "list_all (\<lambda>ids. length ids \<le> md \<and> (\<forall>v\<in>set ids. unat v < n)) adj"
    and rows: "list_all (\<lambda>r. length r = len) rows" "n \<le> length rows" and ts: "list_all (shape md len) ts" "length ts = n" and md: "md < 2 ^ 32"
  shows "a \<le> n \<Longrightarrow> length buf = 4 * md \<Longrightarrow>
     b1_nodes (b1_ele_size md len) md len lp [a ..< n] (concat (map (enc_vec enc_u32) (drop a adj)) @ s) buf
       (concat (drop a rows) @ d) (flat (filled 0 a pl (moved lp adj) rows ts)) = Inr (flat (filled 0 n pl (moved lp adj) rows ts))"
proof (induction "n - a" arbitrary: a buf)
  case (Suc k)
  then have a: "a < n" by simp
  have n: "length lp = n" "length pl = n" "unat (lp ! a) < n" using m a by (auto simp: inverse_maps_def)
  have ids: "length (adj ! a) \<le> md" "\<forall>v\<in>set (adj ! a). unat v < length lp"
    using adj a n by (auto simp: list_all_length)
  have split: "concat (map (enc_vec enc_u32) (drop a adj)) = enc_vec enc_u32 (adj ! a) @ concat (map (enc_vec enc_u32) (drop (Suc a) adj))"
    "concat (drop a rows) = rows ! a @ concat (drop (Suc a) rows)"
    using a adj(1) rows(2) by (simp_all flip: Cons_nth_drop_Suc)
  obtain buf' where r: "read_node (enc_vec enc_u32 (adj ! a) @ concat (map (enc_vec enc_u32) (drop (Suc a) adj)) @ s) buf =
      Inr (adj ! a, concat (map (enc_vec enc_u32) (drop (Suc a) adj)) @ s, buf')" "length buf' = 4 * md"
    using read_node_enc [of "adj ! a" buf] ids(1) md Suc.prems(2) by auto
  let ?F = "\<lambda>a. filled 0 a pl (moved lp adj) rows ts"
  have sh: "list_all (shape md len) (?F a)"
    using m adj rows ts n by (intro filled_shape) (auto simp: inverse_maps_def moved_def list_all_length)
  have "put_element (b1_ele_size md len) md len (unat (lp ! a)) a (map (\<lambda>v. lp ! unat v) (adj ! a)) a
      (rows ! a @ concat (drop (Suc a) rows) @ d) (flat (?F a)) =
      Inr (concat (drop (Suc a) rows) @ d, flat (put_vector a (rows ! a) (put_links (unat (lp ! a)) (map (\<lambda>v. lp ! unat v) (adj ! a)) a (?F a))))"
    using a n ids rows by (intro put_element_flat [OF sh]) (auto simp: filled_def list_all_length)
  moreover have "map (\<lambda>v. lp ! unat v) (adj ! a) = moved lp adj ! a" using a adj(1) by (simp add: moved_def)
  ultimately have p: "put_element (b1_ele_size md len) md len (unat (lp ! a)) a (map (\<lambda>v. lp ! unat v) (adj ! a)) a
      (rows ! a @ concat (drop (Suc a) rows) @ d) (flat (?F a)) = Inr (concat (drop (Suc a) rows) @ d, flat (?F (Suc a)))"
    by (simp add: filled_step [OF m a, of _ _ 0, simplified])
  have si: "sint (lp ! a) = int (unat (lp ! a))" using n m(2) by (intro sint_unat32) simp
  have "b1_nodes (b1_ele_size md len) md len lp [a ..< n] (concat (map (enc_vec enc_u32) (drop a adj)) @ s) buf
       (concat (drop a rows) @ d) (flat (?F a)) =
     b1_nodes (b1_ele_size md len) md len lp [Suc a ..< n] (concat (map (enc_vec enc_u32) (drop (Suc a) adj)) @ s) buf'
       (concat (drop (Suc a) rows) @ d) (flat (?F (Suc a)))"
    unfolding upt_conv_Cons [OF a] b1_nodes.simps split append_assoc r sum.case prod.case map_links_ok [OF ids(2)] si nat_int p
    using a n by simp
  also have "\<dots> = Inr (flat (?F n))" using Suc a r(2) by (intro Suc.hyps) auto
  finally show ?case .
qed simp

section \<open>Reading the file back\<close>

lemma rd_many_raw: "length bs = 4 * k \<Longrightarrow> \<exists>xs. rd_many k rd_u32 (bs @ s) = Some (xs, s)"
proof (induction k arbitrary: bs)
  case (Suc k)
  then have "length (take 4 bs) = 4" "length (drop 4 bs) = 4 * k" by simp_all
  moreover have "bs @ s = take 4 bs @ drop 4 bs @ s" by simp
  ultimately have "rd_u32 (bs @ s) = Some (word_of_nat (le_val (take 4 bs)), drop 4 bs @ s)"
    by (simp add: rd_u32_def rd_bytes_def)
  with Suc.IH [OF \<open>length (drop 4 bs) = 4 * k\<close>] show ?case by auto
qed simp

lemma rd_many_prefix: "rd_many k rd_u32 s = Some (xs, t) \<Longrightarrow> rd_many (length ids + k) rd_u32 (concat (map enc_u32 ids) @ s) = Some (ids @ xs, t)"
  by (induction ids) (auto simp: u32.rd_enc)

lemma rd_element_fields:
  assumes "length ids \<le> md" "md < 2 ^ 32" "length old = 4 * (md + 1)" "length row = len"
  shows "rd_element md len (over (enc_vec enc_u32 ids) old @ row @ enc_u64 l @ s) = Some ((ids, row, l), s)"
proof -
  let ?old = "drop (4 + 4 * length ids) old"
  have "length ?old = 4 * (md - length ids)" using assms(1,3) by simp
  then obtain xs where "rd_many (md - length ids) rd_u32 (?old @ row @ enc_u64 l @ s) = Some (xs, row @ enc_u64 l @ s)"
    using rd_many_raw by blast
  from rd_many_prefix [OF this, of ids] assms(1)
  have "rd_many md rd_u32 (concat (map enc_u32 ids) @ ?old @ row @ enc_u64 l @ s) = Some (ids @ xs, row @ enc_u64 l @ s)"
    by simp
  then show ?thesis
    using assms by (simp add: rd_element_def over_def enc_vec_def len_simps u32.rd_enc u64.rd_enc rd_bytes_append)
qed

lemma rd_elements_flat:
  "list_all2 (\<lambda>t e. \<forall>s. rd_element md len (fst t @ fst (snd t) @ snd (snd t) @ s) = Some (e, s)) ts es \<Longrightarrow>
     rd_many (length ts) (rd_element md len) (flat ts @ s) = Some (es, s)"
  by (induction rule: list_all2_induct) (auto simp: flat_def)

lemma rd_filled:
  assumes pl: "length pl = n" "\<And>p. p < n \<Longrightarrow> unat (pl ! p) < n" "n \<le> length links"
    and links: "list_all (\<lambda>ids. length ids \<le> md) links" "md < 2 ^ 32"
    and rows: "list_all (\<lambda>r. length r = len) rows" "n \<le> length rows" and ts: "list_all (shape md len) ts" "n \<le> length ts"
  shows "rd_many n (rd_element md len) (flat (filled L n pl links rows ts)) =
     Some (map (\<lambda>p. (links ! unat (pl ! p), rows ! p, word_of_nat (L + unat (pl ! p)))) [0 ..< n], [])"
proof -
  let ?F = "filled L n pl links rows ts" and ?e = "\<lambda>p. (links ! unat (pl ! p), rows ! p, word_of_nat (L + unat (pl ! p)) :: u64)"
  have el: "rd_element md len (fst (?F ! p) @ fst (snd (?F ! p)) @ snd (snd (?F ! p)) @ s) = Some (?e p, s)" if p: "p < n" for p s
  proof -
    have "length (links ! unat (pl ! p)) \<le> md" "length (fst (ts ! p)) = 4 * (md + 1)" "length (rows ! p) = len"
      using p pl links rows ts by (auto simp: list_all_length shape_def intro: less_le_trans)
    then show ?thesis
      using p pl rd_element_fields [OF _ links(2), of "links ! unat (pl ! p)" "fst (ts ! p)" "rows ! p" len]
      by (simp add: filled_def)
  qed
  have "length ?F = n" using pl by (simp add: filled_def)
  with el rd_elements_flat [of md len ?F "map ?e [0 ..< n]" "[]"] show ?thesis
    by (simp add: list_all2_conv_all_nth)
qed

lemma flat_exists: "length mem = n * b1_ele_size md len \<Longrightarrow> \<exists>ts. list_all (shape md len) ts \<and> length ts = n \<and> flat ts = mem"
proof (induction n arbitrary: mem)
  case (Suc n)
  let ?e = "b1_ele_size md len"
  obtain ts where ts: "list_all (shape md len) ts" "length ts = n" "flat ts = drop ?e mem"
    using Suc.IH [of "drop ?e mem"] Suc.prems by auto
  let ?m = "take ?e mem"
  let ?t = "(take (4 * (md + 1)) ?m, take len (drop (4 * (md + 1)) ?m), drop (4 * (md + 1) + len) ?m)"
  have "fst ?t @ fst (snd ?t) @ snd (snd ?t) = ?m"
    using append_take_drop_id [of "4 * (md + 1)" ?m] append_take_drop_id [of len "drop (4 * (md + 1)) ?m"]
    by (simp only: fst_conv snd_conv drop_drop add.commute)
  moreover have "length ?m = ?e" using Suc.prems by simp
  then have "shape md len ?t" by (simp add: shape_def b1_ele_size_def)
  ultimately show ?case
    using ts by (intro exI [of _ "?t # ts"]) (simp add: flat_def)
qed (simp add: flat_def)

text \<open>A Vamana index file: its header and the adjacency lists.\<close>

definition vamana_file :: "u64 \<Rightarrow> nat \<Rightarrow> u32 \<Rightarrow> u64 \<Rightarrow> u32 list list \<Rightarrow> byte list" where
  "vamana_file index_size max_degree start num adj =
     enc_u64 index_size @ enc_u32 (word_of_nat max_degree) @ enc_u32 start @ enc_u64 num @ concat (map (enc_vec enc_u32) adj)"

lemma le_val_enc_u32: "le_val (enc_u32 x) = unat x"
  using unat_lt [of x] by (simp add: enc_u32_def le_val_le_bytes)

lemma read_vamana_header_file:
  "md < 2 ^ 32 \<Longrightarrow> read_vamana_header junk (vamana_file sz md start num adj) = (md, start, concat (map (enc_vec enc_u32) adj))"
  unfolding read_vamana_header_def vamana_file_def
  by (simp add: ifs_read_append len_simps le_val_enc_u32)

definition max_degree_ok :: "nat \<Rightarrow> nat \<Rightarrow> u32 list list \<Rightarrow> bool" where
  "max_degree_ok n md adj \<longleftrightarrow> length adj = n \<and> md < 2 ^ 32 \<and> list_all (\<lambda>ids. length ids \<le> md \<and> (\<forall>v\<in>set ids. unat v < n)) adj"

lemma b1_file_ok:
  assumes m: "inverse_maps n pl lp" "n \<le> 2 ^ 31" and adj: "max_degree_ok n md adj"
    and rows: "list_all (\<lambda>r. length r = len) rows" "length rows = n"
    and g: "get_map lpf = Inr (n, k, sizes, lp)" "get_map plf = Inr (n, k, sizes, pl)"
  shows "\<exists>body. transfer_vamana_to_b1graph junk n md len (vamana_file sz md start num adj) lpf plf (concat rows) =
       Inr (enc_u64 (word_of_nat n) @ enc_u32 start @ body) \<and>
     rd_many n (rd_element md len) body =
       Some (map (\<lambda>p. (map (\<lambda>v. lp ! unat v) (adj ! unat (pl ! p)), rows ! p, ucast (pl ! p))) [0 ..< n], [])"
proof -
  obtain ts where ts: "list_all (shape md len) ts" "length ts = n" "flat ts = fresh (junk 2) 0 (b1_ele_size md len * n)"
    using flat_exists [of "fresh (junk 2) 0 (b1_ele_size md len * n)" n md len] by (auto simp: mult.commute)
  have n: "length pl = n" "\<And>p. p < n \<Longrightarrow> unat (pl ! p) < n" using m by (auto simp: inverse_maps_def)
  have adj': "length adj = n" "list_all (\<lambda>ids. length ids \<le> md \<and> (\<forall>v\<in>set ids. unat v < n)) adj" "md < 2 ^ 32"
    using adj by (auto simp: max_degree_ok_def)
  let ?F = "filled 0 n pl (moved lp adj) rows ts"
  have "filled 0 0 pl (moved lp adj) rows ts = ts" using n ts by (auto simp: filled_def intro!: nth_equalityI [of "map _ _"])
  then have b: "b1_nodes (b1_ele_size md len) md len lp [0 ..< n] (concat (map (enc_vec enc_u32) adj)) (fresh (junk 1) 0 (4 * md))
       (concat rows) (fresh (junk 2) 0 (b1_ele_size md len * n)) = Inr (flat ?F)"
    using b1_nodes_all [OF m adj'(1,2) rows(1) _ ts(1,2) adj'(3), of 0 "fresh (junk 1) 0 (4 * md)" "[]" "[]"] rows(2) ts(3)
    by simp
  have "transfer_vamana_to_b1graph junk n md len (vamana_file sz md start num adj) lpf plf (concat rows) =
       Inr (enc_u64 (word_of_nat n) @ enc_u32 start @ flat ?F)"
    unfolding transfer_vamana_to_b1graph_def read_vamana_header_file [OF adj'(3)] g Let_def b prod.case sum.case
    by (simp add: write_chunks_all)
  moreover have "rd_many n (rd_element md len) (flat ?F) =
      Some (map (\<lambda>p. (map (\<lambda>v. lp ! unat v) (adj ! unat (pl ! p)), rows ! p, ucast (pl ! p))) [0 ..< n], [])"
  proof -
    have "list_all (\<lambda>ids. length ids \<le> md) (moved lp adj)" "length (moved lp adj) = n"
      using adj' by (auto simp: moved_def list_all_length)
    from rd_filled [OF n _ this(1) adj'(3) rows(1) _ ts(1), of 0] this(2) rows(2) ts(2) n adj'(1) show ?thesis
      by (simp add: moved_def)
  qed
  ultimately show ?thesis by blast
qed

section \<open>The B2 files\<close>

definition id_map :: "nat \<Rightarrow> u32 list" where
  "id_map m = map word_of_nat [0 ..< m]"

lemma id_map_inverse: "m \<le> 2 ^ 31 \<Longrightarrow> inverse_maps m (id_map m) (id_map m)"
  by (simp add: inverse_maps_def id_map_def)

definition shifted :: "nat \<Rightarrow> u32 list list \<Rightarrow> u32 list list" where
  "shifted L adj = map (map (\<lambda>v. v - word_of_nat L)) adj"

lemma b2_nodes_all:
  assumes m: "m \<le> 2 ^ 31" and adj: "length adj = m" "list_all (\<lambda>ids. length ids \<le> 48) adj"
    and rows: "list_all (\<lambda>r. length r = 128) rows" "length rows = m" and ts: "list_all (shape 48 128) ts" "length ts = m"
  shows "a \<le> m \<Longrightarrow> length buf = 4 * 48 \<Longrightarrow>
     b2_nodes 48 L [L + a ..< L + m] (concat (map (enc_vec enc_u32) (drop a adj)) @ s) buf
       (concat (drop a rows) @ d) (flat (filled L a (id_map m) (shifted L adj) rows ts)) =
     Inr (s, d, flat (filled L m (id_map m) (shifted L adj) rows ts))"
proof (induction "m - a" arbitrary: a buf)
  case (Suc k)
  then have a: "a < m" by simp
  have lp: "unat (id_map m ! a) = a" using a m by (simp add: id_map_def)
  have ids: "length (adj ! a) \<le> 48" using adj a by (auto simp: list_all_length)
  have split: "concat (map (enc_vec enc_u32) (drop a adj)) = enc_vec enc_u32 (adj ! a) @ concat (map (enc_vec enc_u32) (drop (Suc a) adj))"
    "concat (drop a rows) = rows ! a @ concat (drop (Suc a) rows)"
    using a adj(1) rows(2) by (simp_all flip: Cons_nth_drop_Suc)
  obtain buf' where r: "read_node (enc_vec enc_u32 (adj ! a) @ concat (map (enc_vec enc_u32) (drop (Suc a) adj)) @ s) buf =
      Inr (adj ! a, concat (map (enc_vec enc_u32) (drop (Suc a) adj)) @ s, buf')" "length buf' = 4 * 48"
    using read_node_enc [of "adj ! a" buf] ids Suc.prems(2) by auto
  let ?F = "\<lambda>a. filled L a (id_map m) (shifted L adj) rows ts"
  have sh: "list_all (shape 48 128) (?F a)"
    using m adj rows ts by (intro filled_shape) (auto simp: id_map_def shifted_def list_all_length)
  have "put_element (b1_ele_size 48 128) 48 128 a a (map (\<lambda>v. v - word_of_nat L) (adj ! a)) (L + a)
      (rows ! a @ concat (drop (Suc a) rows) @ d) (flat (?F a)) =
      Inr (concat (drop (Suc a) rows) @ d, flat (put_vector a (rows ! a) (put_links a (map (\<lambda>v. v - word_of_nat L) (adj ! a)) (L + a) (?F a))))"
    using a ids rows by (intro put_element_flat [OF sh]) (auto simp: filled_def id_map_def list_all_length)
  moreover have "map (\<lambda>v. v - word_of_nat L) (adj ! a) = shifted L adj ! a" using a adj(1) by (simp add: shifted_def)
  ultimately have p: "put_element 332 48 128 (L + a - L) (L + a - L) (map (\<lambda>v. v - word_of_nat L) (adj ! a)) (L + a)
      (rows ! a @ concat (drop (Suc a) rows) @ d) (flat (?F a)) = Inr (concat (drop (Suc a) rows) @ d, flat (?F (Suc a)))"
    using filled_step [OF id_map_inverse [OF m] m a, of rows "shifted L adj" L ts] lp by (simp add: b1_ele_size_def)
  have La: "[L + a ..< L + m] = (L + a) # [L + Suc a ..< L + m]" using a by (simp add: upt_conv_Cons)
  have "b2_nodes 48 L [L + a ..< L + m] (concat (map (enc_vec enc_u32) (drop a adj)) @ s) buf
       (concat (drop a rows) @ d) (flat (?F a)) =
     b2_nodes 48 L [L + Suc a ..< L + m] (concat (map (enc_vec enc_u32) (drop (Suc a) adj)) @ s) buf'
       (concat (drop (Suc a) rows) @ d) (flat (?F (Suc a)))"
    unfolding La b2_nodes.simps split append_assoc r sum.case prod.case p ..
  also have "\<dots> = Inr (s, d, flat (?F m))" using Suc a r(2) by (intro Suc.hyps) auto
  finally show ?case .
qed (use adj rows in simp)

text \<open>The file of the part that starts at vertex \<open>L\<close>.\<close>

definition b2_file_of :: "nat \<Rightarrow> u32 \<Rightarrow> u32 list list \<Rightarrow> byte list list \<Rightarrow> nat \<Rightarrow> byte list \<Rightarrow> bool" where
  "b2_file_of m start adj rows L f \<longleftrightarrow> (\<exists>body. f = enc_u64 (word_of_nat m) @ enc_u32 start @ body \<and>
     rd_many m (rd_element 48 128) body =
       Some (map (\<lambda>j. (map (\<lambda>v. v - word_of_nat L) (adj ! (L + j)), rows ! (L + j), word_of_nat (L + j))) [0 ..< m], []))"

lemma b2_parts_all:
  assumes m: "m \<le> 2 ^ 31" and adj: "list_all (\<lambda>ids. length ids \<le> 48) adj" and rows: "list_all (\<lambda>r. length r = 128) rows"
  shows "\<lbrakk>m * k \<le> length adj; m * k \<le> length rows; q \<le> k\<rbrakk> \<Longrightarrow> \<exists>files.
     b2_parts junk 48 start m [q ..< k] (concat (map (enc_vec enc_u32) (drop (m * q) adj)) @ s) (concat (drop (m * q) rows) @ d) = Inr files \<and>
     length files = k - q \<and>
     (\<forall>i<k - q. b2_file_of m start adj rows (m * (q + i)) (files ! i))"
proof (induction "k - q" arbitrary: q)
  case (Suc x)
  then have q: "q < k" by simp
  let ?L = "m * q"
  have le: "?L + m \<le> m * k" using q by (metis Suc_leI mult_Suc_right add.commute mult_le_mono2)
  let ?A = "take m (drop ?L adj)" and ?R = "take m (drop ?L rows)"
  have len: "length ?A = m" "length ?R = m" using le Suc.prems by simp_all
  have all: "list_all (\<lambda>ids. length ids \<le> 48) ?A" "list_all (\<lambda>r. length r = 128) ?R"
    using adj rows by (auto simp: list_all_iff dest!: in_set_takeD in_set_dropD)
  have split: "drop ?L adj = ?A @ drop (m * Suc q) adj" "drop ?L rows = ?R @ drop (m * Suc q) rows"
    by (simp_all add: add.commute flip: drop_drop)
  obtain ts where ts: "list_all (shape 48 128) ts" "length ts = m" "flat ts = fresh (junk (2 * q + 2)) 0 (332 * m)"
    using flat_exists [of "fresh (junk (2 * q + 2)) 0 (332 * m)" m 48 128] by (auto simp: b1_ele_size_def)
  let ?F = "filled ?L m (id_map m) (shifted ?L ?A) ?R ts"
  have "filled ?L 0 (id_map m) (shifted ?L ?A) ?R ts = ts"
    using ts by (auto simp: filled_def id_map_def intro!: nth_equalityI [of "map _ _"])
  then have b: "b2_nodes 48 ?L [?L ..< m * (q + 1)] (concat (map (enc_vec enc_u32) (drop ?L adj)) @ s) (fresh (junk (2 * q + 1)) 0 (4 * 48))
      (concat (drop ?L rows) @ d) (fresh (junk (2 * q + 2)) 0 (332 * m)) =
      Inr (concat (map (enc_vec enc_u32) (drop (m * Suc q) adj)) @ s, concat (drop (m * Suc q) rows) @ d, flat ?F)"
    using b2_nodes_all [OF m len(1) all len(2) ts(1,2), of 0 "fresh (junk (2 * q + 1)) 0 (4 * 48)" ?L
        "concat (map (enc_vec enc_u32) (drop (m * Suc q) adj)) @ s" "concat (drop (m * Suc q) rows) @ d"] ts(3)
    by (subst split(1), subst split(2)) (simp add: add.commute)
  obtain files where f: "b2_parts junk 48 start m [Suc q ..< k] (concat (map (enc_vec enc_u32) (drop (m * Suc q) adj)) @ s) (concat (drop (m * Suc q) rows) @ d) = Inr files"
      "length files = k - Suc q"
      "\<forall>i<k - Suc q. b2_file_of m start adj rows (m * (Suc q + i)) (files ! i)"
    using Suc.hyps(1) [of "Suc q"] Suc.hyps(2) Suc.prems q by fastforce
  let ?f = "enc_u64 (word_of_nat m) @ enc_u32 start @ flat ?F"
  have "b2_file_of m start adj rows ?L ?f"
    unfolding b2_file_of_def
  proof (intro exI conjI)
    have "list_all (\<lambda>ids. length ids \<le> 48) (shifted ?L ?A)" using all(1) by (auto simp: shifted_def list_all_length)
    moreover have "unat (id_map m ! p) = p" if "p < m" for p using that m by (simp add: id_map_def)
    moreover have "(?A ! j) = adj ! (?L + j)" "?R ! j = rows ! (?L + j)" if "j < m" for j
      using that le Suc.prems by simp_all
    moreover have "(ucast (word_of_nat j :: u32) :: u64) = word_of_nat j" if "j < m" for j
    proof -
      have "unat (ucast (word_of_nat j :: u32) :: u64) = unat (word_of_nat j :: u64)" using that m by simp
      then show ?thesis by (rule unsigned_word_eqI)
    qed
    ultimately show "rd_many m (rd_element 48 128) (flat ?F) = Some (map (\<lambda>j. (map (\<lambda>v. v - word_of_nat ?L) (adj ! (?L + j)),
         rows ! (?L + j), word_of_nat (?L + j))) [0 ..< m], [])"
      using rd_filled [of "id_map m" m "shifted ?L ?A" 48 128 ?R ts ?L] len all(2) ts(1,2)
      by (simp add: id_map_def shifted_def cong: map_cong)
  qed (rule refl)
  with f(2,3) have "\<forall>i<k - q. b2_file_of m start adj rows (m * (q + i)) ((?f # files) ! i)"
    by (auto simp: nth_Cons less_Suc_eq_0_disj split: nat.splits)
  moreover have "b2_parts junk 48 start m [q ..< k] (concat (map (enc_vec enc_u32) (drop ?L adj)) @ s) (concat (drop ?L rows) @ d) = Inr (?f # files)"
    unfolding upt_conv_Cons [OF q] b2_parts.simps b sum.case prod.case f(1) by (simp add: write_chunks_all)
  moreover have "length (?f # files) = k - q" using f(2) q by simp
  ultimately show ?case by blast
qed simp

section \<open>The offline pipeline\<close>

lemma load_b1_file:
  assumes "n < 2 ^ 64" "rd_many n (rd_element 48 128) body = Some (els, [])"
  shows "load_b1 hi (enc_u64 (word_of_nat n) @ enc_u32 start @ body) = Inr (push_bit 32 (ucast hi) OR ucast start, els)"
  using assms by (simp add: load_b1_def u64.rd_enc u32.rd_enc)

lemma label_pos_of_nth: "unat v < length d \<Longrightarrow> label_pos_of d ! unat v = word_of_nat (label_index d v)"
  by (simp add: label_pos_of_def)

lemma concat_rows: "list_all (\<lambda>r. length r = len) rows \<Longrightarrow> \<forall>l\<in>set ls. unat l < length rows \<Longrightarrow>
     list_all (\<lambda>r. length r = len) (map (\<lambda>l. rows ! unat l) ls)"
  by (auto simp: list_all_iff)

text \<open>The neighbours by position are a valid graph for the V3 writer.\<close>

lemma pipeline_graph:
  assumes p: "is_partition n parts" "8 * n < 2 ^ 31" and adj: "max_degree_ok n 48 adj"
  shows "valid_graph (map (\<lambda>ls. word_of_nat (length ls)) parts)
     (map (\<lambda>p. map (\<lambda>v. label_pos_of (concat parts) ! unat v) (adj ! unat (concat parts ! p))) [0 ..< n])"
proof -
  have len: "length (concat parts) = n" using p by (simp add: is_partition_def)
  have inv: "inverse_maps n (concat parts) (label_pos_of (concat parts))"
    using p len by (intro label_pos_inverse) (auto simp: is_partition_def)
  have "length ls < 2 ^ 32" if "ls \<in> set parts" for ls
    using member_le_sum_list [of "length ls" "map length parts"] that len p(2) by (simp add: length_concat)
  then have "starts (map (\<lambda>ls. word_of_nat (length ls)) parts) (length parts) = n"
    using len by (simp add: starts_def length_concat comp_def cong: map_cong)
  moreover have "length (adj ! unat (concat parts ! p)) \<le> 48 \<and>
      (\<forall>v\<in>set (adj ! unat (concat parts ! p)). unat (label_pos_of (concat parts) ! unat v) < n)" if "p < n" for p
    using that inv adj by (auto simp: inverse_maps_def max_degree_ok_def list_all_length)
  ultimately show ?thesis
    using p(2) by (auto simp: valid_graph_def valid_nghs_def max_deg_def list_all_length)
qed

text \<open>Property C16.  The offline pipeline, from the identifier lists of the partitions, the data file and the Vamana index
  (degree at most 48, identifiers of vertices) to the V3 partition images: every step returns; in the B1
  file position \<open>p\<close> holds the vector with the \<open>p\<close>-th label of the concatenated lists, under that label,
  with the neighbours of that vertex given by their positions; the entry point in the file is the
  number from the Vamana header (with 32 uninitialised bits above it), not its position; and the V3
  writer accepts the graph and writes one image per partition.\<close>

theorem offline_pipeline:
  assumes p: "is_partition n parts" "0 < n" "8 * n < 2 ^ 31" "4 * length parts < 2 ^ 31"
    and rows: "list_all (\<lambda>r. length r = 128) rows" "n \<le> length rows" and adj: "max_degree_ok n 48 adj"
    and env: "ke_part_files env = map (\<lambda>ls. Some (part_file header ls)) parts" "length header = 8"
      "ke_data env = data_file dim rows" "ke_pos_label_file env = None" "ke_label_pos_file env = None"
  shows "\<exists>pl lp out file els imgs.
     transfer_kmeans env n (unat dim) 128 = Inr (pl, lp, out) \<and>
     transfer_vamana_to_b1graph junk n 48 128 (vamana_file sz 48 start num adj) (Some lp) (Some pl) out = Inr file \<and>
     load_b1 hi file = Inr (push_bit 32 (ucast hi) OR ucast start, els) \<and> length els = n \<and>
     (\<forall>p<n. els ! p = (map (\<lambda>v. word_of_nat (label_index (concat parts) v)) (adj ! unat (concat parts ! p)),
        rows ! unat (concat parts ! p), ucast (concat parts ! p))) \<and>
     transfer_b1_to_scala_v3 junk' (push_bit 32 (ucast hi) OR ucast start) (map (\<lambda>ls. word_of_nat (length ls)) parts) (map fst els) = Inr imgs \<and>
     length imgs = length parts"
proof -
  let ?d = "concat parts" and ?sizes = "map (\<lambda>ls. word_of_nat (length ls)) parts :: u32 list"
  let ?rows = "map (\<lambda>l. rows ! unat l) ?d" and ?ep = "push_bit 32 (ucast hi) OR ucast start :: u64"
  obtain pl lp where k: "transfer_kmeans env n (unat dim) 128 = Inr (pl, lp, concat ?rows)"
      "get_map (Some pl) = Inr (n, length parts, ?sizes, ?d)" "get_map (Some lp) = Inr (n, length parts, ?sizes, label_pos_of ?d)"
      "inverse_maps n ?d (label_pos_of ?d)"
    using transfer_kmeans_ok [OF p rows env] by blast
  have d: "length ?d = n" "\<forall>l\<in>set ?d. unat l < n" using p(1) by (auto simp: is_partition_def labels_ok_def)
  have R: "list_all (\<lambda>r. length r = 128) ?rows" "length ?rows = n"
    using concat_rows [OF rows(1), of ?d] d rows(2) by (auto intro: less_le_trans)
  let ?els = "map (\<lambda>p. (map (\<lambda>v. label_pos_of ?d ! unat v) (adj ! unat (?d ! p)), ?rows ! p, ucast (?d ! p))) [0 ..< n] :: (u32 list \<times> byte list \<times> u64) list"
  have "n \<le> 2 ^ 31" using p(3) by simp
  from b1_file_ok [OF k(4) this adj R k(3,2), of junk sz start num] obtain body where
    b: "transfer_vamana_to_b1graph junk n 48 128 (vamana_file sz 48 start num adj) (Some lp) (Some pl) (concat ?rows) =
       Inr (enc_u64 (word_of_nat n) @ enc_u32 start @ body)" "rd_many n (rd_element 48 128) body = Some (?els, [])"
    by blast
  have l: "load_b1 hi (enc_u64 (word_of_nat n) @ enc_u32 start @ body) = Inr (?ep, ?els)"
    using p(3) by (intro load_b1_file [OF _ b(2)]) simp
  have e: "?els ! p = (map (\<lambda>v. word_of_nat (label_index ?d v)) (adj ! unat (?d ! p)), rows ! unat (?d ! p), ucast (?d ! p))" if "p < n" for p
  proof -
    have "unat (?d ! p) < n" using k(4) that by (simp add: inverse_maps_def)
    then have "\<forall>v\<in>set (adj ! unat (?d ! p)). unat v < length ?d"
      using adj d(1) by (auto simp: max_degree_ok_def list_all_length)
    then show ?thesis using that d(1) by (simp add: label_pos_of_nth)
  qed
  have "map fst ?els = map (\<lambda>p. map (\<lambda>v. label_pos_of ?d ! unat v) (adj ! unat (?d ! p))) [0 ..< n]"
    by (simp add: comp_def)
  then have "valid_graph ?sizes (map fst ?els)" using pipeline_graph [OF p(1,3) adj] by (simp only:)
  from transfer_ok [OF this, of junk' ?ep] obtain imgs where
    i: "transfer_b1_to_scala_v3 junk' ?ep ?sizes (map fst ?els) = Inr imgs" "length imgs = length parts" by auto
  from k(1) b(1) l e i show ?thesis by (intro exI conjI allI impI) (assumption | simp)+
qed

text \<open>Two vectors, vector 1 in the first partition and vector 0 in the second, linked to each other.\<close>

definition pipe_env :: kmeans_env where
  "pipe_env = \<lparr>ke_part_files = map (\<lambda>ls. Some (part_file (replicate 8 0) ls)) [[1], [0]],
     ke_data = data_file 128 [replicate 128 7, replicate 128 9], ke_pos_label_file = None, ke_label_pos_file = None,
     ke_rand1 = [5], ke_rand2 = [], ke_junk = (\<lambda>b i. 0)\<rparr>"

theorem offline_pipeline_witness:
  "\<exists>pl lp out file els imgs. transfer_kmeans pipe_env 2 128 128 = Inr (pl, lp, out) \<and>
     transfer_vamana_to_b1graph (\<lambda>b i. 0) 2 48 128 (vamana_file 0 48 1 0 [[1], [0]]) (Some lp) (Some pl) out = Inr file \<and>
     load_b1 0 file = Inr (1, els) \<and> els ! 0 = ([1], replicate 128 9, 1) \<and> els ! 1 = ([0], replicate 128 7, 0) \<and>
     transfer_b1_to_scala_v3 (\<lambda>i. 0) 1 [1, 1] (map fst els) = Inr imgs \<and> length imgs = 2"
proof -
  have "is_partition 2 [[1], [0]]" "max_degree_ok 2 48 [[1], [0]]"
    by (simp_all add: is_partition_def labels_ok_def max_degree_ok_def)
  moreover have "ke_part_files pipe_env = map (\<lambda>ls. Some (part_file (replicate 8 0) ls)) [[1], [0]]"
    "ke_data pipe_env = data_file 128 [replicate 128 7, replicate 128 9]"
    "ke_pos_label_file pipe_env = None" "ke_label_pos_file pipe_env = None"
    by (simp_all add: pipe_env_def)
  ultimately obtain pl lp out f els imgs where r:
    "transfer_kmeans pipe_env 2 (unat (128 :: u32)) 128 = Inr (pl, lp, out)"
    "transfer_vamana_to_b1graph (\<lambda>b i. 0) 2 48 128 (vamana_file 0 48 1 0 [[1], [0]]) (Some lp) (Some pl) out = Inr f"
    "load_b1 0 f = Inr (push_bit 32 (ucast (0 :: u32)) OR ucast (1 :: u32), els)"
    "\<forall>p<2. els ! p = (map (\<lambda>v. word_of_nat (label_index (concat [[1], [0]]) v)) ([[1], [0]] ! unat (concat [[1], [0]] ! p :: u32)),
        [replicate 128 7, replicate 128 9] ! unat (concat [[1], [0]] ! p :: u32), ucast (concat [[1], [0]] ! p :: u32))"
    "transfer_b1_to_scala_v3 (\<lambda>i. 0) (push_bit 32 (ucast (0 :: u32)) OR ucast (1 :: u32)) (map (\<lambda>ls. word_of_nat (length ls)) [[1 :: u32], [0]]) (map fst els) = Inr imgs"
    "length imgs = length [[1 :: u32], [0]]"
    using offline_pipeline [of 2 "[[1], [0]]" "[replicate 128 7, replicate 128 9]" "[[1], [0]]" pipe_env "replicate 8 0" 128 "\<lambda>b i. 0" 0 1 0 0 "\<lambda>i. 0"]
    by auto
  have "els ! 0 = ([1], replicate 128 9, 1)" "els ! 1 = ([0], replicate 128 7, 0)"
    using r(4) [rule_format, of 0] r(4) [rule_format, of 1] by (simp_all add: label_index_def)
  moreover have "transfer_kmeans pipe_env 2 128 128 = Inr (pl, lp, out)" "load_b1 0 f = Inr (1, els)"
    "transfer_b1_to_scala_v3 (\<lambda>i. 0) 1 [1, 1] (map fst els) = Inr imgs" "length imgs = 2"
    using r by simp_all
  ultimately show ?thesis using r(2) by blast
qed

text \<open>Property C27.  The B2 files for an index of degree at most 48: the transfer returns one file per part; the file of
  part \<open>p\<close> holds the vertices from \<open>p * m\<close> on, \<open>m\<close> the rounded-down share of a part, each with its own vector
  and label and with the neighbour identifiers relative to the start of the part, the subtraction wrapping
  for a neighbour in an earlier part.\<close>

theorem b2_files:
  assumes "list_all (\<lambda>ids. length ids \<le> 48) adj" "list_all (\<lambda>r. length r = 128) rows" "length header = 8"
    and "m = n div part_num" "0 < part_num" "n \<le> length adj" "n \<le> length rows" "m \<le> 2 ^ 31"
  shows "\<exists>files. transfer_vamana_to_b2graph junk part_num n (vamana_file sz 48 start num adj) (header @ concat rows) = Inr files \<and>
     length files = part_num \<and>
     (\<forall>p<part_num. load_b1 hi (files ! p) = Inr (push_bit 32 (ucast hi) OR ucast start,
        map (\<lambda>j. (map (\<lambda>v. v - word_of_nat (m * p)) (adj ! (m * p + j)), rows ! (m * p + j), word_of_nat (m * p + j))) [0 ..< m]))"
proof -
  have "m * part_num \<le> n" using assms(4) by (simp add: div_times_less_eq_dividend)
  then obtain files where f: "b2_parts junk 48 start m [0 ..< part_num] (concat (map (enc_vec enc_u32) adj)) (concat rows) = Inr files"
      "length files = part_num" "\<forall>p<part_num. b2_file_of m start adj rows (m * p) (files ! p)"
    using b2_parts_all [OF assms(8,1,2), of part_num 0 junk start "[]" "[]"] assms(6,7) by auto
  have "transfer_vamana_to_b2graph junk part_num n (vamana_file sz 48 start num adj) (header @ concat rows) = Inr files"
    using f(1) assms(3,4) by (simp add: transfer_vamana_to_b2graph_def read_vamana_header_file)
  moreover have "load_b1 hi (files ! p) = Inr (push_bit 32 (ucast hi) OR ucast start,
        map (\<lambda>j. (map (\<lambda>v. v - word_of_nat (m * p)) (adj ! (m * p + j)), rows ! (m * p + j), word_of_nat (m * p + j))) [0 ..< m])"
    if "p < part_num" for p
  proof -
    from f(3) that obtain body where b: "files ! p = enc_u64 (word_of_nat m) @ enc_u32 start @ body"
      "rd_many m (rd_element 48 128) body = Some (map (\<lambda>j. (map (\<lambda>v. v - word_of_nat (m * p)) (adj ! (m * p + j)),
          rows ! (m * p + j), word_of_nat (m * p + j))) [0 ..< m], [])"
      unfolding b2_file_of_def by blast
    show ?thesis unfolding b(1) by (rule load_b1_file [OF _ b(2)]) (use assms(8) in simp)
  qed
  ultimately show ?thesis using f(2) by blast
qed

theorem b2_files_witness:
  "\<exists>files. transfer_vamana_to_b2graph (\<lambda>b i. 0) 2 2 (vamana_file 0 48 0 0 [[1], [0]]) (replicate 8 0 @ concat [replicate 128 7, replicate 128 9]) = Inr files \<and>
     load_b1 0 (files ! 1) = Inr (0, [([- 1], replicate 128 9, 1)])"
proof -
  obtain files where "transfer_vamana_to_b2graph (\<lambda>b i. 0) 2 2 (vamana_file 0 48 0 0 [[1], [0]]) (replicate 8 0 @ concat [replicate 128 7, replicate 128 9]) = Inr files"
    "\<forall>p<2. load_b1 0 (files ! p) = Inr (push_bit 32 (ucast (0 :: u32)) OR ucast (0 :: u32),
        map (\<lambda>j. (map (\<lambda>v. v - word_of_nat (1 * p)) ([[1], [0]] ! (1 * p + j)), [replicate 128 7, replicate 128 9] ! (1 * p + j), word_of_nat (1 * p + j))) [0 ..< 1])"
    using b2_files [of "[[1], [0]]" "[replicate 128 7, replicate 128 9]" "replicate 8 0" 1 2 2 "\<lambda>b i. 0" 0 0 0 0] by auto
  then show ?thesis by (intro exI [of _ files]) simp
qed

end
