(* ===== verification/Scala_Build.thy ===== *)
theory Scala_Build
  imports B1_Transfer Index_Exchange
begin

text \<open>
  The distributed V3 build, \<^verbatim>\<open>ScalaBuild::transfer_to_scala_v3\<close> of \<^verbatim>\<open>src/index/scala_build.cc\<close>, run by all
  machines together: each machine loads its part of the B1 graph, counts the neighbours it will send
  to the others, learns the counts of all machines, writes its own elements with offsets into the
  arrays of the others, and receives its array from them (\<open>Index_Exchange\<close>).  The theorems show that the
  machines together write the images that the single-machine writer of \<open>Scala_Graph\<close> writes for the whole
  graph.
\<close>

section \<open>Loading the part\<close>

text \<open>The local B1 file: the number of elements has to be the partition size; \<^verbatim>\<open>read_enterpoint_node_\<close> has 64 bits of
  which the lower 32 are read and kept.\<close>

definition load_part ::
  "nat \<Rightarrow> nat \<Rightarrow> u32 \<Rightarrow> byte list \<Rightarrow> crash + u32 \<times> (u32 list \<times> byte list \<times> u64) list"
where
  "load_part md len part_size file =
     (case do { (n, s) \<leftarrow> rd_u64 file; (medoid, s) \<leftarrow> rd_u32 s; Some (n, medoid, s) } of
        None \<Rightarrow> Inl OutOfBounds
      | Some (n, medoid, s) \<Rightarrow>
          if n \<noteq> ucast part_size then Inl Abort
          else (case rd_many (unat part_size) (rd_element md len) s of
              None \<Rightarrow> Inl OutOfBounds
            | Some (els, _) \<Rightarrow> Inr (medoid, els)))"

section \<open>Steps 0 to 2: counts and offsets\<close>

primrec count_ids :: "u32 list \<Rightarrow> u32 list \<Rightarrow> nat list \<Rightarrow> crash + nat list" where
  "count_ids cumu [] cnt = Inr cnt"
| "count_ids cumu (v # vs) cnt =
     (case judge_partition cumu (ucast v) of
        None \<Rightarrow> Inl OutOfBounds
      | Some q \<Rightarrow> count_ids cumu vs (cnt[q := cnt ! q + 1]))"

primrec count_out :: "u32 list \<Rightarrow> nat \<Rightarrow> u32 list list \<Rightarrow> nat list \<Rightarrow> crash + nat list" where
  "count_out cumu p [] num = Inr num"
| "count_out cumu p (ids # rest) num =
     (case count_ids cumu ids (replicate (length num) 0) of
        Inl e \<Rightarrow> Inl e
      | Inr cnt \<Rightarrow> count_out cumu p rest (add_remote_num (Some p) cnt num))"

text \<open>The table \<^verbatim>\<open>in_remote_ngh_num\<close> of machine \<open>p\<close>: its own row is zero, the rows of the others come with their
  messages, in the order \<open>senders\<close> in which they arrive.\<close>

definition swap_meta :: "nat \<Rightarrow> nat list \<Rightarrow> nat list list \<Rightarrow> crash + nat list list" where
  "swap_meta p senders outs =
     (case foldl (\<lambda>t q. Option.bind t (recv_meta (meta_msg (word_of_nat q) (map word_of_nat (outs ! q)))))
             (Some ((replicate (length outs) [])[p := replicate (length outs) 0])) senders of
        None \<Rightarrow> Inl OutOfBounds
      | Some t \<Rightarrow> Inr (map (map unat) t))"

definition in_total :: "nat \<Rightarrow> nat list list \<Rightarrow> crash + nat" where
  "in_total p in_num =
     (if in_num ! p ! p \<noteq> 0 then Inl Abort
      else Inr (\<Sum>q \<leftarrow> filter (\<lambda>q. q \<noteq> p) [0 ..< length in_num]. in_num ! q ! p))"

definition out_start :: "u32 list \<Rightarrow> nat \<Rightarrow> nat \<Rightarrow> nat list list \<Rightarrow> nat list" where
  "out_start sizes ele p in_num =
     map (\<lambda>q. unat (sizes ! q) * ele + (\<Sum>m \<leftarrow> [0 ..< p]. in_num ! m ! q * 4)) [0 ..< length sizes]"

definition in_start :: "u32 list \<Rightarrow> nat \<Rightarrow> nat \<Rightarrow> nat list list \<Rightarrow> nat list" where
  "in_start sizes ele p in_num =
     map (\<lambda>q. 32 + unat (sizes ! p) * ele + (\<Sum>m \<leftarrow> [0 ..< q]. in_num ! m ! p * 4)) [0 ..< length sizes]"

section \<open>Steps 3 to 5: elements and arrays\<close>

definition v3_ele_size :: "nat \<Rightarrow> nat \<Rightarrow> nat" where
  "v3_ele_size max_degree num_parts = max_degree * 4 + num_parts * 2"

text \<open>The elements of machine \<open>p\<close> and the arrays \<^verbatim>\<open>out_remote_ngh_ptr\<close> it fills for the others.\<close>

definition rewrite_index ::
  "u32 list \<Rightarrow> nat \<Rightarrow> nat \<Rightarrow> nat list list \<Rightarrow> nat list \<Rightarrow> u32 list list \<Rightarrow> crash + byte list list \<times> byte list list"
where
  "rewrite_index sizes ele p in_num out_num adj =
     put_part (cumu_from 0 sizes) (out_start sizes ele p in_num) out_num ele p adj ([], replicate (length sizes) [])"

text \<open>\<^verbatim>\<open>swap_scalagraph_remote_ngh\<close> on machine \<open>p\<close>: one phase per sender, separated by the barrier; \<open>msgs q\<close> are the
  messages of machine \<open>q\<close> and the count it expects is a \<^verbatim>\<open>uint32_t\<close>.\<close>

primrec recv_all ::
  "nat \<Rightarrow> nat list list \<Rightarrow> nat list \<Rightarrow> (nat \<Rightarrow> byte list list) \<Rightarrow> nat list \<Rightarrow> byte list list \<Rightarrow> byte list \<Rightarrow> crash + byte list"
where
  "recv_all p in_num start msgs [] queue mem = Inr mem"
| "recv_all p in_num start msgs (q # qs) queue mem =
     (if q = p then recv_all p in_num start msgs qs queue mem
      else case recv_ngh (unat (word_of_nat (in_num ! q ! p) :: u32)) (start ! q) 0 (queue @ msgs q) mem of
        Inl e \<Rightarrow> Inl e
      | Inr (mem, queue) \<Rightarrow> recv_all p in_num start msgs qs queue mem)"

definition v3_image ::
  "(nat \<Rightarrow> byte) \<Rightarrow> u32 list \<Rightarrow> nat \<Rightarrow> nat \<Rightarrow> u32 \<Rightarrow> nat list list \<Rightarrow> byte list list \<Rightarrow> (nat \<Rightarrow> byte list list) \<Rightarrow> crash + byte list"
where
  "v3_image junk sizes ele p medoid in_num els msgs =
     (case in_total p in_num of
        Inl e \<Rightarrow> Inl e
      | Inr tot \<Rightarrow>
          let n = length sizes;
              expect_size = 32 + unat (sizes ! p) * ele + tot * 4;
              mem = index_meta p n (sizes ! p) ele (ucast medoid) tot @ concat (map (pad junk ele) els) @ fresh junk 0 (tot * 4)
          in (case recv_all p in_num (in_start sizes ele p in_num) msgs [0 ..< n] [] mem of
                Inl e \<Rightarrow> Inl e
              | Inr mem \<Rightarrow>
                  if 32 + length els * ele + (\<Sum>q \<leftarrow> [0 ..< n]. in_num ! q ! p * 4) \<noteq> expect_size then Inl Abort
                  else Inr (write_chunks (2 ^ 27) 0 mem)))"

section \<open>Step 6: the data file\<close>

text \<open>The vector for the entry point is that of element 0 of the partition.  \<^verbatim>\<open>write_size\<close> is not reset after the
  index file: the data file is written in pieces of the size of the last piece of the index file.\<close>

definition last_write_size :: "nat \<Rightarrow> nat \<Rightarrow> nat" where
  "last_write_size w index_size = (if index_size mod w = 0 then w else index_size mod w)"

definition v3_data ::
  "nat \<Rightarrow> nat \<Rightarrow> nat \<Rightarrow> u32 \<Rightarrow> u32 \<Rightarrow> (u32 list \<times> byte list \<times> u64) list \<Rightarrow> crash + byte list"
where
  "v3_data write_size p num_parts part_size max_vid els =
     (case els of
        [] \<Rightarrow> Inl OutOfBounds
      | (_, v, l) # _ \<Rightarrow>
          Inr (write_chunks write_size 0 (enc_u32 (word_of_nat p) @ enc_u32 (word_of_nat num_parts) @ enc_u32 part_size @
            enc_u64 (ucast max_vid) @ v @ enc_u64 l @
            concat (map (\<lambda>e. fst (snd e) @ enc_u64 (snd (snd e))) els))))"

section \<open>All machines\<close>

primrec traverse :: "('a \<Rightarrow> crash + 'b) \<Rightarrow> 'a list \<Rightarrow> crash + 'b list" where
  "traverse f [] = Inr []"
| "traverse f (x # xs) =
     (case f x of
        Inl e \<Rightarrow> Inl e
      | Inr y \<Rightarrow> (case traverse f xs of Inl e \<Rightarrow> Inl e | Inr ys \<Rightarrow> Inr (y # ys)))"

text \<open>The messages of machine \<open>q\<close> for machine \<open>p\<close>.\<close>

definition ngh_messages :: "nat list list \<Rightarrow> (byte list list \<times> byte list list) list \<Rightarrow> nat \<Rightarrow> crash + byte list list list" where
  "ngh_messages outs parts q =
     traverse (\<lambda>p. if p = q then Inr [] else send_ngh (word_of_nat q) (snd (parts ! q) ! p) (outs ! q ! p) 0)
       [0 ..< length outs]"

text \<open>The run of the program on machines \<open>0\<close> to \<open>n - 1\<close>, one phase after the other as the exchanges and
  barriers force them; \<open>senders p\<close> is the order in which the counts reach machine \<open>p\<close>.\<close>

definition transfer_to_scala_v3 ::
  "(nat \<Rightarrow> nat \<Rightarrow> byte) \<Rightarrow> (nat \<Rightarrow> nat list) \<Rightarrow> nat \<Rightarrow> nat \<Rightarrow> u32 list \<Rightarrow> u32 \<Rightarrow> byte list list \<Rightarrow>
     crash + (byte list \<times> byte list) list"
where
  "transfer_to_scala_v3 junk senders md len sizes max_vid files =
     (let n = length sizes; ele = v3_ele_size md n; cumu = cumu_from 0 sizes in
      case traverse (\<lambda>p. load_part md len (sizes ! p) (files ! p)) [0 ..< n] of
        Inl e \<Rightarrow> Inl e
      | Inr local \<Rightarrow>
     (case traverse (\<lambda>p. count_out cumu p (map fst (snd (local ! p))) (replicate n 0)) [0 ..< n] of
        Inl e \<Rightarrow> Inl e
      | Inr outs \<Rightarrow>
     (case traverse (\<lambda>p. swap_meta p (senders p) outs) [0 ..< n] of
        Inl e \<Rightarrow> Inl e
      | Inr ins \<Rightarrow>
     (case traverse (\<lambda>p. rewrite_index sizes ele p (ins ! p) (outs ! p) (map fst (snd (local ! p)))) [0 ..< n] of
        Inl e \<Rightarrow> Inl e
      | Inr parts \<Rightarrow>
     (case traverse (ngh_messages outs parts) [0 ..< n] of
        Inl e \<Rightarrow> Inl e
      | Inr msgs \<Rightarrow>
         traverse (\<lambda>p. case v3_image (junk p) sizes ele p (fst (local ! p)) (ins ! p) (fst (parts ! p)) (\<lambda>q. msgs ! q ! p) of
             Inl e \<Rightarrow> Inl e
           | Inr img \<Rightarrow> (case v3_data (last_write_size (2 ^ 27) (length img)) p n (sizes ! p) max_vid (snd (local ! p)) of
                 Inl e \<Rightarrow> Inl e
               | Inr dat \<Rightarrow> Inr (img, dat))) [0 ..< n])))))"

lemma traverse_Inr: "(\<And>x. x \<in> set xs \<Longrightarrow> f x = Inr (g x)) \<Longrightarrow> traverse f xs = Inr (map g xs)"
  by (induction xs) auto

section \<open>Counting\<close>

lemma count_ids_returns:
  assumes "table_ok sizes"
  shows "\<forall>v\<in>set ids. unat v < starts sizes (length sizes) \<Longrightarrow> length cnt = length sizes \<Longrightarrow>
     count_ids (cumu_from 0 sizes) ids cnt =
       Inr (map (\<lambda>q. cnt ! q + length (part_ngh sizes q ids)) [0 ..< length sizes])"
proof (induction ids arbitrary: cnt)
  case (Cons v ids)
  then obtain q where q: "judge_partition (cumu_from 0 sizes) (ucast v) = Some q" "q < length sizes"
    using assms(1) by (auto elim: judge_valid)
  with Cons show ?case by (auto simp: part_ngh_def nth_list_update)
qed (auto simp: part_ngh_def intro: nth_equalityI)

lemma count_out_returns:
  assumes "table_ok sizes"
  shows "list_all (valid_nghs sizes) adj \<Longrightarrow> length num = length sizes \<Longrightarrow>
     count_out (cumu_from 0 sizes) p adj num = Inr (map (\<lambda>q. num ! q + remote_total sizes p q adj) [0 ..< length sizes])"
proof (induction adj arbitrary: num)
  case (Cons ids adj)
  have c: "count_ids (cumu_from 0 sizes) ids (replicate (length sizes) 0) =
      Inr (map (\<lambda>q. length (part_ngh sizes q ids)) [0 ..< length sizes])"
    using count_ids_returns [OF assms, of ids "replicate (length sizes) 0"] Cons.prems(1)
    by (simp add: valid_nghs_def cong: map_cong)
  let ?num = "map (\<lambda>q. num ! q + contrib sizes p q ids) [0 ..< length sizes]"
  have a: "add_remote_num (Some p) (map (\<lambda>q. length (part_ngh sizes q ids)) [0 ..< length sizes]) num = ?num"
    using Cons.prems(2) by (auto simp: add_remote_num_def contrib_def)
  have "count_out (cumu_from 0 sizes) p (ids # adj) num = count_out (cumu_from 0 sizes) p adj ?num"
    using Cons.prems(2) by (simp add: c a)
  also have "\<dots> = Inr (map (\<lambda>q. ?num ! q + remote_total sizes p q adj) [0 ..< length sizes])"
    using Cons.prems by (intro Cons.IH) auto
  also have "map (\<lambda>q. ?num ! q + remote_total sizes p q adj) [0 ..< length sizes] =
      map (\<lambda>q. num ! q + remote_total sizes p q (ids # adj)) [0 ..< length sizes]"
    by (rule nth_equalityI) (auto simp: remote_total_def)
  finally show ?case .
qed (auto simp: remote_total_def intro!: nth_equalityI)

text \<open>The table of counts, when every count fits its 64 bits.\<close>

lemma swap_meta_fold:
  assumes n: "length outs = MACHINE_NUM" and rows: "\<forall>q<MACHINE_NUM. length (outs ! q) = MACHINE_NUM"
  shows "distinct senders \<Longrightarrow> set senders \<subseteq> {..<MACHINE_NUM} \<Longrightarrow> length t = MACHINE_NUM \<Longrightarrow> \<forall>q\<in>set senders. t ! q = [] \<Longrightarrow>
     foldl (\<lambda>t q. Option.bind t (recv_meta (meta_msg (word_of_nat q) (map word_of_nat (outs ! q))))) (Some t) senders =
       Some (map (\<lambda>q. if q \<in> set senders then map word_of_nat (outs ! q) else t ! q) [0 ..< MACHINE_NUM])"
proof (induction senders arbitrary: t)
  case Nil
  then show ?case by (auto intro: nth_equalityI)
next
  case (Cons q senders)
  have q: "q < MACHINE_NUM" "unat (word_of_nat q :: u32) = q" "t ! q = []"
    using Cons.prems by (auto simp: MACHINE_NUM_def)
  let ?t = "t[q := map word_of_nat (outs ! q)]"
  have r: "recv_meta (meta_msg (word_of_nat q) (map word_of_nat (outs ! q))) t = Some ?t"
    using meta_roundtrip [of "map word_of_nat (outs ! q)" "word_of_nat q" t] q rows Cons.prems(3) by simp
  have "foldl (\<lambda>t q. Option.bind t (recv_meta (meta_msg (word_of_nat q) (map word_of_nat (outs ! q))))) (Some t) (q # senders) =
     Some (map (\<lambda>r. if r \<in> set senders then map word_of_nat (outs ! r) else ?t ! r) [0 ..< MACHINE_NUM])"
    using Cons.prems by (simp only: foldl.simps bind.bind_lunit r) (rule Cons.IH; auto simp: nth_list_update)
  also have "\<dots> = Some (map (\<lambda>r. if r \<in> set (q # senders) then map word_of_nat (outs ! r) else t ! r) [0 ..< MACHINE_NUM])"
    using Cons.prems q by (auto simp: nth_list_update)
  finally show ?case .
qed

definition in_table :: "nat \<Rightarrow> nat list list \<Rightarrow> nat list list" where
  "in_table p outs = outs[p := replicate (length outs) 0]"

lemma swap_meta_table:
  assumes n: "length outs = MACHINE_NUM" and rows: "\<forall>q<MACHINE_NUM. length (outs ! q) = MACHINE_NUM \<and> (\<forall>x\<in>set (outs ! q). x < 2 ^ 64)"
    and s: "distinct senders" "set senders = {..<MACHINE_NUM} - {p}" and p: "p < MACHINE_NUM"
  shows "swap_meta p senders outs = Inr (in_table p outs)"
proof -
  let ?t = "(replicate (length outs) [])[p := replicate (length outs) 0] :: u64 list list"
  have "foldl (\<lambda>t q. Option.bind t (recv_meta (meta_msg (word_of_nat q) (map word_of_nat (outs ! q))))) (Some ?t) senders =
     Some (map (\<lambda>q. if q \<in> set senders then map word_of_nat (outs ! q) else ?t ! q) [0 ..< MACHINE_NUM])"
    using n rows s p by (intro swap_meta_fold) (auto simp: nth_list_update)
  moreover have "map (map unat) (map (\<lambda>q. if q \<in> set senders then map word_of_nat (outs ! q) else ?t ! q) [0 ..< MACHINE_NUM]) =
      in_table p outs"
  proof (rule nth_equalityI)
    fix q assume "q < length (map (map unat) (map (\<lambda>q. if q \<in> set senders then map word_of_nat (outs ! q) else ?t ! q) [0 ..< MACHINE_NUM]))"
    then have q: "q < MACHINE_NUM" by simp
    have "map (\<lambda>x. unat (word_of_nat x :: u64)) (outs ! q) = outs ! q"
      using rows q by (intro map_idI) (simp add: unat_of_nat)
    then show "map (map unat) (map (\<lambda>q. if q \<in> set senders then map word_of_nat (outs ! q) else ?t ! q) [0 ..< MACHINE_NUM]) ! q =
        in_table p outs ! q"
      using q n s p by (cases "q = p") (simp_all add: in_table_def comp_def map_replicate_const)
  qed (simp add: in_table_def n)
  ultimately show ?thesis by (simp add: swap_meta_def)
qed

section \<open>Writing behind arrays that are already there\<close>

text \<open>A writer with empty arrays and offsets shifted by the lengths of \<open>xs\<close> writes the same elements as one that appends
  to the arrays \<open>xs\<close>.\<close>

abbreviation (input) behind :: "byte list list \<Rightarrow> byte list list \<Rightarrow> byte list list" where
  "behind xs r \<equiv> map2 (@) xs r"

definition shifted_base :: "byte list list \<Rightarrow> nat list \<Rightarrow> nat list \<Rightarrow> bool" where
  "shifted_base xs base base' \<longleftrightarrow> length base = length xs \<and> length base' = length xs \<and> (\<forall>q<length xs. base' ! q = base ! q + length (xs ! q))"

lemma put_block_shift:
  assumes sh: "shifted_base xs base base'" "length r = length xs" "q < length xs"
    and a: "put_block base' num' l p q ids (el, r) = Inr (el', r')"
    and b: "put_block base num l p q ids (el, behind xs r) = Inr (el2, rem2)"
  shows "el2 = el' \<and> rem2 = behind xs r' \<and> length r' = length xs"
proof (cases "q \<noteq> p \<and> \<not> length ids \<le> INLINE_DEG_BAR")
  case True
  have bq: "base' ! q = base ! q + length (xs ! q)" "behind xs r ! q = xs ! q @ r ! q"
    using sh by (simp_all add: shifted_base_def)
  have "(behind xs r)[q := (xs ! q @ r ! q) @ concat (map enc_u32 ids)] = behind xs (r[q := r ! q @ concat (map enc_u32 ids)])"
    using sh by (intro nth_equalityI [of "list_update _ _ _"]) (auto simp: nth_list_update)
  with a b True sh show ?thesis
    by (auto simp: put_block_def Let_def foldl_emit bq add.assoc split: if_splits)
next
  case False
  with a b sh show ?thesis by (auto simp: put_block_def Let_def split: if_splits)
qed

lemma put_blocks_shift:
  assumes sh: "shifted_base xs base base'"
  shows "\<lbrakk>length r = length xs; set qs \<subseteq> {..<length xs};
    put_blocks base' num' e p nghs qs (el, r) = Inr (el', r');
    put_blocks base num e p nghs qs (el, behind xs r) = Inr (el2, rem2)\<rbrakk> \<Longrightarrow> el2 = el' \<and> rem2 = behind xs r' \<and> length r' = length xs"
proof (induction qs arbitrary: el r)
  case (Cons q qs)
  from Cons.prems(3) obtain el1 r1 where a: "put_block base' num' (qs = []) p q (nghs ! q) (el, r) = Inr (el1, r1)"
    "put_blocks base' num' e p nghs qs (el1, r1) = Inr (el', r')"
    by (auto split: sum.splits if_splits)
  from Cons.prems(4) obtain el3 r3 where b: "put_block base num (qs = []) p q (nghs ! q) (el, behind xs r) = Inr (el3, r3)"
    "put_blocks base num e p nghs qs (el3, r3) = Inr (el2, rem2)"
    by (auto split: sum.splits if_splits)
  have "el3 = el1 \<and> r3 = behind xs r1 \<and> length r1 = length xs"
    using put_block_shift [OF sh Cons.prems(1) _ a(1) b(1)] Cons.prems(2) by simp
  with Cons.IH [of r1 el1] Cons.prems(2) a(2) b(2) show ?case by simp
qed simp

lemma put_node_shift:
  assumes sh: "shifted_base xs base base'" "length xs = length sizes" "p < length sizes" "length r = length xs"
    and a: "put_node (cumu_from 0 sizes) base' num' e p ids r = Inr (el', r')"
    and b: "put_node (cumu_from 0 sizes) base num e p ids (behind xs r) = Inr (el2, rem2)"
  shows "el2 = el' \<and> rem2 = behind xs r' \<and> length r' = length xs"
proof -
  have len: "length base' = length sizes" "length base = length sizes" using sh by (auto simp: shifted_base_def)
  from a obtain nghs where g: "group_ngh (cumu_from 0 sizes) ids (replicate (length sizes) []) = Inr nghs"
    and pa: "put_blocks base' num' e p nghs (part_ids p nghs) ([], r) = Inr (el', r')"
    by (auto simp: put_node_def len split: sum.splits)
  from b g have pb: "put_blocks base num e p nghs (part_ids p nghs) ([], behind xs r) = Inr (el2, rem2)"
    by (auto simp: put_node_def len split: sum.splits)
  have "length nghs = length sizes" using group_ngh_result [OF g] by simp
  then have "set (part_ids p nghs) \<subseteq> {..<length xs}" using sh by (auto simp: part_ids_def)
  from put_blocks_shift [OF sh(1,4) this pa pb] show ?thesis .
qed

lemma put_part_shift:
  assumes sh: "shifted_base xs base base'" "length xs = length sizes" "p < length sizes"
  shows "\<lbrakk>length r = length xs; put_part (cumu_from 0 sizes) base' num' e p idss (els, r) = Inr (els', r');
    put_part (cumu_from 0 sizes) base num e p idss (els, behind xs r) = Inr (els2, rem2)\<rbrakk> \<Longrightarrow>
    els2 = els' \<and> rem2 = behind xs r' \<and> length r' = length xs"
proof (induction idss arbitrary: els r)
  case (Cons ids idss)
  from Cons.prems(2) obtain el1 r1 where a: "put_node (cumu_from 0 sizes) base' num' e p ids r = Inr (el1, r1)"
    "put_part (cumu_from 0 sizes) base' num' e p idss (els @ [el1], r1) = Inr (els', r')"
    by (auto split: sum.splits)
  from Cons.prems(3) obtain el3 r3 where b: "put_node (cumu_from 0 sizes) base num e p ids (behind xs r) = Inr (el3, r3)"
    "put_part (cumu_from 0 sizes) base num e p idss (els @ [el3], r3) = Inr (els2, rem2)"
    by (auto split: sum.splits)
  have "el3 = el1 \<and> r3 = behind xs r1 \<and> length r1 = length xs"
    using put_node_shift [OF sh Cons.prems(1) a(1) b(1)] .
  with Cons.IH [of r1 "els @ [el1]"] a(2) b(2) show ?case by simp
qed simp

lemma put_part_els_length:
  "put_part cumu base num e p idss (els, r) = Inr (els', r') \<Longrightarrow> length els' = length els + length idss"
  by (induction idss arbitrary: els r) (fastforce split: sum.splits)+

section \<open>The machines and the single writer\<close>

text \<open>A graph that is spread over the machines.\<close>

definition spread :: "u32 list \<Rightarrow> u32 list list list \<Rightarrow> bool" where
  "spread sizes adjs \<longleftrightarrow> length adjs = length sizes \<and> (\<forall>p<length sizes. length (adjs ! p) = unat (sizes ! p)) \<and>
     valid_graph sizes (concat adjs)"

lemma spread_starts: "length adjs = length sizes \<Longrightarrow> \<forall>p<length sizes. length (adjs ! p) = unat (sizes ! p) \<Longrightarrow> p \<le> length sizes \<Longrightarrow>
     length (concat (take p adjs)) = starts sizes p"
proof (induction p)
  case (Suc p)
  then show ?case by (simp add: take_Suc_conv_app_nth starts_Suc)
qed (simp add: starts_def)

lemma spread_part:
  assumes "spread sizes adjs" "p < length sizes"
  shows "part_adj (cumu_from 0 sizes) (concat adjs) p = adjs ! p" "list_all (valid_nghs sizes) (adjs ! p)"
    "starts sizes (Suc p) \<le> length (concat adjs)"
proof -
  have l: "length adjs = length sizes" "\<forall>p<length sizes. length (adjs ! p) = unat (sizes ! p)" and v: "valid_graph sizes (concat adjs)"
    using assms by (auto simp: spread_def)
  have "concat adjs = concat (take p adjs) @ adjs ! p @ concat (drop (Suc p) adjs)"
  proof -
    have "concat adjs = concat (take p adjs @ adjs ! p # drop (Suc p) adjs)"
      using assms(2) l(1) by (intro arg_cong [where f = concat] id_take_nth_drop) simp
    then show ?thesis by simp
  qed
  moreover have "length (concat (take p adjs)) = starts sizes p" using spread_starts [OF l] assms(2) by simp
  ultimately show "part_adj (cumu_from 0 sizes) (concat adjs) p = adjs ! p"
    using valid_graph_table [OF v] assms(2) l by (simp add: part_adj_def unat_cumu0 starts_Suc)
  then show "list_all (valid_nghs sizes) (adjs ! p)" using part_adj_split(3) [OF v assms(2)] by simp
  show "starts sizes (Suc p) \<le> length (concat adjs)" by (rule part_adj_split(4) [OF v assms(2)])
qed

definition outs_of :: "u32 list \<Rightarrow> u32 list list list \<Rightarrow> nat list list" where
  "outs_of sizes adjs = map (\<lambda>p. map (\<lambda>q. remote_total sizes p q (adjs ! p)) [0 ..< length sizes]) [0 ..< length sizes]"

lemma remote_total_self [simp]: "remote_total sizes p p adj = 0"
  by (induction adj) (auto simp: remote_total_def contrib_def)

lemma out_start_nth:
  assumes "p < length sizes" "q < length sizes"
  shows "out_start sizes ele p (in_table p (outs_of sizes adjs)) ! q =
    unat (sizes ! q) * ele + (\<Sum>m \<leftarrow> [0 ..< p]. 4 * remote_total sizes m q (adjs ! m))"
proof -
  have "map (\<lambda>m. in_table p (outs_of sizes adjs) ! m ! q * 4) [0 ..< p] = map (\<lambda>m. 4 * remote_total sizes m q (adjs ! m)) [0 ..< p]"
    using assms by (auto simp: in_table_def outs_of_def)
  from arg_cong [OF this, of sum_list] show ?thesis using assms by (simp add: out_start_def)
qed

lemma length_out_start [simp]: "length (out_start sizes ele p t) = length sizes"
  by (simp add: out_start_def)

lemma rewrite_returns:
  assumes "spread sizes adjs" "p < length sizes"
  shows "\<exists>els r. rewrite_index sizes (ngh_ele_size (length sizes)) p (in_table p (outs_of sizes adjs)) (outs_of sizes adjs ! p) (adjs ! p) = Inr (els, r) \<and>
    length r = length sizes \<and> (\<forall>q<length sizes. length (r ! q) = 4 * remote_total sizes p q (adjs ! p))"
  unfolding rewrite_index_def
  using put_part_returns [of sizes p "out_start sizes (ngh_ele_size (length sizes)) p (in_table p (outs_of sizes adjs))" "adjs ! p"
      "replicate (length sizes) []" "outs_of sizes adjs ! p" "[]"] assms spread_part(2) [OF assms]
  by (auto simp: spread_def valid_graph_table outs_of_def out_start_def)

text \<open>What machine \<open>p\<close> has written, chosen once.\<close>

definition wrote :: "u32 list \<Rightarrow> u32 list list list \<Rightarrow> nat \<Rightarrow> byte list list \<times> byte list list" where
  "wrote sizes adjs p = projr (rewrite_index sizes (ngh_ele_size (length sizes)) p (in_table p (outs_of sizes adjs)) (outs_of sizes adjs ! p) (adjs ! p))"

lemma wrote:
  assumes "spread sizes adjs" "p < length sizes"
  shows "rewrite_index sizes (ngh_ele_size (length sizes)) p (in_table p (outs_of sizes adjs)) (outs_of sizes adjs ! p) (adjs ! p) = Inr (wrote sizes adjs p)"
    "length (snd (wrote sizes adjs p)) = length sizes"
    "q < length sizes \<Longrightarrow> length (snd (wrote sizes adjs p) ! q) = 4 * remote_total sizes p q (adjs ! p)"
  using rewrite_returns [OF assms] by (auto simp: wrote_def)

definition arrays_to :: "u32 list \<Rightarrow> u32 list list list \<Rightarrow> nat \<Rightarrow> nat \<Rightarrow> byte list" where
  "arrays_to sizes adjs k q = concat (map (\<lambda>m. snd (wrote sizes adjs m) ! q) [0 ..< k])"

lemma length_arrays_to:
  assumes "spread sizes adjs" "k \<le> length sizes" "q < length sizes"
  shows "length (arrays_to sizes adjs k q) = (\<Sum>m \<leftarrow> [0 ..< k]. 4 * remote_total sizes m q (adjs ! m))"
proof -
  have "map (\<lambda>m. length (snd (wrote sizes adjs m) ! q)) [0 ..< k] = map (\<lambda>m. 4 * remote_total sizes m q (adjs ! m)) [0 ..< k]"
    using assms wrote(3) [OF assms(1) _ assms(3)] by auto
  from arg_cong [OF this, of sum_list] show ?thesis by (simp add: arrays_to_def length_concat comp_def)
qed

lemma put_parts_spread:
  assumes sp: "spread sizes adjs" and k: "k \<le> length sizes"
    and r: "put_parts (cumu_from 0 sizes) (map (\<lambda>n. unat n * ngh_ele_size (length sizes)) sizes) num (ngh_ele_size (length sizes))
       (concat adjs) [k ..< length sizes] (map (arrays_to sizes adjs k) [0 ..< length sizes]) = Inr (elss, rem)"
  shows "elss = map (\<lambda>p. fst (wrote sizes adjs p)) [k ..< length sizes] \<and> rem = map (arrays_to sizes adjs (length sizes)) [0 ..< length sizes]"
  using k r
proof (induction k arbitrary: elss rule: inc_induct)
  case base
  then show ?case by simp
next
  case (step p)
  let ?n = "length sizes" and ?e = "ngh_ele_size (length sizes)"
  let ?base = "map (\<lambda>n. unat n * ngh_ele_size (length sizes)) sizes" and ?rem = "\<lambda>k. map (arrays_to sizes adjs k) [0 ..< length sizes]"
  have p: "p < ?n" using step.hyps by simp
  from step.prems p obtain els rem1 elss1 where put: "put_part (cumu_from 0 sizes) ?base num ?e p (adjs ! p) ([], ?rem p) = Inr (els, rem1)"
    and rest: "put_parts (cumu_from 0 sizes) ?base num ?e (concat adjs) [Suc p ..< ?n] rem1 = Inr (elss1, rem)" and elss: "elss = els # elss1"
    by (auto simp: upt_conv_Cons spread_part(1) [OF sp p] split: sum.splits if_splits)
  let ?base' = "out_start sizes ?e p (in_table p (outs_of sizes adjs))"
  have sh: "shifted_base (?rem p) ?base ?base'"
    using p length_arrays_to [OF sp] out_start_nth [OF p] by (auto simp: shifted_base_def)
  have w: "put_part (cumu_from 0 sizes) ?base' (outs_of sizes adjs ! p) ?e p (adjs ! p) ([], replicate ?n []) = Inr (fst (wrote sizes adjs p), snd (wrote sizes adjs p))"
    using wrote(1) [OF sp p] by (simp add: rewrite_index_def)
  have b: "behind (?rem p) (replicate ?n []) = ?rem p" by (auto intro: nth_equalityI [of "map2 _ _ _"])
  have "els = fst (wrote sizes adjs p) \<and> rem1 = behind (?rem p) (snd (wrote sizes adjs p))"
    using put_part_shift [OF sh _ p _ w, unfolded b, OF _ _ put] by simp
  moreover have "behind (?rem p) (snd (wrote sizes adjs p)) = ?rem (Suc p)"
    using wrote(2) [OF sp p] by (auto simp: arrays_to_def intro!: nth_equalityI [of "map2 _ _ _"])
  ultimately have e: "els = fst (wrote sizes adjs p)" "rem1 = ?rem (Suc p)" by simp_all
  from step.IH [OF rest [unfolded e(2)]] show ?case using p by (simp add: elss e upt_conv_Cons)
qed

text \<open>The arrays as they arrive.\<close>

lemma recv_all_arrays:
  assumes len: "\<And>q. q < n \<Longrightarrow> length (arr q) = 4 * num q" "\<And>q. q < n \<Longrightarrow> num q < 2 ^ 32" and own: "arr p = []"
    and cnt: "\<And>q. q < n \<Longrightarrow> q \<noteq> p \<Longrightarrow> in_num ! q ! p = num q" and st: "\<And>q. q < n \<Longrightarrow> start ! q = length pre + length (concat (map arr [0 ..< q]))"
    and msgs: "\<And>q. q < n \<Longrightarrow> q \<noteq> p \<Longrightarrow> send_ngh (word_of_nat q) (arr q) (num q) 0 = Inr (msgs q)"
  shows "k \<le> n \<Longrightarrow> length junk = length (concat (map arr [k ..< n])) \<Longrightarrow>
     recv_all p in_num start msgs [k ..< n] [] (pre @ concat (map arr [0 ..< k]) @ junk) = Inr (pre @ concat (map arr [0 ..< n]))"
proof (induction "n - k" arbitrary: k junk)
  case (Suc x)
  then have k: "k < n" by simp
  have c: "concat (map arr [k ..< n]) = arr k @ concat (map arr [Suc k ..< n])" using k by (simp add: upt_conv_Cons)
  have IH: "length junk' = length (concat (map arr [Suc k ..< n])) \<Longrightarrow>
     recv_all p in_num start msgs [Suc k ..< n] [] (pre @ concat (map arr [0 ..< Suc k]) @ junk') = Inr (pre @ concat (map arr [0 ..< n]))" for junk'
    using Suc.hyps k by (intro Suc.hyps) auto
  show ?case
  proof (cases "k = p")
    case True
    then show ?thesis using IH [of junk] Suc.prems(2) own c k by (simp add: upt_conv_Cons)
  next
    case False
    let ?mem = "pre @ concat (map arr [0 ..< k]) @ junk" and ?st = "length pre + length (concat (map arr [0 ..< k]))"
    have sp: "?st + 4 * num k \<le> length ?mem" using Suc.prems(2) len(1) [OF k] by (simp add: c)
    obtain ms where ms: "send_ngh (word_of_nat k) (arr k) (num k) 0 = Inr ms"
      "recv_ngh (num k) ?st 0 (ms @ []) ?mem = Inr (take ?st ?mem @ arr k @ drop (?st + 4 * num k) ?mem, [])"
      using transfer_from [OF _ len(1) [OF k] len(2) [OF k] sp, of 0 "word_of_nat k" "[]"] by auto
    have "msgs k = ms" using msgs [OF k False] ms(1) by simp
    moreover have "take ?st ?mem @ arr k @ drop (?st + 4 * num k) ?mem = pre @ concat (map arr [0 ..< Suc k]) @ drop (4 * num k) junk"
      by simp
    moreover have "unat (word_of_nat (in_num ! k ! p) :: u32) = num k" using cnt [OF k False] len(2) [OF k] by simp
    moreover have "length (drop (4 * num k) junk) = length (concat (map arr [Suc k ..< n]))"
      using Suc.prems(2) len(1) [OF k] by (simp add: c)
    ultimately show ?thesis using ms(2) False k st [OF k] IH [of "drop (4 * num k) junk"]
      by (simp add: upt_conv_Cons)
  qed
qed simp

definition to_part :: "u32 list \<Rightarrow> u32 list list list \<Rightarrow> nat \<Rightarrow> nat" where
  "to_part sizes adjs p = (\<Sum>m \<leftarrow> [0 ..< length sizes]. remote_total sizes m p (adjs ! m))"

text \<open>The image of partition \<open>p\<close>.\<close>

definition image_of :: "(nat \<Rightarrow> byte) \<Rightarrow> u64 \<Rightarrow> u32 list \<Rightarrow> u32 list list list \<Rightarrow> nat \<Rightarrow> byte list" where
  "image_of junk ep sizes adjs p =
     index_meta p (length sizes) (sizes ! p) (ngh_ele_size (length sizes)) ep (to_part sizes adjs p) @
     concat (map (pad junk (ngh_ele_size (length sizes))) (fst (wrote sizes adjs p))) @ arrays_to sizes adjs (length sizes) p"

lemma single_images:
  assumes sp: "spread sizes adjs"
  shows "transfer_b1_to_scala_v3 junk ep sizes (concat adjs) = Inr (map (image_of junk ep sizes adjs) [0 ..< length sizes])"
proof -
  let ?n = "length sizes" and ?e = "ngh_ele_size (length sizes)" and ?adj = "concat adjs"
  let ?base = "map (\<lambda>n. unat n * ngh_ele_size (length sizes)) sizes"
  have v: "valid_graph sizes ?adj" using sp by (simp add: spread_def)
  let ?num = "map (all_remote sizes ?adj [0 ..< ?n]) [0 ..< ?n]"
  have c: "count_remote (cumu_from 0 sizes) ?adj 0 (replicate ?n 0) = Inr ?num"
    using count_remote_result [OF v, of 0 "replicate ?n 0"] by (simp add: starts_def cong: map_cong)
  have num: "all_remote sizes ?adj [0 ..< ?n] p = to_part sizes adjs p" for p
    unfolding all_remote_def to_part_def
    by (rule arg_cong [where f = sum_list], rule map_cong [OF refl]) (simp add: spread_part(1) [OF sp])
  obtain elss rem where put: "put_parts (cumu_from 0 sizes) ?base ?num ?e ?adj [0 ..< ?n] (replicate ?n []) = Inr (elss, rem)"
    using put_parts_returns [OF v, of ?base "replicate ?n []" "[0 ..< ?n]" ?num] by (auto simp: atLeast0LessThan)
  have r0: "replicate ?n [] = map (arrays_to sizes adjs 0) [0 ..< ?n]" by (rule nth_equalityI) (auto simp: arrays_to_def)
  from put_parts_spread [OF sp _ put [unfolded r0]]
  have e: "elss = map (\<lambda>p. fst (wrote sizes adjs p)) [0 ..< ?n]" "rem = map (arrays_to sizes adjs ?n) [0 ..< ?n]" by simp_all
  have "length (arrays_to sizes adjs ?n p) = 4 * to_part sizes adjs p" if "p < ?n" for p
    using length_arrays_to [OF sp _ that, of ?n] by (simp add: to_part_def sum_list_const_mult)
  then show ?thesis
    by (simp add: transfer_b1_to_scala_v3_def Let_def c [unfolded num] put [unfolded num] e image_of_def list_all_iff cong: map_cong)
qed

lemma els_length: "spread sizes adjs \<Longrightarrow> p < length sizes \<Longrightarrow> length (fst (wrote sizes adjs p)) = unat (sizes ! p)"
proof -
  assume a: "spread sizes adjs" "p < length sizes"
  from wrote(1) [OF a] have "put_part (cumu_from 0 sizes) (out_start sizes (ngh_ele_size (length sizes)) p (in_table p (outs_of sizes adjs)))
     (outs_of sizes adjs ! p) (ngh_ele_size (length sizes)) p (adjs ! p) ([], replicate (length sizes) []) =
     Inr (fst (wrote sizes adjs p), snd (wrote sizes adjs p))"
    by (simp add: rewrite_index_def)
  from put_part_els_length [OF this] a show ?thesis by (simp add: spread_def)
qed

lemma pads_length:
  assumes "spread sizes adjs" "p < length sizes" "length sizes \<le> 64"
  shows "length (concat (map (pad junk (ngh_ele_size (length sizes))) (fst (wrote sizes adjs p)))) = unat (sizes ! p) * ngh_ele_size (length sizes)"
proof -
  have "put_part (cumu_from 0 sizes) (out_start sizes (ngh_ele_size (length sizes)) p (in_table p (outs_of sizes adjs)))
     (outs_of sizes adjs ! p) (ngh_ele_size (length sizes)) p (adjs ! p) ([], replicate (length sizes) []) =
     Inr (fst (wrote sizes adjs p), snd (wrote sizes adjs p))"
    using wrote(1) [OF assms(1,2)] by (simp add: rewrite_index_def)
  from put_part_holds [OF _ assms(3,2) this] obtain base rem where
    "list_all2 (element_ok sizes base (ngh_ele_size (length sizes)) rem p) (fst (wrote sizes adjs p)) (adjs ! p)"
    by auto
  from length_pads [OF this, of junk] assms(1,2) show ?thesis by (simp add: spread_def)
qed

definition small_parts :: "u32 list \<Rightarrow> bool" where
  "small_parts sizes \<longleftrightarrow> (\<forall>p<length sizes. max_deg * unat (sizes ! p) < 2 ^ 32)"

lemma count_small:
  assumes "spread sizes adjs" "small_parts sizes" "p < length sizes"
  shows "remote_total sizes p q (adjs ! p) < 2 ^ 32"
  using remote_total_le [OF spread_part(2) [OF assms(1,3)], of p q] assms by (auto simp: spread_def small_parts_def intro: le_less_trans)

lemma v3_image_ok:
  assumes sp: "spread sizes adjs" "small_parts sizes" and n: "length sizes = MACHINE_NUM" and p: "p < length sizes"
    and msgs: "\<And>q. q < length sizes \<Longrightarrow> q \<noteq> p \<Longrightarrow>
      send_ngh (word_of_nat q) (snd (wrote sizes adjs q) ! p) (remote_total sizes q p (adjs ! q)) 0 = Inr (msgs q)"
  shows "v3_image junk sizes (ngh_ele_size (length sizes)) p medoid (in_table p (outs_of sizes adjs)) (fst (wrote sizes adjs p)) msgs =
     Inr (image_of junk (ucast medoid) sizes adjs p)"
proof -
  let ?n = "length sizes" and ?e = "ngh_ele_size (length sizes)" and ?in = "in_table p (outs_of sizes adjs)"
  let ?arr = "\<lambda>q. snd (wrote sizes adjs q) ! p" and ?num = "\<lambda>q. remote_total sizes q p (adjs ! q)"
  have inq: "?in ! q ! p = ?num q" if "q < ?n" for q
    using that p by (cases "q = p") (auto simp: in_table_def outs_of_def)
  have lin: "length ?in = ?n" by (simp add: in_table_def outs_of_def)
  have sums: "(\<Sum>q \<leftarrow> [0 ..< k]. ?in ! q ! p * 4) = (\<Sum>q \<leftarrow> [0 ..< k]. 4 * ?num q)" if "k \<le> ?n" for k
    using that inq by (intro arg_cong [where f = sum_list] map_cong [OF refl]) auto
  have tot: "in_total p ?in = Inr (to_part sizes adjs p)"
  proof -
    have "(\<Sum>q \<leftarrow> filter (\<lambda>q. q \<noteq> p) [0 ..< k]. ?num q) = (\<Sum>q \<leftarrow> [0 ..< k]. ?num q)" for k
      by (induction k) auto
    moreover have "(\<Sum>q \<leftarrow> filter (\<lambda>q. q \<noteq> p) [0 ..< ?n]. ?in ! q ! p) = (\<Sum>q \<leftarrow> filter (\<lambda>q. q \<noteq> p) [0 ..< ?n]. ?num q)"
      using inq by (intro arg_cong [where f = sum_list] map_cong [OF refl]) auto
    ultimately show ?thesis using inq [OF p] by (simp add: in_total_def lin to_part_def)
  qed
  let ?pre = "index_meta p ?n (sizes ! p) ?e (ucast medoid) (to_part sizes adjs p) @ concat (map (pad junk ?e) (fst (wrote sizes adjs p)))"
  have pre: "length ?pre = 32 + unat (sizes ! p) * ?e"
    using pads_length [OF sp(1) p, of junk] n by (simp add: length_meta MACHINE_NUM_def)
  have len: "length (?arr q) = 4 * ?num q" if "q < ?n" for q using wrote(3) [OF sp(1) that p] .
  have alen: "length (concat (map ?arr [0 ..< k])) = (\<Sum>q \<leftarrow> [0 ..< k]. 4 * ?num q)" if "k \<le> ?n" for k
    using length_arrays_to [OF sp(1) that p] by (simp add: arrays_to_def)
  have st: "in_start sizes ?e p ?in ! q = length ?pre + length (concat (map ?arr [0 ..< q]))" if "q < ?n" for q
    using that alen [of q] sums [of q] pre by (simp add: in_start_def)
  have "recv_all p ?in (in_start sizes ?e p ?in) msgs [0 ..< ?n] [] (?pre @ concat (map ?arr [0 ..< 0]) @ fresh junk 0 (to_part sizes adjs p * 4)) =
      Inr (?pre @ concat (map ?arr [0 ..< ?n]))"
  proof (rule recv_all_arrays [where num = ?num])
    show "?arr p = []" using len [OF p] by simp
    show "length (fresh junk 0 (to_part sizes adjs p * 4)) = length (concat (map ?arr [0 ..< ?n]))"
      using alen [of ?n] by (simp add: to_part_def sum_list_const_mult)
  qed (use len inq st msgs count_small [OF sp] in auto)
  then show ?thesis
    using sums [of ?n] els_length [OF sp(1) p]
    by (simp add: v3_image_def tot Let_def write_chunks_all image_of_def arrays_to_def to_part_def sum_list_const_mult)
qed

section \<open>The run of all machines\<close>

text \<open>The B1 file of a part.\<close>

definition part_b1_file :: "nat \<Rightarrow> nat \<Rightarrow> u32 \<Rightarrow> u32 \<Rightarrow> (u32 list \<times> byte list \<times> u64) list \<Rightarrow> byte list \<Rightarrow> bool" where
  "part_b1_file md len sz medoid els file \<longleftrightarrow> (\<exists>body t. file = enc_u64 (ucast sz) @ enc_u32 medoid @ body \<and>
     rd_many (unat sz) (rd_element md len) body = Some (els, t))"

lemma load_part_file: "part_b1_file md len sz medoid els file \<Longrightarrow> load_part md len sz file = Inr (medoid, els)"
  by (auto simp: part_b1_file_def load_part_def u64.rd_enc u32.rd_enc)

lemma outs_small:
  assumes "spread sizes adjs" "small_parts sizes"
  shows "\<forall>q<length sizes. length (outs_of sizes adjs ! q) = length sizes \<and> (\<forall>x\<in>set (outs_of sizes adjs ! q). x < 2 ^ 64)"
  using count_small [OF assms] by (fastforce simp: outs_of_def intro: less_trans)

definition msgs_of :: "u32 list \<Rightarrow> u32 list list list \<Rightarrow> nat \<Rightarrow> nat \<Rightarrow> byte list list" where
  "msgs_of sizes adjs q p = (if p = q then [] else
     projr (send_ngh (word_of_nat q) (snd (wrote sizes adjs q) ! p) (remote_total sizes q p (adjs ! q)) 0))"

lemma send_array:
  assumes "spread sizes adjs" "small_parts sizes" "q < length sizes" "p < length sizes" "p \<noteq> q"
  shows "send_ngh (word_of_nat q) (snd (wrote sizes adjs q) ! p) (remote_total sizes q p (adjs ! q)) 0 = Inr (msgs_of sizes adjs q p)"
  using transfer_from [OF _ wrote(3) [OF assms(1,3,4)] count_small [OF assms(1-3)], of 0 0
      "replicate (4 * remote_total sizes q p (adjs ! q)) 0" "word_of_nat q" "[]"] assms(5)
  by (auto simp: msgs_of_def)

text \<open>When the counts arrive in any order.\<close>

definition senders_ok :: "(nat \<Rightarrow> nat list) \<Rightarrow> bool" where
  "senders_ok senders \<longleftrightarrow> (\<forall>p<MACHINE_NUM. distinct (senders p) \<and> set (senders p) = {..<MACHINE_NUM} - {p})"

lemma build_run:
  assumes sp: "spread sizes adjs" "small_parts sizes" and n: "length sizes = MACHINE_NUM" and s: "senders_ok senders"
    and files: "\<And>p. p < length sizes \<Longrightarrow> part_b1_file 48 len (sizes ! p) (medoid p) (els p) (files ! p) \<and> map fst (els p) = adjs ! p"
    and data: "\<And>p w. p < length sizes \<Longrightarrow> 0 < w \<Longrightarrow> v3_data w p (length sizes) (sizes ! p) max_vid (els p) = Inr (dat p)"
  shows "transfer_to_scala_v3 junk senders 48 len sizes max_vid files =
     Inr (map (\<lambda>p. (image_of (junk p) (ucast (medoid p)) sizes adjs p, dat p)) [0 ..< length sizes])"
proof -
  let ?n = "length sizes" and ?outs = "outs_of sizes adjs"
  have table: "table_ok sizes" using sp(1) valid_graph_table unfolding spread_def by blast
  have e: "v3_ele_size 48 ?n = ngh_ele_size ?n" by (simp add: v3_ele_size_def ngh_ele_size_def max_deg_def)
  have t0: "traverse (\<lambda>p. load_part 48 len (sizes ! p) (files ! p)) [0 ..< ?n] = Inr (map (\<lambda>p. (medoid p, els p)) [0 ..< ?n])"
    by (rule traverse_Inr) (use files load_part_file in auto)
  have t1: "traverse (\<lambda>p. count_out (cumu_from 0 sizes) p (map fst (snd (map (\<lambda>p. (medoid p, els p)) [0 ..< ?n] ! p))) (replicate ?n 0)) [0 ..< ?n] = Inr ?outs"
    unfolding outs_of_def
    by (rule traverse_Inr) (use files spread_part(2) [OF sp(1)] in \<open>simp add: count_out_returns [OF table] cong: map_cong\<close>)
  have t2: "traverse (\<lambda>p. swap_meta p (senders p) ?outs) [0 ..< ?n] = Inr (map (\<lambda>p. in_table p ?outs) [0 ..< ?n])"
    by (rule traverse_Inr) (use outs_small [OF sp] s n in \<open>auto simp: senders_ok_def outs_of_def [of sizes] intro!: swap_meta_table\<close>)
  have t3: "traverse (\<lambda>p. rewrite_index sizes (ngh_ele_size ?n) p (map (\<lambda>p. in_table p ?outs) [0 ..< ?n] ! p) (?outs ! p)
      (map fst (snd (map (\<lambda>p. (medoid p, els p)) [0 ..< ?n] ! p)))) [0 ..< ?n] = Inr (map (wrote sizes adjs) [0 ..< ?n])"
    by (rule traverse_Inr) (use files wrote(1) [OF sp(1)] in simp)
  have t4: "traverse (ngh_messages ?outs (map (wrote sizes adjs) [0 ..< ?n])) [0 ..< ?n] =
      Inr (map (\<lambda>q. map (msgs_of sizes adjs q) [0 ..< ?n]) [0 ..< ?n])"
  proof (rule traverse_Inr)
    fix q assume "q \<in> set [0 ..< ?n]"
    then have q: "q < ?n" by simp
    have "ngh_messages ?outs (map (wrote sizes adjs) [0 ..< ?n]) q = Inr (map (msgs_of sizes adjs q) [0 ..< length ?outs])"
      unfolding ngh_messages_def
      by (rule traverse_Inr) (use q send_array [OF sp q] in \<open>auto simp: outs_of_def msgs_of_def [of _ _ q q]\<close>)
    then show "ngh_messages ?outs (map (wrote sizes adjs) [0 ..< ?n]) q = Inr (map (msgs_of sizes adjs q) [0 ..< ?n])"
      by (simp add: outs_of_def)
  qed
  have img: "v3_image (junk p) sizes (ngh_ele_size ?n) p (medoid p) (in_table p ?outs) (fst (wrote sizes adjs p)) (\<lambda>q. map (\<lambda>q. map (msgs_of sizes adjs q) [0 ..< ?n]) [0 ..< ?n] ! q ! p) =
      Inr (image_of (junk p) (ucast (medoid p)) sizes adjs p)" if "p < ?n" for p
    using that send_array [OF sp] by (intro v3_image_ok [OF sp n that]) auto
  show ?thesis
    unfolding transfer_to_scala_v3_def Let_def e t0 sum.case t1 t2 t3 t4
    by (rule traverse_Inr) (use img data in \<open>auto simp: last_write_size_def\<close>)
qed

section \<open>Loading the files\<close>

definition data_rows :: "(u32 list \<times> byte list \<times> u64) list \<Rightarrow> byte list" where
  "data_rows els = concat (map (\<lambda>e. fst (snd e) @ enc_u64 (snd (snd e))) els)"

lemma rd_element_len: "rd_element md len s = Some (e, t) \<Longrightarrow> length (fst (snd e)) = len"
  by (auto simp: rd_element_def rd_bytes_def bind_eq_Some_conv split: if_splits)

lemma rd_elements_len: "rd_many k (rd_element md len) s = Some (els, t) \<Longrightarrow> list_all (\<lambda>e. length (fst (snd e)) = len) els"
  by (induction k arbitrary: s els) (auto simp: bind_eq_Some_conv dest: rd_element_len)

lemma length_data_rows: "list_all (\<lambda>e. length (fst (snd e)) = len) els \<Longrightarrow> length (data_rows els) = (len + 8) * length els"
  by (induction els) (auto simp: data_rows_def len_simps)

lemma read_data_header_enc: "read_data_header (enc_u32 a @ enc_u32 b @ enc_u32 c @ enc_u64 d @ s) = Some ((a, b, c, d), s)"
  by (simp add: read_data_header_def codec_simps)

lemma v3_data_ok:
  assumes "els \<noteq> []" "list_all (\<lambda>e. length (fst (snd e)) = len) els"
  shows "\<exists>dat entry. (\<forall>w>0. v3_data w p n sz max_vid els = Inr dat) \<and>
    read_data_header dat = Some ((word_of_nat p, word_of_nat n, sz, ucast max_vid), entry @ data_rows els) \<and> length entry = len + 8"
proof -
  obtain x v l els' where els: "els = (x, v, l) # els'" using assms(1) by (metis neq_Nil_conv prod_cases3)
  let ?entry = "v @ enc_u64 l"
  have "\<forall>w>0. v3_data w p n sz max_vid els = Inr (enc_u32 (word_of_nat p) @ enc_u32 (word_of_nat n) @ enc_u32 sz @ enc_u64 (ucast max_vid) @ ?entry @ data_rows els)"
    by (simp add: v3_data_def els write_chunks_all data_rows_def)
  moreover have "length ?entry = len + 8" using assms(2) els by (simp add: len_simps)
  ultimately show ?thesis using read_data_header_enc by blast
qed

lemma load_data_files:
  assumes h: "\<And>p. p < n \<Longrightarrow> \<exists>entry. read_data_header (dat p) = Some ((word_of_nat p, word_of_nat n, sizes ! p, mv), entry @ rows p) \<and>
      length entry = len + 8 \<and> length (rows p) = (len + 8) * unat (sizes ! p)"
    and n: "length sizes = n" and pid: "unat pid < n"
  shows "k \<le> n \<Longrightarrow> load_data len pid k (map dat [k ..< n]) (take k sizes, vs) =
    Some (sizes, if k \<le> unat pid then rows (unat pid) else vs)"
proof (induction "n - k" arbitrary: k vs)
  case (Suc x)
  then have k: "k < n" by simp
  then have l: "map dat [k ..< n] = dat k # map dat [Suc k ..< n]" by (simp add: upt_conv_Cons)
  obtain entry where h: "read_data_header (dat k) = Some ((word_of_nat k, word_of_nat n, sizes ! k, mv), entry @ rows k)"
      "length entry = len + 8" "length (rows k) = (len + 8) * unat (sizes ! k)"
    using h [OF k] by blast
  have t: "take k sizes @ [sizes ! k] = take (Suc k) sizes" using k n by (simp add: take_Suc_conv_app_nth)
  have IH: "load_data len pid (Suc k) (map dat [Suc k ..< n]) (take (Suc k) sizes, vs) =
    Some (sizes, if Suc k \<le> unat pid then rows (unat pid) else vs)" for vs
    using Suc.hyps k by (intro Suc.hyps) auto
  have r: "rd_bytes (len + 8) (entry @ rows k) = Some (entry, rows k)" "rd_bytes ((len + 8) * unat (sizes ! k)) (rows k) = Some (rows k, [])"
    using h(2,3) rd_bytes_append [of "rows k" _ "[]"] by (simp_all add: rd_bytes_append)
  show ?case
  proof (cases "k = unat pid")
    case True
    then have "pid = word_of_nat k" by simp
    moreover have "unat (word_of_nat k :: u32) = k" using True by simp
    ultimately show ?thesis using IH [of "rows k"] unfolding l load_data.simps h(1) by (simp add: r t)
  next
    case False
    then show ?thesis unfolding l by (simp add: h(1) t IH [simplified])
  qed
qed (use pid in \<open>simp add: n\<close>)

lemma load_index_vector:
  "load_index vs p n f ds = Inr g \<Longrightarrow> load_data vs p 0 ds ([], []) = Some (gi_partition_vec_num g, gi_vector g)"
  by (auto simp: load_index_def Let_def split: option.splits if_splits prod.splits)

text \<open>A concrete run: sixteen machines with one vertex each, in a ring.\<close>

definition ring_sizes :: "u32 list" where
  "ring_sizes = replicate 16 1"

definition ring_els :: "nat \<Rightarrow> (u32 list \<times> byte list \<times> u64) list" where
  "ring_els p = [([word_of_nat ((p + 1) mod 16)], [word_of_nat p], word_of_nat p)]"

definition ring_adjs :: "u32 list list list" where
  "ring_adjs = map (\<lambda>p. map fst (ring_els p)) [0 ..< 16]"

definition ring_file :: "nat \<Rightarrow> byte list" where
  "ring_file p = enc_u64 1 @ enc_u32 0 @
     over (enc_vec enc_u32 [word_of_nat ((p + 1) mod 16)]) (replicate 196 0) @ [word_of_nat p] @ enc_u64 (word_of_nat p)"

definition ring_senders :: "nat \<Rightarrow> nat list" where
  "ring_senders p = filter (\<lambda>q. q \<noteq> p) [0 ..< 16]"

lemma ring_spread: "spread ring_sizes ring_adjs" "small_parts ring_sizes" "senders_ok ring_senders" "length ring_sizes = MACHINE_NUM"
proof -
  have nth: "length (ring_adjs ! p) = unat (ring_sizes ! p)" if "p < 16" for p
    using that by (simp add: ring_adjs_def ring_sizes_def ring_els_def)
  have st: "starts ring_sizes (length ring_sizes) = 16" by (simp add: starts_def ring_sizes_def sum_list_replicate)
  have cc: "concat ring_adjs = map (\<lambda>p. [word_of_nat ((p + 1) mod 16)]) [0 ..< 16]"
    by (simp add: ring_adjs_def ring_els_def map_concat [symmetric] concat_map_singleton)
  have "valid_nghs ring_sizes [word_of_nat ((p + 1) mod 16)]" for p
  proof -
    have "(p + 1) mod 16 < (16 :: nat)" by simp
    then show ?thesis unfolding valid_nghs_def st max_deg_def by (simp add: take_bit_nat_eq_self unat_of_nat)
  qed
  then have "valid_graph ring_sizes (concat ring_adjs)"
    unfolding valid_graph_def st cc by (simp add: list_all_iff)
  with nth show "spread ring_sizes ring_adjs" by (simp add: spread_def ring_sizes_def ring_adjs_def)
  show "small_parts ring_sizes" by (simp add: small_parts_def ring_sizes_def max_deg_def)
  show "senders_ok ring_senders" by (auto simp: senders_ok_def ring_senders_def MACHINE_NUM_def)
  show "length ring_sizes = MACHINE_NUM" by (simp add: ring_sizes_def MACHINE_NUM_def)
qed

lemma ring_files: "p < length ring_sizes \<Longrightarrow>
   part_b1_file 48 1 (ring_sizes ! p) 0 (ring_els p) (map ring_file [0 ..< 16] ! p) \<and> map fst (ring_els p) = ring_adjs ! p \<and> ring_els p \<noteq> []"
  using rd_element_fields [of "[word_of_nat ((p + 1) mod 16)]" 48 "replicate 196 0" "[word_of_nat p]" 1 "word_of_nat p" "[]"]
  by (auto simp: part_b1_file_def ring_sizes_def ring_els_def ring_adjs_def ring_file_def)

text \<open>Property C18.  The distributed V3 build: machines that hold the parts of a graph, whose counts and arrays travel
  through messages in any order of arrival of the counts, all return, and the index file of every machine is, byte for
  byte, the image that the single-machine writer produces for its partition from the whole graph (partitions
  of fewer than \<open>2 ^ 32 / 48\<close> vertices).\<close>

theorem distributed_build_is_single_writer:
  assumes sp: "spread sizes adjs" "small_parts sizes" and n: "length sizes = MACHINE_NUM" and s: "senders_ok senders"
    and files: "\<forall>p<length sizes. part_b1_file 48 len (sizes ! p) (medoid p) (els p) (files ! p) \<and> map fst (els p) = adjs ! p \<and> els p \<noteq> []"
  shows "\<exists>out. transfer_to_scala_v3 junk senders 48 len sizes max_vid files = Inr out \<and> length out = MACHINE_NUM \<and>
    (\<forall>p<MACHINE_NUM. \<exists>imgs. transfer_b1_to_scala_v3 (junk p) (ucast (medoid p)) sizes (concat adjs) = Inr imgs \<and> fst (out ! p) = imgs ! p)"
proof -
  have "\<exists>d. \<forall>w>0. v3_data w p (length sizes) (sizes ! p) max_vid (els p) = Inr d" if "p < length sizes" for p
    using files that by (auto simp: v3_data_def neq_Nil_conv write_chunks_all)
  then obtain dat where "\<And>p w. p < length sizes \<Longrightarrow> 0 < w \<Longrightarrow> v3_data w p (length sizes) (sizes ! p) max_vid (els p) = Inr (dat p)" by metis
  then have "transfer_to_scala_v3 junk senders 48 len sizes max_vid files =
     Inr (map (\<lambda>p. (image_of (junk p) (ucast (medoid p)) sizes adjs p, dat p)) [0 ..< length sizes])"
    using files by (intro build_run [OF sp n s]) auto
  then show ?thesis using n single_images [OF sp(1)] by auto
qed

theorem distributed_build_is_single_writer_witness:
  "\<exists>out. transfer_to_scala_v3 (\<lambda>p i. 0) ring_senders 48 1 ring_sizes 16 (map ring_file [0 ..< 16]) = Inr out \<and> length out = MACHINE_NUM \<and>
    (\<forall>p<MACHINE_NUM. \<exists>imgs. transfer_b1_to_scala_v3 (\<lambda>i. 0) 0 ring_sizes (concat ring_adjs) = Inr imgs \<and> fst (out ! p) = imgs ! p)"
  using distributed_build_is_single_writer [OF ring_spread(1,2,4,3), of 1 "\<lambda>p. 0" ring_els "map ring_file [0 ..< 16]" "\<lambda>p i. 0" 16] ring_files by simp

text \<open>Property C26.  The files of the distributed build load: for every machine \<^verbatim>\<open>load_index\<close> accepts its index file and the data files of
  all machines, with the partition sizes in its table, the neighbour memory of the image and, in its vector memory, the vectors
  and labels of its part in their order.\<close>

theorem distributed_build_loads:
  assumes sp: "spread sizes adjs" "small_parts sizes" and n: "length sizes = MACHINE_NUM" and s: "senders_ok senders"
    and files: "\<forall>p<length sizes. part_b1_file 48 len (sizes ! p) (medoid p) (els p) (files ! p) \<and> map fst (els p) = adjs ! p \<and> els p \<noteq> []"
    and p: "p < MACHINE_NUM"
  shows "\<exists>out g. transfer_to_scala_v3 junk senders 48 len sizes max_vid files = Inr out \<and>
    load_index len (word_of_nat p) (word_of_nat MACHINE_NUM) (fst (out ! p)) (map snd out) = Inr g \<and>
    gi_partition_vec_num g = sizes \<and> gi_deg_ngh g = drop 32 (fst (out ! p)) \<and> gi_vector g = data_rows (els p) \<and> graph_ok g"
proof -
  have e: "list_all (\<lambda>e. length (fst (snd e)) = len) (els q) \<and> length (els q) = unat (sizes ! q)" if "q < length sizes" for q
  proof -
    from files that obtain body t where "rd_many (unat (sizes ! q)) (rd_element 48 len) body = Some (els q, t)"
      by (auto simp: part_b1_file_def)
    then show ?thesis using rd_elements_len rd_many_length by blast
  qed
  have "\<exists>d entry. (\<forall>w>0. v3_data w q (length sizes) (sizes ! q) max_vid (els q) = Inr d) \<and>
      read_data_header d = Some ((word_of_nat q, word_of_nat (length sizes), sizes ! q, ucast max_vid), entry @ data_rows (els q)) \<and>
      length entry = len + 8" if "q < length sizes" for q
    using v3_data_ok [of "els q" len q "length sizes" "sizes ! q" max_vid] e [OF that] files that by blast
  then obtain dat where d: "\<And>q w. q < length sizes \<Longrightarrow> 0 < w \<Longrightarrow> v3_data w q (length sizes) (sizes ! q) max_vid (els q) = Inr (dat q)"
    "\<And>q. q < length sizes \<Longrightarrow> \<exists>entry. read_data_header (dat q) = Some ((word_of_nat q, word_of_nat (length sizes), sizes ! q, ucast max_vid), entry @ data_rows (els q)) \<and>
      length entry = len + 8" by metis
  let ?out = "map (\<lambda>p. (image_of (junk p) (ucast (medoid p)) sizes adjs p, dat p)) [0 ..< length sizes]"
  have run: "transfer_to_scala_v3 junk senders 48 len sizes max_vid files = Inr ?out"
    using files d(1) by (intro build_run [OF sp n s]) auto
  have pn: "p < length sizes" "unat (word_of_nat p :: u32) = p" using p n by (simp_all add: MACHINE_NUM_def)
  have ld: "load_data len (word_of_nat p) 0 (map snd ?out) ([], []) = Some (sizes, data_rows (els p))"
  proof -
    have "\<exists>entry. read_data_header (dat q) = Some ((word_of_nat q, word_of_nat (length sizes), sizes ! q, ucast max_vid), entry @ data_rows (els q)) \<and>
      length entry = len + 8 \<and> length (data_rows (els q)) = (len + 8) * unat (sizes ! q)" if "q < length sizes" for q
      using d(2) [OF that] length_data_rows [of len "els q"] e [OF that] by auto
    from load_data_files [OF this, where k = 0 and vs = "[]" and pid = "word_of_nat p"] pn show ?thesis by (simp add: comp_def)
  qed
  note si = single_images [OF sp(1), of "junk p" "ucast (medoid p)"]
  have v: "valid_graph sizes (concat adjs)" "length sizes \<le> 64" using sp n by (auto simp: spread_def MACHINE_NUM_def)
  from load_returns [OF si v pn(1) ld] obtain g where
    g: "load_index len (word_of_nat p) (word_of_nat (length sizes)) (fst (?out ! p)) (map snd ?out) = Inr g" "gi_partition_vec_num g = sizes"
    using pn by auto
  have g': "load_index len (word_of_nat p) (word_of_nat (length sizes)) (map (image_of (junk p) (ucast (medoid p)) sizes adjs) [0 ..< length sizes] ! p) (map snd ?out) = Inr g"
    using g(1) pn by simp
  from load_image [OF si v pn(1) g' g(2)] pn have "gi_deg_ngh g = drop 32 (fst (?out ! p))" "graph_ok g"
    by (simp_all add: deg_ngh_of_def)
  moreover have "gi_vector g = data_rows (els p)" using load_index_vector [OF g(1)] ld by simp
  ultimately show ?thesis using run g n by auto
qed

theorem distributed_build_loads_witness:
  "\<exists>out g. transfer_to_scala_v3 (\<lambda>p i. 0) ring_senders 48 1 ring_sizes 16 (map ring_file [0 ..< 16]) = Inr out \<and>
    load_index 1 (word_of_nat 3) (word_of_nat MACHINE_NUM) (fst (out ! 3)) (map snd out) = Inr g \<and>
    gi_partition_vec_num g = ring_sizes \<and> gi_vector g = [3, 3, 0, 0, 0, 0, 0, 0, 0]"
proof -
  have rows: "data_rows (ring_els 3) = [3, 3, 0, 0, 0, 0, 0, 0, 0]"
    by (simp add: data_rows_def ring_els_def) code_simp
  have "(3 :: nat) < MACHINE_NUM" by (simp add: MACHINE_NUM_def)
  from distributed_build_loads [OF ring_spread(1,2,4,3) _ this, of 1 "\<lambda>p. 0" ring_els "map ring_file [0 ..< 16]" "\<lambda>p i. 0" 16]
  show ?thesis using ring_files rows by auto
qed

end
