(* ===== verification/Partition.thy ===== *)
theory Partition
  imports Kmeans_Reorder Priority_Queue Scala_Build
begin

text \<open>
  Dividing the data set into shards, \<^verbatim>\<open>src/index/partition.cc\<close> with the selection of centres of
  \<^verbatim>\<open>src/index/math_utils.cc\<close>: every vector goes to its nearest centre (the shard without replicas) and to its
  \<^verbatim>\<open>k_base\<close> nearest centres (the shard with replicas), and the identifiers of a shard are written to a file.  The weighted
  distances to the centres, which threads compute from shared statistics, are arguments: a \<^verbatim>\<open>float\<close> that is a
  number is its rank in the order of the numbers, and the theorems hold for all values.  A file is its bytes.
\<close>

section \<open>The nearest centres of a vector\<close>

type_synonym weight = int
type_synonym center = "nat \<times> weight"

text \<open>The loop \<^verbatim>\<open>if (weighted_dist < min)\<close> from \<^verbatim>\<open>numeric_limits<float>::max()\<close>: without a smaller distance the
  entry of \<^verbatim>\<open>center_index\<close> stays uninitialised.\<close>

definition min_center :: "u32 \<Rightarrow> weight \<Rightarrow> weight list \<Rightarrow> u32 \<times> weight" where
  "min_center junk fmax ws =
     foldl (\<lambda>(c, m) (j, w). if w < m then (word_of_nat j, w) else (c, m)) (junk, fmax) (enumerate 0 ws)"

text \<open>\<^verbatim>\<open>KmeansCenter\<close>: its \<^verbatim>\<open>operator<\<close> is reversed, so that the nearest centre is on top.\<close>

definition near :: "center \<Rightarrow> int" where
  "near c = - snd c"

definition center_queue :: "nat option \<Rightarrow> weight list \<Rightarrow> center list" where
  "center_queue skip ws = foldl (\<lambda>q c. if skip = Some (fst c) then q else pq_push near c q) [] (enumerate 0 ws)"

primrec pop_centers :: "nat \<Rightarrow> center list \<Rightarrow> crash + u32 list" where
  "pop_centers 0 q = Inr []"
| "pop_centers (Suc n) q =
     (if q = [] then Inl OutOfBounds
      else case pop_centers n (pq_pop q) of
        Inl e \<Rightarrow> Inl e
      | Inr cs \<Rightarrow> Inr (word_of_nat (fst (pq_top q)) # cs))"

text \<open>\<^verbatim>\<open>compute_balance_norp_rp_closest_centers\<close> for one vector: \<open>ws\<close> are its distances weighted by the sizes of the
  shards without replicas, \<open>rws\<close> by those with replicas.  More centres than there are: an error message, and the
  entries keep the value 0 of \<^verbatim>\<open>make_unique\<close>.\<close>

definition closest_norp_rp :: "u32 \<Rightarrow> weight \<Rightarrow> nat \<Rightarrow> weight list \<Rightarrow> weight list \<Rightarrow> crash + u32 list" where
  "closest_norp_rp junk fmax k ws rws =
     (if k > length ws then Inr (replicate k 0)
      else if k = 0 then Inl OutOfBounds
      else let c = fst (min_center junk fmax ws) in
        if unat c < length ws then
          (case pop_centers (k - 1) (center_queue (Some (unat c)) rws) of
             Inl e \<Rightarrow> Inl e
           | Inr cs \<Rightarrow> Inr (c # cs))
        else Inl OutOfBounds)"

text \<open>\<^verbatim>\<open>compute_balance_closest_centers\<close> for one vector.\<close>

definition closest_balanced :: "u32 \<Rightarrow> weight \<Rightarrow> nat \<Rightarrow> weight list \<Rightarrow> crash + u32 list" where
  "closest_balanced junk fmax k ws =
     (if k > length ws then Inr (replicate k 0)
      else if k = 1 then
        (let c = fst (min_center junk fmax ws) in if unat c < length ws then Inr [c] else Inl OutOfBounds)
      else pop_centers k (center_queue None ws))"

section \<open>Writing the identifiers\<close>

definition BLOCK_SIZE :: nat where
  "BLOCK_SIZE = 500000"

definition div_round_up :: "nat \<Rightarrow> nat \<Rightarrow> nat" where
  "div_round_up x y = x div y + (if x mod y \<noteq> 0 then 1 else 0)"

primrec fold_err :: "('a \<Rightarrow> 's \<Rightarrow> crash + 's) \<Rightarrow> 'a list \<Rightarrow> 's \<Rightarrow> crash + 's" where
  "fold_err f [] s = Inr s"
| "fold_err f (x # xs) s = (case f x s of Inl e \<Rightarrow> Inl e | Inr s \<Rightarrow> fold_err f xs s)"

text \<open>The writers of the shards, as the identifiers written so far; the counters are their lengths.\<close>

definition put_id :: "u32 \<Rightarrow> nat \<Rightarrow> u32 list list \<Rightarrow> crash + u32 list list" where
  "put_id v c w = (if c < length w then Inr (w[c := w ! c @ [v]]) else Inl OutOfBounds)"

primrec put_norp :: "u32 \<Rightarrow> nat \<Rightarrow> u32 list \<Rightarrow> u32 list list \<Rightarrow> crash + u32 list list" where
  "put_norp v p1 [] w = Inr w"
| "put_norp v p1 (c # cs) w =
     (case if p1 = 0 then put_id v (unat c) w else Inr w of
        Inl e \<Rightarrow> Inl e
      | Inr w \<Rightarrow> put_norp v (p1 + 1) cs w)"

primrec put_rp :: "u32 \<Rightarrow> u32 list \<Rightarrow> u32 list list \<Rightarrow> crash + u32 list list" where
  "put_rp v [] w = Inr w"
| "put_rp v (c # cs) w = (case put_id v (unat c) w of Inl e \<Rightarrow> Inl e | Inr w \<Rightarrow> put_rp v cs w)"

primrec put_norp_rp :: "u32 \<Rightarrow> nat \<Rightarrow> u32 list \<Rightarrow> u32 list list \<times> u32 list list \<Rightarrow> crash + u32 list list \<times> u32 list list" where
  "put_norp_rp v p1 [] w = Inr w"
| "put_norp_rp v p1 (c # cs) w =
     (case if p1 = 0 then put_id v (unat c) (fst w) else Inr (fst w) of
        Inl e \<Rightarrow> Inl e
      | Inr no \<Rightarrow> (case put_id v (unat c) (snd w) of
            Inl e \<Rightarrow> Inl e
          | Inr rp \<Rightarrow> put_norp_rp v (p1 + 1) cs (no, rp)))"

text \<open>A block: the centres of all its vectors are computed, then the identifiers are written.  No vector at all means a division
  by the block size 0, which ends the program.\<close>

definition shard_block ::
  "(nat \<Rightarrow> crash + u32 list) \<Rightarrow> (u32 \<Rightarrow> u32 list \<Rightarrow> 's \<Rightarrow> crash + 's) \<Rightarrow> nat \<Rightarrow> nat \<Rightarrow> 's \<Rightarrow> crash + 's"
where
  "shard_block closest put start_id end_id w =
     (case traverse closest [start_id ..< end_id] of
        Inl e \<Rightarrow> Inl e
      | Inr cs \<Rightarrow> fold_err (\<lambda>(i, c). put (word_of_nat i) c) (zip [start_id ..< end_id] cs) w)"

definition block_size :: "nat \<Rightarrow> nat" where
  "block_size num_points = (if num_points \<le> BLOCK_SIZE then num_points else BLOCK_SIZE)"

definition for_blocks :: "(nat \<Rightarrow> nat \<Rightarrow> 's \<Rightarrow> crash + 's) \<Rightarrow> nat \<Rightarrow> 's \<Rightarrow> crash + 's" where
  "for_blocks body num_points w =
     (let bs = block_size num_points in
      if bs = 0 then Inl Abort
      else fold_err (\<lambda>block. body (block * bs) (min ((block + 1) * bs) num_points)) [0 ..< div_round_up num_points bs] w)"

text \<open>The file of a shard: the first word is 0 until the count is written over it at the end.\<close>

definition idmap_file :: "u32 list \<Rightarrow> byte list" where
  "idmap_file ids = enc_u32 (word_of_nat (length ids)) @ enc_u32 1 @ concat (map enc_u32 ids)"

text \<open>The three functions return -1 without writing a file (\<^const>\<open>None\<close>) when the dimension is not that of the training data.\<close>

definition shard_data_into_clusters_with_and_without_replica ::
  "(nat \<Rightarrow> u32) \<Rightarrow> weight \<Rightarrow> (nat \<Rightarrow> weight list) \<Rightarrow> (nat \<Rightarrow> weight list) \<Rightarrow> u32 \<Rightarrow> u32 \<Rightarrow> nat \<Rightarrow> nat \<Rightarrow> nat \<Rightarrow>
     crash + (byte list list \<times> byte list list) option"
where
  "shard_data_into_clusters_with_and_without_replica junk fmax ws rws npts32 basedim32 num_centers dim k_base =
     (if unat basedim32 \<noteq> dim then Inr None
      else case for_blocks (shard_block (\<lambda>i. closest_norp_rp (junk i) fmax k_base (ws i) (rws i)) (\<lambda>v. put_norp_rp v 0)) (unat npts32)
          (replicate num_centers [], replicate num_centers []) of
        Inl e \<Rightarrow> Inl e
      | Inr (no, rp) \<Rightarrow> Inr (Some (map idmap_file no, map idmap_file rp)))"

definition shard_data_into_clusters_with_replica ::
  "(nat \<Rightarrow> u32) \<Rightarrow> weight \<Rightarrow> (nat \<Rightarrow> weight list) \<Rightarrow> u32 \<Rightarrow> u32 \<Rightarrow> nat \<Rightarrow> nat \<Rightarrow> nat \<Rightarrow> crash + byte list list option"
where
  "shard_data_into_clusters_with_replica junk fmax ws npts32 basedim32 num_centers dim k_base =
     (if unat basedim32 \<noteq> dim then Inr None
      else case for_blocks (shard_block (\<lambda>i. closest_balanced (junk i) fmax k_base (ws i)) put_rp) (unat npts32) (replicate num_centers []) of
        Inl e \<Rightarrow> Inl e
      | Inr rp \<Rightarrow> Inr (Some (map idmap_file rp)))"

definition shard_data_into_clusters_without_replica ::
  "(nat \<Rightarrow> u32) \<Rightarrow> weight \<Rightarrow> (nat \<Rightarrow> weight list) \<Rightarrow> u32 \<Rightarrow> u32 \<Rightarrow> nat \<Rightarrow> nat \<Rightarrow> nat \<Rightarrow> crash + byte list list option"
where
  "shard_data_into_clusters_without_replica junk fmax ws npts32 basedim32 num_centers dim k_base =
     (if unat basedim32 \<noteq> dim then Inr None
      else case for_blocks (shard_block (\<lambda>i. closest_balanced (junk i) fmax k_base (ws i)) (\<lambda>v. put_norp v 0)) (unat npts32) (replicate num_centers []) of
        Inl e \<Rightarrow> Inl e
      | Inr no \<Rightarrow> Inr (Some (map idmap_file no)))"

text \<open>\<^verbatim>\<open>shard_data_into_random\<close>: shards of consecutive identifiers, and \<^verbatim>\<open>partition_size\<close>.  The vectors of a block are
  read although nothing depends on them, and \<^verbatim>\<open>cached_ifstream\<close> throws when the file ends before the block does, which ends the
  program.  The arrays \<^verbatim>\<open>part_noreplica_idmap_filename\<close> and \<^verbatim>\<open>partition_size\<close> have \<^const>\<open>MACHINE_NUM\<close> entries.  \<open>sizeT\<close> is
  \<^verbatim>\<open>sizeof(T)\<close>.\<close>

definition random_block ::
  "nat \<Rightarrow> (nat \<Rightarrow> 'w \<Rightarrow> crash + 'w) \<Rightarrow> nat \<Rightarrow> nat \<Rightarrow> byte list \<times> 'w \<Rightarrow> crash + byte list \<times> 'w"
where
  "random_block len put start_id end_id =
     (\<lambda>(s, w). if (end_id - start_id) * len > length s then Inl Abort
       else case fold_err put [start_id ..< end_id] w of
         Inl e \<Rightarrow> Inl e
       | Inr w \<Rightarrow> Inr (drop ((end_id - start_id) * len) s, w))"

definition put_random :: "nat \<Rightarrow> nat \<Rightarrow> nat \<Rightarrow> u32 list list \<Rightarrow> crash + u32 list list" where
  "put_random npts num_centers i w =
     (if num_centers = 0 \<or> npts div num_centers = 0 then Inl Abort
      else put_id (word_of_nat i) (i div (npts div num_centers)) w)"

definition shard_data_into_random ::
  "nat \<Rightarrow> byte list \<Rightarrow> nat \<Rightarrow> nat \<Rightarrow> nat \<Rightarrow> crash + (byte list list \<times> u32 list) option"
where
  "shard_data_into_random sizeT data num_centers dim vec_num =
     (case do { (npts32, s) \<leftarrow> rd_u32 data; (basedim32, s) \<leftarrow> rd_u32 s; Some (npts32, basedim32, s) } of
        None \<Rightarrow> Inl Abort
      | Some (npts32, basedim32, s) \<Rightarrow>
          if unat basedim32 \<noteq> dim then Inr None
          else if num_centers > MACHINE_NUM then Inl OutOfBounds
          else (case for_blocks (random_block (sizeT * dim) (put_random (unat npts32) num_centers)) (unat npts32)
                  (s, replicate num_centers []) of
              Inl e \<Rightarrow> Inl e
            | Inr (_, w) \<Rightarrow> Inr (Some (map idmap_file w, replicate num_centers (word_of_nat (vec_num div num_centers))))))"

text \<open>\<^verbatim>\<open>read_idmap\<close>: an exception that no caller catches ends the program.\<close>

definition read_idmap :: "byte list \<Rightarrow> crash + u32 list" where
  "read_idmap fil =
     (case do { (npts32, s) \<leftarrow> rd_u32 fil; (dim, s) \<leftarrow> rd_u32 s; Some (npts32, dim, s) } of
        None \<Rightarrow> Inl Abort
      | Some (npts32, dim, s) \<Rightarrow>
          if dim \<noteq> 1 \<or> length fil \<noteq> unat npts32 * 4 + 8 then Inl Abort
          else case rd_many (unat npts32) rd_u32 s of None \<Rightarrow> Inl Abort | Some (ids, _) \<Rightarrow> Inr ids)"

section \<open>Blocks\<close>

lemma fold_err_append: "fold_err f (xs @ ys) s = (case fold_err f xs s of Inl e \<Rightarrow> Inl e | Inr s \<Rightarrow> fold_err f ys s)"
  by (induction xs arbitrary: s) (auto split: sum.splits)

lemma fold_err_cong [fundef_cong]: "xs = ys \<Longrightarrow> s = t \<Longrightarrow> (\<And>x s. x \<in> set ys \<Longrightarrow> f x s = g x s) \<Longrightarrow> fold_err f xs s = fold_err g ys t"
  by (induction ys arbitrary: xs s t) (auto split: sum.splits)

lemma fold_err_concat: "fold_err (\<lambda>b. fold_err f (g b)) bs s = fold_err f (concat (map g bs)) s"
  by (induction bs arbitrary: s) (auto simp: fold_err_append split: sum.splits)

lemma fold_err_map: "fold_err f (map g xs) s = fold_err (\<lambda>x. f (g x)) xs s"
  by (induction xs arbitrary: s) (auto split: sum.splits)

lemma upt_split: "i \<le> j \<Longrightarrow> j \<le> k \<Longrightarrow> [i ..< j] @ [j ..< k] = [i ..< k]"
  by (metis le_Suc_ex upt_add_eq_append)

lemma full_blocks: "concat (map (\<lambda>b. [b * bs ..< (b + 1) * bs]) [0 ..< k]) = [0 ..< k * bs]"
proof (induction k)
  case (Suc k)
  have "[0 ..< k * bs] @ [k * bs ..< Suc k * bs] = [0 ..< Suc k * bs]" by (rule upt_split) auto
  with Suc show ?case by simp
qed simp

lemma blocks_all:
  assumes "0 < bs"
  shows "concat (map (\<lambda>b. [b * bs ..< min ((b + 1) * bs) n]) [0 ..< div_round_up n bs]) = [0 ..< n]"
proof -
  have full: "min ((b + 1) * bs) n = (b + 1) * bs" if "b < n div bs" for b
  proof -
    have "(b + 1) * bs \<le> n div bs * bs" using that by (intro mult_le_mono1) simp
    also have "\<dots> \<le> n" by (simp add: div_times_less_eq_dividend)
    finally show ?thesis by simp
  qed
  have "concat (map (\<lambda>b. [b * bs ..< min ((b + 1) * bs) n]) [0 ..< n div bs]) = concat (map (\<lambda>b. [b * bs ..< (b + 1) * bs]) [0 ..< n div bs])"
    using full by (intro arg_cong [where f = concat] map_cong) auto
  then have h: "concat (map (\<lambda>b. [b * bs ..< min ((b + 1) * bs) n]) [0 ..< n div bs]) = [0 ..< n div bs * bs]"
    using full_blocks [of bs "n div bs"] by metis
  show ?thesis
  proof (cases "n mod bs = 0")
    case True
    then show ?thesis using h by (simp add: div_round_up_def mod_0_imp_dvd)
  next
    case False
    have "n < (n div bs + 1) * bs" using assms by (metis add.commute div_less_iff_less_mult lessI plus_1_eq_Suc)
    then have "min ((n div bs + 1) * bs) n = n" by simp
    moreover have "[0 ..< n div bs * bs] @ [n div bs * bs ..< n] = [0 ..< n]" by (rule upt_split) (simp_all add: div_times_less_eq_dividend)
    ultimately show ?thesis using h False by (simp add: div_round_up_def)
  qed
qed

lemma block_size_pos: "0 < n \<Longrightarrow> 0 < block_size n"
  by (simp add: block_size_def BLOCK_SIZE_def)

lemma for_blocks_points:
  assumes "0 < n"
  shows "for_blocks (\<lambda>s e. fold_err f [s ..< e]) n w = fold_err f [0 ..< n] w"
proof -
  note bs = block_size_pos [OF assms]
  show ?thesis unfolding for_blocks_def Let_def fold_err_concat blocks_all [OF bs] using bs by simp
qed

lemma shard_block_points:
  assumes "\<And>i. i < n \<Longrightarrow> closest i = Inr (cl i)" "e \<le> n"
  shows "shard_block closest put s e w = fold_err (\<lambda>i. put (word_of_nat i) (cl i)) [s ..< e] w"
proof -
  have "traverse closest [s ..< e] = Inr (map cl [s ..< e])" using assms by (intro traverse_Inr) auto
  moreover have "zip [s ..< e] (map cl [s ..< e]) = map (\<lambda>i. (i, cl i)) [s ..< e]" by (simp add: zip_map2 zip_same_conv_map)
  ultimately show ?thesis by (simp add: shard_block_def fold_err_map)
qed

lemma shard_points:
  assumes "0 < n" "\<And>i. i < n \<Longrightarrow> closest i = Inr (cl i)"
  shows "for_blocks (shard_block closest put) n w = fold_err (\<lambda>i. put (word_of_nat i) (cl i)) [0 ..< n] w"
proof -
  have "for_blocks (shard_block closest put) n w = for_blocks (\<lambda>s e. fold_err (\<lambda>i. put (word_of_nat i) (cl i)) [s ..< e]) n w"
    unfolding for_blocks_def Let_def
    by (intro if_cong refl fold_err_cong shard_block_points [OF assms(2)]) auto
  then show ?thesis using for_blocks_points [OF assms(1)] by simp
qed

section \<open>The centres chosen\<close>

lemma min_center_inv:
  assumes "length ws < 2 ^ 32"
  shows "case min_center junk fmax ws of (c, m) \<Rightarrow>
    (\<forall>w\<in>set ws. m \<le> w) \<and> ((\<exists>w\<in>set ws. w < fmax) \<longrightarrow> unat c < length ws \<and> m = ws ! unat c) \<and> ((\<forall>w\<in>set ws. fmax \<le> w) \<longrightarrow> c = junk \<and> m = fmax)"
  using assms
proof (induction ws rule: rev_induct)
  case (snoc w ws)
  obtain c m where cm: "min_center junk fmax ws = (c, m)" by fastforce
  then have "min_center junk fmax (ws @ [w]) = (if w < m then (word_of_nat (length ws), w) else (c, m))"
    by (simp add: min_center_def enumerate_append_eq)
  moreover have "length ws < 2 ^ 32" using snoc.prems by simp
  then have IH: "\<forall>w\<in>set ws. m \<le> w" "(\<exists>w\<in>set ws. w < fmax) \<longrightarrow> unat c < length ws \<and> m = ws ! unat c" "(\<forall>w\<in>set ws. fmax \<le> w) \<longrightarrow> c = junk \<and> m = fmax"
    using snoc.IH cm by simp_all
  ultimately show ?case
    using \<open>length ws < 2 ^ 32\<close> by (cases "\<exists>w\<in>set ws. w < fmax") (auto simp: nth_append not_less intro: order_trans less_imp_le)
qed (simp add: min_center_def)

lemma min_center_best:
  assumes "length ws < 2 ^ 32" "\<exists>w\<in>set ws. w < fmax"
  shows "unat (fst (min_center junk fmax ws)) < length ws" "w \<in> set ws \<Longrightarrow> ws ! unat (fst (min_center junk fmax ws)) \<le> w"
  using min_center_inv [OF assms(1), where junk = junk and fmax = fmax] assms(2) by (auto split: prod.splits)

text \<open>Before any vector is counted the weighted distances of \<^verbatim>\<open>float\<close> data are all 0: the first centre is chosen.\<close>

lemma min_center_ties:
  assumes "0 < N" "w < fmax"
  shows "min_center junk fmax (replicate N w) = (0, w)"
  using assms(1)
proof (induction N)
  case (Suc N)
  have r: "replicate (Suc N) w = replicate N w @ [w]" by (simp add: replicate_append_same)
  show ?case
  proof (cases "N = 0")
    case True
    then show ?thesis using assms(2) by (simp add: min_center_def)
  next
    case False
    then have "min_center junk fmax (replicate N w) = (0, w)" using Suc.IH by simp
    then show ?thesis unfolding r by (simp add: min_center_def enumerate_append_eq)
  qed
qed simp

definition candidates :: "nat option \<Rightarrow> weight list \<Rightarrow> center list" where
  "candidates skip ws = filter (\<lambda>c. skip \<noteq> Some (fst c)) (enumerate 0 ws)"

lemma center_queue_inv: "pq_wf near (center_queue skip ws) \<and> mset (center_queue skip ws) = mset (candidates skip ws)"
proof -
  have "pq_wf near (foldl (\<lambda>q c. if skip = Some (fst c) then q else pq_push near c q) q cs) \<and>
      mset (foldl (\<lambda>q c. if skip = Some (fst c) then q else pq_push near c q) q cs) = mset q + mset (filter (\<lambda>c. skip \<noteq> Some (fst c)) cs)"
    if "pq_wf near q" for q cs
    using that by (induction cs arbitrary: q) (auto simp: pq.push_ok pq.elems_push)
  from this [of "[]" "enumerate 0 ws"] show ?thesis by (simp add: center_queue_def candidates_def pq_wf_def)
qed

lemma candidates_fst: "map fst (candidates skip ws) = filter (\<lambda>j. skip \<noteq> Some j) [0 ..< length ws]"
  using filter_map [of "\<lambda>j. skip \<noteq> Some j" fst "enumerate 0 ws"] by (simp add: candidates_def comp_def)

lemma center_queue_fst:
  "distinct (map fst (center_queue skip ws))" "fst ` set (center_queue skip ws) = {j. j < length ws \<and> skip \<noteq> Some j}"
  "length (center_queue skip ws) = length (filter (\<lambda>j. skip \<noteq> Some j) [0 ..< length ws])"
proof -
  have m: "mset (map fst (center_queue skip ws)) = mset (filter (\<lambda>j. skip \<noteq> Some j) [0 ..< length ws])"
    using center_queue_inv [of skip ws] candidates_fst by (metis mset_map)
  then show "distinct (map fst (center_queue skip ws))" by (metis distinct_filter distinct_upt mset_eq_imp_distinct_iff)
  show "length (center_queue skip ws) = length (filter (\<lambda>j. skip \<noteq> Some j) [0 ..< length ws])" using mset_eq_length [OF m] by simp
  show "fst ` set (center_queue skip ws) = {j. j < length ws \<and> skip \<noteq> Some j}" using mset_eq_setD [OF m] by auto
qed

lemma pop_centers_take: "n \<le> length q \<Longrightarrow> pop_centers n q = Inr (map (\<lambda>c. word_of_nat (fst c)) (take n q))"
  by (induction n arbitrary: q) (auto simp: pq_pop_def pq_top_def Suc_le_length_iff)

lemma pop_centers_short: "length q < n \<Longrightarrow> pop_centers n q = Inl OutOfBounds"
proof (induction n arbitrary: q)
  case (Suc n)
  then show ?case by (cases q) (auto simp: pq_pop_def)
qed simp

text \<open>What \<open>n\<close> pops give: distinct centres, none of them farther than one that was left out.\<close>

definition nearest :: "nat \<Rightarrow> nat option \<Rightarrow> weight list \<Rightarrow> u32 list \<Rightarrow> bool" where
  "nearest n skip ws cs \<longleftrightarrow> length cs = n \<and> distinct cs \<and> (\<forall>c\<in>set cs. unat c < length ws \<and> skip \<noteq> Some (unat c)) \<and>
     (\<forall>c\<in>set cs. \<forall>j<length ws. skip \<noteq> Some j \<longrightarrow> word_of_nat j \<notin> set cs \<longrightarrow> ws ! unat c \<le> ws ! j)"

lemma queue_nth: "(j, w) \<in> set (center_queue skip ws) \<Longrightarrow> j < length ws \<and> w = ws ! j"
proof -
  assume "(j, w) \<in> set (center_queue skip ws)"
  then have "(j, w) \<in> set (candidates skip ws)" using center_queue_inv [of skip ws] by (metis set_mset_mset)
  then show ?thesis by (auto simp: candidates_def in_set_enumerate_eq)
qed

lemma pop_centers_nearest:
  assumes "n \<le> length (center_queue skip ws)" "length ws < 2 ^ 32"
  shows "\<exists>cs. pop_centers n (center_queue skip ws) = Inr cs \<and> nearest n skip ws cs"
proof -
  let ?q = "center_queue skip ws" and ?cs = "map (\<lambda>c. word_of_nat (fst c)) (take n (center_queue skip ws)) :: u32 list"
  have b: "fst c < length ws" "skip \<noteq> Some (fst c)" "snd c = ws ! fst c" "unat (word_of_nat (fst c) :: u32) = fst c" if "c \<in> set ?q" for c
  proof -
    show "fst c < length ws" "snd c = ws ! fst c" using queue_nth [of "fst c" "snd c" skip ws] that by auto
    then show "unat (word_of_nat (fst c) :: u32) = fst c" using assms(2) by (intro unat_size32) linarith
    show "skip \<noteq> Some (fst c)" using center_queue_fst(2) [of skip ws] that by fastforce
  qed
  have "inj_on (word_of_nat :: nat \<Rightarrow> u32) {..<length ws}"
    by (rule inj_on_inverseI [where g = unat]) (use assms(2) in auto)
  then have "distinct (map (word_of_nat :: nat \<Rightarrow> u32) (map fst (take n ?q)))"
    using center_queue_fst(1) [of skip ws] b(1) by (subst distinct_map) (auto simp: take_map [symmetric] dest!: in_set_takeD elim!: inj_on_subset)
  then have d: "distinct ?cs" by (simp add: comp_def)
  have "ws ! unat c \<le> ws ! j" if "c \<in> set ?cs" "j < length ws" "skip \<noteq> Some j" "word_of_nat j \<notin> set ?cs" for c j
  proof -
    have "c \<in> (\<lambda>c. word_of_nat (fst c)) ` set (take n ?q)" using that(1) unfolding set_map .
    then obtain x where x: "x \<in> set (take n ?q)" "c = word_of_nat (fst x)" by (rule imageE)
    have "j \<in> fst ` set ?q" using center_queue_fst(2) [of skip ws] that(2,3) by simp
    then obtain y where y: "y \<in> set ?q" "fst y = j" by (metis imageE)
    then have "y \<notin> set (take n ?q)" using that(4) by force
    then have "y \<in> set (drop n ?q)" using y(1) by (metis Un_iff append_take_drop_id set_append)
    moreover have "sorted_wrt (\<lambda>x y. near y \<le> near x) (take n ?q @ drop n ?q)" using center_queue_inv [of skip ws] by (simp add: pq_wf_def)
    ultimately have "near y \<le> near x" using x(1) by (simp only: sorted_wrt_append)
    then show ?thesis using b [of y] b [of x] y x in_set_takeD [OF x(1)] by (simp add: near_def)
  qed
  moreover have "unat (word_of_nat (fst x) :: u32) < length ws \<and> skip \<noteq> Some (unat (word_of_nat (fst x) :: u32))" if "x \<in> set (take n ?q)" for x
    using b(1,2,4) [OF in_set_takeD [OF that]] by simp
  then have "\<forall>c\<in>set ?cs. unat c < length ws \<and> skip \<noteq> Some (unat c)" unfolding set_map by blast
  ultimately have "nearest n skip ws ?cs"
    using d assms(1) unfolding nearest_def by (intro conjI) (simp_all only: length_map length_take min.absorb2, blast+)
  then show ?thesis using pop_centers_take [OF assms(1)] by blast
qed

lemma closest_norp_rp_ok:
  assumes "length ws = N" "length rws = N" "N < 2 ^ 32" "0 < k" "k \<le> N" "\<exists>w\<in>set ws. w < fmax"
  shows "\<exists>c cs. c = fst (min_center junk fmax ws) \<and> closest_norp_rp junk fmax k ws rws = Inr (c # cs) \<and> unat c < N \<and>
    (\<forall>w\<in>set ws. ws ! unat c \<le> w) \<and> nearest (k - 1) (Some (unat c)) rws cs"
proof -
  let ?c = "fst (min_center junk fmax ws)"
  have c: "unat ?c < N" "\<forall>w\<in>set ws. ws ! unat ?c \<le> w" using min_center_best [where ws = ws and fmax = fmax and junk = junk] assms by auto
  have "set (filter (\<lambda>j. Some (unat ?c) \<noteq> Some j) [0 ..< N]) = {..<N} - {unat ?c}" by auto
  then have "length (filter (\<lambda>j. Some (unat ?c) \<noteq> Some j) [0 ..< N]) = N - 1"
    using distinct_card [of "filter (\<lambda>j. Some (unat ?c) \<noteq> Some j) [0 ..< N]"] c(1) by simp
  then have "length (center_queue (Some (unat ?c)) rws) = N - 1"
    using center_queue_fst(3) [of "Some (unat ?c)" rws] assms(2) by simp
  then obtain cs where "pop_centers (k - 1) (center_queue (Some (unat ?c)) rws) = Inr cs" "nearest (k - 1) (Some (unat ?c)) rws cs"
    using pop_centers_nearest [of "k - 1" "Some (unat ?c)" rws] assms by (auto simp: diff_le_mono)
  then show ?thesis using assms c by (intro exI [of _ ?c] exI [of _ cs]) (simp add: closest_norp_rp_def Let_def)
qed

lemma closest_balanced_ok:
  assumes "length ws = N" "N < 2 ^ 32" "k \<le> N" "k = 1 \<longrightarrow> (\<exists>w\<in>set ws. w < fmax)"
  shows "\<exists>cs. closest_balanced junk fmax k ws = Inr cs \<and> nearest k None ws cs"
proof (cases "k = 1")
  case True
  let ?c = "fst (min_center junk fmax ws)"
  have "unat ?c < N" "\<forall>w\<in>set ws. ws ! unat ?c \<le> w"
    using min_center_best [where ws = ws and fmax = fmax and junk = junk] assms True by auto
  then show ?thesis using assms True by (intro exI [of _ "[?c]"]) (auto simp: closest_balanced_def nearest_def Let_def)
next
  case False
  have "length (center_queue None ws) = N" using center_queue_fst(3) [of None ws] assms(1) by simp
  then show ?thesis using pop_centers_nearest [of k None ws] assms False by (auto simp: closest_balanced_def)
qed

section \<open>The shards\<close>

text \<open>The shards that a choice of centres gives: \<open>sel i m\<close> is whether vector \<open>i\<close> goes to shard \<open>m\<close>.\<close>

definition members :: "(nat \<Rightarrow> nat \<Rightarrow> bool) \<Rightarrow> nat \<Rightarrow> nat \<Rightarrow> u32 list" where
  "members sel n m = map word_of_nat (filter (\<lambda>i. sel i m) [0 ..< n])"

definition first_shard :: "(nat \<Rightarrow> u32 list) \<Rightarrow> nat \<Rightarrow> nat \<Rightarrow> bool" where
  "first_shard cl i m \<longleftrightarrow> unat (hd (cl i)) = m"

definition any_shard :: "(nat \<Rightarrow> u32 list) \<Rightarrow> nat \<Rightarrow> nat \<Rightarrow> bool" where
  "any_shard cl i m \<longleftrightarrow> m \<in> unat ` set (cl i)"

definition centers_ok :: "nat \<Rightarrow> u32 list \<Rightarrow> bool" where
  "centers_ok N cs \<longleftrightarrow> cs \<noteq> [] \<and> distinct cs \<and> (\<forall>c\<in>set cs. unat c < N)"

lemma put_id_map: "c < N \<Longrightarrow> put_id v c (map f [0 ..< N]) = Inr (map (\<lambda>m. if m = c then f m @ [v] else f m) [0 ..< N])"
  by (auto simp: put_id_def intro!: nth_equalityI)

lemma put_rp_map:
  "distinct cs \<Longrightarrow> \<forall>c\<in>set cs. unat c < N \<Longrightarrow>
     put_rp v cs (map f [0 ..< N]) = Inr (map (\<lambda>m. if m \<in> unat ` set cs then f m @ [v] else f m) [0 ..< N])"
proof (induction cs arbitrary: f)
  case (Cons c cs)
  have "unat c \<notin> unat ` set cs" using Cons.prems(1) by (auto simp: word_unat_eq_iff [symmetric])
  with Cons show ?case by (auto simp: put_id_map)
qed simp

lemma put_norp_rp_parts:
  "put_norp_rp v p1 cs (no, rp) =
     (case put_rp v cs rp of
        Inl _ \<Rightarrow> Inl OutOfBounds
      | Inr rp \<Rightarrow> (case put_norp v p1 cs no of Inl e \<Rightarrow> Inl e | Inr no \<Rightarrow> Inr (no, rp)))"
  by (induction cs arbitrary: p1 no rp) (auto simp: put_id_def split: sum.splits)

lemma put_norp_rest: "0 < p1 \<Longrightarrow> put_norp v p1 cs w = Inr w"
  by (induction cs arbitrary: p1) auto

lemma put_norp_map: "centers_ok N cs \<Longrightarrow> put_norp v 0 cs (map f [0 ..< N]) = Inr (map (\<lambda>m. if unat (hd cs) = m then f m @ [v] else f m) [0 ..< N])"
  by (cases cs) (auto simp: centers_ok_def put_id_map put_norp_rest)

lemma members_Suc: "members sel (Suc n) = (\<lambda>m. if sel n m then members sel n m @ [word_of_nat n] else members sel n m)"
  by (rule ext) (simp add: members_def)

lemma members_0: "map (members sel 0) [0 ..< N] = replicate N []"
  by (auto simp: members_def intro!: nth_equalityI)

lemma fold_members:
  assumes "\<And>i. i < n \<Longrightarrow> step i (map (members sel i) [0 ..< N]) = Inr (map (members sel (Suc i)) [0 ..< N])"
  shows "fold_err step [0 ..< n] (replicate N []) = Inr (map (members sel n) [0 ..< N])"
  using assms by (induction n) (simp_all add: members_0 fold_err_append)

text \<open>The contract of a writer: a vector with centres \<open>cs\<close> is appended to the shards that \<open>sel cs\<close> selects.\<close>

locale shard_writer =
  fixes put :: "u32 \<Rightarrow> u32 list \<Rightarrow> u32 list list \<Rightarrow> crash + u32 list list"
    and sel :: "u32 list \<Rightarrow> nat \<Rightarrow> bool"
  assumes put_map: "centers_ok N cs \<Longrightarrow> put v cs (map f [0 ..< N]) = Inr (map (\<lambda>m. if sel cs m then f m @ [v] else f m) [0 ..< N])"
begin

lemma sharded:
  assumes "\<And>i. i < n \<Longrightarrow> centers_ok N (cl i)"
  shows "fold_err (\<lambda>i. put (word_of_nat i) (cl i)) [0 ..< n] (replicate N []) = Inr (map (members (\<lambda>i. sel (cl i)) n) [0 ..< N])"
  by (rule fold_members) (use assms in \<open>simp add: put_map members_Suc\<close>)

lemma sharded_blocks:
  assumes "0 < n" "\<And>i. i < n \<Longrightarrow> closest i = Inr (cl i) \<and> centers_ok N (cl i)"
  shows "for_blocks (shard_block closest put) n (replicate N []) = Inr (map (members (\<lambda>i. sel (cl i)) n) [0 ..< N])"
  using assms by (subst shard_points [where cl = cl]) (auto intro: sharded)

end

interpretation rp: shard_writer put_rp "\<lambda>cs m. m \<in> unat ` set cs"
  by unfold_locales (simp add: centers_ok_def put_rp_map)

interpretation norp: shard_writer "\<lambda>v. put_norp v 0" "\<lambda>cs m. unat (hd cs) = m"
  by unfold_locales (rule put_norp_map)

lemma fold_norp_rp:
  assumes "fold_err (\<lambda>i. put_norp (word_of_nat i) 0 (cl i)) is no = Inr no'" "fold_err (\<lambda>i. put_rp (word_of_nat i) (cl i)) is rp = Inr rp'"
  shows "fold_err (\<lambda>i. put_norp_rp (word_of_nat i) 0 (cl i)) is (no, rp) = Inr (no', rp')"
  using assms by (induction "is" arbitrary: no rp) (auto simp: put_norp_rp_parts split: sum.splits)

section \<open>Partition of the identifiers\<close>

lemma members_in: "n \<le> 2 ^ 32 \<Longrightarrow> v \<in> set (members sel n m) \<longleftrightarrow> unat v < n \<and> sel (unat v) m"
  by (auto simp: members_def image_iff intro!: bexI [where x = "unat v"])

lemma members_sorted: "n \<le> 2 ^ 32 \<Longrightarrow> sorted_wrt (<) (members sel n m)"
proof -
  assume n: "n \<le> 2 ^ 32"
  have "sorted_wrt (<) (filter (\<lambda>i. sel i m) [0 ..< n])" by (simp add: sorted_wrt_filter)
  then show ?thesis unfolding members_def sorted_wrt_map
    by (rule sorted_wrt_mono_rel [rotated]) (use n in \<open>auto simp: word_less_nat_alt\<close>)
qed

lemma members_subset: "(\<And>i. i < n \<Longrightarrow> sel i m \<Longrightarrow> sel' i m) \<Longrightarrow> set (members sel n m) \<subseteq> set (members sel' n m)"
  by (auto simp: members_def)

lemma length_members: "length (members sel n m) \<le> n"
  using length_filter_le [of "\<lambda>i. sel i m" "[0 ..< n]"] by (simp add: members_def)

lemma first_shard_partition:
  assumes "n \<le> 2 ^ 32" "\<And>i. i < n \<Longrightarrow> centers_ok N (cl i)"
  shows "is_partition n (map (members (first_shard cl) n) [0 ..< N])"
proof -
  let ?d = "concat (map (members (first_shard cl) n) [0 ..< N])"
  have h: "unat (hd (cl i)) < N" if "i < n" for i using assms(2) [OF that] by (cases "cl i") (auto simp: centers_ok_def)
  have "distinct (concat (map (members (first_shard cl) n) ms))" if "distinct ms" for ms
    using that
  proof (induction ms)
    case (Cons m ms)
    have "distinct (members (first_shard cl) n m)" using members_sorted [OF assms(1)] by (auto simp: strict_sorted_iff)
    moreover have "set (members (first_shard cl) n m) \<inter> set (members (first_shard cl) n m') = {}" if "m' \<in> set ms" for m'
      using that Cons.prems members_in [OF assms(1)] by (auto simp: first_shard_def)
    ultimately show ?case using Cons by auto
  qed simp
  then have d: "distinct ?d" by simp
  have "set ?d = {v. unat v < n}" using h members_in [OF assms(1)] by (auto simp: first_shard_def)
  moreover have "card {v :: u32. unat v < n} = n"
  proof -
    have "{v :: u32. unat v < n} = word_of_nat ` {..<n}" by (auto simp: image_iff) (use assms(1) in \<open>auto intro!: bexI [where x = "unat _"]\<close>)
    moreover have "inj_on (word_of_nat :: nat \<Rightarrow> u32) {..<n}" by (rule inj_on_inverseI [where g = unat]) (use assms(1) in auto)
    ultimately show ?thesis by (simp add: card_image)
  qed
  ultimately have "length ?d = n" using distinct_card [OF d] by simp
  then show ?thesis using d \<open>set ?d = _\<close> by (auto simp: is_partition_def labels_ok_def)
qed

section \<open>Files of identifiers\<close>

lemma length_idmap_file: "length (idmap_file ids) = length ids * 4 + 8"
  by (simp add: idmap_file_def len_simps)

lemma read_idmap_file: "length ids < 2 ^ 32 \<Longrightarrow> read_idmap (idmap_file ids) = Inr ids"
  using length_idmap_file [of ids] u32.rd_many_enc [of ids "[]"] by (simp add: read_idmap_def idmap_file_def codec_simps)

lemma shard_with_and_without:
  assumes "0 < unat npts" "\<And>i. i < unat npts \<Longrightarrow> closest_norp_rp (junk i) fmax k (ws i) (rws i) = Inr (cl i) \<and> centers_ok N (cl i)"
  shows "shard_data_into_clusters_with_and_without_replica junk fmax ws rws npts dim N (unat dim) k =
    Inr (Some (map (\<lambda>m. idmap_file (members (first_shard cl) (unat npts) m)) [0 ..< N], map (\<lambda>m. idmap_file (members (any_shard cl) (unat npts) m)) [0 ..< N]))"
proof -
  have "for_blocks (shard_block (\<lambda>i. closest_norp_rp (junk i) fmax k (ws i) (rws i)) (\<lambda>v. put_norp_rp v 0)) (unat npts) (replicate N [], replicate N []) =
      fold_err (\<lambda>i. put_norp_rp (word_of_nat i) 0 (cl i)) [0 ..< unat npts] (replicate N [], replicate N [])"
    by (rule shard_points [OF assms(1)]) (use assms(2) in blast)
  also have "\<dots> = Inr (map (members (first_shard cl) (unat npts)) [0 ..< N], map (members (any_shard cl) (unat npts)) [0 ..< N])"
    using assms(2) fold_norp_rp [OF norp.sharded [of _ N cl] rp.sharded [of _ N cl]] by (simp add: first_shard_def [abs_def] any_shard_def [abs_def])
  finally show ?thesis by (simp add: shard_data_into_clusters_with_and_without_replica_def comp_def)
qed

text \<open>The variants with one kind of shard.\<close>

lemma shard_with:
  assumes "0 < unat npts" "\<And>i. i < unat npts \<Longrightarrow> closest_balanced (junk i) fmax k (ws i) = Inr (cl i) \<and> centers_ok N (cl i)"
  shows "shard_data_into_clusters_with_replica junk fmax ws npts dim N (unat dim) k = Inr (Some (map (\<lambda>m. idmap_file (members (any_shard cl) (unat npts) m)) [0 ..< N]))"
proof -
  have "for_blocks (shard_block (\<lambda>i. closest_balanced (junk i) fmax k (ws i)) put_rp) (unat npts) (replicate N []) = Inr (map (members (any_shard cl) (unat npts)) [0 ..< N])"
    using assms rp.sharded_blocks [where cl = cl] by (simp add: any_shard_def [abs_def])
  then show ?thesis by (simp add: shard_data_into_clusters_with_replica_def comp_def)
qed

lemma shard_without:
  assumes "0 < unat npts" "\<And>i. i < unat npts \<Longrightarrow> closest_balanced (junk i) fmax k (ws i) = Inr (cl i) \<and> centers_ok N (cl i)"
  shows "shard_data_into_clusters_without_replica junk fmax ws npts dim N (unat dim) k = Inr (Some (map (\<lambda>m. idmap_file (members (first_shard cl) (unat npts) m)) [0 ..< N]))"
proof -
  have "for_blocks (shard_block (\<lambda>i. closest_balanced (junk i) fmax k (ws i)) (\<lambda>v. put_norp v 0)) (unat npts) (replicate N []) = Inr (map (members (first_shard cl) (unat npts)) [0 ..< N])"
    using assms norp.sharded_blocks [where cl = cl] by (simp add: first_shard_def [abs_def])
  then show ?thesis by (simp add: shard_data_into_clusters_without_replica_def comp_def)
qed

section \<open>Consecutive shards\<close>

lemma div_eq_iff_range: "0 < (q :: nat) \<Longrightarrow> i div q = m \<longleftrightarrow> m * q \<le> i \<and> i < (m + 1) * q"
  by (metis add.commute div_less_iff_less_mult less_Suc_eq_le less_eq_div_iff_mult_less_eq order_antisym order_refl plus_1_eq_Suc)

lemma filter_range: "m * q \<le> n \<Longrightarrow> (m + 1) * q \<le> n \<Longrightarrow> 0 < q \<Longrightarrow> filter (\<lambda>i. i div q = m) [0 ..< n] = [m * q ..< (m + 1) * q]"
proof -
  assume a: "m * q \<le> n" "(m + 1) * q \<le> n" "0 < q"
  have "[0 ..< n] = [0 ..< m * q] @ [m * q ..< (m + 1) * q] @ [(m + 1) * q ..< n]"
    using a upt_split [of 0 "m * q" n] upt_split [of "m * q" "(m + 1) * q" n] by simp
  moreover have "filter (\<lambda>i. i div q = m) [0 ..< m * q] = []" "filter (\<lambda>i. i div q = m) [(m + 1) * q ..< n] = []"
    "filter (\<lambda>i. i div q = m) [m * q ..< (m + 1) * q] = [m * q ..< (m + 1) * q]"
    using div_eq_iff_range [OF a(3)] by (auto simp: filter_empty_conv filter_id_conv simp del: mult_Suc)
  ultimately show ?thesis by simp
qed

lemma consecutive_shards:
  assumes "0 < q" "n \<le> N * q"
  shows "fold_err (\<lambda>i. put_id (word_of_nat i) (i div q)) [0 ..< n] (replicate N []) = Inr (map (members (\<lambda>i m. i div q = m) n) [0 ..< N])"
proof (rule fold_members)
  fix i assume "i < n"
  then have "i div q < N" using assms by (simp add: div_less_iff_less_mult)
  then show "put_id (word_of_nat i) (i div q) (map (members (\<lambda>i m. i div q = m) i) [0 ..< N]) = Inr (map (members (\<lambda>i m. i div q = m) (Suc i)) [0 ..< N])"
    by (auto simp: put_id_map members_Suc)
qed

lemma random_blocks:
  assumes n: "0 < n"
  shows "n * len \<le> length s \<Longrightarrow> for_blocks (random_block len put) n (s, w) =
      (case fold_err put [0 ..< n] w of Inl e \<Rightarrow> Inl e | Inr w \<Rightarrow> Inr (drop (n * len) s, w))"
    and "\<not> n * len \<le> length s \<Longrightarrow> isl (for_blocks (random_block len put) n (s, w))"
proof -
  define bs where "bs = block_size n"
  have bs: "0 < bs" using block_size_pos [OF n] by (simp add: bs_def)
  define E where "E m = min (m * bs) n" for m
  define run where "run m = fold_err (\<lambda>b. random_block len put (b * bs) (min ((b + 1) * bs) n)) [0 ..< m] (s, w)" for m
  have "(E m * len \<le> length s \<longrightarrow> run m = (case fold_err put [0 ..< E m] w of Inl e \<Rightarrow> Inl e | Inr w \<Rightarrow> Inr (drop (E m * len) s, w))) \<and>
      (\<not> E m * len \<le> length s \<longrightarrow> isl (run m))" if "m \<le> div_round_up n bs" for m
    using that
  proof (induction m)
    case 0
    show ?case by (simp add: run_def E_def)
  next
    case (Suc m)
    have "m \<le> n div bs" using Suc.prems by (auto simp: div_round_up_def split: if_splits)
    then have "m * bs \<le> n div bs * bs" by (rule mult_le_mono1)
    then have "m * bs \<le> n" using div_times_less_eq_dividend [of n bs] by (rule order.trans)
    then have e: "m * bs = E m" "E m \<le> E (Suc m)" "min ((m + 1) * bs) n = E (Suc m)" by (simp_all add: E_def)
    have "run (Suc m) = (case run m of Inl e \<Rightarrow> Inl e | Inr st \<Rightarrow>
        random_block len put (m * bs) (min ((m + 1) * bs) n) st)"
      unfolding run_def upt_Suc_append [OF le0] fold_err_append by (simp split: sum.split)
    then have step: "run (Suc m) = (case run m of Inl e \<Rightarrow> Inl e | Inr st \<Rightarrow> random_block len put (E m) (E (Suc m)) st)"
      unfolding e(1,3) .
    have split: "[0 ..< E (Suc m)] = [0 ..< E m] @ [E m ..< E (Suc m)]" using upt_split [of 0 "E m" "E (Suc m)"] e(2) by simp
    have len: "(E (Suc m) - E m) * len + E m * len = E (Suc m) * len" using e(2) by (simp flip: add_mult_distrib)
    from Suc.IH Suc.prems have IH: "E m * len \<le> length s \<Longrightarrow> run m = (case fold_err put [0 ..< E m] w of Inl e \<Rightarrow> Inl e | Inr w \<Rightarrow> Inr (drop (E m * len) s, w))"
      "\<not> E m * len \<le> length s \<Longrightarrow> isl (run m)" by auto
    show ?case
    proof (cases "E m * len \<le> length s")
      case True
      have "(E (Suc m) - E m) * len \<le> length s - E m * len \<longleftrightarrow> E (Suc m) * len \<le> length s" using True len by linarith
      with IH(1) [OF True] show ?thesis
        by (auto simp: step split fold_err_append random_block_def len split: sum.splits)
    next
      case False
      then have "\<not> E (Suc m) * len \<le> length s" using mult_le_mono1 [OF e(2), of len] by linarith
      with IH(2) [OF False] show ?thesis by (cases "run m") (auto simp: step)
    qed
  qed
  from this [of "div_round_up n bs"]
  have all: "(E (div_round_up n bs) * len \<le> length s \<longrightarrow>
      run (div_round_up n bs) = (case fold_err put [0 ..< E (div_round_up n bs)] w of Inl e \<Rightarrow> Inl e | Inr w \<Rightarrow> Inr (drop (E (div_round_up n bs) * len) s, w))) \<and>
      (\<not> E (div_round_up n bs) * len \<le> length s \<longrightarrow> isl (run (div_round_up n bs)))" by simp
  have "n \<le> div_round_up n bs * bs"
  proof (cases "n mod bs = 0")
    case False
    have "n < bs + n div bs * bs" using bs by (rule dividend_less_div_times)
    then show ?thesis using False by (simp add: div_round_up_def)
  qed (simp add: div_round_up_def mod_0_imp_dvd)
  then have E: "E (div_round_up n bs) = n" by (simp add: E_def)
  have r: "for_blocks (random_block len put) n (s, w) = run (div_round_up n bs)"
    using bs by (simp add: for_blocks_def run_def Let_def bs_def)
  from all [unfolded E] show "n * len \<le> length s \<Longrightarrow> for_blocks (random_block len put) n (s, w) =
      (case fold_err put [0 ..< n] w of Inl e \<Rightarrow> Inl e | Inr w \<Rightarrow> Inr (drop (n * len) s, w))"
    and "\<not> n * len \<le> length s \<Longrightarrow> isl (for_blocks (random_block len put) n (s, w))"
    by (simp_all add: r)
qed

text \<open>The identifiers of all vectors, written one after the other.\<close>

definition random_shards :: "nat \<Rightarrow> nat \<Rightarrow> crash + u32 list list" where
  "random_shards npts N = fold_err (put_random npts N) [0 ..< npts] (replicate N [])"

lemma random_even:
  assumes "0 < n" "0 < N" "N dvd n"
  shows "random_shards n N = Inr (map (\<lambda>m. map word_of_nat [m * (n div N) ..< (m + 1) * (n div N)]) [0 ..< N])"
proof -
  let ?q = "n div N"
  have q: "0 < ?q" "N * ?q = n" using assms by (auto simp: div_greater_zero_iff dvd_imp_le)
  have "members (\<lambda>i m. i div ?q = m) n m = map word_of_nat [m * ?q ..< (m + 1) * ?q]" if "m < N" for m
  proof -
    have "(m + 1) * ?q \<le> N * ?q" using that by (intro mult_le_mono1) simp
    then show ?thesis using q unfolding members_def by (subst filter_range) auto
  qed
  then show ?thesis
    using consecutive_shards [OF q(1), of n N] assms q
    by (simp add: random_shards_def put_random_def [abs_def] cong: map_cong)
qed

lemma random_uneven:
  assumes "0 < N" "N \<le> n" "\<not> N dvd n"
  shows "random_shards n N = Inl OutOfBounds"
proof -
  let ?q = "n div N"
  have q: "0 < ?q" using assms by (simp add: div_greater_zero_iff)
  have lt: "N * ?q < n" using assms by (metis dvd_def le_neq_implies_less times_div_less_eq_dividend)
  then have "[0 ..< n] = [0 ..< N * ?q] @ N * ?q # [Suc (N * ?q) ..< n]" using upt_split [of 0 "N * ?q" n] by (simp add: upt_conv_Cons)
  moreover have "put_id v (N * ?q div ?q) (map f [0 ..< N]) = Inl OutOfBounds" for v f using q by (simp add: put_id_def)
  ultimately have "fold_err (\<lambda>i. put_id (word_of_nat i) (i div ?q)) [0 ..< n] (replicate N []) = Inl OutOfBounds"
    using consecutive_shards [OF q, of "N * ?q" N] by (simp only: fold_err_append fold_err.simps sum.case order_refl)
  then show ?thesis using assms q by (simp add: random_shards_def put_random_def [abs_def])
qed

lemma random_few: "0 < n \<Longrightarrow> n < N \<Longrightarrow> random_shards n N = Inl Abort"
  by (simp add: random_shards_def put_random_def upt_conv_Cons)

section \<open>Properties\<close>

text \<open>Property C40.  The random partition into at most \<^const>\<open>MACHINE_NUM\<close> shards of a complete data file returns exactly when the
  number of shards divides the number of vectors, and then every shard is a run of consecutive identifiers; otherwise it divides
  by zero (fewer vectors than shards) or writes to a shard that does not exist.  More shards than machines are written past the
  arrays of file names, and a file that ends before its last vector never gives a result.\<close>

theorem random_partition_divides:
  assumes "0 < unat npts" "0 < N"
    and "run = shard_data_into_random sizeT (enc_u32 npts @ enc_u32 dim @ rows) N (unat dim) vec_num"
  shows "(MACHINE_NUM < N \<longrightarrow> run = Inl OutOfBounds) \<and>
    (length rows < unat npts * (sizeT * unat dim) \<longrightarrow> isl run) \<and>
    (N \<le> MACHINE_NUM \<and> unat npts * (sizeT * unat dim) \<le> length rows \<longrightarrow> run =
      (if N dvd unat npts then
         Inr (Some (map (\<lambda>m. idmap_file (map word_of_nat [m * (unat npts div N) ..< (m + 1) * (unat npts div N)])) [0 ..< N],
           replicate N (word_of_nat (vec_num div N))))
       else if unat npts < N then Inl Abort else Inl OutOfBounds))"
proof -
  let ?n = "unat npts" and ?len = "sizeT * unat dim"
  let ?blocks = "for_blocks (random_block ?len (put_random ?n N)) ?n (rows, replicate N [])"
  have run: "run = (if MACHINE_NUM < N then Inl OutOfBounds else case ?blocks of
      Inl e \<Rightarrow> Inl e | Inr (_, w) \<Rightarrow> Inr (Some (map idmap_file w, replicate N (word_of_nat (vec_num div N)))))"
    by (simp add: assms(3) shard_data_into_random_def codec_simps)
  note b = random_blocks [OF assms(1), of ?len rows "put_random ?n N" "replicate N []", folded random_shards_def]
  have short: "isl run" if "length rows < ?n * ?len"
    using b(2) that by (auto simp: run split: sum.splits)
  moreover have "run = (if N dvd ?n then
         Inr (Some (map (\<lambda>m. idmap_file (map word_of_nat [m * (?n div N) ..< (m + 1) * (?n div N)])) [0 ..< N], replicate N (word_of_nat (vec_num div N))))
       else if ?n < N then Inl Abort else Inl OutOfBounds)" if c: "N \<le> MACHINE_NUM" "?n * ?len \<le> length rows"
  proof (cases "N dvd ?n")
    case True
    then show ?thesis using c by (simp add: run b(1) random_even [OF assms(1,2)] comp_def)
  next
    case False
    then show ?thesis using c random_uneven [OF assms(2) _ False] random_few [OF assms(1), of N]
      by (cases "?n < N") (simp_all add: run b(1))
  qed
  ultimately show ?thesis by (auto simp: run)
qed

theorem random_partition_divides_witness:
  "shard_data_into_random 1 (enc_u32 5 @ enc_u32 2 @ replicate 10 0) 2 2 5 = Inl OutOfBounds \<and>
   isl (shard_data_into_random 1 (enc_u32 5 @ enc_u32 2 @ replicate 9 0) 2 2 5) \<and>
   shard_data_into_random 1 (enc_u32 4 @ enc_u32 2 @ replicate 8 0) 2 2 4 =
     Inr (Some ([idmap_file [0, 1], idmap_file [2, 3]], [2, 2]))"
  using random_partition_divides [of 5 2 _ 1 2 "replicate 10 0" 5, OF _ _ refl]
    random_partition_divides [of 5 2 _ 1 2 "replicate 9 0" 5, OF _ _ refl]
    random_partition_divides [of 4 2 _ 1 2 "replicate 8 0" 4, OF _ _ refl]
  by (simp add: upt_rec config_defs) (simp add: numeral_2_eq_2)

end
