(* ===== verification/Retrieve.thy ===== *)
theory Retrieve
  imports Partition
begin

text \<open>
  Copying the vectors of the shards, \<^verbatim>\<open>retrieve_shard_data_from_ids\<close> of \<^verbatim>\<open>src/index/partition.cc\<close>: one pass over the data file
  with a cursor into the identifiers of every shard.  A cursor that has seen all identifiers of its shard reads the
  word after the array, whose value is an argument.
\<close>

section \<open>The pass over the data\<close>

record cursor =
  cur_pos :: nat
  num_written :: nat
  cu_out :: "byte list"

definition visit :: "(nat \<Rightarrow> u32) \<Rightarrow> u32 list \<Rightarrow> u32 \<Rightarrow> byte list \<Rightarrow> cursor \<Rightarrow> cursor" where
  "visit junk ids v row c =
     (if v = (if cur_pos c < length ids then ids ! cur_pos c else junk (cur_pos c))
      then \<lparr>cur_pos = cur_pos c + 1, num_written = num_written c + 1, cu_out = cu_out c @ row\<rparr> else c)"

text \<open>The arguments of the loop: the identifiers of the shards with and without replicas, and the memory after them.\<close>

record shard_ids =
  si_replica :: bool
  si_rp :: "u32 list list"
  si_norp :: "u32 list list"
  si_junk_rp :: "nat \<Rightarrow> nat \<Rightarrow> u32"
  si_junk_norp :: "nat \<Rightarrow> nat \<Rightarrow> u32"

definition retrieve_point :: "shard_ids \<Rightarrow> u32 \<Rightarrow> byte list \<Rightarrow> cursor list \<times> cursor list \<Rightarrow> cursor list \<times> cursor list" where
  "retrieve_point si v row st =
     (if si_replica si then map (\<lambda>p. visit (si_junk_rp si p) (si_rp si ! p) v row (fst st ! p)) [0 ..< length (fst st)] else fst st,
      map (\<lambda>p. visit (si_junk_norp si p) (si_norp si ! p) v row (snd st ! p)) [0 ..< length (snd st)])"

definition retrieve_block ::
  "(u32 \<Rightarrow> byte list \<Rightarrow> 's \<Rightarrow> 's) \<Rightarrow> nat \<Rightarrow> nat \<Rightarrow> nat \<Rightarrow> byte list \<times> byte list \<times> 's \<Rightarrow> crash + byte list \<times> byte list \<times> 's"
where
  "retrieve_block step len start_id end_id =
     (\<lambda>(s, buf, st). case ifs_read ((end_id - start_id) * len) s buf of (buf, s) \<Rightarrow>
        Inr (s, buf, foldl (\<lambda>st v. step (word_of_nat (start_id + v)) (take len (drop (v * len) buf)) st) st [0 ..< end_id - start_id]))"

text \<open>\<^verbatim>\<open>load_bin<uint32_t>\<close>: a short file raises an exception, which ends the program.\<close>

definition load_bin :: "byte list \<Rightarrow> crash + nat \<times> u32 list" where
  "load_bin fil =
     (case do { (npts, s) \<leftarrow> rd_u32 fil; (dim, s) \<leftarrow> rd_u32 s; (xs, _) \<leftarrow> rd_many (unat npts * unat dim) rd_u32 s; Some (unat npts, xs) } of
        None \<Rightarrow> Inl Abort
      | Some r \<Rightarrow> Inr r)"

definition base_file :: "u32 \<Rightarrow> cursor \<Rightarrow> byte list" where
  "base_file dim c = enc_u32 (word_of_nat (num_written c)) @ enc_u32 dim @ cu_out c"

text \<open>The call with \<^verbatim>\<open>write_noreplica\<close>, as \<^verbatim>\<open>kmeans_partition\<close> makes it; \<open>sizeT\<close> is \<^verbatim>\<open>sizeof(T)\<close>, \<open>rfiles\<close> and \<open>nfiles\<close> are the
  files of identifiers of the \<open>num_parts\<close> shards.\<close>

definition retrieve_shard_data_from_ids ::
  "(nat \<Rightarrow> nat \<Rightarrow> u32) \<Rightarrow> (nat \<Rightarrow> nat \<Rightarrow> u32) \<Rightarrow> nat \<Rightarrow> nat \<Rightarrow> nat \<Rightarrow> nat \<Rightarrow> byte list list \<Rightarrow> byte list list \<Rightarrow> byte list \<Rightarrow>
     crash + byte list list \<times> byte list list"
where
  "retrieve_shard_data_from_ids junkr junkn sizeT k_base num_parts index_dim rfiles nfiles data =
     (case do { (npts32, s) \<leftarrow> rd_u32 data; (basedim32, s) \<leftarrow> rd_u32 s; Some (npts32, basedim32, s) } of
        None \<Rightarrow> Inl OutOfBounds
      | Some (npts32, basedim32, s) \<Rightarrow>
          (case if k_base > 1 then traverse load_bin (take num_parts rfiles) else Inr [] of
             Inl e \<Rightarrow> Inl e
           | Inr rp \<Rightarrow>
               (case traverse load_bin (take num_parts nfiles) of
                  Inl e \<Rightarrow> Inl e
                | Inr norp \<Rightarrow>
                    if unat basedim32 \<noteq> index_dim then Inl Abort
                    else let len = sizeT * unat basedim32; c0 = \<lparr>cur_pos = 0, num_written = 0, cu_out = []\<rparr>;
                             si = \<lparr>si_replica = (k_base > 1), si_rp = map snd rp, si_norp = map snd norp, si_junk_rp = junkr, si_junk_norp = junkn\<rparr>
                      in (case for_blocks (retrieve_block (retrieve_point si) len) (unat npts32)
                             (s, replicate (block_size (unat npts32) * len) 0, replicate num_parts c0, replicate num_parts c0) of
                            Inl e \<Rightarrow> Inl e
                          | Inr (_, _, rs, ns) \<Rightarrow>
                              if list_ex (\<lambda>p. k_base > 1 \<and> fst (rp ! p) \<noteq> num_written (rs ! p) \<or> fst (norp ! p) \<noteq> num_written (ns ! p)) [0 ..< num_parts]
                              then Inl Abort
                              else Inr (if k_base > 1 then map (base_file basedim32) rs else [], map (base_file basedim32) ns)))))"

section \<open>Reading the rows\<close>

lemma row_of_block:
  assumes "list_all (\<lambda>r. length r = len) rows" "v < length rows"
  shows "take len (drop (v * len) (concat rows @ t)) = rows ! v"
  using assms
proof (induction rows arbitrary: v)
  case (Cons r rows)
  then show ?case by (cases v) auto
qed simp

lemma length_concat_rows: "list_all (\<lambda>r. length r = len) rows \<Longrightarrow> length (concat rows) = length rows * len"
  by (induction rows) auto

lemma foldl_shift: "foldl (\<lambda>st v. f (s + v) st) st [0 ..< k] = foldl (\<lambda>st i. f i st) st [s ..< s + k]"
  by (induction k) auto

lemma block_rows:
  assumes r: "list_all (\<lambda>r. length r = len) rows" and b: "start_id \<le> end_id" "end_id \<le> length rows" "(end_id - start_id) * len \<le> length buf"
  shows "\<exists>buf'. retrieve_block step len start_id end_id (concat (drop start_id rows), buf, st) =
      Inr (concat (drop end_id rows), buf', foldl (\<lambda>st i. step (word_of_nat i) (rows ! i) st) st [start_id ..< end_id]) \<and> length buf' = length buf"
proof -
  let ?k = "end_id - start_id" and ?mid = "take (end_id - start_id) (drop start_id rows)"
  have m: "list_all (\<lambda>r. length r = len) ?mid" "length ?mid = ?k" using r b by (auto simp: list_all_iff dest: in_set_takeD in_set_dropD)
  have c: "concat (drop start_id rows) = concat ?mid @ concat (drop end_id rows)"
    using b by (metis append_take_drop_id concat_append drop_drop le_add_diff_inverse2)
  have l: "length (concat ?mid) = ?k * len" using length_concat_rows [OF m(1)] m(2) by simp
  let ?buf = "concat ?mid @ drop (?k * len) buf"
  have i: "ifs_read (?k * len) (concat (drop start_id rows)) buf = (?buf, concat (drop end_id rows))"
    using l by (simp add: ifs_read_def c min_def)
  have "take len (drop (v * len) ?buf) = rows ! (start_id + v)" if "v < ?k" for v
    using row_of_block [OF m(1), of v "drop (?k * len) buf"] that m(2) b by simp
  then have "foldl (\<lambda>st v. step (word_of_nat (start_id + v)) (take len (drop (v * len) ?buf)) st) st [0 ..< ?k] =
      foldl (\<lambda>st v. step (word_of_nat (start_id + v)) (rows ! (start_id + v)) st) st [0 ..< ?k]"
    by (intro foldl_cong) auto
  also have "\<dots> = foldl (\<lambda>st i. step (word_of_nat i) (rows ! i) st) st [start_id ..< end_id]"
    using foldl_shift [of "\<lambda>i. step (word_of_nat i) (rows ! i)" start_id st ?k] b by simp
  finally show ?thesis using i l b(3) by (simp add: retrieve_block_def)
qed

lemma all_rows:
  assumes r: "list_all (\<lambda>r. length r = len) rows" and n: "0 < length rows" and b: "length buf = block_size (length rows) * len"
  shows "\<exists>s' buf'. for_blocks (retrieve_block step len) (length rows) (concat rows, buf, st) =
      Inr (s', buf', foldl (\<lambda>st i. step (word_of_nat i) (rows ! i) st) st [0 ..< length rows])"
proof -
  let ?n = "length rows" and ?bs = "block_size (length rows)"
  let ?e = "\<lambda>k. min (k * ?bs) ?n" and ?f = "\<lambda>st i. step (word_of_nat i) (rows ! i) st"
  have "\<exists>buf'. fold_err (\<lambda>block. retrieve_block step len (block * ?bs) (min ((block + 1) * ?bs) ?n)) [0 ..< k] (concat rows, buf, st) =
      Inr (concat (drop (?e k) rows), buf', foldl ?f st [0 ..< ?e k]) \<and> length buf' = length buf" if "k \<le> div_round_up ?n ?bs" for k
    using that
  proof (induction k)
    case (Suc k)
    then obtain buf' where IH: "fold_err (\<lambda>block. retrieve_block step len (block * ?bs) (min ((block + 1) * ?bs) ?n)) [0 ..< k] (concat rows, buf, st) =
      Inr (concat (drop (?e k) rows), buf', foldl ?f st [0 ..< ?e k])" "length buf' = length buf" by auto
    have "k * ?bs \<le> ?n"
    proof -
      have "k \<le> ?n div ?bs" using Suc.prems by (auto simp: div_round_up_def split: if_splits)
      then have "k * ?bs \<le> ?n div ?bs * ?bs" by (rule mult_le_mono1)
      also have "\<dots> \<le> ?n" by (rule div_times_less_eq_dividend)
      finally show ?thesis .
    qed
    then have k: "?e k = k * ?bs" by simp
    have le: "k * ?bs \<le> ?e (Suc k)" "?e (Suc k) \<le> ?n" "(?e (Suc k) - k * ?bs) * len \<le> length buf'"
      using \<open>k * ?bs \<le> ?n\<close> IH(2) b by (auto intro!: mult_le_mono1)
    obtain buf'' where "retrieve_block step len (k * ?bs) (?e (Suc k)) (concat (drop (k * ?bs) rows), buf', foldl ?f st [0 ..< k * ?bs]) =
        Inr (concat (drop (?e (Suc k)) rows), buf'', foldl ?f (foldl ?f st [0 ..< k * ?bs]) [k * ?bs ..< ?e (Suc k)])" "length buf'' = length buf'"
      using block_rows [OF r le, where step = step and st = "foldl ?f st [0 ..< k * ?bs]"] by (elim exE conjE) (rule that)
    moreover have "foldl ?f (foldl ?f st [0 ..< k * ?bs]) [k * ?bs ..< ?e (Suc k)] = foldl ?f st [0 ..< ?e (Suc k)]"
      unfolding foldl_append [symmetric] upt_split [OF le0 le(1)] ..
    ultimately show ?case using IH unfolding k by (simp add: fold_err_append)
  qed simp
  from this [of "div_round_up ?n ?bs"] obtain buf' where
    f: "fold_err (\<lambda>block. retrieve_block step len (block * ?bs) (min ((block + 1) * ?bs) ?n)) [0 ..< div_round_up ?n ?bs] (concat rows, buf, st) =
      Inr (concat (drop (?e (div_round_up ?n ?bs)) rows), buf', foldl ?f st [0 ..< ?e (div_round_up ?n ?bs)])" by auto
  have "?n \<le> div_round_up ?n ?bs * ?bs"
    using block_size_pos [OF n] by (auto simp: div_round_up_def) (metis add.commute div_mult_mod_eq mod_less_divisor nat_add_left_cancel_le less_imp_le)
  then have "?e (div_round_up ?n ?bs) = ?n" by simp
  then show ?thesis using f block_size_pos [OF n] by (auto simp: for_blocks_def Let_def)
qed

section \<open>A cursor\<close>

definition visits :: "(nat \<Rightarrow> u32) \<Rightarrow> u32 list \<Rightarrow> byte list list \<Rightarrow> nat list \<Rightarrow> cursor \<Rightarrow> cursor" where
  "visits junk ids rows is c = foldl (\<lambda>c i. visit junk ids (word_of_nat i) (rows ! i) c) c is"

definition cursor0 :: cursor where
  "cursor0 = \<lparr>cur_pos = 0, num_written = 0, cu_out = []\<rparr>"

lemma sorted_split: "sorted_wrt (<) ids \<Longrightarrow> ids = filter (\<lambda>v :: u32. unat v < i) ids @ filter (\<lambda>v. \<not> unat v < i) ids"
proof (induction ids)
  case (Cons x ids)
  show ?case
  proof (cases "unat x < i")
    case False
    then have "\<forall>v\<in>set ids. \<not> unat v < i" using Cons.prems by (auto simp: word_less_nat_alt)
    with False show ?thesis by simp
  qed (use Cons in simp)
qed simp

text \<open>Before vector \<open>i\<close> a cursor has copied the vectors of its shard below \<open>i\<close>, or has run past the end of its shard.\<close>

definition cursor_at :: "u32 list \<Rightarrow> byte list list \<Rightarrow> nat \<Rightarrow> cursor \<Rightarrow> bool" where
  "cursor_at ids rows i c \<longleftrightarrow> (let done = filter (\<lambda>v. unat v < i) ids in
     cur_pos c = length done \<and> num_written c = length done \<and> cu_out c = concat (map (\<lambda>v. rows ! unat v) done))"

definition overrun :: "u32 list \<Rightarrow> cursor \<Rightarrow> bool" where
  "overrun ids c \<longleftrightarrow> num_written c = cur_pos c \<and> length ids < cur_pos c"

lemma filter_next:
  assumes "sorted_wrt (<) ids"
  shows "filter (\<lambda>v :: u32. unat v < Suc i) ids =
    (let k = length (filter (\<lambda>v. unat v < i) ids) in filter (\<lambda>v. unat v < i) ids @ (if k < length ids \<and> unat (ids ! k) = i then [ids ! k] else []))"
proof -
  let ?A = "filter (\<lambda>v. unat v < i) ids" and ?B = "filter (\<lambda>v. \<not> unat v < i) ids"
  have s: "ids = ?A @ ?B" by (rule sorted_split [OF assms])
  have "filter (\<lambda>v. unat v < Suc i) ids = ?A @ filter (\<lambda>v. unat v = i) ?B"
  proof -
    have "filter (\<lambda>v. unat v < Suc i) ids = filter (\<lambda>v. unat v < Suc i) (?A @ ?B)" using s by argo
    also have "\<dots> = ?A @ filter (\<lambda>v. unat v = i) ?B" by (auto simp: filter_append simp del: filter_filter intro!: arg_cong2 [where f = append] filter_cong filter_True)
    finally show ?thesis .
  qed
  moreover have "filter (\<lambda>v. unat v = i) ?B = (if length ?A < length ids \<and> unat (ids ! length ?A) = i then [ids ! length ?A] else [])"
  proof (cases ?B)
    case Nil
    then show ?thesis using s by simp
  next
    case (Cons b B)
    have "sorted_wrt (<) (b # B)" using assms sorted_wrt_filter [OF assms, of "\<lambda>v. \<not> unat v < i"] Cons by simp
    moreover have "b \<in> set ?B" using Cons by simp
    then have "\<not> unat b < i" by simp
    ultimately have "\<forall>v\<in>set B. unat v \<noteq> i" by (auto simp: word_less_nat_alt)
    then have "filter (\<lambda>v. unat v = i) (b # B) = (if unat b = i then [b] else [])" by simp
    moreover have "length ?A < length ids" "ids ! length ?A = b" using s Cons by (metis length_append less_add_same_cancel1 length_greater_0_conv list.distinct(1)) (metis s Cons nth_append_length)
    ultimately show ?thesis using Cons by simp
  qed
  ultimately show ?thesis by (simp add: Let_def)
qed

lemma visit_step:
  assumes "sorted_wrt (<) ids" "i < 2 ^ 32" "cursor_at ids rows i c"
  shows "cursor_at ids rows (Suc i) (visit junk ids (word_of_nat i) (rows ! i) c) \<or>
    overrun ids (visit junk ids (word_of_nat i) (rows ! i) c) \<and> junk (length ids) = word_of_nat i"
proof -
  let ?k = "length (filter (\<lambda>v. unat v < i) ids)"
  have c: "cur_pos c = ?k" "num_written c = ?k" "cu_out c = concat (map (\<lambda>v. rows ! unat v) (filter (\<lambda>v. unat v < i) ids))"
    using assms(3) by (simp_all add: cursor_at_def Let_def)
  have eq: "word_of_nat i = v \<longleftrightarrow> unat v = i" for v :: u32 using assms(2) by auto
  consider "?k < length ids" "unat (ids ! ?k) = i" | "?k < length ids" "unat (ids ! ?k) \<noteq> i" | "?k = length ids" using length_filter_le nat_less_le by blast
  then show ?thesis
    using c filter_next [OF assms(1), of i] by cases (auto simp: visit_def eq cursor_at_def overrun_def Let_def)
qed

lemma visits_run:
  assumes "sorted_wrt (<) ids" "n \<le> 2 ^ 32"
  shows "cursor_at ids rows n (visits junk ids rows [0 ..< n] cursor0) \<or>
    overrun ids (visits junk ids rows [0 ..< n] cursor0) \<and> unat (junk (length ids)) < n"
  using assms(2)
proof (induction n)
  case 0
  then show ?case by (simp add: visits_def cursor0_def cursor_at_def)
next
  case (Suc n)
  let ?c = "visits junk ids rows [0 ..< n] cursor0"
  have v: "visits junk ids rows [0 ..< Suc n] cursor0 = visit junk ids (word_of_nat n) (rows ! n) ?c" by (simp add: visits_def)
  have n: "n < 2 ^ 32" using Suc.prems by simp
  then consider "cursor_at ids rows n ?c" | "overrun ids ?c" "unat (junk (length ids)) < n" using Suc.IH by auto
  then show ?case
  proof cases
    case 1
    then show ?thesis unfolding v using visit_step [OF assms(1) n, of rows ?c junk] n by auto
  next
    case 2
    then show ?thesis unfolding v by (auto simp: overrun_def visit_def)
  qed
qed

lemma points_run:
  "foldl (\<lambda>st i. retrieve_point si (word_of_nat i) (rows ! i) st) (rs, ns) is =
     (if si_replica si then map (\<lambda>p. visits (si_junk_rp si p) (si_rp si ! p) rows is (rs ! p)) [0 ..< length rs] else rs,
      map (\<lambda>p. visits (si_junk_norp si p) (si_norp si ! p) rows is (ns ! p)) [0 ..< length ns])"
proof (induction "is" arbitrary: rs ns)
  case Nil
  then show ?case by (simp add: visits_def map_nth)
next
  case (Cons i "is")
  have "retrieve_point si (word_of_nat i) (rows ! i) (rs, ns) =
      (fst (retrieve_point si (word_of_nat i) (rows ! i) (rs, ns)), snd (retrieve_point si (word_of_nat i) (rows ! i) (rs, ns)))" by simp
  then show ?case unfolding foldl_Cons by (subst \<open>retrieve_point _ _ _ _ = _\<close>, subst Cons.IH) (auto simp: retrieve_point_def visits_def)
qed

section \<open>The files written\<close>

definition rows_file :: "u32 \<Rightarrow> byte list list \<Rightarrow> u32 list \<Rightarrow> byte list" where
  "rows_file dim rows ids = enc_u32 (word_of_nat (length ids)) @ enc_u32 dim @ concat (map (\<lambda>v. rows ! unat v) ids)"

definition ids_ok :: "nat \<Rightarrow> u32 list \<Rightarrow> bool" where
  "ids_ok n ids \<longleftrightarrow> sorted_wrt (<) ids \<and> (\<forall>v\<in>set ids. unat v < n)"

lemma cursor_end:
  assumes "ids_ok n ids" "n \<le> 2 ^ 32" and c: "c = visits junk ids rows [0 ..< n] cursor0"
  shows "length ids \<noteq> num_written c \<and> unat (junk (length ids)) < n \<or> length ids = num_written c \<and> base_file dim c = rows_file dim rows ids"
proof -
  have "filter (\<lambda>v. unat v < n) ids = ids" using assms(1) by (simp add: ids_ok_def)
  moreover have "cursor_at ids rows n c \<or> overrun ids c \<and> unat (junk (length ids)) < n"
    unfolding c using assms by (intro visits_run) (auto simp: ids_ok_def)
  ultimately show ?thesis by (elim disjE) (simp_all add: cursor_at_def overrun_def base_file_def rows_file_def)
qed

lemma ids_ok_length: "ids_ok n ids \<Longrightarrow> length ids \<le> n"
proof -
  assume "ids_ok n ids"
  then have "labels_ok n ids" by (auto simp: ids_ok_def labels_ok_def strict_sorted_iff)
  then show ?thesis by (rule labels_ok_length)
qed

lemma load_bin_idmap: "length ids < 2 ^ 32 \<Longrightarrow> load_bin (idmap_file ids) = Inr (length ids, ids)"
  using u32.rd_many_enc [of ids "[]"] by (simp add: load_bin_def idmap_file_def codec_simps)

definition vectors_file :: "u32 \<Rightarrow> byte list list \<Rightarrow> byte list" where
  "vectors_file dim rows = enc_u32 (word_of_nat (length rows)) @ enc_u32 dim @ concat rows"

definition retrieved :: "nat \<Rightarrow> u32 \<Rightarrow> byte list list \<Rightarrow> u32 list list \<Rightarrow> u32 list list \<Rightarrow> byte list list \<times> byte list list" where
  "retrieved k_base dim rows rids nids = (if k_base > 1 then map (rows_file dim rows) rids else [], map (rows_file dim rows) nids)"

lemma retrieve_run:
  assumes r: "list_all (\<lambda>r. length r = sizeT * unat dim) rows" "0 < length rows" "length rows < 2 ^ 32"
    and ids: "length rids = P" "length nids = P" "list_all (ids_ok (length rows)) rids" "list_all (ids_ok (length rows)) nids"
  shows "retrieve_shard_data_from_ids junkr junkn sizeT k_base P (unat dim) (map idmap_file rids) (map idmap_file nids) (vectors_file dim rows) =
    (let rs = map (\<lambda>p. visits (junkr p) (rids ! p) rows [0 ..< length rows] cursor0) [0 ..< P];
         ns = map (\<lambda>p. visits (junkn p) (nids ! p) rows [0 ..< length rows] cursor0) [0 ..< P]
     in if list_ex (\<lambda>p. k_base > 1 \<and> length (rids ! p) \<noteq> num_written (rs ! p) \<or> length (nids ! p) \<noteq> num_written (ns ! p)) [0 ..< P] then Inl Abort
        else Inr (if k_base > 1 then map (base_file dim) rs else [], map (base_file dim) ns))"
proof -
  have t: "traverse load_bin (map idmap_file xs) = Inr (map (\<lambda>ids. (length ids, ids)) xs)" if "list_all (ids_ok (length rows)) xs" for xs
    using that
  proof (induction xs)
    case (Cons ids xs)
    have "length ids < 2 ^ 32" using Cons.prems ids_ok_length [of "length rows" ids] r(3) by simp
    then show ?case using Cons by (simp add: load_bin_idmap)
  qed simp
  let ?si = "\<lparr>si_replica = (k_base > 1), si_rp = if k_base > 1 then rids else [], si_norp = nids, si_junk_rp = junkr, si_junk_norp = junkn\<rparr>"
  let ?run = "\<lambda>junk ids. map (\<lambda>p. visits (junk p) (ids ! p) rows [0 ..< length rows] cursor0) [0 ..< P]"
  have "foldl (\<lambda>st i. retrieve_point ?si (word_of_nat i) (rows ! i) st) (replicate P cursor0, replicate P cursor0) [0 ..< length rows] =
      (if k_base > 1 then ?run junkr rids else replicate P cursor0, ?run junkn nids)"
    unfolding points_run by (auto intro: map_cong)
  then obtain s' buf' where f: "for_blocks (retrieve_block (retrieve_point ?si) (sizeT * unat dim)) (length rows)
      (concat rows, replicate (block_size (length rows) * (sizeT * unat dim)) 0, replicate P cursor0, replicate P cursor0) =
      Inr (s', buf', if k_base > 1 then ?run junkr rids else replicate P cursor0, ?run junkn nids)"
    using all_rows [OF r(1,2), of "replicate (block_size (length rows) * (sizeT * unat dim)) 0" "retrieve_point ?si" "(replicate P cursor0, replicate P cursor0)"] by auto
  show ?thesis
  proof (cases "k_base > 1")
    case True
    then show ?thesis using f r ids t [OF ids(3)] t [OF ids(4)]
      by (simp add: retrieve_shard_data_from_ids_def vectors_file_def codec_simps Let_def cursor0_def [symmetric] comp_def list_ex_iff cong: conj_cong)
  next
    case False
    then show ?thesis using f r ids t [OF ids(4)]
      by (simp add: retrieve_shard_data_from_ids_def vectors_file_def codec_simps Let_def cursor0_def [symmetric] comp_def list_ex_iff cong: conj_cong)
  qed
qed

lemma retrieve_outcome:
  assumes r: "list_all (\<lambda>r. length r = sizeT * unat dim) rows" "0 < length rows" "length rows < 2 ^ 32"
    and ids: "length rids = P" "length nids = P" "list_all (ids_ok (length rows)) rids" "list_all (ids_ok (length rows)) nids"
    and run_def: "run = retrieve_shard_data_from_ids junkr junkn sizeT k_base P (unat dim) (map idmap_file rids) (map idmap_file nids) (vectors_file dim rows)"
  shows "run = Inl Abort \<and> (\<exists>p<P. unat (junkr p (length (rids ! p))) < length rows \<or> unat (junkn p (length (nids ! p))) < length rows) \<or>
    run = Inr (retrieved k_base dim rows rids nids)"
proof -
  let ?c = "\<lambda>junk ids p. visits (junk p) (ids ! p) rows [0 ..< length rows] cursor0"
  have e: "length (xs ! p) \<noteq> num_written (?c junk xs p) \<and> unat (junk p (length (xs ! p))) < length rows \<or>
      length (xs ! p) = num_written (?c junk xs p) \<and> base_file dim (?c junk xs p) = rows_file dim rows (xs ! p)"
    if "p < P" "length xs = P" "list_all (ids_ok (length rows)) xs" for junk xs p
    using that r(3) by (intro cursor_end [where n = "length rows"]) (auto simp: list_all_length)
  let ?bad = "\<lambda>p. k_base > 1 \<and> length (rids ! p) \<noteq> num_written (?c junkr rids p) \<or> length (nids ! p) \<noteq> num_written (?c junkn nids p)"
  have run: "run = (if \<exists>p<P. ?bad p then Inl Abort else Inr (if k_base > 1 then map (\<lambda>p. base_file dim (?c junkr rids p)) [0 ..< P] else [], map (\<lambda>p. base_file dim (?c junkn nids p)) [0 ..< P]))"
    unfolding run_def retrieve_run [OF r ids] by (auto simp: Let_def list_ex_iff comp_def)
  show ?thesis
  proof (cases "\<exists>p<P. ?bad p")
    case True
    then show ?thesis using run e [OF _ ids(1,3), of _ junkr] e [OF _ ids(2,4), of _ junkn] by auto
  next
    case False
    have m: "map (rows_file dim rows) xs = map (\<lambda>p. rows_file dim rows (xs ! p)) [0 ..< P]" if "length xs = P" for xs
      using that by (auto intro: nth_equalityI)
    have "map (\<lambda>p. base_file dim (?c junkn nids p)) [0 ..< P] = map (rows_file dim rows) nids"
      unfolding m [OF ids(2)] using False e [OF _ ids(2,4), of _ junkn] by (intro map_cong) auto
    moreover have "k_base > 1 \<Longrightarrow> map (\<lambda>p. base_file dim (?c junkr rids p)) [0 ..< P] = map (rows_file dim rows) rids"
      unfolding m [OF ids(1)] using False e [OF _ ids(1,3), of _ junkr] by (intro map_cong) auto
    ultimately show ?thesis using run False by (auto simp: retrieved_def)
  qed
qed

section \<open>Properties\<close>

text \<open>Property C21.  The vectors of the shards: for every content of the memory after the arrays of identifiers, the pass over the data either ends the program or
  writes exactly the vectors of every shard, in the order of its identifiers; it ends the program only if such a word is the number of a vector.\<close>

theorem retrieve_exact:
  assumes "list_all (\<lambda>r. length r = sizeT * unat dim) rows" "0 < length rows" "length rows < 2 ^ 32"
    and "length rids = P" "length nids = P" "list_all (ids_ok (length rows)) rids" "list_all (ids_ok (length rows)) nids"
  shows "retrieve_shard_data_from_ids junkr junkn sizeT k_base P (unat dim) (map idmap_file rids) (map idmap_file nids) (vectors_file dim rows) =
      Inr (if k_base > 1 then map (rows_file dim rows) rids else [], map (rows_file dim rows) nids) \<or>
    retrieve_shard_data_from_ids junkr junkn sizeT k_base P (unat dim) (map idmap_file rids) (map idmap_file nids) (vectors_file dim rows) = Inl Abort \<and>
      (\<exists>p<P. unat (junkr p (length (rids ! p))) < length rows \<or> unat (junkn p (length (nids ! p))) < length rows)"
  using retrieve_outcome [OF assms refl, of junkr junkn k_base] unfolding retrieved_def by blast

theorem retrieve_exact_witness:
  "retrieve_shard_data_from_ids (\<lambda>p k. 99) (\<lambda>p k. 99) 1 2 2 1 (map idmap_file [[0, 1], [1]]) (map idmap_file [[0], [1]]) (vectors_file 1 [[5], [6]]) =
     Inr ([rows_file 1 [[5], [6]] [0, 1], rows_file 1 [[5], [6]] [1]], [rows_file 1 [[5], [6]] [0], rows_file 1 [[5], [6]] [1]])"
  using retrieve_exact [of 1 1 "[[5], [6]]" "[[0, 1], [1]]" 2 "[[0], [1]]" "\<lambda>p k. 99" "\<lambda>p k. 99" 2] by (simp add: ids_ok_def)

end
