(* ===== verification/Replica_Collect.thy ===== *)
theory Replica_Collect
  imports Scala_Build
begin

text \<open>
  The first two steps of \<^verbatim>\<open>ScalaBuild::merge\<close>.  Every machine has built a Vamana index over its own part and
  the replicas of vectors of other parts.  \<^verbatim>\<open>collect_replica_partition\<close> of \<^verbatim>\<open>disk_utils.cc\<close> sorts the adjacency
  lists of this index by the machine that owns the vertex; \<^verbatim>\<open>send_replica_partition\<close> of \<^verbatim>\<open>scala_build.h\<close> then takes
  the machines in turn, and all others send it their lists for its part in messages of at most
  \<^const>\<open>MAX_QUERYBUFFER_SIZE\<close> bytes.  Buffers are lists of the 32-bit words they hold.
\<close>

section \<open>Sorting the local index by owner\<close>

text \<open>The fields of \<^verbatim>\<open>IndexParameter\<close> that the first step fills, and the file of medoids.\<close>

record dispatch =
  dp_medoid :: u32
  dp_medoids_file :: "byte list"
  dp_id_num :: "nat list"
  dp_ngh_num :: "nat list"
  dp_ids :: "u32 list list"
  dp_nghs :: "u32 list list"

text \<open>An entry of \<^verbatim>\<open>kmeans_id2part_map\<close> is used as an index of arrays of \<^const>\<open>MACHINE_NUM\<close> entries.\<close>

definition part_of :: "u32 list \<Rightarrow> u32 \<Rightarrow> nat option" where
  "part_of id2part v =
     (if unat v < length id2part \<and> unat (id2part ! unat v) < MACHINE_NUM then Some (unat (id2part ! unat v)) else None)"

text \<open>The first pass over the file counts.  A file that ends early is \<^const>\<open>OutOfBounds\<close>.\<close>

primrec count_nodes :: "u32 list \<Rightarrow> u32 list \<Rightarrow> byte list \<Rightarrow> nat list \<Rightarrow> nat list \<Rightarrow> crash + nat list \<times> nat list" where
  "count_nodes id2part [] s id_num ngh_num = Inr (id_num, ngh_num)"
| "count_nodes id2part (v # vs) s id_num ngh_num =
     (case rd_vec rd_u32 s of
        None \<Rightarrow> Inl OutOfBounds
      | Some (nghs, s) \<Rightarrow>
          if nghs = [] then Inl Abort
          else (case part_of id2part v of
              None \<Rightarrow> Inl OutOfBounds
            | Some p \<Rightarrow> count_nodes id2part vs s (id_num[p := id_num ! p + 1])
                (ngh_num[p := ngh_num ! p + unat (word_of_nat (length nghs) + 1 :: u32)])))"

text \<open>The second pass copies; a buffer is what has been written to it, and its capacity is the count of the first pass.\<close>

primrec fill_nodes ::
  "u32 list \<Rightarrow> u32 list \<Rightarrow> nat list \<Rightarrow> nat list \<Rightarrow> u32 list \<Rightarrow> byte list \<Rightarrow> u32 list list \<times> u32 list list \<Rightarrow>
     crash + u32 list list \<times> u32 list list"
where
  "fill_nodes id2part replica_ids id_num ngh_num [] s bufs = Inr bufs"
| "fill_nodes id2part replica_ids id_num ngh_num (v # vs) s bufs =
     (case (part_of id2part v, rd_vec rd_u32 s) of
        (Some p, Some (nghs, s)) \<Rightarrow>
          (case map_links replica_ids nghs of
             Inl e \<Rightarrow> Inl e
           | Inr remap_ngh \<Rightarrow>
               if length (fst bufs ! p) + 1 \<le> id_num ! p \<and> length (snd bufs ! p) + 1 + length nghs \<le> ngh_num ! p
               then fill_nodes id2part replica_ids id_num ngh_num vs s
                 ((fst bufs)[p := fst bufs ! p @ [v]],
                  (snd bufs)[p := snd bufs ! p @ word_of_nat (length nghs) # remap_ngh])
               else Inl OutOfBounds)
      | _ \<Rightarrow> Inl OutOfBounds)"

definition collect_replica_partition ::
  "u32 \<Rightarrow> u32 list \<Rightarrow> u32 list \<Rightarrow> byte list \<Rightarrow> crash + dispatch"
where
  "collect_replica_partition nshards id2part replica_ids file =
     (case do {
        (expected_file_size, s) \<leftarrow> rd_u64 file;
        (input_width, s) \<leftarrow> rd_u32 s;
        (medoid, s) \<leftarrow> rd_u32 s;
        (frozen, s) \<leftarrow> rd_u64 s;
        Some (medoid, frozen, s) } of
        None \<Rightarrow> Inl OutOfBounds
      | Some (medoid, frozen, s) \<Rightarrow>
          if frozen \<noteq> 0 then Inl Abort
          else if \<not> unat medoid < length replica_ids then Inl OutOfBounds
          else let medoid = replica_ids ! unat medoid in
            (case count_nodes id2part replica_ids s (replicate MACHINE_NUM 0) (replicate MACHINE_NUM 0) of
               Inl e \<Rightarrow> Inl e
             | Inr (id_num, ngh_num) \<Rightarrow>
                 (case fill_nodes id2part replica_ids id_num ngh_num replica_ids (drop 24 file)
                         (replicate MACHINE_NUM [], replicate MACHINE_NUM []) of
                    Inl e \<Rightarrow> Inl e
                  | Inr (ids, nghs) \<Rightarrow>
                      Inr \<lparr>dp_medoid = medoid, dp_medoids_file = enc_u32 nshards @ enc_u32 1 @ enc_u32 medoid,
                        dp_id_num = id_num, dp_ngh_num = ngh_num, dp_ids = ids, dp_nghs = nghs\<rparr>)))"

section \<open>Messages\<close>

definition serialize_dispatch_meta :: "u32 \<Rightarrow> dispatch \<Rightarrow> nat \<Rightarrow> byte list" where
  "serialize_dispatch_meta mid d m = [] @ enc_u32 mid @ enc_u64 (word_of_nat (dp_id_num d ! m)) @ enc_u64 (word_of_nat (dp_ngh_num d ! m))"

definition dispatch_max :: nat where
  "dispatch_max = (MAX_QUERYBUFFER_SIZE - 4 - 8) div 4"

text \<open>The body shared by \<^verbatim>\<open>serialize_dispatch_ids\<close> and \<^verbatim>\<open>serialize_dispatch_nghs\<close>: the next piece of a buffer from word \<open>cnt\<close> on,
  and the advanced counter.\<close>

definition dispatch_chunk :: "u32 \<Rightarrow> u32 list \<Rightarrow> nat \<Rightarrow> nat \<Rightarrow> crash + byte list \<times> nat" where
  "dispatch_chunk mid buf num cnt =
     (let max_trans_num = min dispatch_max (num - cnt) in
      if cnt + max_trans_num \<le> length buf
      then Inr (enc_u32 mid @ enc_u64 (word_of_nat max_trans_num) @ concat (map enc_u32 (take max_trans_num (drop cnt buf))), cnt + max_trans_num)
      else Inl OutOfBounds)"

definition serialize_dispatch_ids :: "u32 \<Rightarrow> dispatch \<Rightarrow> nat \<Rightarrow> nat \<Rightarrow> crash + byte list \<times> nat" where
  "serialize_dispatch_ids mid d m id_num = dispatch_chunk mid (dp_ids d ! m) (dp_id_num d ! m) id_num"

definition serialize_dispatch_nghs :: "u32 \<Rightarrow> dispatch \<Rightarrow> nat \<Rightarrow> nat \<Rightarrow> crash + byte list \<times> nat" where
  "serialize_dispatch_nghs mid d m ngh_num = dispatch_chunk mid (dp_nghs d ! m) (dp_ngh_num d ! m) ngh_num"

text \<open>The two sending loops, \<open>while (cnt < num)\<close>; every round sends at least one word or the loop would not end, which
  is \<^const>\<open>Busy\<close>.\<close>

function send_loop :: "(nat \<Rightarrow> crash + byte list \<times> nat) \<Rightarrow> nat \<Rightarrow> nat \<Rightarrow> crash + byte list list" where
  "send_loop chunk num cnt =
     (if cnt < num then
        (case chunk cnt of
           Inl e \<Rightarrow> Inl e
         | Inr (msg, cnt') \<Rightarrow>
             if cnt < cnt' then (case send_loop chunk num cnt' of Inl e \<Rightarrow> Inl e | Inr msgs \<Rightarrow> Inr (msg # msgs))
             else Inl Busy)
      else Inr [])"
  by pat_completeness auto
termination
  by (relation "measure (\<lambda>(_, num, cnt). num - cnt)") auto

declare send_loop.simps [simp del]

text \<open>What machine \<open>mid\<close> sends to machine \<open>m\<close>, one list for each of the three phases.\<close>

definition send_part :: "u32 \<Rightarrow> dispatch \<Rightarrow> nat \<Rightarrow> crash + byte list list \<times> byte list list \<times> byte list list" where
  "send_part mid d m =
     (case send_loop (serialize_dispatch_ids mid d m) (dp_id_num d ! m) 0 of
        Inl e \<Rightarrow> Inl e
      | Inr ids \<Rightarrow>
          (case send_loop (serialize_dispatch_nghs mid d m) (dp_ngh_num d ! m) 0 of
             Inl e \<Rightarrow> Inl e
           | Inr nghs \<Rightarrow> Inr ([serialize_dispatch_meta mid d m], ids, nghs)))"

section \<open>The collecting machine\<close>

record collector =
  co_recv_meta :: "bool list"
  co_id_num :: "nat list"
  co_id_cnt :: "nat list"
  co_ids :: "u32 list list"
  co_ngh_num :: "nat list"
  co_ngh_cnt :: "nat list"
  co_nghs :: "u32 list list"

definition clear_finish :: "collector \<Rightarrow> collector" where
  "clear_finish c = c\<lparr>co_id_cnt := replicate MACHINE_NUM 0, co_ngh_cnt := replicate MACHINE_NUM 0,
     co_recv_meta := replicate MACHINE_NUM False\<rparr>"

definition collect_local_ids_nghs :: "nat \<Rightarrow> dispatch \<Rightarrow> collector \<Rightarrow> collector" where
  "collect_local_ids_nghs m d c = c\<lparr>co_id_num := (co_id_num c)[m := dp_id_num d ! m], co_ngh_num := (co_ngh_num c)[m := dp_ngh_num d ! m],
     co_ids := (co_ids c)[m := dp_ids d ! m], co_nghs := (co_nghs c)[m := dp_nghs d ! m]\<rparr>"

text \<open>\<open>junk\<close> is what \<^verbatim>\<open>malloc\<close> leaves in the two buffers.\<close>

definition proc_dispatch_meta :: "(nat \<Rightarrow> u32) \<Rightarrow> byte list \<Rightarrow> collector \<Rightarrow> crash + collector" where
  "proc_dispatch_meta junk msg c =
     (case do { (mid, s) \<leftarrow> rd_u32 msg; (id_num, s) \<leftarrow> rd_u64 s; (ngh_num, s) \<leftarrow> rd_u64 s; Some (unat mid, unat id_num, unat ngh_num) } of
        None \<Rightarrow> Inl OutOfBounds
      | Some (mid, id_num, ngh_num) \<Rightarrow>
          if mid < MACHINE_NUM then
            Inr (c\<lparr>co_recv_meta := (co_recv_meta c)[mid := True],
              co_id_num := (co_id_num c)[mid := id_num], co_id_cnt := (co_id_cnt c)[mid := 0],
              co_ids := (co_ids c)[mid := map junk [0 ..< id_num]],
              co_ngh_num := (co_ngh_num c)[mid := ngh_num], co_ngh_cnt := (co_ngh_cnt c)[mid := 0],
              co_nghs := (co_nghs c)[mid := map junk [0 ..< ngh_num]]\<rparr>)
          else Inl OutOfBounds)"

text \<open>The body shared by \<^verbatim>\<open>proc_dispatch_id\<close> and \<^verbatim>\<open>proc_dispatch_ngh\<close>: the words of the message are copied to the buffer of the
  sender at its counter.\<close>

definition put_chunk :: "byte list \<Rightarrow> nat list \<times> u32 list list \<Rightarrow> crash + nat list \<times> u32 list list" where
  "put_chunk msg st =
     (case do { (mid, s) \<leftarrow> rd_u32 msg; (trans_num, s) \<leftarrow> rd_u64 s; (xs, s) \<leftarrow> rd_many (unat trans_num) rd_u32 s; Some (unat mid, xs) } of
        None \<Rightarrow> Inl OutOfBounds
      | Some (mid, xs) \<Rightarrow>
          if mid < MACHINE_NUM \<and> fst st ! mid + length xs \<le> length (snd st ! mid) then
            Inr ((fst st)[mid := fst st ! mid + length xs],
                 (snd st)[mid := take (fst st ! mid) (snd st ! mid) @ xs @ drop (fst st ! mid + length xs) (snd st ! mid)])
          else Inl OutOfBounds)"

definition proc_dispatch_id :: "byte list \<Rightarrow> collector \<Rightarrow> crash + collector" where
  "proc_dispatch_id msg c =
     (case put_chunk msg (co_id_cnt c, co_ids c) of
        Inl e \<Rightarrow> Inl e
      | Inr (cnt, ids) \<Rightarrow> Inr (c\<lparr>co_id_cnt := cnt, co_ids := ids\<rparr>))"

definition proc_dispatch_ngh :: "byte list \<Rightarrow> collector \<Rightarrow> crash + collector" where
  "proc_dispatch_ngh msg c =
     (case put_chunk msg (co_ngh_cnt c, co_nghs c) of
        Inl e \<Rightarrow> Inl e
      | Inr (cnt, nghs) \<Rightarrow> Inr (c\<lparr>co_ngh_cnt := cnt, co_nghs := nghs\<rparr>))"

primrec run_all :: "('m \<Rightarrow> 's \<Rightarrow> crash + 's) \<Rightarrow> 'm list \<Rightarrow> 's \<Rightarrow> crash + 's" where
  "run_all f [] s = Inr s"
| "run_all f (x # xs) s = (case f x s of Inl e \<Rightarrow> Inl e | Inr s \<Rightarrow> run_all f xs s)"

text \<open>A batch: the messages that the three queues hold when they are polled.\<close>

type_synonym batch = "byte list list \<times> byte list list \<times> byte list list"

definition poll_build :: "(nat \<Rightarrow> u32) \<Rightarrow> batch \<Rightarrow> collector \<Rightarrow> crash + collector" where
  "poll_build junk b c =
     (case run_all (proc_dispatch_meta junk) (fst b) c of
        Inl e \<Rightarrow> Inl e
      | Inr c \<Rightarrow> (case run_all proc_dispatch_id (fst (snd b)) c of
            Inl e \<Rightarrow> Inl e
          | Inr c \<Rightarrow> run_all proc_dispatch_ngh (snd (snd b)) c))"

definition collect_meta_finish :: "nat \<Rightarrow> collector \<Rightarrow> collector \<times> bool" where
  "collect_meta_finish m c =
     (let c = c\<lparr>co_recv_meta := (co_recv_meta c)[m := True]\<rparr>
      in (c, list_all (\<lambda>k. co_recv_meta c ! k) [0 ..< MACHINE_NUM]))"

definition collect_id_finish :: "nat \<Rightarrow> collector \<Rightarrow> collector \<times> bool" where
  "collect_id_finish m c = (c, list_all (\<lambda>k. k = m \<or> \<not> co_id_cnt c ! k < co_id_num c ! k) [0 ..< MACHINE_NUM])"

definition collect_ngh_finish :: "nat \<Rightarrow> collector \<Rightarrow> collector \<times> bool" where
  "collect_ngh_finish m c = (c, list_all (\<lambda>k. k = m \<or> \<not> co_ngh_cnt c ! k < co_ngh_num c ! k) [0 ..< MACHINE_NUM])"

text \<open>A waiting loop on the batches that arrive until the next barrier; it is still \<^const>\<open>Busy\<close> when they are used up.  The
  batches that it leaves are polled by the next loop.\<close>

primrec wait_poll :: "('s \<Rightarrow> 's \<times> bool) \<Rightarrow> ('b \<Rightarrow> 's \<Rightarrow> crash + 's) \<Rightarrow> 'b list \<Rightarrow> 's \<Rightarrow> crash + 's \<times> 'b list" where
  "wait_poll finish poll [] c = (case finish c of (c, fin) \<Rightarrow> if fin then Inr (c, []) else Inl Busy)"
| "wait_poll finish poll (b # bs) c =
     (case finish c of (c, fin) \<Rightarrow>
        if fin then Inr (c, b # bs)
        else (case poll b c of Inl e \<Rightarrow> Inl e | Inr c \<Rightarrow> wait_poll finish poll bs c))"

text \<open>\<^verbatim>\<open>send_replica_partition\<close> on the machine \<open>m\<close> whose turn it is: three waiting loops with a barrier after each.  The senders
  pass the same barriers, so their identifiers are sent after the first and their neighbours after the second.\<close>

definition collect_partition ::
  "(nat \<Rightarrow> u32) \<Rightarrow> nat \<Rightarrow> dispatch \<Rightarrow> batch list \<times> batch list \<times> batch list \<Rightarrow> collector \<Rightarrow> crash + collector"
where
  "collect_partition junk m d arrivals c =
     (case wait_poll (collect_meta_finish m) (poll_build junk) (fst arrivals) (collect_local_ids_nghs m d (clear_finish c)) of
        Inl e \<Rightarrow> Inl e
      | Inr (c, bs) \<Rightarrow> (case wait_poll (collect_id_finish m) (poll_build junk) (bs @ fst (snd arrivals)) c of
            Inl e \<Rightarrow> Inl e
          | Inr (c, bs) \<Rightarrow> (case wait_poll (collect_ngh_finish m) (poll_build junk) (bs @ snd (snd arrivals)) c of
                Inl e \<Rightarrow> Inl e
              | Inr (c, bs) \<Rightarrow> Inr c)))"

section \<open>Waiting loops\<close>

text \<open>The contract of a waiting loop: polling keeps an invariant on the state and the batches to come, and the loop is
  finished when no batch is left.\<close>

locale polling =
  fixes finish :: "'s \<Rightarrow> 's \<times> bool" and poll :: "'b \<Rightarrow> 's \<Rightarrow> crash + 's" and inv :: "'s \<Rightarrow> 'b list \<Rightarrow> bool"
  assumes finish_keeps: "inv c bs \<Longrightarrow> inv (fst (finish c)) bs"
    and finish_idem: "finish (fst (finish c)) = finish c"
    and poll_keeps: "inv c (b # bs) \<Longrightarrow> \<exists>c'. poll b c = Inr c' \<and> inv c' bs"
    and finish_last: "inv c [] \<Longrightarrow> snd (finish c)"
begin

lemma wait_returns:
  "inv c bs \<Longrightarrow> \<exists>c' rest. wait_poll finish poll bs c = Inr (c', rest) \<and> inv c' rest \<and> snd (finish c') \<and> fst (finish c') = c'"
proof (induction bs arbitrary: c)
  case Nil
  obtain c1 f where f: "finish c = (c1, f)" by force
  with finish_keeps [OF Nil] finish_last [OF Nil] finish_idem [of c] show ?case by simp
next
  case (Cons b bs)
  obtain c1 f where f: "finish c = (c1, f)" by force
  show ?case
  proof (cases f)
    case True
    with f finish_keeps [OF Cons.prems] finish_idem [of c] show ?thesis by simp
  next
    case False
    obtain c2 where "poll b c1 = Inr c2" "inv c2 bs" using poll_keeps finish_keeps [OF Cons.prems] f by fastforce
    with Cons.IH [OF this(2)] f False show ?thesis by simp
  qed
qed

end

section \<open>Arrivals\<close>

text \<open>Messages of several senders in any order that keeps the order of each sender: \<open>f k\<close> are those of sender \<open>k\<close>.\<close>

definition sender :: "byte list \<Rightarrow> nat option" where
  "sender msg = map_option (\<lambda>r. unat (fst r)) (rd_u32 msg)"

definition interleave :: "nat set \<Rightarrow> (nat \<Rightarrow> byte list list) \<Rightarrow> byte list list \<Rightarrow> bool" where
  "interleave S f xs \<longleftrightarrow> (\<forall>x\<in>set xs. \<exists>k\<in>S. sender x = Some k) \<and> (\<forall>k\<in>S. filter (\<lambda>x. sender x = Some k) xs = f k)"

lemma interleave_Cons:
  assumes "interleave S f (x # xs)"
  obtains k rest where "k \<in> S" "f k = x # rest" "sender x = Some k" "interleave S (f(k := rest)) xs"
proof -
  from assms obtain k where k: "k \<in> S" "sender x = Some k" by (auto simp: interleave_def)
  with assms have "f k = x # filter (\<lambda>x. sender x = Some k) xs" by (auto simp: interleave_def)
  moreover have "interleave S (f(k := filter (\<lambda>x. sender x = Some k) xs)) xs"
    using assms k by (fastforce simp: interleave_def)
  ultimately show thesis using that k by blast
qed

lemma interleave_cong: "interleave S f xs \<Longrightarrow> (\<And>k. k \<in> S \<Longrightarrow> f k = g k) \<Longrightarrow> interleave S g xs"
  by (simp add: interleave_def)

lemma interleave_Nil: "interleave S f [] \<Longrightarrow> k \<in> S \<Longrightarrow> f k = []"
  by (auto simp: interleave_def)

lemma interleave_empty: "interleave S f xs \<Longrightarrow> (\<And>k. k \<in> S \<Longrightarrow> f k = []) \<Longrightarrow> xs = []"
  by (cases xs) (auto simp: interleave_def)

section \<open>Sending a buffer\<close>

definition chunk_msg :: "u32 \<Rightarrow> u32 list \<Rightarrow> byte list" where
  "chunk_msg mid xs = enc_u32 mid @ enc_u64 (word_of_nat (length xs)) @ concat (map enc_u32 xs)"

function pieces :: "u32 \<Rightarrow> u32 list \<Rightarrow> byte list list" where
  "pieces mid xs = (if xs = [] then [] else chunk_msg mid (take dispatch_max xs) # pieces mid (drop dispatch_max xs))"
  by pat_completeness auto
termination
  by (relation "measure (\<lambda>(_, xs). length xs)") (auto simp: dispatch_max_def config_defs)

declare pieces.simps [simp del]

lemma pieces_Nil [simp]: "pieces mid [] = []"
  by (simp add: pieces.simps)

lemma send_loop_pieces:
  "cnt \<le> length buf \<Longrightarrow> send_loop (dispatch_chunk mid buf (length buf)) (length buf) cnt = Inr (pieces mid (drop cnt buf))"
proof (induction "length buf - cnt" arbitrary: cnt rule: less_induct)
  case less
  show ?case
  proof (cases "cnt < length buf")
    case True
    let ?n = "min dispatch_max (length buf - cnt)"
    have n: "0 < ?n" "cnt + ?n \<le> length buf" using True by (simp_all add: dispatch_max_def config_defs)
    have t: "take ?n (drop cnt buf) = take dispatch_max (drop cnt buf)" "length (take ?n (drop cnt buf)) = ?n"
      using True by (simp_all add: min_def)
    have d: "drop (cnt + ?n) buf = drop dispatch_max (drop cnt buf)"
      using True by (auto simp: min_def add.commute)
    have "send_loop (dispatch_chunk mid buf (length buf)) (length buf) (cnt + ?n) = Inr (pieces mid (drop (cnt + ?n) buf))"
      using n by (intro less.hyps) auto
    moreover have "dispatch_chunk mid buf (length buf) cnt = Inr (chunk_msg mid (take dispatch_max (drop cnt buf)), cnt + ?n)"
      using n(2) t by (simp add: dispatch_chunk_def Let_def chunk_msg_def)
    ultimately have "send_loop (dispatch_chunk mid buf (length buf)) (length buf) cnt =
        Inr (chunk_msg mid (take dispatch_max (drop cnt buf)) # pieces mid (drop dispatch_max (drop cnt buf)))"
      using True n(1) by (subst send_loop.simps) (simp add: d)
    also have "\<dots> = Inr (pieces mid (drop cnt buf))"
      using True by (subst (2) pieces.simps) simp
    finally show ?thesis .
  next
    case False
    then show ?thesis using less.prems by (subst send_loop.simps) simp
  qed
qed

lemma chunk_msg_fits: "length (chunk_msg mid (take dispatch_max xs)) \<le> MAX_QUERYBUFFER_SIZE"
  by (simp add: chunk_msg_def len_simps dispatch_max_def config_defs)

lemma sender_chunk [simp]: "sender (chunk_msg mid xs) = Some (unat mid)"
  by (simp add: sender_def chunk_msg_def codec_simps)

lemma put_chunk_msg:
  assumes "length xs < 2 ^ 64" "k < MACHINE_NUM" "cnts ! k + length xs \<le> length (mems ! k)"
  shows "put_chunk (chunk_msg (word_of_nat k) xs) (cnts, mems) =
    Inr (cnts[k := cnts ! k + length xs],
      mems[k := take (cnts ! k) (mems ! k) @ xs @ drop (cnts ! k + length xs) (mems ! k)])"
proof -
  have "unat (word_of_nat k :: u32) = k" using assms(2) by (simp add: MACHINE_NUM_def)
  with assms u32.rd_many_enc [of xs "[]"] show ?thesis
    by (simp add: put_chunk_def chunk_msg_def u32.rd_enc u64.rd_enc)
qed

section \<open>Receiving buffers\<close>

text \<open>What has arrived: of every sender a prefix of its buffer; what is still to come are the pieces of the rest.\<close>

definition chunk_inv :: "nat set \<Rightarrow> (nat \<Rightarrow> u32 list) \<Rightarrow> nat list \<times> u32 list list \<Rightarrow> byte list list \<Rightarrow> bool" where
  "chunk_inv S bufs st xs \<longleftrightarrow> length (fst st) = MACHINE_NUM \<and> length (snd st) = MACHINE_NUM \<and> S \<subseteq> {..<MACHINE_NUM} \<and>
     (\<forall>k\<in>S. length (bufs k) < 2 ^ 64 \<and> fst st ! k \<le> length (bufs k) \<and> length (snd st ! k) = length (bufs k) \<and>
        take (fst st ! k) (snd st ! k) = take (fst st ! k) (bufs k)) \<and>
     interleave S (\<lambda>k. pieces (word_of_nat k) (drop (fst st ! k) (bufs k))) xs"

definition same_outside :: "nat set \<Rightarrow> nat list \<times> u32 list list \<Rightarrow> nat list \<times> u32 list list \<Rightarrow> bool" where
  "same_outside S st st' \<longleftrightarrow> (\<forall>k. k \<notin> S \<longrightarrow> fst st' ! k = fst st ! k \<and> snd st' ! k = snd st ! k)"

lemma chunk_step:
  assumes "chunk_inv S bufs st (x # xs)"
  shows "\<exists>st'. put_chunk x st = Inr st' \<and> chunk_inv S bufs st' xs \<and> same_outside S st st'"
proof -
  obtain cnts mems where st: "st = (cnts, mems)" by force
  note inv = assms [unfolded chunk_inv_def st fst_conv snd_conv]
  from inv have il0: "interleave S (\<lambda>k. pieces (word_of_nat k) (drop (cnts ! k) (bufs k))) (x # xs)" by simp
  obtain k rest where k: "k \<in> S" "pieces (word_of_nat k) (drop (cnts ! k) (bufs k)) = x # rest" "sender x = Some k"
    and il: "interleave S ((\<lambda>k. pieces (word_of_nat k) (drop (cnts ! k) (bufs k)))(k := rest)) xs"
    by (rule interleave_Cons [OF il0])
  let ?xs = "take dispatch_max (drop (cnts ! k) (bufs k))"
  have kS: "k < MACHINE_NUM" "cnts ! k \<le> length (bufs k)" "length (mems ! k) = length (bufs k)" "length (bufs k) < 2 ^ 64"
    "take (cnts ! k) (mems ! k) = take (cnts ! k) (bufs k)" "length cnts = MACHINE_NUM" "length mems = MACHINE_NUM"
    using inv k(1) by auto
  have x: "x = chunk_msg (word_of_nat k) ?xs" "rest = pieces (word_of_nat k) (drop dispatch_max (drop (cnts ! k) (bufs k)))"
    using k(2) by (subst (asm) pieces.simps, auto split: if_splits)+
  have le: "cnts ! k + length ?xs \<le> length (bufs k)" using kS(2) by simp
  let ?st = "(cnts[k := cnts ! k + length ?xs], mems[k := take (cnts ! k) (mems ! k) @ ?xs @ drop (cnts ! k + length ?xs) (mems ! k)])"
  have run: "put_chunk x st = Inr ?st"
    unfolding x st using le kS by (intro put_chunk_msg) auto
  have d: "drop (cnts ! k + length ?xs) (bufs k) = drop dispatch_max (drop (cnts ! k) (bufs k))"
    by (auto simp: min_def add.commute)
  have t: "take (cnts ! k) (bufs k) @ ?xs = take (cnts ! k + length ?xs) (bufs k)"
    by (auto simp: take_add min_def)
  have "interleave S (\<lambda>k. pieces (word_of_nat k) (drop (fst ?st ! k) (bufs k))) xs"
    using il by (rule interleave_cong) (use kS x(2) d in \<open>auto simp: nth_list_update\<close>)
  moreover have "\<forall>j\<in>S. length (bufs j) < 2 ^ 64 \<and> fst ?st ! j \<le> length (bufs j) \<and> length (snd ?st ! j) = length (bufs j) \<and>
      take (fst ?st ! j) (snd ?st ! j) = take (fst ?st ! j) (bufs j)"
  proof
    fix j assume j: "j \<in> S"
    show "length (bufs j) < 2 ^ 64 \<and> fst ?st ! j \<le> length (bufs j) \<and> length (snd ?st ! j) = length (bufs j) \<and>
      take (fst ?st ! j) (snd ?st ! j) = take (fst ?st ! j) (bufs j)"
    proof (cases "j = k")
      case True
      have "take (cnts ! k) (mems ! k) @ ?xs @ drop (cnts ! k + length ?xs) (mems ! k) =
          take (cnts ! k + length ?xs) (bufs k) @ drop (cnts ! k + length ?xs) (mems ! k)"
        by (simp only: kS(5) append_assoc [symmetric] t)
      then show ?thesis using True kS le by (simp add: take_add)
    next
      case False
      then show ?thesis using inv j by simp
    qed
  qed
  moreover have "same_outside S st ?st" using k(1) by (simp add: same_outside_def st) (metis nth_list_update_neq)
  ultimately show ?thesis using run inv kS by (intro exI [of _ ?st]) (simp add: chunk_inv_def)
qed

lemma chunk_steps:
  "chunk_inv S bufs st (xs @ ys) \<Longrightarrow> \<exists>st'. run_all put_chunk xs st = Inr st' \<and> chunk_inv S bufs st' ys \<and> same_outside S st st'"
proof (induction xs arbitrary: st)
  case (Cons x xs)
  then obtain st1 where "put_chunk x st = Inr st1" "chunk_inv S bufs st1 (xs @ ys)" "same_outside S st st1"
    using chunk_step by fastforce
  with Cons.IH [OF this(2)] show ?case by (auto simp: same_outside_def)
qed (simp add: same_outside_def)

lemma chunk_complete: "chunk_inv S bufs st xs \<Longrightarrow> k \<in> S \<Longrightarrow> \<not> fst st ! k < length (bufs k) \<Longrightarrow> snd st ! k = bufs k"
  by (force simp: chunk_inv_def)

lemma chunk_last: 
  assumes "chunk_inv S bufs st []" "k \<in> S"
  shows "\<not> fst st ! k < length (bufs k)"
proof -
  have "pieces (word_of_nat k) (drop (fst st ! k) (bufs k)) = []"
    using assms interleave_Nil unfolding chunk_inv_def by blast
  then have "drop (fst st ! k) (bufs k) = []" by (metis list.distinct(1) pieces.simps)
  then show ?thesis by simp
qed

lemma chunk_none_left:
  assumes "chunk_inv S bufs st xs" "\<And>k. k \<in> S \<Longrightarrow> \<not> fst st ! k < length (bufs k)"
  shows "xs = []"
proof (rule interleave_empty)
  show "interleave S (\<lambda>k. pieces (word_of_nat k) (drop (fst st ! k) (bufs k))) xs" using assms(1) by (simp add: chunk_inv_def)
  show "pieces (word_of_nat k) (drop (fst st ! k) (bufs k)) = []" if "k \<in> S" for k using assms(2) [OF that] by simp
qed

lemma run_ids: "run_all proc_dispatch_id xs c =
   (case run_all put_chunk xs (co_id_cnt c, co_ids c) of Inl e \<Rightarrow> Inl e | Inr (cnt, ids) \<Rightarrow> Inr (c\<lparr>co_id_cnt := cnt, co_ids := ids\<rparr>))"
  by (induction xs arbitrary: c) (auto simp: proc_dispatch_id_def split: sum.splits prod.splits)

lemma run_nghs: "run_all proc_dispatch_ngh xs c =
   (case run_all put_chunk xs (co_ngh_cnt c, co_nghs c) of Inl e \<Rightarrow> Inl e | Inr (cnt, ids) \<Rightarrow> Inr (c\<lparr>co_ngh_cnt := cnt, co_nghs := ids\<rparr>))"
  by (induction xs arbitrary: c) (auto simp: proc_dispatch_ngh_def split: sum.splits prod.splits)

section \<open>The three phases\<close>

abbreviation others :: "nat \<Rightarrow> nat set" where
  "others m \<equiv> {..<MACHINE_NUM} - {m}"

definition ids_inv :: "nat \<Rightarrow> (nat \<Rightarrow> u32 list) \<Rightarrow> collector \<Rightarrow> collector \<Rightarrow> batch list \<Rightarrow> bool" where
  "ids_inv m bufs c0 c bs \<longleftrightarrow> co_id_num c = co_id_num c0 \<and> co_ngh_num c = co_ngh_num c0 \<and> co_ngh_cnt c = co_ngh_cnt c0 \<and>
     co_nghs c = co_nghs c0 \<and> co_ids c ! m = co_ids c0 ! m \<and> (\<forall>k\<in>others m. co_id_num c0 ! k = length (bufs k)) \<and> (\<forall>b\<in>set bs. fst b = [] \<and> snd (snd b) = []) \<and>
     chunk_inv (others m) bufs (co_id_cnt c, co_ids c) (concat (map (\<lambda>b. fst (snd b)) bs))"

definition nghs_inv :: "nat \<Rightarrow> (nat \<Rightarrow> u32 list) \<Rightarrow> collector \<Rightarrow> collector \<Rightarrow> batch list \<Rightarrow> bool" where
  "nghs_inv m bufs c0 c bs \<longleftrightarrow> co_id_num c = co_id_num c0 \<and> co_ngh_num c = co_ngh_num c0 \<and> co_ids c = co_ids c0 \<and>
     co_nghs c ! m = co_nghs c0 ! m \<and> (\<forall>k\<in>others m. co_ngh_num c0 ! k = length (bufs k)) \<and> (\<forall>b\<in>set bs. fst b = [] \<and> fst (snd b) = []) \<and>
     chunk_inv (others m) bufs (co_ngh_cnt c, co_nghs c) (concat (map (\<lambda>b. snd (snd b)) bs))"

interpretation ids_phase: polling "collect_id_finish m" "poll_build junk" "ids_inv m bufs c0" for m junk bufs c0
proof
  fix c bs show "ids_inv m bufs c0 c bs \<Longrightarrow> ids_inv m bufs c0 (fst (collect_id_finish m c)) bs"
    by (simp add: collect_id_finish_def)
next
  fix c show "collect_id_finish m (fst (collect_id_finish m c)) = collect_id_finish m c" by (simp add: collect_id_finish_def)
next
  fix c b bs assume a: "ids_inv m bufs c0 c (b # bs)"
  then have "chunk_inv (others m) bufs (co_id_cnt c, co_ids c) (fst (snd b) @ concat (map (\<lambda>b. fst (snd b)) bs))"
    by (simp add: ids_inv_def)
  from chunk_steps [OF this] obtain cnt xs where r: "run_all put_chunk (fst (snd b)) (co_id_cnt c, co_ids c) = Inr (cnt, xs)"
    "chunk_inv (others m) bufs (cnt, xs) (concat (map (\<lambda>b. fst (snd b)) bs))" "same_outside (others m) (co_id_cnt c, co_ids c) (cnt, xs)"
    by auto
  have "poll_build junk b c = Inr (c\<lparr>co_id_cnt := cnt, co_ids := xs\<rparr>)"
    using a r(1) by (simp add: poll_build_def ids_inv_def run_ids)
  moreover have "xs ! m = co_ids c ! m" using r(3) by (simp add: same_outside_def)
  ultimately show "\<exists>c'. poll_build junk b c = Inr c' \<and> ids_inv m bufs c0 c' bs"
    using a r(2) by (simp add: ids_inv_def)
next
  fix c assume "ids_inv m bufs c0 c []"
  then have "\<forall>k\<in>others m. \<not> co_id_cnt c ! k < co_id_num c ! k"
    using chunk_last [of "others m" bufs "(co_id_cnt c, co_ids c)"] by (auto simp: ids_inv_def)
  then show "snd (collect_id_finish m c)" by (auto simp: collect_id_finish_def list_all_iff)
qed

interpretation nghs_phase: polling "collect_ngh_finish m" "poll_build junk" "nghs_inv m bufs c0" for m junk bufs c0
proof
  fix c bs show "nghs_inv m bufs c0 c bs \<Longrightarrow> nghs_inv m bufs c0 (fst (collect_ngh_finish m c)) bs"
    by (simp add: collect_ngh_finish_def)
next
  fix c show "collect_ngh_finish m (fst (collect_ngh_finish m c)) = collect_ngh_finish m c" by (simp add: collect_ngh_finish_def)
next
  fix c b bs assume a: "nghs_inv m bufs c0 c (b # bs)"
  then have "chunk_inv (others m) bufs (co_ngh_cnt c, co_nghs c) (snd (snd b) @ concat (map (\<lambda>b. snd (snd b)) bs))"
    by (simp add: nghs_inv_def)
  from chunk_steps [OF this] obtain cnt xs where r: "run_all put_chunk (snd (snd b)) (co_ngh_cnt c, co_nghs c) = Inr (cnt, xs)"
    "chunk_inv (others m) bufs (cnt, xs) (concat (map (\<lambda>b. snd (snd b)) bs))" "same_outside (others m) (co_ngh_cnt c, co_nghs c) (cnt, xs)"
    by auto
  have "poll_build junk b c = Inr (c\<lparr>co_ngh_cnt := cnt, co_nghs := xs\<rparr>)"
    using a r(1) by (simp add: poll_build_def nghs_inv_def run_nghs)
  moreover have "xs ! m = co_nghs c ! m" using r(3) by (simp add: same_outside_def)
  ultimately show "\<exists>c'. poll_build junk b c = Inr c' \<and> nghs_inv m bufs c0 c' bs"
    using a r(2) by (simp add: nghs_inv_def)
next
  fix c assume "nghs_inv m bufs c0 c []"
  then have "\<forall>k\<in>others m. \<not> co_ngh_cnt c ! k < co_ngh_num c ! k"
    using chunk_last [of "others m" bufs "(co_ngh_cnt c, co_nghs c)"] by (auto simp: nghs_inv_def)
  then show "snd (collect_ngh_finish m c)" by (auto simp: collect_ngh_finish_def list_all_iff)
qed

definition dispatch_meta :: "nat \<Rightarrow> nat \<times> nat \<Rightarrow> byte list" where
  "dispatch_meta k nums = enc_u32 (word_of_nat k) @ enc_u64 (word_of_nat (fst nums)) @ enc_u64 (word_of_nat (snd nums))"

definition shaped :: "collector \<Rightarrow> bool" where
  "shaped c \<longleftrightarrow> length (co_recv_meta c) = MACHINE_NUM \<and> length (co_id_num c) = MACHINE_NUM \<and> length (co_id_cnt c) = MACHINE_NUM \<and>
     length (co_ids c) = MACHINE_NUM \<and> length (co_ngh_num c) = MACHINE_NUM \<and> length (co_ngh_cnt c) = MACHINE_NUM \<and> length (co_nghs c) = MACHINE_NUM"

definition prepared :: "nat \<Rightarrow> nat \<times> nat \<Rightarrow> collector \<Rightarrow> bool" where
  "prepared k nums c \<longleftrightarrow> co_id_num c ! k = fst nums \<and> co_id_cnt c ! k = 0 \<and> length (co_ids c ! k) = fst nums \<and>
     co_ngh_num c ! k = snd nums \<and> co_ngh_cnt c ! k = 0 \<and> length (co_nghs c ! k) = snd nums"

definition metas_inv :: "nat \<Rightarrow> (nat \<Rightarrow> nat \<times> nat) \<Rightarrow> collector \<Rightarrow> collector \<Rightarrow> byte list list \<Rightarrow> bool" where
  "metas_inv m nums c0 c xs \<longleftrightarrow> m < MACHINE_NUM \<and> shaped c \<and> co_id_num c ! m = co_id_num c0 ! m \<and> co_ngh_num c ! m = co_ngh_num c0 ! m \<and>
     co_ids c ! m = co_ids c0 ! m \<and> co_nghs c ! m = co_nghs c0 ! m \<and>
     (\<forall>k\<in>others m. fst (nums k) < 2 ^ 64 \<and> snd (nums k) < 2 ^ 64 \<and> (co_recv_meta c ! k \<longrightarrow> prepared k (nums k) c)) \<and>
     interleave (others m) (\<lambda>k. if co_recv_meta c ! k then [] else [dispatch_meta k (nums k)]) xs"

lemma meta_step:
  assumes "metas_inv m nums c0 c (x # xs)"
  shows "\<exists>c'. proc_dispatch_meta junk x c = Inr c' \<and> metas_inv m nums c0 c' xs"
proof -
  note inv = assms [unfolded metas_inv_def]
  from inv have il0: "interleave (others m) (\<lambda>k. if co_recv_meta c ! k then [] else [dispatch_meta k (nums k)]) (x # xs)" by simp
  obtain k rest where k: "k \<in> others m" "(if co_recv_meta c ! k then [] else [dispatch_meta k (nums k)]) = x # rest" "sender x = Some k"
    and il: "interleave (others m) ((\<lambda>k. if co_recv_meta c ! k then [] else [dispatch_meta k (nums k)])(k := rest)) xs"
    by (rule interleave_Cons [OF il0])
  have x: "x = dispatch_meta k (nums k)" "rest = []" using k(2) by (auto split: if_splits)
  have len: "k < MACHINE_NUM" "k \<noteq> m" "unat (word_of_nat k :: u32) = k" "fst (nums k) < 2 ^ 64" "snd (nums k) < 2 ^ 64"
    using k(1) inv by (auto simp: MACHINE_NUM_def)
  let ?c = "c\<lparr>co_recv_meta := (co_recv_meta c)[k := True],
              co_id_num := (co_id_num c)[k := fst (nums k)], co_id_cnt := (co_id_cnt c)[k := 0],
              co_ids := (co_ids c)[k := map junk [0 ..< fst (nums k)]],
              co_ngh_num := (co_ngh_num c)[k := snd (nums k)], co_ngh_cnt := (co_ngh_cnt c)[k := 0],
              co_nghs := (co_nghs c)[k := map junk [0 ..< snd (nums k)]]\<rparr>"
  have run: "proc_dispatch_meta junk x c = Inr ?c"
    using len u64.rd_enc [of "word_of_nat (snd (nums k))" "[]"] by (simp add: x proc_dispatch_meta_def dispatch_meta_def u32.rd_enc u64.rd_enc split_beta)
  have "interleave (others m) (\<lambda>k. if co_recv_meta ?c ! k then [] else [dispatch_meta k (nums k)]) xs"
    using il by (rule interleave_cong) (use inv len x(2) in \<open>auto simp: nth_list_update shaped_def\<close>)
  moreover have "\<forall>j\<in>others m. fst (nums j) < 2 ^ 64 \<and> snd (nums j) < 2 ^ 64 \<and> (co_recv_meta ?c ! j \<longrightarrow> prepared j (nums j) ?c)"
  proof
    fix j assume j: "j \<in> others m"
    show "fst (nums j) < 2 ^ 64 \<and> snd (nums j) < 2 ^ 64 \<and> (co_recv_meta ?c ! j \<longrightarrow> prepared j (nums j) ?c)"
      using inv j len(1) by (cases "j = k") (auto simp: prepared_def shaped_def)
  qed
  ultimately have "metas_inv m nums c0 ?c xs" using inv len(2) by (simp add: metas_inv_def shaped_def)
  with run show ?thesis by blast
qed

lemma meta_steps: "metas_inv m nums c0 c (xs @ ys) \<Longrightarrow> \<exists>c'. run_all (proc_dispatch_meta junk) xs c = Inr c' \<and> metas_inv m nums c0 c' ys"
proof (induction xs arbitrary: c)
  case (Cons x xs)
  then obtain c1 where "proc_dispatch_meta junk x c = Inr c1" "metas_inv m nums c0 c1 (xs @ ys)" using meta_step by fastforce
  with Cons.IH [OF this(2)] show ?case by auto
qed simp

definition meta_inv :: "nat \<Rightarrow> (nat \<Rightarrow> nat \<times> nat) \<Rightarrow> collector \<Rightarrow> collector \<Rightarrow> batch list \<Rightarrow> bool" where
  "meta_inv m nums c0 c bs \<longleftrightarrow> (\<forall>b\<in>set bs. fst (snd b) = [] \<and> snd (snd b) = []) \<and> metas_inv m nums c0 c (concat (map fst bs))"

interpretation meta_phase: polling "collect_meta_finish m" "poll_build junk" "meta_inv m nums c0" for m junk nums c0
proof
  fix c bs assume a: "meta_inv m nums c0 c bs"
  let ?c = "fst (collect_meta_finish m c)"
  have "interleave (others m) (\<lambda>k. if co_recv_meta ?c ! k then [] else [dispatch_meta k (nums k)]) (concat (map fst bs))"
    by (rule interleave_cong [of _ "\<lambda>k. if co_recv_meta c ! k then [] else [dispatch_meta k (nums k)]"])
      (use a in \<open>auto simp: meta_inv_def metas_inv_def collect_meta_finish_def Let_def\<close>)
  moreover have "\<forall>k\<in>others m. co_recv_meta ?c ! k = co_recv_meta c ! k" by (simp add: collect_meta_finish_def Let_def)
  ultimately show "meta_inv m nums c0 ?c bs"
    using a by (simp add: meta_inv_def metas_inv_def collect_meta_finish_def Let_def shaped_def prepared_def)
next
  fix c show "collect_meta_finish m (fst (collect_meta_finish m c)) = collect_meta_finish m c" by (simp add: collect_meta_finish_def Let_def)
next
  fix c b bs assume a: "meta_inv m nums c0 c (b # bs)"
  then obtain c' where "run_all (proc_dispatch_meta junk) (fst b) c = Inr c'" "metas_inv m nums c0 c' (concat (map fst bs))"
    using meta_steps [of m nums c0 c "fst b" "concat (map fst bs)" junk] by (auto simp: meta_inv_def)
  with a show "\<exists>c'. poll_build junk b c = Inr c' \<and> meta_inv m nums c0 c' bs" by (simp add: poll_build_def meta_inv_def)
next
  fix c assume "meta_inv m nums c0 c []"
  then have i: "metas_inv m nums c0 c []" by (simp add: meta_inv_def)
  then have "interleave (others m) (\<lambda>k. if co_recv_meta c ! k then [] else [dispatch_meta k (nums k)]) []"
    by (simp add: metas_inv_def)
  from interleave_Nil [OF this] have "\<forall>k\<in>others m. co_recv_meta c ! k" by (metis list.distinct(1))
  with i show "snd (collect_meta_finish m c)"
    by (auto simp: collect_meta_finish_def Let_def list_all_iff metas_inv_def shaped_def nth_list_update)
qed

section \<open>The whole exchange for one machine\<close>

text \<open>The messages \<open>msgs k\<close> of every other machine \<open>k\<close> arrive between the barriers of their phase, in any interleaving.\<close>

definition arrives :: "nat \<Rightarrow> (nat \<Rightarrow> batch) \<Rightarrow> batch list \<times> batch list \<times> batch list \<Rightarrow> bool" where
  "arrives m msgs arr \<longleftrightarrow>
     (\<forall>b\<in>set (fst arr). fst (snd b) = [] \<and> snd (snd b) = []) \<and> interleave (others m) (\<lambda>k. fst (msgs k)) (concat (map fst (fst arr))) \<and>
     (\<forall>b\<in>set (fst (snd arr)). fst b = [] \<and> snd (snd b) = []) \<and> interleave (others m) (\<lambda>k. fst (snd (msgs k))) (concat (map (\<lambda>b. fst (snd b)) (fst (snd arr)))) \<and>
     (\<forall>b\<in>set (snd (snd arr)). fst b = [] \<and> fst (snd b) = []) \<and> interleave (others m) (\<lambda>k. snd (snd (msgs k))) (concat (map (\<lambda>b. snd (snd b)) (snd (snd arr))))"

definition dispatch_ok :: "dispatch \<Rightarrow> bool" where
  "dispatch_ok d \<longleftrightarrow> (\<forall>m<MACHINE_NUM. dp_id_num d ! m = length (dp_ids d ! m) \<and> dp_ngh_num d ! m = length (dp_nghs d ! m) \<and>
     length (dp_ids d ! m) < 2 ^ 64 \<and> length (dp_nghs d ! m) < 2 ^ 64)"

definition sent_batch :: "dispatch \<Rightarrow> nat \<Rightarrow> nat \<Rightarrow> batch" where
  "sent_batch d m k = ([dispatch_meta k (length (dp_ids d ! m), length (dp_nghs d ! m))],
     pieces (word_of_nat k) (dp_ids d ! m), pieces (word_of_nat k) (dp_nghs d ! m))"

lemma send_part_ok:
  assumes "dispatch_ok d" "m < MACHINE_NUM"
  shows "send_part (word_of_nat k) d m = Inr (sent_batch d m k)"
proof -
  have n: "dp_id_num d ! m = length (dp_ids d ! m)" "dp_ngh_num d ! m = length (dp_nghs d ! m)"
    using assms by (auto simp: dispatch_ok_def)
  have "serialize_dispatch_ids (word_of_nat k) d m = dispatch_chunk (word_of_nat k) (dp_ids d ! m) (length (dp_ids d ! m))"
    "serialize_dispatch_nghs (word_of_nat k) d m = dispatch_chunk (word_of_nat k) (dp_nghs d ! m) (length (dp_nghs d ! m))"
    by (rule ext, simp add: serialize_dispatch_ids_def serialize_dispatch_nghs_def n)+
  then show ?thesis
    by (simp add: send_part_def send_loop_pieces n sent_batch_def serialize_dispatch_meta_def dispatch_meta_def)
qed

lemma concat_map_Nil: "concat (map f bs) = [] \<Longrightarrow> b \<in> set bs \<Longrightarrow> f b = []"
  by auto

lemma metas_done:
  assumes "meta_inv m nums c0 c bs" "snd (collect_meta_finish m c)" "fst (collect_meta_finish m c) = c"
  shows "\<forall>b\<in>set bs. b = ([], [], [])" "\<forall>k\<in>others m. prepared k (nums k) c" "metas_inv m nums c0 c []"
proof -
  have r: "\<forall>k\<in>others m. co_recv_meta c ! k"
  proof
    fix k assume k: "k \<in> others m"
    have "list_all (\<lambda>k. (co_recv_meta c)[m := True] ! k) [0 ..< MACHINE_NUM]" using assms(2) by (simp add: collect_meta_finish_def Let_def)
    then have "(co_recv_meta c)[m := True] ! k" unfolding list_all_iff by (rule bspec) (use k in simp)
    with k show "co_recv_meta c ! k" by simp
  qed
  then show "\<forall>k\<in>others m. prepared k (nums k) c" using assms(1) by (simp add: meta_inv_def metas_inv_def)
  have e: "concat (map fst bs) = []"
  proof (rule interleave_empty)
    show "interleave (others m) (\<lambda>k. if co_recv_meta c ! k then [] else [dispatch_meta k (nums k)]) (concat (map fst bs))"
      using assms(1) by (simp add: meta_inv_def metas_inv_def)
  qed (use r in simp)
  show "metas_inv m nums c0 c []" using assms(1) unfolding meta_inv_def e by simp
  show "\<forall>b\<in>set bs. b = ([], [], [])"
    using assms(1) concat_map_Nil [OF e] by (simp add: meta_inv_def prod_eq_iff)
qed

lemma ids_done:
  assumes "ids_inv m bufs c0 c bs" "snd (collect_id_finish m c)"
  shows "\<forall>b\<in>set bs. b = ([], [], [])" "\<forall>k\<in>others m. co_ids c ! k = bufs k"
proof -
  have ch: "chunk_inv (others m) bufs (co_id_cnt c, co_ids c) (concat (map (\<lambda>b. fst (snd b)) bs))" using assms(1) by (simp add: ids_inv_def)
  have r: "\<not> fst (co_id_cnt c, co_ids c) ! k < length (bufs k)" if "k \<in> others m" for k
    using assms that by (auto simp: collect_id_finish_def list_all_iff ids_inv_def)
  show "\<forall>k\<in>others m. co_ids c ! k = bufs k" using chunk_complete [OF ch _ r] by simp
  show "\<forall>b\<in>set bs. b = ([], [], [])"
    using assms(1) concat_map_Nil [OF chunk_none_left [OF ch r]] by (simp add: ids_inv_def prod_eq_iff)
qed

lemma nghs_done:
  assumes "nghs_inv m bufs c0 c bs" "snd (collect_ngh_finish m c)" "k \<in> others m"
  shows "co_nghs c ! k = bufs k"
proof -
  have ch: "chunk_inv (others m) bufs (co_ngh_cnt c, co_nghs c) (concat (map (\<lambda>b. snd (snd b)) bs))" using assms(1) by (simp add: nghs_inv_def)
  have "\<not> fst (co_ngh_cnt c, co_nghs c) ! k < length (bufs k)"
    using assms by (auto simp: collect_ngh_finish_def list_all_iff nghs_inv_def)
  with chunk_complete [OF ch assms(3)] show ?thesis by simp
qed

lemma concat_map_empty: "\<forall>b\<in>set bs. f b = [] \<Longrightarrow> concat (map f (bs @ cs)) = concat (map f cs)"
  by simp

lemma collect_partition_ok:
  assumes ds: "\<And>k. k < MACHINE_NUM \<Longrightarrow> dispatch_ok (ds k)" and m: "m < MACHINE_NUM" and c: "shaped c"
    and arr: "arrives m (\<lambda>k. sent_batch (ds k) m k) arr"
  shows "\<exists>c'. collect_partition junk m (ds m) arr c = Inr c' \<and>
    (\<forall>k<MACHINE_NUM. co_ids c' ! k = dp_ids (ds k) ! m \<and> co_nghs c' ! k = dp_nghs (ds k) ! m \<and> co_id_num c' ! k = length (dp_ids (ds k) ! m))"
proof -
  let ?I = "\<lambda>k. dp_ids (ds k) ! m" and ?N = "\<lambda>k. dp_nghs (ds k) ! m"
  let ?nums = "\<lambda>k. (length (?I k), length (?N k))" and ?c0 = "collect_local_ids_nghs m (ds m) (clear_finish c)"
  have big: "length (?I k) < 2 ^ 64" "length (?N k) < 2 ^ 64" "k < MACHINE_NUM" if "k \<in> others m" for k
    using ds [of k] m that by (auto simp: dispatch_ok_def)
  note arr = arr [unfolded arrives_def sent_batch_def fst_conv snd_conv]
  have sh0: "shaped ?c0" using c by (simp add: shaped_def collect_local_ids_nghs_def clear_finish_def)
  have loc: "co_id_num ?c0 ! m = length (?I m)" "co_ids ?c0 ! m = ?I m" "co_nghs ?c0 ! m = ?N m"
    using c m ds [OF m] by (simp_all add: shaped_def collect_local_ids_nghs_def clear_finish_def dispatch_ok_def)
  have "interleave (others m) (\<lambda>k. if co_recv_meta ?c0 ! k then [] else [dispatch_meta k (?nums k)]) (concat (map fst (fst arr)))"
    by (rule interleave_cong [of _ "\<lambda>k. [dispatch_meta k (?nums k)]"])
      (use arr in \<open>auto simp: collect_local_ids_nghs_def clear_finish_def\<close>)
  moreover have "\<forall>k\<in>others m. \<not> co_recv_meta ?c0 ! k" by (simp add: collect_local_ids_nghs_def clear_finish_def)
  ultimately have "meta_inv m ?nums ?c0 ?c0 (fst arr)"
    using big arr m sh0 by (simp add: meta_inv_def metas_inv_def)
  from meta_phase.wait_returns [OF this, of junk] obtain c1 bs1 where
    w1: "wait_poll (collect_meta_finish m) (poll_build junk) (fst arr) ?c0 = Inr (c1, bs1)"
      "meta_inv m ?nums ?c0 c1 bs1" "snd (collect_meta_finish m c1)" "fst (collect_meta_finish m c1) = c1" by blast
  note d1 = metas_done [OF w1(2-4)]
  have p1: "co_id_num c1 ! k = length (?I k)" "co_id_cnt c1 ! k = 0" "length (co_ids c1 ! k) = length (?I k)"
    "co_ngh_num c1 ! k = length (?N k)" "co_ngh_cnt c1 ! k = 0" "length (co_nghs c1 ! k) = length (?N k)" if "k \<in> others m" for k
    using d1(2) that by (simp_all add: prepared_def)
  have f1: "shaped c1" "co_id_num c1 ! m = length (?I m)" "co_ids c1 ! m = ?I m" "co_nghs c1 ! m = ?N m"
    using d1(3) loc by (simp_all add: metas_inv_def)
  have e1: "concat (map (\<lambda>b. fst (snd b)) (bs1 @ fst (snd arr))) = concat (map (\<lambda>b. fst (snd b)) (fst (snd arr)))"
    using d1(1) by (intro concat_map_empty) fastforce
  have "chunk_inv (others m) ?I (co_id_cnt c1, co_ids c1) (concat (map (\<lambda>b. fst (snd b)) (bs1 @ fst (snd arr))))"
    unfolding chunk_inv_def e1 
  proof (intro conjI ballI)
    fix k assume k: "k \<in> others m"
    note big [OF k] p1 [OF k]
    then show "length (?I k) < 2 ^ 64" "fst (co_id_cnt c1, co_ids c1) ! k \<le> length (?I k)"
      "length (snd (co_id_cnt c1, co_ids c1) ! k) = length (?I k)"
      "take (fst (co_id_cnt c1, co_ids c1) ! k) (snd (co_id_cnt c1, co_ids c1) ! k) = take (fst (co_id_cnt c1, co_ids c1) ! k) (?I k)"
      by simp_all
  next
    show "interleave (others m) (\<lambda>k. pieces (word_of_nat k) (drop (fst (co_id_cnt c1, co_ids c1) ! k) (?I k)))
        (concat (map (\<lambda>b. fst (snd b)) (fst (snd arr))))"
      by (rule interleave_cong [of _ "\<lambda>k. pieces (word_of_nat k) (?I k)"]) (use arr p1 in simp_all)
  qed (use f1(1) in \<open>auto simp: shaped_def\<close>)
  then have "ids_inv m ?I c1 c1 (bs1 @ fst (snd arr))"
    using d1(1) arr p1 unfolding ids_inv_def by auto
  from ids_phase.wait_returns [OF this, of junk] obtain c2 bs2 where
    w2: "wait_poll (collect_id_finish m) (poll_build junk) (bs1 @ fst (snd arr)) c1 = Inr (c2, bs2)"
      "ids_inv m ?I c1 c2 bs2" "snd (collect_id_finish m c2)" by blast
  note d2 = ids_done [OF w2(2,3)]
  have f2: "co_id_num c2 = co_id_num c1" "co_ngh_num c2 = co_ngh_num c1" "co_ngh_cnt c2 = co_ngh_cnt c1" "co_nghs c2 = co_nghs c1"
    "co_ids c2 ! m = ?I m" using w2(2) f1(3) by (simp_all add: ids_inv_def)
  have e2: "concat (map (\<lambda>b. snd (snd b)) (bs2 @ snd (snd arr))) = concat (map (\<lambda>b. snd (snd b)) (snd (snd arr)))"
    using d2(1) by (intro concat_map_empty) fastforce
  have "chunk_inv (others m) ?N (co_ngh_cnt c2, co_nghs c2) (concat (map (\<lambda>b. snd (snd b)) (bs2 @ snd (snd arr))))"
    unfolding chunk_inv_def e2 f2 
  proof (intro conjI ballI)
    fix k assume k: "k \<in> others m"
    note big [OF k] p1 [OF k]
    then show "length (?N k) < 2 ^ 64" "fst (co_ngh_cnt c1, co_nghs c1) ! k \<le> length (?N k)"
      "length (snd (co_ngh_cnt c1, co_nghs c1) ! k) = length (?N k)"
      "take (fst (co_ngh_cnt c1, co_nghs c1) ! k) (snd (co_ngh_cnt c1, co_nghs c1) ! k) = take (fst (co_ngh_cnt c1, co_nghs c1) ! k) (?N k)"
      by simp_all
  next
    show "interleave (others m) (\<lambda>k. pieces (word_of_nat k) (drop (fst (co_ngh_cnt c1, co_nghs c1) ! k) (?N k)))
        (concat (map (\<lambda>b. snd (snd b)) (snd (snd arr))))"
      by (rule interleave_cong [of _ "\<lambda>k. pieces (word_of_nat k) (?N k)"]) (use arr p1 in simp_all)
  qed (use f1(1) in \<open>auto simp: shaped_def\<close>)
  then have "nghs_inv m ?N c2 c2 (bs2 @ snd (snd arr))"
    using d2(1) arr p1 f2(2) unfolding nghs_inv_def by auto
  from nghs_phase.wait_returns [OF this, of junk] obtain c3 bs3 where
    w3: "wait_poll (collect_ngh_finish m) (poll_build junk) (bs2 @ snd (snd arr)) c2 = Inr (c3, bs3)"
      "nghs_inv m ?N c2 c3 bs3" "snd (collect_ngh_finish m c3)" by blast
  have f3: "co_id_num c3 = co_id_num c2" "co_ids c3 = co_ids c2" "co_nghs c3 ! m = ?N m"
    using w3(2) f2 f1(4) by (simp_all add: nghs_inv_def)
  have "co_ids c3 ! k = ?I k \<and> co_nghs c3 ! k = ?N k \<and> co_id_num c3 ! k = length (?I k)" if "k < MACHINE_NUM" for k
    using that d2(2) nghs_done [OF w3(2,3), of k] p1(1) [of k] f1(2) f2 f3 by (cases "k = m") auto
  with w1(1) w2(1) w3(1) show ?thesis by (simp add: collect_partition_def)
qed

section \<open>The sorted index\<close>

text \<open>Adjacency lists as records of a vertex and its neighbours; the words that stand for them in a buffer.\<close>

type_synonym node = "u32 \<times> u32 list"

definition stream :: "node list \<Rightarrow> u32 list" where
  "stream rs = concat (map (\<lambda>r. word_of_nat (length (snd r)) # snd r) rs)"

definition part_recs :: "u32 list \<Rightarrow> nat \<Rightarrow> node list \<Rightarrow> node list" where
  "part_recs id2part p rs = filter (\<lambda>r. part_of id2part (fst r) = Some p) rs"

definition rename :: "u32 list \<Rightarrow> u32 list \<Rightarrow> u32 list" where
  "rename ids ns = map (\<lambda>j. ids ! unat j) ns"

definition records :: "u32 list \<Rightarrow> u32 list list \<Rightarrow> node list" where
  "records ids adj = zip ids (map (rename ids) adj)"

text \<open>An index over the vectors \<open>ids\<close>: neighbours are numbers of the index, and no list is empty.\<close>

definition shard_ok :: "u32 list \<Rightarrow> u32 list \<Rightarrow> u32 list list \<Rightarrow> bool" where
  "shard_ok id2part ids adj \<longleftrightarrow> length adj = length ids \<and> (\<forall>v\<in>set ids. part_of id2part v \<noteq> None) \<and>
     (\<forall>ns\<in>set adj. ns \<noteq> [] \<and> length ns < 2 ^ 32 - 1 \<and> (\<forall>j\<in>set ns. unat j < length ids))"

lemma stream_simps [simp]: "stream [] = []" "stream (r # rs) = word_of_nat (length (snd r)) # snd r @ stream rs"
  by (simp_all add: stream_def)

lemma part_recs_simps [simp]: "part_recs id2part p [] = []"
  "part_recs id2part p (r # rs) = (if part_of id2part (fst r) = Some p then r # part_recs id2part p rs else part_recs id2part p rs)"
  by (simp_all add: part_recs_def)

lemma part_of_less: "part_of id2part v = Some p \<Longrightarrow> p < MACHINE_NUM"
  by (auto simp: part_of_def split: if_splits)

lemma count_nodes_ok:
  "length adj = length vs \<Longrightarrow> \<forall>v\<in>set vs. part_of id2part v \<noteq> None \<Longrightarrow> \<forall>ns\<in>set adj. ns \<noteq> [] \<and> length ns < 2 ^ 32 - 1 \<Longrightarrow>
   length idn = MACHINE_NUM \<Longrightarrow> length ngn = MACHINE_NUM \<Longrightarrow>
   count_nodes id2part vs (concat (map (enc_vec enc_u32) adj) @ s) idn ngn =
     Inr (map (\<lambda>p. idn ! p + length (part_recs id2part p (zip vs adj))) [0 ..< MACHINE_NUM],
          map (\<lambda>p. ngn ! p + length (stream (part_recs id2part p (zip vs adj)))) [0 ..< MACHINE_NUM])"
proof (induction vs arbitrary: adj idn ngn)
  case Nil
  then show ?case by (auto intro: nth_equalityI)
next
  case (Cons v vs)
  then obtain ns adj' where adj: "adj = ns # adj'" by (cases adj) auto
  obtain q where q: "part_of id2part v = Some q" using Cons.prems(2) by auto
  then have q16: "q < MACHINE_NUM" by (rule part_of_less)
  have ns: "ns \<noteq> []" "length ns + 1 < 2 ^ 32" using Cons.prems(3) adj by auto
  have w: "unat (word_of_nat (length ns) + 1 :: u32) = length ns + 1"
    using unat_size32 [OF ns(2)] by (simp add: add.commute)
  have IH: "count_nodes id2part vs (concat (map (enc_vec enc_u32) adj') @ s) (idn[q := idn ! q + 1]) (ngn[q := ngn ! q + (length ns + 1)]) =
     Inr (map (\<lambda>p. idn[q := idn ! q + 1] ! p + length (part_recs id2part p (zip vs adj'))) [0 ..< MACHINE_NUM],
          map (\<lambda>p. ngn[q := ngn ! q + (length ns + 1)] ! p + length (stream (part_recs id2part p (zip vs adj')))) [0 ..< MACHINE_NUM])"
    using Cons.prems adj by (intro Cons.IH) auto
  have "count_nodes id2part (v # vs) (concat (map (enc_vec enc_u32) adj) @ s) idn ngn =
      count_nodes id2part vs (concat (map (enc_vec enc_u32) adj') @ s) (idn[q := idn ! q + 1]) (ngn[q := ngn ! q + (length ns + 1)])"
    using ns q by (simp add: adj u32.rd_vec_enc w del: add_Suc_right)
  then show ?case unfolding IH using Cons.prems(4,5) q q16 by (auto simp: adj nth_list_update)
qed

lemma fill_nodes_ok:
  "length adj = length vs \<Longrightarrow> \<forall>v\<in>set vs. part_of id2part v \<noteq> None \<Longrightarrow> \<forall>ns\<in>set adj. length ns < 2 ^ 32 \<and> (\<forall>j\<in>set ns. unat j < length ids) \<Longrightarrow>
   length I = MACHINE_NUM \<Longrightarrow> length N = MACHINE_NUM \<Longrightarrow>
   \<forall>p<MACHINE_NUM. length (I ! p) + length (part_recs id2part p (zip vs (map (rename ids) adj))) \<le> idn ! p \<and>
     length (N ! p) + length (stream (part_recs id2part p (zip vs (map (rename ids) adj)))) \<le> ngn ! p \<Longrightarrow>
   fill_nodes id2part ids idn ngn vs (concat (map (enc_vec enc_u32) adj) @ s) (I, N) =
     Inr (map (\<lambda>p. I ! p @ map fst (part_recs id2part p (zip vs (map (rename ids) adj)))) [0 ..< MACHINE_NUM],
          map (\<lambda>p. N ! p @ stream (part_recs id2part p (zip vs (map (rename ids) adj)))) [0 ..< MACHINE_NUM])"
proof (induction vs arbitrary: adj I N)
  case Nil
  then show ?case by (auto intro: nth_equalityI)
next
  case (Cons v vs)
  then obtain ns adj' where adj: "adj = ns # adj'" by (cases adj) auto
  obtain q where q: "part_of id2part v = Some q" using Cons.prems(2) by auto
  then have q16: "q < MACHINE_NUM" by (rule part_of_less)
  have ns: "length ns < 2 ^ 32" "map_links ids ns = Inr (rename ids ns)" "length (rename ids ns) = length ns"
    using Cons.prems(3) adj by (auto simp: map_links_ok rename_def)
  let ?R = "zip vs (map (rename ids) adj')"
  let ?I = "I[q := I ! q @ [v]]" and ?N = "N[q := N ! q @ word_of_nat (length ns) # rename ids ns]"
  have cap: "length (I ! q) + 1 \<le> idn ! q" "length (N ! q) + 1 + length ns \<le> ngn ! q"
    using Cons.prems(6) [rule_format, OF q16] q ns(3) by (simp_all add: adj)
  have cap': "length (?I ! p) + length (part_recs id2part p ?R) \<le> idn ! p \<and> length (?N ! p) + length (stream (part_recs id2part p ?R)) \<le> ngn ! p"
    if "p < MACHINE_NUM" for p
    using Cons.prems(6) [rule_format, OF that] Cons.prems(4,5) q q16 ns(3) by (cases "p = q") (auto simp: adj)
  have IH: "fill_nodes id2part ids idn ngn vs (concat (map (enc_vec enc_u32) adj') @ s) (?I, ?N) =
     Inr (map (\<lambda>p. ?I ! p @ map fst (part_recs id2part p ?R)) [0 ..< MACHINE_NUM],
          map (\<lambda>p. ?N ! p @ stream (part_recs id2part p ?R)) [0 ..< MACHINE_NUM])"
    using Cons.prems adj cap' by (intro Cons.IH) auto
  have "fill_nodes id2part ids idn ngn (v # vs) (concat (map (enc_vec enc_u32) adj) @ s) (I, N) =
      fill_nodes id2part ids idn ngn vs (concat (map (enc_vec enc_u32) adj') @ s) (?I, ?N)"
    using ns q cap by (simp add: adj u32.rd_vec_enc)
  then show ?case unfolding IH using Cons.prems(4,5) q q16 ns(3) by (auto simp: adj nth_list_update)
qed

lemma stream_lengths: "list_all2 (\<lambda>r r'. fst r = fst r' \<and> length (snd r) = length (snd r')) rs rs' \<Longrightarrow>
    length (part_recs id2part p rs) = length (part_recs id2part p rs') \<and> length (stream (part_recs id2part p rs)) = length (stream (part_recs id2part p rs'))"
  by (induction rule: list_all2_induct) auto

lemma collect_ok:
  assumes "shard_ok id2part ids adj" "unat medoid < length ids"
  shows "collect_replica_partition nshards id2part ids (vamana_file sz width medoid 0 adj) =
    Inr \<lparr>dp_medoid = ids ! unat medoid, dp_medoids_file = enc_u32 nshards @ enc_u32 1 @ enc_u32 (ids ! unat medoid),
      dp_id_num = map (\<lambda>p. length (part_recs id2part p (records ids adj))) [0 ..< MACHINE_NUM],
      dp_ngh_num = map (\<lambda>p. length (stream (part_recs id2part p (records ids adj)))) [0 ..< MACHINE_NUM],
      dp_ids = map (\<lambda>p. map fst (part_recs id2part p (records ids adj))) [0 ..< MACHINE_NUM],
      dp_nghs = map (\<lambda>p. stream (part_recs id2part p (records ids adj))) [0 ..< MACHINE_NUM]\<rparr>"
proof -
  have eq: "length (part_recs id2part p (zip ids adj)) = length (part_recs id2part p (records ids adj))"
      "length (stream (part_recs id2part p (zip ids adj))) = length (stream (part_recs id2part p (records ids adj)))" for p
    using stream_lengths [of "zip ids adj" "records ids adj"] assms(1)
    by (simp_all add: shard_ok_def records_def list_all2_conv_all_nth rename_def)
  let ?s = "concat (map (enc_vec enc_u32) adj) @ []"
  have c: "count_nodes id2part ids ?s (replicate MACHINE_NUM 0) (replicate MACHINE_NUM 0) =
     Inr (map (\<lambda>p. length (part_recs id2part p (records ids adj))) [0 ..< MACHINE_NUM],
          map (\<lambda>p. length (stream (part_recs id2part p (records ids adj)))) [0 ..< MACHINE_NUM])"
    using assms(1) eq by (subst count_nodes_ok) (auto simp: shard_ok_def)
  have f: "fill_nodes id2part ids (map (\<lambda>p. length (part_recs id2part p (records ids adj))) [0 ..< MACHINE_NUM])
      (map (\<lambda>p. length (stream (part_recs id2part p (records ids adj)))) [0 ..< MACHINE_NUM]) ids ?s (replicate MACHINE_NUM [], replicate MACHINE_NUM []) =
     Inr (map (\<lambda>p. map fst (part_recs id2part p (records ids adj))) [0 ..< MACHINE_NUM],
          map (\<lambda>p. stream (part_recs id2part p (records ids adj))) [0 ..< MACHINE_NUM])"
    using assms(1) by (subst fill_nodes_ok) (auto simp: shard_ok_def records_def)
  have d: "drop 24 (vamana_file sz width medoid 0 adj) = concat (map (enc_vec enc_u32) adj)"
    by (simp add: vamana_file_def len_simps)
  show ?thesis using c f assms(2)
    unfolding collect_replica_partition_def d by (simp add: vamana_file_def u32.rd_enc u64.rd_enc Let_def)
qed

end
