(* ===== verification/Replica_Merge.thy ===== *)
theory Replica_Merge
  imports Replica_Collect
begin

text \<open>
  The last two steps of \<^verbatim>\<open>ScalaBuild::merge\<close>: \<^verbatim>\<open>merge_replica_partition\<close> of \<^verbatim>\<open>disk_utils.cc\<close> unites the adjacency
  lists of every vertex of the part, from the machines that hold a copy of it, into one Vamana file;
  \<^verbatim>\<open>transfer_to_b1graph_format\<close> of \<^verbatim>\<open>scala_build.h\<close> turns it into the B1 file of the part, with the vertices renamed
  to their positions.  \<^verbatim>\<open>std::shuffle\<close> is the argument \<open>shuf\<close>: the result of its \<open>k\<close>-th call, of which only
  the documented fact that it permutes the list is used.
\<close>

section \<open>Uniting the adjacency lists\<close>

text \<open>\<open>mg_set\<close> is the vector \<^verbatim>\<open>ngh_set\<close>, \<open>mg_ngh\<close> is \<^verbatim>\<open>final_ngh\<close>, \<open>mg_out\<close> the bytes written after the header.\<close>

record merging =
  mg_set :: "bool list"
  mg_ngh :: "u32 list"
  mg_offset :: "u32 list"
  mg_out :: "byte list"
  mg_size :: u64
  mg_shuffles :: nat

definition flush :: "(nat \<Rightarrow> u32 list \<Rightarrow> u32 list) \<Rightarrow> u32 \<Rightarrow> merging \<Rightarrow> crash + merging" where
  "flush shuf max_degree s =
     (let final_ngh = shuf (mg_shuffles s) (mg_ngh s);
          final_deg = min (length final_ngh) (unat max_degree) in
      if 0 < final_deg then
        Inr (s\<lparr>mg_out := mg_out s @ enc_u32 (word_of_nat final_deg) @ concat (map enc_u32 (take final_deg final_ngh)),
          mg_size := mg_size s + word_of_nat (4 + final_deg * 4),
          mg_set := foldl (\<lambda>t n. t[unat n := False]) (mg_set s) final_ngh,
          mg_ngh := [], mg_shuffles := mg_shuffles s + 1\<rparr>)
      else Inl Abort)"

primrec add_nghs :: "u32 list \<Rightarrow> bool list \<times> u32 list \<Rightarrow> crash + bool list \<times> u32 list" where
  "add_nghs [] st = Inr st"
| "add_nghs (n # ns) st =
     (if unat n < length (fst st) then
        add_nghs ns (if fst st ! unat n then st else ((fst st)[unat n := True], snd st @ [n]))
      else Inl OutOfBounds)"

text \<open>Reading the list of the next vertex of machine \<open>pid\<close>; \<^verbatim>\<open>p_offset\<close> has 32 bits.\<close>

definition merge_list :: "u32 list list \<Rightarrow> nat \<Rightarrow> merging \<Rightarrow> crash + merging" where
  "merge_list nghs pid s =
     (let ofs = mg_offset s ! pid; mem = nghs ! pid in
      if \<not> unat ofs < length mem then Inl OutOfBounds
      else let deg = mem ! unat ofs; ofs = ofs + 1 in
        if deg = 0 then Inl Abort
        else if \<not> unat (ofs + deg) \<le> length mem then Inl OutOfBounds
        else (case add_nghs (map (\<lambda>d. mem ! d) [unat ofs ..< unat (ofs + deg)]) (mg_set s, mg_ngh s) of
            Inl e \<Rightarrow> Inl e
          | Inr (t, ns) \<Rightarrow> Inr (s\<lparr>mg_set := t, mg_ngh := ns, mg_offset := (mg_offset s)[pid := ofs + deg]\<rparr>)))"

primrec merge_nodes ::
  "(nat \<Rightarrow> u32 list \<Rightarrow> u32 list) \<Rightarrow> u32 \<Rightarrow> u32 list list \<Rightarrow> (u32 \<times> nat) list \<Rightarrow> u32 \<Rightarrow> merging \<Rightarrow> crash + merging"
where
  "merge_nodes shuf max_degree nghs [] cur_id s = Inr s"
| "merge_nodes shuf max_degree nghs (id_shard # rest) cur_id s =
     (case (if cur_id < fst id_shard then flush shuf max_degree s else Inr s) of
        Inl e \<Rightarrow> Inl e
      | Inr s \<Rightarrow> (case merge_list nghs (snd id_shard) s of
            Inl e \<Rightarrow> Inl e
          | Inr s \<Rightarrow> merge_nodes shuf max_degree nghs rest (if cur_id < fst id_shard then fst id_shard else cur_id) s))"

text \<open>The order of the comparison function: by vertex, then by machine.\<close>

definition shard_key :: "u32 \<times> nat \<Rightarrow> nat" where
  "shard_key x = unat (fst x) * MACHINE_NUM + snd x"

definition node_shard :: "nat list \<Rightarrow> u32 list list \<Rightarrow> (u32 \<times> nat) list" where
  "node_shard id_num ids = sort_key shard_key
     (concat (map (\<lambda>m. map (\<lambda>idx. (ids ! m ! idx, m)) [0 ..< id_num ! m]) [0 ..< MACHINE_NUM]))"

definition merge_replica_partition ::
  "(nat \<Rightarrow> u32 list \<Rightarrow> u32 list) \<Rightarrow> u32 \<Rightarrow> u32 \<Rightarrow> nat \<Rightarrow> nat list \<Rightarrow> u32 list list \<Rightarrow> u32 list list \<Rightarrow> crash + byte list"
where
  "merge_replica_partition shuf max_degree medoid max_vid id_num ids nghs =
     (case node_shard id_num ids of
        [] \<Rightarrow> Inl OutOfBounds
      | x # xs \<Rightarrow>
          (case merge_nodes shuf max_degree nghs (x # xs) (fst x)
                  \<lparr>mg_set = replicate max_vid False, mg_ngh = [], mg_offset = replicate MACHINE_NUM 0, mg_out = [],
                    mg_size = 8 + 4 + 4 + 8, mg_shuffles = 0\<rparr> of
             Inl e \<Rightarrow> Inl e
           | Inr s \<Rightarrow> (case flush shuf max_degree s of
                 Inl e \<Rightarrow> Inl e
               | Inr s \<Rightarrow> Inr (enc_u64 (mg_size s) @ enc_u32 max_degree @ enc_u32 medoid @ enc_u64 0 @ mg_out s))))"

section \<open>The B1 file of the part\<close>

text \<open>The loop over the merged index from byte \<open>pos\<close> on; \<open>d\<close> is the rest of the vectors.  The index file is in memory.\<close>

function b1_part_nodes ::
  "nat \<Rightarrow> nat \<Rightarrow> u32 list \<Rightarrow> u32 list \<Rightarrow> nat \<Rightarrow> nat \<Rightarrow> byte list \<Rightarrow> nat \<Rightarrow> nat \<Rightarrow> byte list \<Rightarrow> byte list \<Rightarrow> crash + byte list"
where
  "b1_part_nodes md len lp pl partition_ofs index_size f pos ele_num d mem =
     (if pos < index_size then
        (case rd_vec rd_u32 (drop pos f) of
           None \<Rightarrow> Inl OutOfBounds
         | Some (ids, _) \<Rightarrow>
             (case map_links lp ids of
                Inl e \<Rightarrow> Inl e
              | Inr remap_ngh \<Rightarrow>
                  if \<not> partition_ofs + ele_num < length pl then Inl OutOfBounds
                  else (case put_element (b1_ele_size md len) md len ele_num ele_num remap_ngh (unat (pl ! (partition_ofs + ele_num))) d mem of
                      Inl e \<Rightarrow> Inl e
                    | Inr (d, mem) \<Rightarrow>
                        b1_part_nodes md len lp pl partition_ofs index_size f (pos + 4 * (length ids + 1)) (ele_num + 1) d mem)))
      else Inr mem)"
  by pat_completeness auto
termination
  by (relation "measure (\<lambda>(md, len, lp, pl, partition_ofs, index_size, f, pos, _). index_size - pos)") auto

declare b1_part_nodes.simps [simp del]

definition transfer_to_b1graph_format ::
  "(nat \<Rightarrow> byte) \<Rightarrow> nat \<Rightarrow> u32 \<Rightarrow> nat \<Rightarrow> u32 list \<Rightarrow> u32 \<Rightarrow> u32 list \<Rightarrow> u32 list \<Rightarrow> byte list \<Rightarrow> byte list \<Rightarrow> crash + byte list"
where
  "transfer_to_b1graph_format junk machine_id max_degree len partition_size param_medoid lp pl final_index base =
     (if final_index = [] then Inl Abort
      else (case do {
          (index_size, s) \<leftarrow> rd_u64 final_index;
          (read_degree, s) \<leftarrow> rd_u32 s;
          (medoid, s) \<leftarrow> rd_u32 s;
          (index_frozen, s) \<leftarrow> rd_u64 s;
          Some (index_size, read_degree) } of
          None \<Rightarrow> Inl OutOfBounds
        | Some (index_size, read_degree) \<Rightarrow>
            if read_degree \<noteq> max_degree then Inl Abort
            else let vec_num = unat (partition_size ! machine_id);
                     md = unat max_degree;
                     partition_ofs = (\<Sum>m \<leftarrow> [0 ..< machine_id]. unat (partition_size ! m)) in
              (case b1_part_nodes md len lp pl partition_ofs (unat index_size) final_index 24 0 (drop 8 base)
                      (fresh junk 0 (b1_ele_size md len * vec_num)) of
                 Inl e \<Rightarrow> Inl e
               | Inr mem \<Rightarrow> Inr (write_chunks (2 ^ 26) 0 (enc_u64 (word_of_nat vec_num) @ enc_u32 param_medoid @ mem)))))"

section \<open>Sets of neighbours\<close>

definition marks :: "nat \<Rightarrow> bool list \<Rightarrow> u32 list \<Rightarrow> bool" where
  "marks V t f \<longleftrightarrow> length t = V \<and> distinct f \<and> (\<forall>n\<in>set f. unat n < V) \<and> (\<forall>n :: u32. unat n < V \<longrightarrow> (t ! unat n \<longleftrightarrow> n \<in> set f))"

text \<open>The reference: a list extended by the elements it does not have yet.\<close>

primrec unite :: "u32 list \<Rightarrow> u32 list \<Rightarrow> u32 list" where
  "unite f [] = f"
| "unite f (n # ns) = unite (if n \<in> set f then f else f @ [n]) ns"

lemma set_unite [simp]: "set (unite f ns) = set f \<union> set ns"
  by (induction ns arbitrary: f) auto

lemma distinct_unite: "distinct f \<Longrightarrow> distinct (unite f ns)"
  by (induction ns arbitrary: f) auto

lemma unite_append: "unite f (xs @ ys) = unite (unite f xs) ys"
  by (induction xs arbitrary: f) auto

lemma marks_insert: "marks V t f \<Longrightarrow> unat n < V \<Longrightarrow> n \<notin> set f \<Longrightarrow> marks V (t[unat n := True]) (f @ [n])"
  by (auto simp: marks_def nth_list_update dest: unsigned_word_eqI [OF sym])

lemma add_nghs_ok:
  "marks V t f \<Longrightarrow> \<forall>n\<in>set ns. unat n < V \<Longrightarrow> \<exists>t'. add_nghs ns (t, f) = Inr (t', unite f ns) \<and> marks V t' (unite f ns)"
proof (induction ns arbitrary: t f)
  case (Cons n ns)
  then have n: "unat n < length t" "t ! unat n \<longleftrightarrow> n \<in> set f" by (auto simp: marks_def)
  show ?case
  proof (cases "n \<in> set f")
    case True
    with Cons n show ?thesis by simp
  next
    case False
    with Cons.prems have "marks V (t[unat n := True]) (f @ [n])" by (simp add: marks_insert)
    from Cons.IH [OF this] Cons.prems(2) n False show ?thesis by simp
  qed
qed simp

lemma clear_marks: "length (foldl (\<lambda>t n. t[unat n := False]) t ns) = length t \<and>
    (i < length t \<longrightarrow> (foldl (\<lambda>t n. t[unat n := False]) t ns ! i \<longleftrightarrow> t ! i \<and> i \<notin> unat ` set (ns :: u32 list)))"
proof (induction ns arbitrary: t)
  case (Cons n ns)
  then show ?case using Cons [of "t[unat n := False]"] by (cases "i = unat n") auto
qed simp

lemma marks_clear:
  assumes "marks V t f" "set g = set f"
  shows "marks V (foldl (\<lambda>t n. t[unat n := False]) t g) []"
proof -
  have "\<not> foldl (\<lambda>t n. t[unat n := False]) t g ! unat n" if "unat n < V" for n :: u32
    using clear_marks [where i = "unat n" and t = t and ns = g] assms that by (auto simp: marks_def)
  then show ?thesis using assms(1) clear_marks [of t g] by (auto simp: marks_def)
qed

section \<open>One vertex\<close>

definition shuffles :: "(nat \<Rightarrow> u32 list \<Rightarrow> u32 list) \<Rightarrow> bool" where
  "shuffles shuf \<longleftrightarrow> (\<forall>k xs. mset (shuf k xs) = mset xs)"

lemma shuffles_D: "shuffles shuf \<Longrightarrow> length (shuf k xs) = length xs" "shuffles shuf \<Longrightarrow> set (shuf k xs) = set xs"
  "shuffles shuf \<Longrightarrow> distinct (shuf k xs) \<longleftrightarrow> distinct xs"
  unfolding shuffles_def by (metis size_mset, metis set_mset_mset, metis mset_eq_imp_distinct_iff)

lemma flush_ok:
  assumes "shuffles shuf" "marks V (mg_set s) (mg_ngh s)" "mg_ngh s \<noteq> []" "md \<noteq> 0"
  shows "\<exists>t. flush shuf md s = Inr (s\<lparr>mg_out := mg_out s @ enc_vec enc_u32 (take (unat md) (shuf (mg_shuffles s) (mg_ngh s))),
      mg_size := mg_size s + word_of_nat (length (enc_vec enc_u32 (take (unat md) (shuf (mg_shuffles s) (mg_ngh s))))),
      mg_set := t, mg_ngh := [], mg_shuffles := mg_shuffles s + 1\<rparr>) \<and> marks V t []"
proof -
  let ?f = "shuf (mg_shuffles s) (mg_ngh s)"
  have n: "0 < length ?f" "0 < unat md" using assms shuffles_D(1) by (auto simp: unat_gt_0)
  have "take (min (length ?f) (unat md)) ?f = take (unat md) ?f" by (simp add: min_def)
  then have "enc_u32 (word_of_nat (min (length ?f) (unat md))) @ concat (map enc_u32 (take (min (length ?f) (unat md)) ?f)) = enc_vec enc_u32 (take (unat md) ?f)"
    by (simp add: enc_vec_def)
  moreover have "length (enc_vec enc_u32 (take (unat md) ?f)) = 4 + min (length ?f) (unat md) * 4" by (simp add: enc_vec_def len_simps)
  moreover have "marks V (foldl (\<lambda>t n. t[unat n := False]) (mg_set s) ?f) []"
    using assms by (intro marks_clear) (auto simp: shuffles_D)
  ultimately show ?thesis using n
    by (intro exI [of _ "foldl (\<lambda>t n. t[unat n := False]) (mg_set s) ?f"]) (simp add: flush_def Let_def)
qed

text \<open>Where the streams of the machines stand: \<open>rem m\<close> are the records of machine \<open>m\<close> that have not been read.\<close>

definition node_ok :: "nat \<Rightarrow> node \<Rightarrow> bool" where
  "node_ok V r \<longleftrightarrow> snd r \<noteq> [] \<and> (\<forall>n\<in>set (snd r). unat n < V)"

definition streams_at :: "nat \<Rightarrow> u32 list list \<Rightarrow> u32 list \<Rightarrow> (nat \<Rightarrow> node list) \<Rightarrow> bool" where
  "streams_at V nghs ofs rem \<longleftrightarrow> length ofs = MACHINE_NUM \<and> (\<forall>m<MACHINE_NUM. length (nghs ! m) < 2 ^ 32 \<and>
     unat (ofs ! m) \<le> length (nghs ! m) \<and> drop (unat (ofs ! m)) (nghs ! m) = stream (rem m) \<and> list_all (node_ok V) (rem m))"

lemma word_offset: "unat (a :: u32) + k < 2 ^ 32 \<Longrightarrow> unat (a + word_of_nat k) = unat a + k"
  by (subst unat_add_lem [THEN iffD1]) (auto simp: unat_of_nat)

lemma nth_block: "drop i xs = a @ b \<Longrightarrow> i \<le> length xs \<Longrightarrow> map (\<lambda>d. xs ! d) [i ..< i + length a] = a"
  by (rule nth_equalityI) (simp_all, metis nth_append nth_drop)

lemma merge_list_ok:
  assumes st: "streams_at V nghs (mg_offset s) rem" and m: "m < MACHINE_NUM" "rem m = (v, ns) # rs" and mk: "marks V (mg_set s) (mg_ngh s)"
  shows "\<exists>t ofs. merge_list nghs m s = Inr (s\<lparr>mg_set := t, mg_ngh := unite (mg_ngh s) ns, mg_offset := ofs\<rparr>) \<and>
    marks V t (unite (mg_ngh s) ns) \<and> streams_at V nghs ofs (rem(m := rs))"
proof -
  let ?o = "mg_offset s ! m" and ?mem = "nghs ! m"
  have d: "drop (unat ?o) ?mem = word_of_nat (length ns) # ns @ stream rs" "length ?mem < 2 ^ 32" "unat ?o \<le> length ?mem" "ns \<noteq> []" "\<forall>n\<in>set ns. unat n < V"
    "list_all (node_ok V) rs" using st m by (auto simp: streams_at_def node_ok_def)
  have "length (drop (unat ?o) ?mem) = Suc (length ns + length (stream rs))" by (simp add: d(1))
  then have len: "length ?mem = unat ?o + Suc (length ns + length (stream rs))" by simp
  have lt: "unat ?o < length ?mem" using len by simp
  have deg: "?mem ! unat ?o = word_of_nat (length ns)" by (rule nth_via_drop [OF d(1)])
  have o1: "unat (?o + 1) = unat ?o + 1" using word_offset [of ?o 1] len d(2) by simp
  have o2: "unat (?o + 1 + word_of_nat (length ns)) = unat ?o + 1 + length ns"
    using word_offset [of "?o + 1" "length ns"] len d(2) o1 by simp
  have nz: "word_of_nat (length ns) \<noteq> (0 :: u32)" using unat_size32 [of "length ns"] len d(2,4) by fastforce
  have d1: "drop (unat ?o + 1) ?mem = ns @ stream rs" 
  proof -
    have "drop 1 (drop (unat ?o) ?mem) = ns @ stream rs" unfolding d(1) by simp
    then show ?thesis by (simp only: drop_drop add.commute)
  qed
  have block: "map (\<lambda>k. ?mem ! k) [unat ?o + 1 ..< unat ?o + 1 + length ns] = ns" using len by (intro nth_block [OF d1]) simp
  obtain t where t: "add_nghs ns (mg_set s, mg_ngh s) = Inr (t, unite (mg_ngh s) ns)" "marks V t (unite (mg_ngh s) ns)"
    using add_nghs_ok [OF mk d(5)] by blast
  let ?ofs = "(mg_offset s)[m := ?o + 1 + word_of_nat (length ns)]"
  have d2: "drop (unat ?o + 1 + length ns) ?mem = stream rs"
  proof -
    have "drop (length ns) (drop (unat ?o + 1) ?mem) = stream rs" unfolding d1 by simp
    then show ?thesis by (simp only: drop_drop add.commute)
  qed
  have "streams_at V nghs ?ofs (rem(m := rs))"
    unfolding streams_at_def
  proof (intro conjI allI impI)
    fix k assume k: "k < MACHINE_NUM"
    show "length (nghs ! k) < 2 ^ 32" "unat (?ofs ! k) \<le> length (nghs ! k)" "drop (unat (?ofs ! k)) (nghs ! k) = stream ((rem(m := rs)) k)"
      "list_all (node_ok V) ((rem(m := rs)) k)"
      using st k m(1) d(2,6) d2 len o2 by (cases "k = m"; simp add: streams_at_def)+
  qed (use st in \<open>simp add: streams_at_def\<close>)
  moreover have "merge_list nghs m s = Inr (s\<lparr>mg_set := t, mg_ngh := unite (mg_ngh s) ns, mg_offset := ?ofs\<rparr>)"
    using lt nz len block t(1) by (simp add: merge_list_def Let_def deg o1 o2)
  ultimately show ?thesis using t(2) by blast
qed

section \<open>All vertices\<close>

text \<open>The neighbours that machine \<open>m\<close> has for vertex \<open>v\<close>, and the machines that have it.\<close>

definition nghs_of :: "(nat \<Rightarrow> node list) \<Rightarrow> u32 \<Rightarrow> nat \<Rightarrow> u32 list" where
  "nghs_of recs v m = the (map_of (recs m) v)"

definition holders :: "(nat \<Rightarrow> node list) \<Rightarrow> u32 \<Rightarrow> nat list" where
  "holders recs v = filter (\<lambda>m. v \<in> fst ` set (recs m)) [0 ..< MACHINE_NUM]"

definition merged_nghs :: "(nat \<Rightarrow> node list) \<Rightarrow> u32 \<Rightarrow> u32 list" where
  "merged_nghs recs v = unite [] (concat (map (nghs_of recs v) (holders recs v)))"

definition entries :: "(nat \<Rightarrow> node list) \<Rightarrow> u32 list \<Rightarrow> (u32 \<times> nat) list" where
  "entries recs vs = concat (map (\<lambda>v. map (Pair v) (holders recs v)) vs)"

text \<open>What is written: every list shuffled and cut.\<close>

primrec written :: "(nat \<Rightarrow> u32 list \<Rightarrow> u32 list) \<Rightarrow> u32 \<Rightarrow> nat \<Rightarrow> u32 list list \<Rightarrow> u32 list list" where
  "written shuf md k [] = []"
| "written shuf md k (l # ls) = take (unat md) (shuf k l) # written shuf md (k + 1) ls"

lemma merge_group:
  "set ms \<subseteq> {..<MACHINE_NUM} \<Longrightarrow> distinct ms \<Longrightarrow> streams_at V nghs (mg_offset s) rem \<Longrightarrow> marks V (mg_set s) (mg_ngh s) \<Longrightarrow>
   \<forall>m\<in>set ms. rem m = (v, N m) # tl (rem m) \<Longrightarrow>
   \<exists>t ofs. merge_nodes shuf md nghs (map (Pair v) ms @ rest) v s =
       merge_nodes shuf md nghs rest v (s\<lparr>mg_set := t, mg_ngh := unite (mg_ngh s) (concat (map N ms)), mg_offset := ofs\<rparr>) \<and>
     marks V t (unite (mg_ngh s) (concat (map N ms))) \<and> streams_at V nghs ofs (\<lambda>m. if m \<in> set ms then tl (rem m) else rem m)"
proof (induction ms arbitrary: s rem)
  case Nil
  then show ?case by (intro exI [of _ "mg_set s"] exI [of _ "mg_offset s"]) simp
next
  case (Cons m ms)
  from Cons.prems have m: "m < MACHINE_NUM" "rem m = (v, N m) # tl (rem m)" by auto
  obtain t ofs where r: "merge_list nghs m s = Inr (s\<lparr>mg_set := t, mg_ngh := unite (mg_ngh s) (N m), mg_offset := ofs\<rparr>)"
    "marks V t (unite (mg_ngh s) (N m))" "streams_at V nghs ofs (rem(m := tl (rem m)))"
    using merge_list_ok [OF Cons.prems(3) m Cons.prems(4)] by blast
  let ?s = "s\<lparr>mg_set := t, mg_ngh := unite (mg_ngh s) (N m), mg_offset := ofs\<rparr>"
  obtain t' ofs' where IH: "merge_nodes shuf md nghs (map (Pair v) ms @ rest) v ?s =
       merge_nodes shuf md nghs rest v (?s\<lparr>mg_set := t', mg_ngh := unite (mg_ngh ?s) (concat (map N ms)), mg_offset := ofs'\<rparr>)"
     "marks V t' (unite (mg_ngh ?s) (concat (map N ms)))" "streams_at V nghs ofs' (\<lambda>k. if k \<in> set ms then tl ((rem(m := tl (rem m))) k) else (rem(m := tl (rem m))) k)"
  proof -
    have "set ms \<subseteq> {..<MACHINE_NUM}" "distinct ms" "streams_at V nghs (mg_offset ?s) (rem(m := tl (rem m)))" "marks V (mg_set ?s) (mg_ngh ?s)"
      using Cons.prems r by auto
    moreover have "\<forall>k\<in>set ms. (rem(m := tl (rem m))) k = (v, N k) # tl ((rem(m := tl (rem m))) k)" using Cons.prems(2,5) by auto
    ultimately show thesis using Cons.IH that by blast
  qed
  have "(\<lambda>k. if k \<in> set ms then tl ((rem(m := tl (rem m))) k) else (rem(m := tl (rem m))) k) = (\<lambda>k. if k \<in> set (m # ms) then tl (rem k) else rem k)"
    using Cons.prems(2) by auto
  with IH r(1) show ?case by (auto simp: unite_append)
qed

lemma filter_first:
  assumes "sorted_wrt (<) (map fst rs)" "\<forall>w\<in>W. (v :: u32) < w"
  shows "filter (\<lambda>r. fst r \<in> insert v W) rs = (if v \<in> fst ` set rs then [(v, the (map_of rs v))] else []) @ filter (\<lambda>r. fst r \<in> W) (rs :: node list)"
  using assms(1)
proof (induction rs)
  case (Cons r rs)
  have "filter (\<lambda>r. fst r = v \<or> fst r \<in> W) rs = filter (\<lambda>r. fst r \<in> W) rs" if "fst r = v"
    using Cons.prems that by (intro filter_cong) auto
  moreover have "v \<notin> fst ` set rs" if "fst r \<in> W" using Cons.prems assms(2) that by fastforce
  moreover have "v \<notin> fst ` set rs" if "fst r = v" using Cons.prems that by fastforce
  moreover have "v \<notin> W" using assms(2) by auto
  ultimately show ?case using Cons by (cases "fst r = v") (auto simp: prod_eq_iff)
qed simp

definition recs_ok :: "nat \<Rightarrow> (nat \<Rightarrow> node list) \<Rightarrow> bool" where
  "recs_ok V recs \<longleftrightarrow> (\<forall>m<MACHINE_NUM. sorted_wrt (<) (map fst (recs m)) \<and> list_all (node_ok V) (recs m) \<and> length (stream (recs m)) < 2 ^ 32)"

lemma holders_props: "set (holders recs v) \<subseteq> {..<MACHINE_NUM}" "distinct (holders recs v)"
  "m \<in> set (holders recs v) \<longleftrightarrow> m < MACHINE_NUM \<and> v \<in> fst ` set (recs m)"
  by (auto simp: holders_def)

lemma streams_cong: "streams_at V nghs ofs rem \<Longrightarrow> (\<And>m. m < MACHINE_NUM \<Longrightarrow> rem' m = rem m) \<Longrightarrow> streams_at V nghs ofs rem'"
  by (simp add: streams_at_def)

lemma merge_vertex:
  assumes ok: "recs_ok V recs" and lt: "\<forall>w\<in>set vs. v < w"
    and st: "streams_at V nghs (mg_offset s) (\<lambda>m. filter (\<lambda>r. fst r \<in> set (v # vs)) (recs m))" "marks V (mg_set s) []" "mg_ngh s = []"
  shows "\<exists>t ofs. merge_nodes shuf md nghs (entries recs (v # vs)) v s =
      merge_nodes shuf md nghs (entries recs vs) v (s\<lparr>mg_set := t, mg_ngh := merged_nghs recs v, mg_offset := ofs\<rparr>) \<and>
    marks V t (merged_nghs recs v) \<and> streams_at V nghs ofs (\<lambda>m. filter (\<lambda>r. fst r \<in> set vs) (recs m))"
proof -
  let ?rem = "\<lambda>m. filter (\<lambda>r. fst r \<in> set (v # vs)) (recs m)"
  have f: "?rem m = (if v \<in> fst ` set (recs m) then [(v, nghs_of recs v m)] else []) @ filter (\<lambda>r. fst r \<in> set vs) (recs m)" if "m < MACHINE_NUM" for m
    using ok that filter_first [OF _ lt] by (simp add: recs_ok_def nghs_of_def)
  have "\<forall>m\<in>set (holders recs v). ?rem m = (v, nghs_of recs v m) # tl (?rem m)"
    using f holders_props(3) by simp
  moreover have "marks V (mg_set s) (mg_ngh s)" using st by simp
  ultimately obtain t ofs where r: "merge_nodes shuf md nghs (map (Pair v) (holders recs v) @ entries recs vs) v s =
       merge_nodes shuf md nghs (entries recs vs) v (s\<lparr>mg_set := t, mg_ngh := unite (mg_ngh s) (concat (map (nghs_of recs v) (holders recs v))), mg_offset := ofs\<rparr>)"
     "marks V t (unite (mg_ngh s) (concat (map (nghs_of recs v) (holders recs v))))"
     "streams_at V nghs ofs (\<lambda>m. if m \<in> set (holders recs v) then tl (?rem m) else ?rem m)"
    using merge_group [OF holders_props(1,2) st(1)] by blast
  have "streams_at V nghs ofs (\<lambda>m. filter (\<lambda>r. fst r \<in> set vs) (recs m))"
    using r(3) by (rule streams_cong) (use f holders_props(3) in simp)
  with r(1,2) show ?thesis by (auto simp: entries_def merged_nghs_def st(3))
qed

lemma merge_rest:
  assumes ok: "recs_ok V recs" and sh: "shuffles shuf" "md \<noteq> 0"
  shows "sorted_wrt (<) (cur # vs) \<Longrightarrow> marks V (mg_set s) (mg_ngh s) \<Longrightarrow> mg_ngh s \<noteq> [] \<Longrightarrow>
    \<forall>v\<in>set vs. merged_nghs recs v \<noteq> [] \<and> holders recs v \<noteq> [] \<Longrightarrow> streams_at V nghs (mg_offset s) (\<lambda>m. filter (\<lambda>r. fst r \<in> set vs) (recs m)) \<Longrightarrow>
    \<exists>s1 s2. merge_nodes shuf md nghs (entries recs vs) cur s = Inr s1 \<and> flush shuf md s1 = Inr s2 \<and>
      mg_out s2 = mg_out s @ concat (map (enc_vec enc_u32) (written shuf md (mg_shuffles s) (mg_ngh s # map (merged_nghs recs) vs))) \<and>
      mg_size s2 = mg_size s + word_of_nat (length (concat (map (enc_vec enc_u32) (written shuf md (mg_shuffles s) (mg_ngh s # map (merged_nghs recs) vs)))))"
proof (induction vs arbitrary: cur s)
  case Nil
  then show ?case using flush_ok [OF sh(1) Nil.prems(2,3) sh(2)] by (auto simp: entries_def)
next
  case (Cons v vs)
  obtain t where fl: "flush shuf md s = Inr (s\<lparr>mg_out := mg_out s @ enc_vec enc_u32 (take (unat md) (shuf (mg_shuffles s) (mg_ngh s))),
      mg_size := mg_size s + word_of_nat (length (enc_vec enc_u32 (take (unat md) (shuf (mg_shuffles s) (mg_ngh s))))),
      mg_set := t, mg_ngh := [], mg_shuffles := mg_shuffles s + 1\<rparr>)" (is "_ = Inr ?s") "marks V t []"
    using flush_ok [OF sh(1) Cons.prems(2,3) sh(2)] by blast
  have cur: "cur < v" "\<forall>w\<in>set vs. v < w" "sorted_wrt (<) (v # vs)" using Cons.prems(1) by auto
  obtain m ms where ms: "holders recs v = m # ms" using Cons.prems(4) by (cases "holders recs v") auto
  have e: "merge_nodes shuf md nghs (entries recs (v # vs)) cur s = merge_nodes shuf md nghs (entries recs (v # vs)) v ?s"
    using fl(1) cur(1) by (simp add: entries_def ms cong: sum.case_cong)
  obtain t' ofs where g: "merge_nodes shuf md nghs (entries recs (v # vs)) v ?s =
      merge_nodes shuf md nghs (entries recs vs) v (?s\<lparr>mg_set := t', mg_ngh := merged_nghs recs v, mg_offset := ofs\<rparr>)"
    "marks V t' (merged_nghs recs v)" "streams_at V nghs ofs (\<lambda>m. filter (\<lambda>r. fst r \<in> set vs) (recs m))"
    using merge_vertex [OF ok cur(2), of nghs ?s shuf md] Cons.prems(5) fl(2) by auto
  let ?s2 = "?s\<lparr>mg_set := t', mg_ngh := merged_nghs recs v, mg_offset := ofs\<rparr>"
  obtain s1 s2 where IH: "merge_nodes shuf md nghs (entries recs vs) v ?s2 = Inr s1" "flush shuf md s1 = Inr s2"
      "mg_out s2 = mg_out ?s2 @ concat (map (enc_vec enc_u32) (written shuf md (mg_shuffles ?s2) (mg_ngh ?s2 # map (merged_nghs recs) vs)))"
      "mg_size s2 = mg_size ?s2 + word_of_nat (length (concat (map (enc_vec enc_u32) (written shuf md (mg_shuffles ?s2) (mg_ngh ?s2 # map (merged_nghs recs) vs)))))"
    using Cons.IH [OF cur(3), of ?s2] g(2,3) Cons.prems(4) by auto
  show ?case using e g(1) IH by (intro exI [of _ s1] exI [of _ s2]) simp
qed

section \<open>The order of the vertices\<close>

lemma shard_key_inj: "inj_on shard_key {x. snd x < MACHINE_NUM}"
proof (rule inj_onI)
  fix x y assume a: "x \<in> {x. snd x < MACHINE_NUM}" "y \<in> {x. snd x < MACHINE_NUM}" "shard_key x = shard_key y"
  have "shard_key z div MACHINE_NUM = unat (fst z)" "shard_key z mod MACHINE_NUM = snd z" if "snd z < MACHINE_NUM" for z
    using that by (simp_all add: shard_key_def MACHINE_NUM_def)
  with a have "unat (fst x) = unat (fst y)" "snd x = snd y" by (metis mem_Collect_eq)+
  then show "x = y" by (simp add: prod_eq_iff unsigned_word_eqI)
qed

lemma set_entries: "set (entries recs vs) = {(v, m). v \<in> set vs \<and> m < MACHINE_NUM \<and> v \<in> fst ` set (recs m)}"
  by (auto simp: entries_def holders_def)

lemma sorted_entries: "sorted_wrt (<) vs \<Longrightarrow> sorted_wrt (<) (map shard_key (entries recs vs))"
proof (induction vs)
  case (Cons v vs)
  have "sorted_wrt (<) (map shard_key (map (Pair v) (holders recs v)))"
    by (simp add: shard_key_def sorted_wrt_map holders_def sorted_wrt_filter flip: sorted_list_of_set_range)
  moreover have "shard_key x < shard_key y" if "x \<in> set (map (Pair v) (holders recs v))" "y \<in> set (entries recs vs)" for x y
  proof -
    have "fst x = v" "snd x < MACHINE_NUM" "v < fst y" using that Cons.prems by (auto simp: set_entries holders_def)
    then have "unat (fst x) + 1 \<le> unat (fst y)" "snd x < MACHINE_NUM" by (simp_all add: word_less_nat_alt)
    then show ?thesis unfolding shard_key_def MACHINE_NUM_def by linarith
  qed
  moreover have "entries recs (v # vs) = map (Pair v) (holders recs v) @ entries recs vs" by (simp add: entries_def)
  moreover have "sorted_wrt (<) (map shard_key (entries recs vs))" using Cons by simp
  ultimately show ?case by (simp only: map_append sorted_wrt_append) auto
qed (simp add: entries_def)

lemma node_shard_entries:
  assumes ok: "\<And>m. m < MACHINE_NUM \<Longrightarrow> distinct (map fst (recs m)) \<and> ids ! m = map fst (recs m) \<and> id_num ! m = length (ids ! m)"
    and vs: "sorted_wrt (<) vs" "set vs = (\<Union>m<MACHINE_NUM. fst ` set (recs m))"
  shows "node_shard id_num ids = entries recs vs"
proof -
  let ?l = "concat (map (\<lambda>m. map (\<lambda>idx. (ids ! m ! idx, m)) [0 ..< id_num ! m]) [0 ..< MACHINE_NUM])"
  have eq: "?l = concat (map (\<lambda>m. map (\<lambda>v. (v, m)) (map fst (recs m))) [0 ..< MACHINE_NUM])"
    by (rule arg_cong [where f = concat], rule map_cong [OF refl], rule nth_equalityI) (use ok in auto)
  have dl: "distinct (concat (map (\<lambda>m. map (\<lambda>v. (v, m)) (map fst (recs m))) [0 ..< k]))" if "k \<le> MACHINE_NUM" for k
    using that
  proof (induction k)
    case (Suc k)
    have "distinct (map (\<lambda>v. (v, k)) (map fst (recs k)))"
      using ok [of k] Suc.prems by (intro distinct_map [THEN iffD2]) (auto simp: inj_on_def)
    with Suc show ?case by (auto simp del: map_map)
  qed simp
  have "distinct (map shard_key (entries recs vs))"
    using sorted_entries [OF vs(1)] by (simp add: strict_sorted_iff)
  then have de: "distinct (entries recs vs)" by (simp add: distinct_map)
  have "set ?l = set (entries recs vs)" unfolding eq set_entries using vs(2) by auto
  moreover have "distinct ?l" unfolding eq by (rule dl) simp
  ultimately have "mset ?l = mset (entries recs vs)" using set_eq_iff_mset_eq_distinct [OF _ de] by blast
  moreover have "inj_on shard_key (set ?l)" using shard_key_inj by (rule inj_on_subset) auto
  moreover have "sorted (map shard_key (entries recs vs))" using sorted_entries [OF vs(1)] by (simp add: strict_sorted_iff)
  ultimately show ?thesis unfolding node_shard_def by (rule sort_key_inj_key_eq)
qed

section \<open>The merged index\<close>

lemma merged_nonempty:
  assumes "recs_ok V recs" "v \<in> (\<Union>m<MACHINE_NUM. fst ` set (recs m))"
  shows "merged_nghs recs v \<noteq> []" "holders recs v \<noteq> []"
proof -
  from assms(2) obtain m where m: "m < MACHINE_NUM" "v \<in> fst ` set (recs m)" by auto
  then have h: "m \<in> set (holders recs v)" by (simp add: holders_props(3))
  then show "holders recs v \<noteq> []" by auto
  obtain ns where "map_of (recs m) v = Some ns" using m(2) by (metis image_iff map_of_eq_None_iff option.exhaust)
  then have "(v, ns) \<in> set (recs m)" "nghs_of recs v m = ns" by (auto simp: nghs_of_def map_of_SomeD)
  then have "nghs_of recs v m \<noteq> []" using assms(1) m(1) by (fastforce simp: recs_ok_def list_all_iff node_ok_def)
  then have "set (merged_nghs recs v) \<noteq> {}" using h by (auto simp: merged_nghs_def)
  then show "merged_nghs recs v \<noteq> []" by auto
qed

lemma merge_ok:
  assumes ok: "recs_ok V recs" and sh: "shuffles shuf" "md \<noteq> 0"
    and coll: "\<And>m. m < MACHINE_NUM \<Longrightarrow> ids ! m = map fst (recs m) \<and> id_num ! m = length (recs m) \<and> nghs ! m = stream (recs m)"
    and vs: "sorted_wrt (<) vs" "set vs = (\<Union>m<MACHINE_NUM. fst ` set (recs m))" "vs \<noteq> []"
  defines "W \<equiv> written shuf md 0 (map (merged_nghs recs) vs)"
  shows "merge_replica_partition shuf md medoid V id_num ids nghs =
    Inr (vamana_file (word_of_nat (24 + length (concat (map (enc_vec enc_u32) W)))) (unat md) medoid 0 W)"
proof -
  obtain v ws where vw: "vs = v # ws" using vs(3) by (cases vs) auto
  have ne: "merged_nghs recs w \<noteq> [] \<and> holders recs w \<noteq> []" if "w \<in> set vs" for w
    using that vs(2) merged_nonempty [OF ok] by auto
  obtain m ms where ms: "holders recs v = m # ms" using ne [of v] vw by (cases "holders recs v") auto
  have ns: "node_shard id_num ids = entries recs vs"
    using ok coll vs(1,2) by (intro node_shard_entries) (auto simp: recs_ok_def strict_sorted_iff)
  let ?s = "\<lparr>mg_set = replicate V False, mg_ngh = [], mg_offset = replicate MACHINE_NUM 0, mg_out = [],
                    mg_size = 8 + 4 + 4 + 8, mg_shuffles = 0\<rparr>"
  have "filter (\<lambda>r. fst r \<in> set (v # ws)) (recs m) = recs m" if "m < MACHINE_NUM" for m
    using that vs(2) vw by (intro filter_True) auto
  then have st: "streams_at V nghs (mg_offset ?s) (\<lambda>m. filter (\<lambda>r. fst r \<in> set (v # ws)) (recs m))"
    using ok coll by (simp add: streams_at_def recs_ok_def)
  have lt: "\<forall>w\<in>set ws. v < w" using vs(1) vw by simp
  have "marks V (mg_set ?s) []" by (simp add: marks_def)
  from merge_vertex [OF ok lt st this, of shuf md] obtain t ofs where g: "merge_nodes shuf md nghs (entries recs vs) v ?s =
      merge_nodes shuf md nghs (entries recs ws) v (?s\<lparr>mg_set := t, mg_ngh := merged_nghs recs v, mg_offset := ofs\<rparr>)"
    "marks V t (merged_nghs recs v)" "streams_at V nghs ofs (\<lambda>m. filter (\<lambda>r. fst r \<in> set ws) (recs m))"
    unfolding vw by auto
  let ?s1 = "?s\<lparr>mg_set := t, mg_ngh := merged_nghs recs v, mg_offset := ofs\<rparr>"
  have "sorted_wrt (<) (v # ws)" using vs(1) vw by simp
  from merge_rest [OF ok sh this, of ?s1 nghs] g ne vw obtain s1 s2 where
    r: "merge_nodes shuf md nghs (entries recs ws) v ?s1 = Inr s1" "flush shuf md s1 = Inr s2"
      "mg_out s2 = concat (map (enc_vec enc_u32) W)" "mg_size s2 = 24 + word_of_nat (length (concat (map (enc_vec enc_u32) W)))"
    by (auto simp: W_def)
  have "entries recs vs = (v, m) # (map (Pair v) ms @ entries recs ws)" by (simp add: entries_def vw ms)
  then show ?thesis using g(1) r
    by (simp add: merge_replica_partition_def ns vamana_file_def)
qed

section \<open>The elements of the B1 file\<close>

definition reads_as :: "nat \<Rightarrow> nat \<Rightarrow> fields \<Rightarrow> u32 list \<times> byte list \<times> u64 \<Rightarrow> bool" where
  "reads_as md len t e \<longleftrightarrow> (\<forall>s. rd_element md len (fst t @ fst (snd t) @ snd (snd t) @ s) = Some (e, s))"

definition b1_element :: "u32 list \<Rightarrow> u32 list \<Rightarrow> nat \<Rightarrow> u32 list list \<Rightarrow> byte list list \<Rightarrow> nat \<Rightarrow> u32 list \<times> byte list \<times> u64" where
  "b1_element lp pl ofs W rows j = (map (\<lambda>v. lp ! unat v) (W ! j), rows ! j, ucast (pl ! (ofs + j)))"

lemma b1_part_ok:
  assumes W: "list_all (\<lambda>ids. length ids \<le> md \<and> (\<forall>v\<in>set ids. unat v < length lp)) W" "length W = n" and md: "md < 2 ^ 32"
    and rows: "list_all (\<lambda>r. length r = len) rows" "length rows = n" and pl: "ofs + n \<le> length pl" and h: "length h = 24"
  defines "f \<equiv> h @ concat (map (enc_vec enc_u32) W)"
  shows "k \<le> n \<Longrightarrow> list_all (shape md len) ts \<Longrightarrow> length ts = n \<Longrightarrow> \<forall>j<k. reads_as md len (ts ! j) (b1_element lp pl ofs W rows j) \<Longrightarrow>
    \<exists>ts'. b1_part_nodes md len lp pl ofs (length f) f (24 + length (concat (map (enc_vec enc_u32) (take k W)))) k (concat (drop k rows)) (flat ts) = Inr (flat ts') \<and>
      length ts' = n \<and> (\<forall>j<n. reads_as md len (ts' ! j) (b1_element lp pl ofs W rows j))"
proof (induction "n - k" arbitrary: k ts)
  case 0
  then have "k = n" by simp
  then have "\<not> 24 + length (concat (map (enc_vec enc_u32) (take k W))) < length f" using W(2) h by (simp add: f_def)
  then show ?case using 0 \<open>k = n\<close> by (subst b1_part_nodes.simps) auto
next
  case (Suc x)
  then have k: "k < n" by simp
  let ?pos = "\<lambda>k. 24 + length (concat (map (enc_vec enc_u32) (take k W)))"
  let ?rest = "concat (map (enc_vec enc_u32) (drop (Suc k) W))"
  have sp: "concat (map (enc_vec enc_u32) W) = concat (map (enc_vec enc_u32) (take k W)) @ enc_vec enc_u32 (W ! k) @ ?rest"
    using k W(2) by (metis append.assoc append_Nil2 concat.simps(2) concat_append id_take_nth_drop list.simps(9) map_append)
  have d: "drop (?pos k) f = enc_vec enc_u32 (W ! k) @ ?rest" by (simp add: f_def sp h)
  have lt: "?pos k < length f" by (simp add: f_def sp h enc_vec_def len_simps)
  have ids: "length (W ! k) \<le> md" "\<forall>v\<in>set (W ! k). unat v < length lp" using W k by (auto simp: list_all_length)
  let ?links = "map (\<lambda>v. lp ! unat v) (W ! k)" and ?lab = "unat (pl ! (ofs + k))"
  have row: "length (rows ! k) = len" "concat (drop k rows) = rows ! k @ concat (drop (Suc k) rows)"
    using rows k by (auto simp: list_all_length simp flip: Cons_nth_drop_Suc)
  let ?ts = "put_vector k (rows ! k) (put_links k ?links ?lab ts)"
  have pe: "put_element (b1_ele_size md len) md len k k ?links ?lab (rows ! k @ concat (drop (Suc k) rows)) (flat ts) = Inr (concat (drop (Suc k) rows), flat ?ts)"
    using k Suc.prems ids(1) row(1) by (intro put_element_flat) auto
  have ts: "list_all (shape md len) ?ts" "length ?ts = n"
  proof -
    have "list_all (shape md len) (put_links k ?links ?lab ts)" using k Suc.prems ids(1) by (intro put_links_shape) auto
    then show "list_all (shape md len) ?ts" by (rule put_vector_shape) (use k Suc.prems row(1) in \<open>simp_all add: put_links_def\<close>)
    show "length ?ts = n" using Suc.prems by (simp add: put_links_def put_vector_def)
  qed
  have el: "reads_as md len (?ts ! j) (b1_element lp pl ofs W rows j)" if j: "j < Suc k" for j
  proof (cases "j = k")
    case True
    have "length (fst (ts ! k)) = 4 * (md + 1)" using Suc.prems k by (simp add: list_all_length shape_def)
    then show ?thesis using True k Suc.prems(3) ids(1) md row(1)
        rd_element_fields [of ?links md "fst (ts ! k)" "rows ! k" len "word_of_nat ?lab"]
      by (simp add: reads_as_def b1_element_def put_vector_def put_links_def)
  next
    case False
    then show ?thesis using j Suc.prems(4) by (simp add: put_vector_def put_links_def)
  qed
  have x: "x = n - Suc k" "Suc k \<le> n" "\<forall>j<Suc k. reads_as md len (?ts ! j) (b1_element lp pl ofs W rows j)"
    using Suc.hyps(2) k el by auto
  obtain ts' where IH: "b1_part_nodes md len lp pl ofs (length f) f (?pos (Suc k)) (Suc k) (concat (drop (Suc k) rows)) (flat ?ts) = Inr (flat ts')"
      "length ts' = n" "\<forall>j<n. reads_as md len (ts' ! j) (b1_element lp pl ofs W rows j)"
    using Suc.hyps(1) [OF x(1,2) ts x(3)] by blast
  have pos: "?pos k + 4 * (length (W ! k) + 1) = ?pos (Suc k)"
    using k W(2) by (simp add: take_Suc_conv_app_nth enc_vec_def len_simps)
  have "rd_vec rd_u32 (drop (?pos k) f) = Some (W ! k, ?rest)" unfolding d using ids(1) md by (intro u32.rd_vec_enc) simp
  then have "b1_part_nodes md len lp pl ofs (length f) f (?pos k) k (concat (drop k rows)) (flat ts) =
      b1_part_nodes md len lp pl ofs (length f) f (?pos k + 4 * (length (W ! k) + 1)) (k + 1) (concat (drop (Suc k) rows)) (flat ?ts)"
    using lt pl k by (subst b1_part_nodes.simps) (simp only: option.case prod.case map_links_ok [OF ids(2)] sum.case row(2) pe if_True, simp)
  with IH show ?case unfolding pos by auto
qed

lemma transfer_to_b1_ok:
  assumes W: "list_all (\<lambda>ids. length ids \<le> unat md \<and> (\<forall>v\<in>set ids. unat v < length lp)) W" "length W = unat (sizes ! m)"
    and size: "24 + length (concat (map (enc_vec enc_u32) W)) < 2 ^ 64"
    and rows: "list_all (\<lambda>r. length r = len) rows" "length rows = length W" and pl: "starts sizes m + length W \<le> length pl"
    and h: "length header = 8" and m: "m \<le> length sizes"
  shows "\<exists>f. transfer_to_b1graph_format junk m md len sizes medoid lp pl
      (vamana_file (word_of_nat (24 + length (concat (map (enc_vec enc_u32) W)))) (unat md) med' 0 W) (header @ concat rows) = Inr f \<and>
    part_b1_file (unat md) len (sizes ! m) medoid (map (b1_element lp pl (starts sizes m) W rows) [0 ..< length W]) f"
proof -
  let ?sz = "24 + length (concat (map (enc_vec enc_u32) W))"
  let ?h = "enc_u64 (word_of_nat ?sz) @ enc_u32 md @ enc_u32 med' @ enc_u64 0" and ?W = "concat (map (enc_vec enc_u32) W)"
  have f: "vamana_file (word_of_nat ?sz) (unat md) med' 0 W = ?h @ ?W" by (simp add: vamana_file_def)
  have hl: "length ?h = 24" by (simp add: len_simps)
  have st: "(\<Sum>k \<leftarrow> [0 ..< m]. unat (sizes ! k)) = starts sizes m"
    unfolding starts_def by (rule arg_cong [where f = sum_list], rule nth_equalityI) (use m in simp_all)
  obtain ts where ts: "list_all (shape (unat md) len) ts" "length ts = length W" "flat ts = fresh junk 0 (b1_ele_size (unat md) len * unat (sizes ! m))"
    using flat_exists [of "fresh junk 0 (b1_ele_size (unat md) len * unat (sizes ! m))" "length W" "unat md" len] W(2) by (auto simp: mult.commute)
  have len: "unat (word_of_nat ?sz :: u64) = length (?h @ ?W)" unfolding length_append [of ?h] hl by (rule unat_size64 [OF size])
  have mdlt: "unat md < 2 ^ 32" using unat_lt [of md] by simp
  obtain ts' where r: "b1_part_nodes (unat md) len lp pl (starts sizes m) (length (?h @ ?W)) (?h @ ?W) 24 0 (concat rows) (flat ts) = Inr (flat ts')"
      "length ts' = length W" "\<forall>j<length W. reads_as (unat md) len (ts' ! j) (b1_element lp pl (starts sizes m) W rows j)"
    using b1_part_ok [OF W(1) refl mdlt rows pl hl, of 0 ts] ts by auto
  let ?f = "enc_u64 (word_of_nat (unat (sizes ! m))) @ enc_u32 medoid @ flat ts'"
  have "transfer_to_b1graph_format junk m md len sizes medoid lp pl (?h @ ?W) (header @ concat rows) = Inr ?f"
    using r(1) h hl ts(3) len st u32.length_enc [of md]
    by (auto simp: transfer_to_b1graph_format_def u64.rd_enc u32.rd_enc Let_def write_chunks_all)
  moreover have "rd_many (length ts') (rd_element (unat md) len) (flat ts' @ []) = Some (map (b1_element lp pl (starts sizes m) W rows) [0 ..< length W], [])"
    using r(2,3) by (intro rd_elements_flat) (simp add: list_all2_conv_all_nth reads_as_def)
  ultimately show ?thesis unfolding f
    by (intro exI [of _ ?f]) (use r(2) W(2) in \<open>simp add: part_b1_file_def\<close>)
qed

end
