(* ===== verification/Merge_Build.thy ===== *)
theory Merge_Build
  imports Replica_Merge
begin

text \<open>
  \<^verbatim>\<open>ScalaBuild::merge\<close> for the V3 graph on all machines, from the local indexes with replicas to the B1 files of the parts, and
  its composition with the distributed V3 build.  The graph that comes out has, for every vertex, the union of the
  neighbours that the machines found for it, cut to the maximal degree.
\<close>

section \<open>The run\<close>

text \<open>What a machine has: \<^verbatim>\<open>local_replica_ids\<close>, \<^verbatim>\<open>local_index_file\<close> and \<^verbatim>\<open>local_noreplica_base_file\<close>.\<close>

record shard =
  sh_ids :: "u32 list"
  sh_file :: "byte list"
  sh_base :: "byte list"

text \<open>\<open>net m msgs\<close> are the arrivals at machine \<open>m\<close> when the others send it \<open>msgs\<close>.\<close>

type_synonym network = "nat \<Rightarrow> (nat \<Rightarrow> batch) \<Rightarrow> batch list \<times> batch list \<times> batch list"

definition merge_part ::
  "network \<Rightarrow> (nat \<Rightarrow> u32 list \<Rightarrow> u32 list) \<Rightarrow> (nat \<Rightarrow> u32) \<Rightarrow> (nat \<Rightarrow> byte) \<Rightarrow> collector \<Rightarrow> u32 \<Rightarrow> nat \<Rightarrow> nat \<Rightarrow> u32 list \<Rightarrow>
     u32 list \<Rightarrow> u32 list \<Rightarrow> dispatch list \<Rightarrow> byte list \<Rightarrow> nat \<Rightarrow> crash + byte list"
where
  "merge_part net shuf junkc junkb c max_degree len max_vid sizes lp pl ds base m =
     (case traverse (\<lambda>k. if k = m then Inr ([], [], []) else send_part (word_of_nat k) (ds ! k) m) [0 ..< MACHINE_NUM] of
        Inl e \<Rightarrow> Inl e
      | Inr msgs \<Rightarrow>
          (case collect_partition junkc m (ds ! m) (net m (\<lambda>k. msgs ! k)) c of
             Inl e \<Rightarrow> Inl e
           | Inr c \<Rightarrow>
               (case merge_replica_partition shuf max_degree (dp_medoid (ds ! m)) max_vid (co_id_num c) (co_ids c) (co_nghs c) of
                  Inl e \<Rightarrow> Inl e
                | Inr final_index \<Rightarrow>
                    transfer_to_b1graph_format junkb m max_degree len sizes (dp_medoid (ds ! m)) lp pl final_index base)))"

definition merge_index ::
  "network \<Rightarrow> (nat \<Rightarrow> nat \<Rightarrow> u32 list \<Rightarrow> u32 list) \<Rightarrow> (nat \<Rightarrow> nat \<Rightarrow> u32) \<Rightarrow> (nat \<Rightarrow> nat \<Rightarrow> byte) \<Rightarrow> (nat \<Rightarrow> collector) \<Rightarrow>
     u32 \<Rightarrow> nat \<Rightarrow> nat \<Rightarrow> u32 list \<Rightarrow> u32 list \<Rightarrow> u32 list \<Rightarrow> u32 list \<Rightarrow> shard list \<Rightarrow> crash + byte list list"
where
  "merge_index net shuf junkc junkb c0 max_degree len max_vid sizes id2part lp pl shards =
     (case traverse (\<lambda>k. collect_replica_partition (word_of_nat MACHINE_NUM) id2part (sh_ids (shards ! k)) (sh_file (shards ! k)))
             [0 ..< MACHINE_NUM] of
        Inl e \<Rightarrow> Inl e
      | Inr ds \<Rightarrow>
          traverse (\<lambda>m. merge_part net (shuf m) (junkc m) (junkb m) (c0 m) max_degree len max_vid sizes lp pl ds (sh_base (shards ! m)) m)
            [0 ..< MACHINE_NUM])"

section \<open>What it relies on\<close>

text \<open>The network delivers what is sent, in the order of each sender, between the barriers.\<close>

definition network_ok :: "network \<Rightarrow> bool" where
  "network_ok net \<longleftrightarrow> (\<forall>m msgs. (\<forall>k\<in>others m. \<forall>x\<in>set (fst (msgs k)) \<union> set (fst (snd (msgs k))) \<union> set (snd (snd (msgs k))). sender x = Some k) \<longrightarrow>
     arrives m msgs (net m msgs))"

text \<open>The parts, in order of their labels, and the local indexes: every machine has at least its own part.\<close>

definition parts_ok :: "nat \<Rightarrow> u32 list list \<Rightarrow> u32 list \<Rightarrow> bool" where
  "parts_ok n parts id2part \<longleftrightarrow> length parts = MACHINE_NUM \<and> is_partition n parts \<and> n \<le> 2 ^ 31 \<and>
     (\<forall>m<MACHINE_NUM. parts ! m \<noteq> [] \<and> sorted_wrt (<) (parts ! m) \<and> (\<forall>v\<in>set (parts ! m). part_of id2part v = Some m))"

record local_index =
  li_size :: u64
  li_width :: nat
  li_header :: "byte list"
  li_ids :: "u32 list"
  li_adj :: "u32 list list"
  li_medoid :: u32
  li_rows :: "byte list list"

definition index_ok :: "nat \<Rightarrow> nat \<Rightarrow> u32 list \<Rightarrow> u32 list \<Rightarrow> local_index \<Rightarrow> bool" where
  "index_ok n len part id2part x \<longleftrightarrow> sorted_wrt (<) (li_ids x) \<and> set part \<subseteq> set (li_ids x) \<and> (\<forall>v\<in>set (li_ids x). unat v < n) \<and>
     shard_ok id2part (li_ids x) (li_adj x) \<and> unat (li_medoid x) < length (li_ids x) \<and>
     length (stream (records (li_ids x) (li_adj x))) < 2 ^ 32 \<and> length (li_rows x) = length part \<and> list_all (\<lambda>r. length r = len) (li_rows x) \<and>
     length (li_header x) = 8"

definition shard_of :: "local_index \<Rightarrow> shard" where
  "shard_of x = \<lparr>sh_ids = li_ids x, sh_file = vamana_file (li_size x) (li_width x) (li_medoid x) 0 (li_adj x), sh_base = li_header x @ concat (li_rows x)\<rparr>"

definition node_recs :: "local_index \<Rightarrow> node list" where
  "node_recs x = records (li_ids x) (li_adj x)"

text \<open>All neighbours that some machine has for \<open>v\<close>, and a list of as many of them as fit.\<close>

definition all_nghs :: "local_index list \<Rightarrow> u32 \<Rightarrow> u32 set" where
  "all_nghs xs v = {w. \<exists>k<MACHINE_NUM. \<exists>ns. (v, ns) \<in> set (node_recs (xs ! k)) \<and> w \<in> set ns}"

definition cut_of :: "nat \<Rightarrow> 'a set \<Rightarrow> 'a list \<Rightarrow> bool" where
  "cut_of md S xs \<longleftrightarrow> distinct xs \<and> set xs \<subseteq> S \<and> length xs = min md (card S)"

lemma cut_of_all: "cut_of md S xs \<Longrightarrow> finite S \<Longrightarrow> card S \<le> md \<Longrightarrow> set xs = S"
  by (metis card_subset_eq cut_of_def distinct_card min.absorb2)

section \<open>What is sent\<close>

lemma sender_pieces: "x \<in> set (pieces mid xs) \<Longrightarrow> sender x = Some (unat mid)"
  by (induction mid xs rule: pieces.induct) (subst (asm) (2) pieces.simps, auto split: if_splits)

lemma sender_meta: "k < MACHINE_NUM \<Longrightarrow> sender (dispatch_meta k nums) = Some k"
  by (simp add: sender_def dispatch_meta_def codec_simps MACHINE_NUM_def)

lemma net_arrives:
  assumes "network_ok net" "\<And>k. k \<in> others m \<Longrightarrow> msgs k = sent_batch (ds k) m k"
  shows "arrives m (\<lambda>k. sent_batch (ds k) m k) (net m msgs)"
proof -
  have "sender x = Some k" if "k \<in> others m" "x \<in> set (fst (msgs k)) \<union> set (fst (snd (msgs k))) \<union> set (snd (snd (msgs k)))" for k x
  proof -
    have "unat (word_of_nat k :: u32) = k" "k < MACHINE_NUM" using that(1) by (simp_all add: MACHINE_NUM_def)
    then show ?thesis using that assms(2) sender_pieces sender_meta by (auto simp: sent_batch_def)
  qed
  then have "arrives m msgs (net m msgs)" using assms(1) unfolding network_ok_def by blast
  then show ?thesis using assms(2) unfolding arrives_def interleave_def by simp
qed

section \<open>The records of a part\<close>

definition recs_for :: "u32 list \<Rightarrow> local_index list \<Rightarrow> nat \<Rightarrow> nat \<Rightarrow> node list" where
  "recs_for id2part xs m k = part_recs id2part m (node_recs (xs ! k))"

lemma fst_records: "shard_ok id2part ids adj \<Longrightarrow> map fst (records ids adj) = ids"
  by (simp add: records_def shard_ok_def)

lemma length_stream_filter: "length (stream (filter P rs)) \<le> length (stream rs)"
  by (induction rs) auto

lemma sorted_filter_fst: "sorted_wrt (<) (map fst rs) \<Longrightarrow> sorted_wrt (<) (map fst (filter P rs))"
  by (induction rs) auto

lemma record_ok:
  assumes "index_ok n len part id2part x" "r \<in> set (node_recs x)"
  shows "node_ok n r"
proof -
  have s: "shard_ok id2part (li_ids x) (li_adj x)" "\<forall>v\<in>set (li_ids x). unat v < n" using assms(1) by (simp_all add: index_ok_def)
  have "(fst r, snd r) \<in> set (zip (li_ids x) (map (rename (li_ids x)) (li_adj x)))" using assms(2) by (simp add: node_recs_def records_def)
  then have "snd r \<in> set (map (rename (li_ids x)) (li_adj x))" by (rule set_zip_rightD)
  then obtain ns where ns: "ns \<in> set (li_adj x)" "snd r = rename (li_ids x) ns" by auto
  with s show ?thesis by (auto simp: node_ok_def shard_ok_def rename_def)
qed

lemma recs_for_ok:
  assumes "\<And>k. k < MACHINE_NUM \<Longrightarrow> index_ok n len (parts ! k) id2part (xs ! k)"
  shows "recs_ok n (recs_for id2part xs m)"
  unfolding recs_ok_def
proof (intro allI impI conjI)
  fix k assume k: "k < MACHINE_NUM"
  note x = assms [OF k]
  then have s: "sorted_wrt (<) (map fst (node_recs (xs ! k)))" "length (stream (node_recs (xs ! k))) < 2 ^ 32"
    using fst_records [of id2part] by (auto simp: index_ok_def node_recs_def)
  show "sorted_wrt (<) (map fst (recs_for id2part xs m k))" unfolding recs_for_def part_recs_def by (rule sorted_filter_fst [OF s(1)])
  show "list_all (node_ok n) (recs_for id2part xs m k)"
    using record_ok [OF x] by (auto simp: list_all_iff recs_for_def part_recs_def)
  show "length (stream (recs_for id2part xs m k)) < 2 ^ 32"
    using length_stream_filter s(2) unfolding recs_for_def part_recs_def by (rule le_less_trans)
qed

lemma part_labels:
  assumes p: "parts_ok n parts id2part" and x: "\<And>k. k < MACHINE_NUM \<Longrightarrow> index_ok n len (parts ! k) id2part (xs ! k)" and m: "m < MACHINE_NUM"
  shows "set (parts ! m) = (\<Union>k<MACHINE_NUM. fst ` set (recs_for id2part xs m k))"
proof (intro equalityI subsetI)
  fix v assume v: "v \<in> set (parts ! m)"
  have "shard_ok id2part (li_ids (xs ! m)) (li_adj (xs ! m))" "v \<in> set (li_ids (xs ! m))"
    using x [OF m] v by (auto simp: index_ok_def)
  then have "v \<in> set (map fst (node_recs (xs ! m)))" unfolding node_recs_def by (metis fst_records)
  moreover have "part_of id2part v = Some m" using p m v by (auto simp: parts_ok_def)
  ultimately show "v \<in> (\<Union>k<MACHINE_NUM. fst ` set (recs_for id2part xs m k))"
    using m by (fastforce simp: recs_for_def part_recs_def)
next
  fix v assume "v \<in> (\<Union>k<MACHINE_NUM. fst ` set (recs_for id2part xs m k))"
  then obtain k where k: "k < MACHINE_NUM" "v \<in> set (map fst (node_recs (xs ! k)))" "part_of id2part v = Some m"
    by (auto simp: recs_for_def part_recs_def)
  have "shard_ok id2part (li_ids (xs ! k)) (li_adj (xs ! k))" using x [OF k(1)] by (simp add: index_ok_def)
  then have "v \<in> set (li_ids (xs ! k))" using k(2) unfolding node_recs_def by (metis fst_records)
  then have vn: "unat v < n" using x [OF k(1)] by (simp add: index_ok_def)
  have "word_of_nat (unat v) \<in> set (concat parts)"
    using p vn by (intro labels_all [of n]) (auto simp: parts_ok_def is_partition_def)
  then obtain part where "part \<in> set parts" "v \<in> set part" by auto
  then obtain q where "q < length parts" "v \<in> set (parts ! q)" by (metis in_set_conv_nth)
  moreover from this p have "part_of id2part v = Some q" by (simp add: parts_ok_def)
  ultimately show "v \<in> set (parts ! m)" using k(3) by simp
qed

lemma set_merged:
  assumes "recs_ok n recs"
  shows "set (merged_nghs recs v) = {w. \<exists>k<MACHINE_NUM. \<exists>ns. (v, ns) \<in> set (recs k) \<and> w \<in> set ns}"
proof -
  have d: "(v, ns) \<in> set (recs k) \<longleftrightarrow> v \<in> fst ` set (recs k) \<and> ns = nghs_of recs v k" if "k < MACHINE_NUM" for k ns
  proof -
    have "distinct (map fst (recs k))" using assms that by (auto simp: recs_ok_def strict_sorted_iff)
    then show ?thesis by (force simp: nghs_of_def map_of_is_SomeI)
  qed
  show ?thesis using d by (auto simp: merged_nghs_def holders_def)
qed

lemma all_nghs_part:
  assumes "part_of id2part v = Some m"
  shows "{w. \<exists>k<MACHINE_NUM. \<exists>ns. (v, ns) \<in> set (recs_for id2part xs m k) \<and> w \<in> set ns} = all_nghs xs v"
  using assms by (auto simp: all_nghs_def recs_for_def part_recs_def)

lemma written_nth: "i < length ls \<Longrightarrow> written shuf md k ls ! i = take (unat md) (shuf (k + i) (ls ! i))"
  by (induction ls arbitrary: i k) (auto simp: nth_Cons split: nat.splits)

lemma length_written [simp]: "length (written shuf md k ls) = length ls"
  by (induction ls arbitrary: k) auto

lemma cut_of_take:
  assumes "shuffles shuf" "distinct l"
  shows "cut_of md (set l) (take md (shuf k l))"
  using assms shuffles_D by (auto simp: cut_of_def distinct_card dest: in_set_takeD)

lemma distinct_merged: "distinct (merged_nghs recs v)"
  by (simp add: merged_nghs_def distinct_unite)

section \<open>One machine\<close>

definition part_sizes :: "u32 list list \<Rightarrow> u32 list" where
  "part_sizes parts = map (\<lambda>p. word_of_nat (length p)) parts"

text \<open>The lists that machine \<open>m\<close> writes for the vertices of its part.\<close>

definition part_graph :: "(nat \<Rightarrow> u32 list \<Rightarrow> u32 list) \<Rightarrow> u32 \<Rightarrow> u32 list \<Rightarrow> local_index list \<Rightarrow> nat \<Rightarrow> u32 list \<Rightarrow> u32 list list" where
  "part_graph shuf md id2part xs m part = written shuf md 0 (map (merged_nghs (recs_for id2part xs m)) part)"

lemma parts_facts:
  assumes "parts_ok n parts id2part" "m < MACHINE_NUM"
  shows "length (concat parts) = n" "unat (part_sizes parts ! m) = length (parts ! m)" "length (parts ! m) \<le> n" "length parts = MACHINE_NUM"
    "length (part_sizes parts) = MACHINE_NUM" "starts (part_sizes parts) m = length (concat (take m parts))"
    "starts (part_sizes parts) m + length (parts ! m) \<le> n"
proof -
  show n: "length (concat parts) = n" and l: "length parts = MACHINE_NUM" using assms(1) by (auto simp: parts_ok_def is_partition_def)
  have le: "length (concat (take k parts)) + length (parts ! k) \<le> n" if "k < MACHINE_NUM" for k
  proof -
    have "concat parts = concat (take k parts) @ parts ! k @ concat (drop (Suc k) parts)"
      using that l by (metis concat.simps(2) concat_append id_take_nth_drop)
    then show ?thesis using n by simp
  qed
  have u: "unat (part_sizes parts ! k) = length (parts ! k)" if "k < MACHINE_NUM" for k
    using that le [OF that] assms(1) l by (simp add: part_sizes_def parts_ok_def)
  show "unat (part_sizes parts ! m) = length (parts ! m)" by (rule u [OF assms(2)])
  show "length (part_sizes parts) = MACHINE_NUM" using l by (simp add: part_sizes_def)
  show s: "starts (part_sizes parts) m = length (concat (take m parts))"
    using u l assms(2) by (intro spread_starts [symmetric]) (auto simp: part_sizes_def)
  show "starts (part_sizes parts) m + length (parts ! m) \<le> n" "length (parts ! m) \<le> n" using le [OF assms(2)] s by simp_all
qed

lemma vertex_cut:
  assumes p: "parts_ok n parts id2part" and x: "\<And>k. k < MACHINE_NUM \<Longrightarrow> index_ok n len (parts ! k) id2part (xs ! k)"
    and m: "m < MACHINE_NUM" "j < length (parts ! m)" and sh: "shuffles shuf"
  shows "cut_of (unat md) (all_nghs xs (parts ! m ! j)) (part_graph shuf md id2part xs m (parts ! m) ! j)"
proof -
  let ?v = "parts ! m ! j"
  have "part_of id2part ?v = Some m" using p m by (simp add: parts_ok_def)
  then have "set (merged_nghs (recs_for id2part xs m) ?v) = all_nghs xs ?v"
    using set_merged [OF recs_for_ok [OF x], of m ?v] all_nghs_part by simp
  then show ?thesis
    using cut_of_take [OF sh distinct_merged [of "recs_for id2part xs m" ?v], of "unat md" j] m(2) by (simp add: part_graph_def written_nth)
qed

lemma all_nghs_bound:
  assumes "\<And>k. k < MACHINE_NUM \<Longrightarrow> index_ok n len (parts ! k) id2part (xs ! k)" "w \<in> all_nghs xs v"
  shows "unat w < n"
  using assms(2) record_ok [OF assms(1)] by (fastforce simp: all_nghs_def node_ok_def)

lemma length_encs: "list_all (\<lambda>ids. length ids \<le> md) W \<Longrightarrow> length (concat (map (enc_vec enc_u32) W)) \<le> length W * (4 + 4 * md)"
  by (induction W) (auto simp: enc_vec_def len_simps)

lemma merge_part_ok:
  assumes p: "parts_ok n parts id2part" and x: "\<And>k. k < MACHINE_NUM \<Longrightarrow> index_ok n len (parts ! k) id2part (xs ! k)"
    and m: "m < MACHINE_NUM" and sh: "shuffles shuf" and md: "md \<noteq> 0" "unat md < 2 ^ 30" and net: "network_ok net" and c: "shaped c"
    and ds: "\<And>k. k < MACHINE_NUM \<Longrightarrow> dispatch_ok (ds ! k) \<and> dp_ids (ds ! k) ! m = map fst (recs_for id2part xs m k) \<and> dp_nghs (ds ! k) ! m = stream (recs_for id2part xs m k)"
    and lp: "length lp = n"
  shows "\<exists>f. merge_part net shuf junkc junkb c md len n (part_sizes parts) lp (concat parts) ds (li_header (xs ! m) @ concat (li_rows (xs ! m))) m = Inr f \<and>
    part_b1_file (unat md) len (part_sizes parts ! m) (dp_medoid (ds ! m))
      (map (\<lambda>j. (map (\<lambda>v. lp ! unat v) (part_graph shuf md id2part xs m (parts ! m) ! j), li_rows (xs ! m) ! j, ucast (parts ! m ! j))) [0 ..< length (parts ! m)]) f"
proof -
  let ?recs = "recs_for id2part xs m" and ?W = "part_graph shuf md id2part xs m (parts ! m)"
  note pf = parts_facts [OF p m]
  let ?msgs = "map (\<lambda>k. if k = m then ([], [], []) else sent_batch (ds ! k) m k) [0 ..< MACHINE_NUM]"
  have t: "traverse (\<lambda>k. if k = m then Inr ([], [], []) else send_part (word_of_nat k) (ds ! k) m) [0 ..< MACHINE_NUM] = Inr ?msgs"
    by (rule traverse_Inr) (use ds send_part_ok m in auto)
  have arr: "arrives m (\<lambda>k. sent_batch (ds ! k) m k) (net m (\<lambda>k. ?msgs ! k))" by (rule net_arrives [OF net]) auto
  obtain c' where c': "collect_partition junkc m (ds ! m) (net m (\<lambda>k. ?msgs ! k)) c = Inr c'"
      "\<And>k. k < MACHINE_NUM \<Longrightarrow> co_ids c' ! k = map fst (?recs k) \<and> co_id_num c' ! k = length (?recs k) \<and> co_nghs c' ! k = stream (?recs k)"
    using collect_partition_ok [OF _ m c arr, of junkc] ds by auto
  have vs: "sorted_wrt (<) (parts ! m)" "parts ! m \<noteq> []" using p m by (auto simp: parts_ok_def)
  have mg: "merge_replica_partition shuf md (dp_medoid (ds ! m)) n (co_id_num c') (co_ids c') (co_nghs c') =
      Inr (vamana_file (word_of_nat (24 + length (concat (map (enc_vec enc_u32) ?W)))) (unat md) (dp_medoid (ds ! m)) 0 ?W)"
    unfolding part_graph_def
    by (rule merge_ok [OF recs_for_ok [OF x] sh md(1) c'(2) vs(1) part_labels [OF p x m] vs(2)])
  have cut: "cut_of (unat md) (all_nghs xs (parts ! m ! j)) (?W ! j)" if "j < length (parts ! m)" for j
    by (rule vertex_cut [OF p x m that sh])
  have W: "length ?W = length (parts ! m)" by (simp add: part_graph_def)
  have ok: "list_all (\<lambda>ids. length ids \<le> unat md \<and> (\<forall>v\<in>set ids. unat v < length lp)) ?W"
    unfolding list_all_length
  proof (intro allI impI conjI ballI)
    fix j assume "j < length ?W"
    then have j: "cut_of (unat md) (all_nghs xs (parts ! m ! j)) (?W ! j)" using cut W by simp
    then show "length (?W ! j) \<le> unat md" by (simp add: cut_of_def)
    fix v assume "v \<in> set (?W ! j)"
    then have "v \<in> all_nghs xs (parts ! m ! j)" using j by (auto simp: cut_of_def)
    then show "unat v < length lp" using all_nghs_bound [OF x] lp by simp
  qed
  have "length (concat (map (enc_vec enc_u32) ?W)) \<le> 2 ^ 31 * (4 + 4 * 2 ^ 30)"
    using length_encs [of "unat md" ?W] ok md(2) W pf(3) p
    by (intro order_trans [OF length_encs mult_le_mono]) (auto simp: list_all_iff parts_ok_def)
  then have size: "24 + length (concat (map (enc_vec enc_u32) ?W)) < 2 ^ 64" by simp
  have rows: "list_all (\<lambda>r. length r = len) (li_rows (xs ! m))" "length (li_rows (xs ! m)) = length ?W" and h: "length (li_header (xs ! m)) = 8"
    using x [OF m] W by (auto simp: index_ok_def)
  obtain f where f: "transfer_to_b1graph_format junkb m md len (part_sizes parts) (dp_medoid (ds ! m)) lp (concat parts)
      (vamana_file (word_of_nat (24 + length (concat (map (enc_vec enc_u32) ?W)))) (unat md) (dp_medoid (ds ! m)) 0 ?W) (li_header (xs ! m) @ concat (li_rows (xs ! m))) = Inr f"
    "part_b1_file (unat md) len (part_sizes parts ! m) (dp_medoid (ds ! m))
      (map (b1_element lp (concat parts) (starts (part_sizes parts) m) ?W (li_rows (xs ! m))) [0 ..< length ?W]) f"
    using transfer_to_b1_ok [OF ok _ size rows _ h, of "part_sizes parts" m "concat parts" junkb "dp_medoid (ds ! m)" "dp_medoid (ds ! m)"] W pf m by auto
  have "concat parts ! (starts (part_sizes parts) m + j) = parts ! m ! j" if "j < length (parts ! m)" for j
  proof -
    have "concat parts = concat (take m parts) @ parts ! m @ concat (drop (Suc m) parts)"
      using m pf(4) by (metis concat.simps(2) concat_append id_take_nth_drop)
    then show ?thesis unfolding pf(6) using that by (simp add: nth_append)
  qed
  then have "map (b1_element lp (concat parts) (starts (part_sizes parts) m) ?W (li_rows (xs ! m))) [0 ..< length ?W] =
      map (\<lambda>j. (map (\<lambda>v. lp ! unat v) (?W ! j), li_rows (xs ! m) ! j, ucast (parts ! m ! j))) [0 ..< length (parts ! m)]"
    using W by (simp add: b1_element_def)
  with f t c'(1) mg show ?thesis by (auto simp: merge_part_def)
qed

section \<open>All machines\<close>

lemma length_le_stream: "length rs \<le> length (stream rs)"
  by (induction rs) auto

lemma collect_all:
  assumes x: "index_ok n len part id2part x"
  obtains d where "collect_replica_partition k id2part (li_ids x) (vamana_file sz width (li_medoid x) 0 (li_adj x)) = Inr d" "dispatch_ok d"
    "dp_medoid d = li_ids x ! unat (li_medoid x)"
    "\<And>m. m < MACHINE_NUM \<Longrightarrow> dp_ids d ! m = map fst (part_recs id2part m (node_recs x)) \<and> dp_nghs d ! m = stream (part_recs id2part m (node_recs x))"
proof -
  have s: "shard_ok id2part (li_ids x) (li_adj x)" "unat (li_medoid x) < length (li_ids x)" "length (stream (node_recs x)) < 2 ^ 32"
    using x by (simp_all add: index_ok_def node_recs_def)
  have "length (stream (part_recs id2part m (node_recs x))) < 2 ^ 64" "length (part_recs id2part m (node_recs x)) < 2 ^ 64" for m
    using length_stream_filter [of "\<lambda>r. part_of id2part (fst r) = Some m" "node_recs x"] s(3) length_le_stream [of "part_recs id2part m (node_recs x)"]
    by (simp_all add: part_recs_def)
  then show thesis
    using collect_ok [OF s(1,2), of k sz width] by (intro that) (auto simp: dispatch_ok_def node_recs_def)
qed

definition final_graph :: "(nat \<Rightarrow> nat \<Rightarrow> u32 list \<Rightarrow> u32 list) \<Rightarrow> u32 \<Rightarrow> u32 list \<Rightarrow> local_index list \<Rightarrow> u32 list list \<Rightarrow> u32 \<Rightarrow> u32 list" where
  "final_graph shuf md id2part xs parts v =
     (let m = the (part_of id2part v) in part_graph (shuf m) md id2part xs m (parts ! m) ! label_index (parts ! m) v)"

lemma final_graph_nth:
  assumes "parts_ok n parts id2part" "m < MACHINE_NUM" "j < length (parts ! m)"
  shows "final_graph shuf md id2part xs parts (parts ! m ! j) = part_graph (shuf m) md id2part xs m (parts ! m) ! j"
proof -
  have "part_of id2part (parts ! m ! j) = Some m" "distinct (parts ! m)"
    using assms by (auto simp: parts_ok_def strict_sorted_iff)
  then show ?thesis using assms(3) by (simp add: final_graph_def label_index_nth)
qed

definition part_elements :: "(u32 \<Rightarrow> u32 list) \<Rightarrow> u32 list \<Rightarrow> local_index list \<Rightarrow> u32 list list \<Rightarrow> nat \<Rightarrow> (u32 list \<times> byte list \<times> u64) list" where
  "part_elements G lp xs parts m = map (\<lambda>j. (map (\<lambda>w. lp ! unat w) (G (parts ! m ! j)), li_rows (xs ! m) ! j, ucast (parts ! m ! j))) [0 ..< length (parts ! m)]"

lemma merge_index_ok:
  assumes p: "parts_ok n parts id2part" and l: "length xs = MACHINE_NUM" and x: "\<And>k. k < MACHINE_NUM \<Longrightarrow> index_ok n len (parts ! k) id2part (xs ! k)"
    and sh: "\<And>m. shuffles (shuf m)" and md: "md \<noteq> 0" "unat md < 2 ^ 30" and net: "network_ok net" and c: "\<And>m. shaped (c0 m)"
    and lp: "length lp = n"
  shows "\<exists>files. merge_index net shuf junkc junkb c0 md len n (part_sizes parts) id2part lp (concat parts) (map shard_of xs) = Inr files \<and>
    length files = MACHINE_NUM \<and> (\<forall>m<MACHINE_NUM. part_b1_file (unat md) len (part_sizes parts ! m) (li_ids (xs ! m) ! unat (li_medoid (xs ! m)))
      (part_elements (final_graph shuf md id2part xs parts) lp xs parts m) (files ! m))"
proof -
  have "\<exists>d. collect_replica_partition (word_of_nat MACHINE_NUM) id2part (li_ids (xs ! k)) (vamana_file (li_size (xs ! k)) (li_width (xs ! k)) (li_medoid (xs ! k)) 0 (li_adj (xs ! k))) = Inr d \<and>
      dispatch_ok d \<and> dp_medoid d = li_ids (xs ! k) ! unat (li_medoid (xs ! k)) \<and>
      (\<forall>m<MACHINE_NUM. dp_ids d ! m = map fst (recs_for id2part xs m k) \<and> dp_nghs d ! m = stream (recs_for id2part xs m k))" if "k < MACHINE_NUM" for k
    using collect_all [OF x [OF that], of "word_of_nat MACHINE_NUM" "li_size (xs ! k)" "li_width (xs ! k)"] unfolding recs_for_def by metis
  then obtain d where d: "\<And>k. k < MACHINE_NUM \<Longrightarrow> collect_replica_partition (word_of_nat MACHINE_NUM) id2part (li_ids (xs ! k)) (vamana_file (li_size (xs ! k)) (li_width (xs ! k)) (li_medoid (xs ! k)) 0 (li_adj (xs ! k))) = Inr (d k)"
    "\<And>k. k < MACHINE_NUM \<Longrightarrow> dispatch_ok (d k) \<and> dp_medoid (d k) = li_ids (xs ! k) ! unat (li_medoid (xs ! k))"
    "\<And>k m. k < MACHINE_NUM \<Longrightarrow> m < MACHINE_NUM \<Longrightarrow> dp_ids (d k) ! m = map fst (recs_for id2part xs m k) \<and> dp_nghs (d k) ! m = stream (recs_for id2part xs m k)"
    by metis
  let ?ds = "map d [0 ..< MACHINE_NUM]" and ?sh = "map shard_of xs"
  have t: "traverse (\<lambda>k. collect_replica_partition (word_of_nat MACHINE_NUM) id2part (sh_ids (?sh ! k)) (sh_file (?sh ! k))) [0 ..< MACHINE_NUM] = Inr ?ds"
    by (rule traverse_Inr) (use d(1) l in \<open>simp add: shard_of_def\<close>)
  have "\<exists>f. merge_part net (shuf m) (junkc m) (junkb m) (c0 m) md len n (part_sizes parts) lp (concat parts) ?ds (sh_base (?sh ! m)) m = Inr f \<and>
      part_b1_file (unat md) len (part_sizes parts ! m) (li_ids (xs ! m) ! unat (li_medoid (xs ! m)))
        (part_elements (final_graph shuf md id2part xs parts) lp xs parts m) f" if m: "m < MACHINE_NUM" for m
  proof -
    have e: "part_elements (final_graph shuf md id2part xs parts) lp xs parts m =
        map (\<lambda>j. (map (\<lambda>v. lp ! unat v) (part_graph (shuf m) md id2part xs m (parts ! m) ! j), li_rows (xs ! m) ! j, ucast (parts ! m ! j))) [0 ..< length (parts ! m)]"
      unfolding part_elements_def using final_graph_nth [OF p m] by simp
    show ?thesis unfolding e
      using merge_part_ok [OF p x m sh [of m] md net c [of m] _ lp, where ds = ?ds and junkc = "junkc m" and junkb = "junkb m"] d(2,3) m l by (simp add: shard_of_def)
  qed
  then obtain f where f: "\<And>m. m < MACHINE_NUM \<Longrightarrow> merge_part net (shuf m) (junkc m) (junkb m) (c0 m) md len n (part_sizes parts) lp (concat parts) ?ds (sh_base (?sh ! m)) m = Inr (f m)"
    "\<And>m. m < MACHINE_NUM \<Longrightarrow> part_b1_file (unat md) len (part_sizes parts ! m) (li_ids (xs ! m) ! unat (li_medoid (xs ! m)))
        (part_elements (final_graph shuf md id2part xs parts) lp xs parts m) (f m)" by metis
  have "merge_index net shuf junkc junkb c0 md len n (part_sizes parts) id2part lp (concat parts) ?sh = Inr (map f [0 ..< MACHINE_NUM])"
    unfolding merge_index_def t sum.case by (rule traverse_Inr) (use f(1) in simp)
  then show ?thesis using f(2) by (intro exI [of _ "map f [0 ..< MACHINE_NUM]"]) simp
qed

lemma final_graph_cut:
  assumes "parts_ok n parts id2part" "\<And>k. k < MACHINE_NUM \<Longrightarrow> index_ok n len (parts ! k) id2part (xs ! k)" "\<And>m. shuffles (shuf m)"
    "m < MACHINE_NUM" "v \<in> set (parts ! m)"
  shows "cut_of (unat md) (all_nghs xs v) (final_graph shuf md id2part xs parts v)"
proof -
  obtain j where j: "j < length (parts ! m)" "v = parts ! m ! j" using assms(5) by (metis in_set_conv_nth)
  show ?thesis unfolding j(2) final_graph_nth [OF assms(1,4) j(1)] by (rule vertex_cut [OF assms(1,2,4) j(1) assms(3)])
qed

section \<open>The merged graph\<close>

lemma label_pos_length: "length (label_pos_of d) = length d"
  by (simp add: label_pos_of_def)

lemma label_pos_bound:
  assumes "parts_ok n parts id2part" "unat (w :: u32) < n"
  shows "unat (label_pos_of (concat parts) ! unat w) < n"
proof -
  have d: "labels_ok n (concat parts)" "length (concat parts) = n" "n \<le> 2 ^ 31" using assms(1) by (auto simp: parts_ok_def is_partition_def)
  have "word_of_nat (unat w) \<in> set (concat parts)" using d assms(2) by (intro labels_all [of n]) auto
  then have "label_index (concat parts) w < n" using nth_label_index [of w "concat parts"] d(2) by simp
  then show ?thesis using assms(2) d label_pos_of_nth [of w "concat parts"] by simp
qed

text \<open>The graph of the parts, by position.\<close>

definition placed :: "(u32 \<Rightarrow> u32 list) \<Rightarrow> u32 list list \<Rightarrow> u32 list list list" where
  "placed G parts = map (map (\<lambda>v. map (\<lambda>w. label_pos_of (concat parts) ! unat w) (G v))) parts"

lemma placed_elements: "m < length parts \<Longrightarrow> map fst (part_elements G (label_pos_of (concat parts)) xs parts m) = placed G parts ! m"
  by (rule nth_equalityI) (auto simp: part_elements_def placed_def)

lemma placed_spread:
  assumes p: "parts_ok n parts id2part" and x: "\<And>k. k < MACHINE_NUM \<Longrightarrow> index_ok n len (parts ! k) id2part (xs ! k)"
    and G: "\<And>m v. m < MACHINE_NUM \<Longrightarrow> v \<in> set (parts ! m) \<Longrightarrow> cut_of 48 (all_nghs xs v) (G v)"
  shows "spread (part_sizes parts) (placed G parts)"
proof -
  have l: "length parts = MACHINE_NUM" and n: "length (concat parts) = n" "n \<le> 2 ^ 31" using p by (auto simp: parts_ok_def is_partition_def)
  have st: "starts (part_sizes parts) (length (part_sizes parts)) = n"
  proof -
    have "\<forall>q<length (part_sizes parts). length (parts ! q) = unat (part_sizes parts ! q)"
      using parts_facts(2) [OF p] l by (simp add: part_sizes_def)
    then have "length (concat (take (length (part_sizes parts)) parts)) = starts (part_sizes parts) (length (part_sizes parts))"
      by (intro spread_starts) (simp_all add: part_sizes_def)
    then show ?thesis using n(1) by (simp add: part_sizes_def)
  qed
  have "valid_nghs (part_sizes parts) (map (\<lambda>w. label_pos_of (concat parts) ! unat w) (G v))" if v: "v \<in> set (concat parts)" for v
  proof -
    from v obtain part where "part \<in> set parts" "v \<in> set part" by auto
    then obtain m where m: "m < MACHINE_NUM" "v \<in> set (parts ! m)" using l by (metis in_set_conv_nth)
    have "length (G v) \<le> 48" "set (G v) \<subseteq> all_nghs xs v" using G [OF m] by (auto simp: cut_of_def)
    then show ?thesis unfolding valid_nghs_def st max_deg_def
      using label_pos_bound [OF p all_nghs_bound [OF x]] by fastforce
  qed
  moreover have "concat (placed G parts) = map (\<lambda>v. map (\<lambda>w. label_pos_of (concat parts) ! unat w) (G v)) (concat parts)"
    by (simp add: placed_def map_concat)
  ultimately have "valid_graph (part_sizes parts) (concat (placed G parts))"
    using n by (simp add: valid_graph_def st list_all_iff)
  moreover have "length (placed G parts ! q) = unat (part_sizes parts ! q)" if "q < length (part_sizes parts)" for q
    using that parts_facts(2) [OF p, of q] l by (simp add: placed_def part_sizes_def)
  ultimately show ?thesis by (simp add: spread_def placed_def part_sizes_def)
qed

section \<open>An example\<close>

text \<open>Sixteen machines with one vertex each; machine \<open>k\<close> also has a replica of the next vertex, and the two are neighbours in its index.
  The network delivers the messages of the machines in their order.\<close>

definition in_order :: network where
  "in_order m msgs = ([(concat (map (\<lambda>k. fst (msgs k)) (ring_senders m)), [], [])],
     [([], concat (map (\<lambda>k. fst (snd (msgs k))) (ring_senders m)), [])], [([], [], concat (map (\<lambda>k. snd (snd (msgs k))) (ring_senders m)))])"

definition ring_parts :: "u32 list list" where
  "ring_parts = map (\<lambda>k. [word_of_nat k]) [0 ..< 16]"

definition ring_id2part :: "u32 list" where
  "ring_id2part = map word_of_nat [0 ..< 16]"

definition ring_index :: "nat \<Rightarrow> local_index" where
  "ring_index k = \<lparr>li_size = 0, li_width = 2, li_header = replicate 8 0, li_ids = (if k = 15 then [0, 15] else [word_of_nat k, word_of_nat (k + 1)]), li_adj = [[1], [0]], li_medoid = 0,
     li_rows = [[word_of_nat k]]\<rparr>"

definition empty_collector :: collector where
  "empty_collector = \<lparr>co_recv_meta = replicate 16 False, co_id_num = replicate 16 0, co_id_cnt = replicate 16 0, co_ids = replicate 16 [],
     co_ngh_num = replicate 16 0, co_ngh_cnt = replicate 16 0, co_nghs = replicate 16 []\<rparr>"

lemma filter_senders:
  assumes "distinct js" "\<forall>j\<in>set js. \<forall>x\<in>set (f j). sender x = Some j" "k \<in> set js"
  shows "filter (\<lambda>x. sender x = Some k) (concat (map f js)) = f k"
proof -
  have "filter (\<lambda>x. sender x = Some k) (f j) = (if j = k then f j else [])" if "j \<in> set js" for j
    using assms(2) that by (auto intro!: filter_True filter_False)
  then have "filter (\<lambda>x. sender x = Some k) (concat (map f js)) = concat (map (\<lambda>j. if j = k then f j else []) js)"
    by (simp add: filter_concat comp_def cong: map_cong)
  also have "\<dots> = f k" using assms(1,3) by (induction js) auto
  finally show ?thesis .
qed

lemma in_order_ok: "network_ok in_order"
proof -
  have set: "set (ring_senders m) = others m" "distinct (ring_senders m)" for m
    by (auto simp: ring_senders_def MACHINE_NUM_def)
  have "interleave (others m) f (concat (map f (ring_senders m)))" if "\<forall>k\<in>others m. \<forall>x\<in>set (f k). sender x = Some k" for f m
    using that filter_senders [OF set(2), of m f] unfolding interleave_def set(1) [of m, symmetric] by auto
  then show ?thesis unfolding network_ok_def arrives_def in_order_def by simp
qed

lemma ring_parts_ok: "parts_ok 16 ring_parts ring_id2part"
proof -
  have "concat ring_parts = map word_of_nat [0 ..< 16]" by (simp add: ring_parts_def concat_map_singleton)
  moreover have "distinct (map word_of_nat [0 ..< 16] :: u32 list)" by code_simp
  ultimately have "is_partition 16 ring_parts" by (auto simp: is_partition_def labels_ok_def)
  then show ?thesis by (auto simp: parts_ok_def ring_parts_def ring_id2part_def part_of_def MACHINE_NUM_def)
qed

lemma ring_index_ok:
  assumes "k < MACHINE_NUM"
  shows "index_ok 16 1 (ring_parts ! k) ring_id2part (map ring_index [0 ..< 16] ! k)"
proof -
  have "list_all (\<lambda>k. sorted_wrt (<) (li_ids (ring_index k)) \<and> list_all (\<lambda>v. unat v < 16) (li_ids (ring_index k)) \<and> word_of_nat k \<in> set (li_ids (ring_index k))) [0 ..< 16]"
    by code_simp
  then have s: "sorted_wrt (<) (li_ids (ring_index k))" "\<forall>v\<in>set (li_ids (ring_index k)). unat v < 16" "word_of_nat k \<in> set (li_ids (ring_index k))"
    using assms by (auto simp: list_all_iff MACHINE_NUM_def)
  then have "\<forall>v\<in>set (li_ids (ring_index k)). part_of ring_id2part v \<noteq> None"
    by (simp add: part_of_def ring_id2part_def MACHINE_NUM_def)
  then have "shard_ok ring_id2part (li_ids (ring_index k)) (li_adj (ring_index k))" by (simp add: shard_ok_def ring_index_def)
  moreover have "length (stream (records (li_ids (ring_index k)) (li_adj (ring_index k)))) < 2 ^ 32"
    by (simp add: ring_index_def records_def rename_def)
  ultimately show ?thesis using s assms
    by (simp add: index_ok_def ring_parts_def MACHINE_NUM_def) (simp add: ring_index_def)
qed

lemma ring_facts: "length (map ring_index [0 ..< 16]) = MACHINE_NUM" "\<forall>m. shuffles ((\<lambda>m k. rev) m)" "\<forall>m. shaped ((\<lambda>m. empty_collector) m)"
  "small_parts (part_sizes ring_parts)"
  by (simp_all add: MACHINE_NUM_def shuffles_def shaped_def empty_collector_def small_parts_def part_sizes_def ring_parts_def max_deg_def)

lemma ring_nghs: "all_nghs (map ring_index [0 ..< 16]) 3 = {2, 4}"
proof -
  have "list_all (\<lambda>k. k = 2 \<or> k = 3 \<or> 3 \<notin> set (li_ids (ring_index k))) [0 ..< 16]" by code_simp
  then have k: "k = 2 \<or> k = 3" if "(3, ns) \<in> set (node_recs (ring_index k))" "k < 16" for k ns
    using that by (auto simp: list_all_iff node_recs_def records_def dest: set_zip_leftD)
  have r: "node_recs (ring_index 2) = [(2, [3]), (3, [2])]" "node_recs (ring_index 3) = [(3, [4]), (4, [3])]" by code_simp+
  show ?thesis
  proof (intro equalityI subsetI)
    fix w assume "w \<in> all_nghs (map ring_index [0 ..< 16]) 3"
    then obtain k ns where "(3, ns) \<in> set (node_recs (ring_index k))" "k < 16" "w \<in> set ns" by (auto simp: all_nghs_def MACHINE_NUM_def)
    with k r show "w \<in> {2, 4}" by fastforce
  next
    fix w :: u32 assume "w \<in> {2, 4}"
    then have "\<exists>k<16. (3, [w]) \<in> set (node_recs (ring_index k))" using r by (elim insertE) (auto intro: exI [of _ 2] exI [of _ 3])
    then show "w \<in> all_nghs (map ring_index [0 ..< 16]) 3" by (auto simp: all_nghs_def MACHINE_NUM_def intro!: exI [of _ "[w]"])
  qed
qed

lemma ring_element:
  assumes "cut_of md {2, 4} (G 3)" "2 \<le> md"
  shows "set (G 3) = {2, 4}" "part_elements G (label_pos_of (concat ring_parts)) (map ring_index [0 ..< 16]) ring_parts 3 = [(G 3, [3], 3)]"
proof -
  show g: "set (G 3) = {2, 4}" using assms(1) by (rule cut_of_all) (use assms(2) in \<open>simp_all add: numeral_2_eq_2\<close>)
  have "label_pos_of (concat ring_parts) = map word_of_nat [0 ..< 16]" by code_simp
  then have "map (\<lambda>w. label_pos_of (concat ring_parts) ! unat w) (G 3) = G 3" using g by (intro map_idI) auto
  then show "part_elements G (label_pos_of (concat ring_parts)) (map ring_index [0 ..< 16]) ring_parts 3 = [(G 3, [3], 3)]"
    by (simp add: part_elements_def ring_parts_def ring_index_def)
qed

section \<open>Properties\<close>

text \<open>Property C15.  The distributed merge: whatever the order in which the messages of different machines arrive and whatever
  permutations the shuffles draw, all machines return, and the B1 file of each holds, for every vertex of its part in the order of the
  labels, its vector and label and, by position, a list without repetition of neighbours that some machine found for it, of length \<open>max_degree\<close> or all of
  them if they are fewer.\<close>

theorem merge_index_unites:
  assumes p: "parts_ok n parts id2part" and l: "length xs = MACHINE_NUM" and x: "\<forall>k<MACHINE_NUM. index_ok n len (parts ! k) id2part (xs ! k)"
    and sh: "\<forall>m. shuffles (shuf m)" and md: "md \<noteq> 0" "unat md < 2 ^ 30" and net: "network_ok net" and c: "\<forall>m. shaped (c0 m)"
  shows "\<exists>files G. merge_index net shuf junkc junkb c0 md len n (part_sizes parts) id2part (label_pos_of (concat parts)) (concat parts)
        (map shard_of xs) = Inr files \<and>
      length files = MACHINE_NUM \<and>
      (\<forall>m<MACHINE_NUM. load_part (unat md) len (part_sizes parts ! m) (files ! m) =
         Inr (li_ids (xs ! m) ! unat (li_medoid (xs ! m)), part_elements G (label_pos_of (concat parts)) xs parts m)) \<and>
      (\<forall>m<MACHINE_NUM. \<forall>v\<in>set (parts ! m). cut_of (unat md) (all_nghs xs v) (G v))"
proof -
  have lp: "length (label_pos_of (concat parts)) = n" using p by (simp add: label_pos_length parts_ok_def is_partition_def)
  obtain files where "merge_index net shuf junkc junkb c0 md len n (part_sizes parts) id2part (label_pos_of (concat parts)) (concat parts)
        (map shard_of xs) = Inr files" "length files = MACHINE_NUM"
      "\<forall>m<MACHINE_NUM. part_b1_file (unat md) len (part_sizes parts ! m) (li_ids (xs ! m) ! unat (li_medoid (xs ! m)))
        (part_elements (final_graph shuf md id2part xs parts) (label_pos_of (concat parts)) xs parts m) (files ! m)"
    using merge_index_ok [OF p l _ _ md net _ lp, of len shuf c0 junkc junkb] x sh c by blast
  then show ?thesis
    using load_part_file final_graph_cut [OF p, of len xs shuf] x sh
    by (intro exI [of _ files] exI [of _ "final_graph shuf md id2part xs parts"]) blast
qed

theorem merge_index_unites_witness:
  "\<exists>files ns. merge_index in_order (\<lambda>m k. rev) (\<lambda>m i. 0) (\<lambda>m i. 0) (\<lambda>m. empty_collector) 2 1 16 (part_sizes ring_parts) ring_id2part
      (label_pos_of (concat ring_parts)) (concat ring_parts) (map shard_of (map ring_index [0 ..< 16])) = Inr files \<and>
    load_part 2 1 1 (files ! 3) = Inr (3, [(ns, [3], 3)]) \<and> set ns = {2, 4}"
proof -
  have "(2 :: u32) \<noteq> 0" "unat (2 :: u32) < 2 ^ 30" by simp_all
  from merge_index_unites [OF ring_parts_ok ring_facts(1) _ ring_facts(2) this in_order_ok ring_facts(3), of 1 "\<lambda>m i. 0" "\<lambda>m i. 0"]
  obtain files G where f: "merge_index in_order (\<lambda>m k. rev) (\<lambda>m i. 0) (\<lambda>m i. 0) (\<lambda>m. empty_collector) 2 1 16 (part_sizes ring_parts) ring_id2part
      (label_pos_of (concat ring_parts)) (concat ring_parts) (map shard_of (map ring_index [0 ..< 16])) = Inr files"
    "\<forall>m<MACHINE_NUM. load_part (unat (2 :: u32)) 1 (part_sizes ring_parts ! m) (files ! m) =
         Inr (li_ids (map ring_index [0 ..< 16] ! m) ! unat (li_medoid (map ring_index [0 ..< 16] ! m)), part_elements G (label_pos_of (concat ring_parts)) (map ring_index [0 ..< 16]) ring_parts m)"
    "\<forall>m<MACHINE_NUM. \<forall>v\<in>set (ring_parts ! m). cut_of (unat (2 :: u32)) (all_nghs (map ring_index [0 ..< 16]) v) (G v)"
    using ring_index_ok by blast
  have three: "(3 :: u32) \<in> set (ring_parts ! 3)" "3 < MACHINE_NUM" by (simp_all add: ring_parts_def MACHINE_NUM_def)
  then have "cut_of 2 {2, 4} (G 3)" using f(3) ring_nghs by fastforce
  note e = ring_element [where G = G, OF this order_refl]
  have "part_sizes ring_parts ! 3 = 1" "li_ids (map ring_index [0 ..< 16] ! 3) ! unat (li_medoid (map ring_index [0 ..< 16] ! 3)) = 3"
    by (simp_all add: part_sizes_def ring_parts_def ring_index_def)
  with f(2) three(2) have "load_part 2 1 1 (files ! 3) = Inr (3, [(G 3, [3], 3)])" unfolding e(2) [symmetric] by auto
  with f(1) e(1) show ?thesis by blast
qed

text \<open>The whole distributed build: the merge and the V3 build after it return on all machines, and the index file
  of every machine is, byte for byte, the image that the single-machine writer produces from one global graph in which every
  vertex has as many of its neighbours as fit 48.\<close>

lemma merged_graph_builds:
  assumes p: "parts_ok n parts id2part" and l: "length xs = MACHINE_NUM" and x: "\<forall>k<MACHINE_NUM. index_ok n len (parts ! k) id2part (xs ! k)"
    and sh: "\<forall>m. shuffles (shuf m)" and net: "network_ok net" and c: "\<forall>m. shaped (c0 m)"
    and sm: "small_parts (part_sizes parts)" and sd: "senders_ok senders"
  shows "\<exists>files G out. merge_index net shuf junkc junkb c0 48 len n (part_sizes parts) id2part (label_pos_of (concat parts)) (concat parts)
        (map shard_of xs) = Inr files \<and>
      transfer_to_scala_v3 junk senders 48 len (part_sizes parts) max_vid files = Inr out \<and> length out = MACHINE_NUM \<and>
      (\<forall>m<MACHINE_NUM. \<forall>v\<in>set (parts ! m). cut_of 48 (all_nghs xs v) (G v)) \<and>
      (\<forall>m<MACHINE_NUM. \<exists>imgs. transfer_b1_to_scala_v3 (junk m) (ucast (li_ids (xs ! m) ! unat (li_medoid (xs ! m)))) (part_sizes parts) (concat (placed G parts)) = Inr imgs \<and>
         fst (out ! m) = imgs ! m)"
proof -
  let ?lp = "label_pos_of (concat parts)" and ?G = "final_graph shuf 48 id2part xs parts" and ?s = "part_sizes parts"
  let ?med = "\<lambda>m. li_ids (xs ! m) ! unat (li_medoid (xs ! m))" and ?els = "part_elements (final_graph shuf 48 id2part xs parts) (label_pos_of (concat parts)) xs parts"
  have lp: "length ?lp = n" and ls: "length ?s = MACHINE_NUM" "length parts = MACHINE_NUM"
    using p by (auto simp: label_pos_length parts_ok_def is_partition_def part_sizes_def)
  obtain files where f: "merge_index net shuf junkc junkb c0 48 len n ?s id2part ?lp (concat parts) (map shard_of xs) = Inr files" "length files = MACHINE_NUM"
      "\<forall>m<MACHINE_NUM. part_b1_file 48 len (?s ! m) (?med m) (?els m) (files ! m)"
    using merge_index_ok [OF p l _ _ _ _ net _ lp, of len shuf 48 c0 junkc junkb] x sh c by auto
  have G: "\<And>m v. m < MACHINE_NUM \<Longrightarrow> v \<in> set (parts ! m) \<Longrightarrow> cut_of 48 (all_nghs xs v) (?G v)"
    using final_graph_cut [OF p, of len xs shuf _ _ 48] x sh by auto
  have sp: "spread ?s (placed ?G parts)" using x by (intro placed_spread [OF p _ G]) auto
  have part: "part_b1_file 48 len (?s ! q) (?med q) (?els q) (files ! q) \<and> map fst (?els q) = placed ?G parts ! q \<and> ?els q \<noteq> []" if "q < length ?s" for q
    using that f(3) ls placed_elements [of q parts] p by (auto simp: part_elements_def parts_ok_def)
  then have "\<exists>d. \<forall>w>0. v3_data w q (length ?s) (?s ! q) max_vid (?els q) = Inr d" if "q < length ?s" for q
    using that by (auto simp: v3_data_def neq_Nil_conv write_chunks_all dest!: part)
  then obtain dat where "\<And>q w. q < length ?s \<Longrightarrow> 0 < w \<Longrightarrow> v3_data w q (length ?s) (?s ! q) max_vid (?els q) = Inr (dat q)" by metis
  then have "transfer_to_scala_v3 junk senders 48 len ?s max_vid files =
     Inr (map (\<lambda>q. (image_of (junk q) (ucast (?med q)) ?s (placed ?G parts) q, dat q)) [0 ..< length ?s])"
    using part by (intro build_run [OF sp sm ls(1) sd]) auto
  then show ?thesis using f(1) G ls(1) single_images [OF sp]
    by (intro exI [of _ files] exI [of _ ?G] exI) (auto simp: ls)
qed

end
