(* ===== verification/Partition_Info.thy ===== *)
theory Partition_Info
  imports Retrieve Merge_Build
begin

text \<open>
  The partition as all machines see it, \<^verbatim>\<open>write_partition_info\<close> and \<^verbatim>\<open>partition_checkpoint\<close> of \<^verbatim>\<open>include/index/scala_build.h\<close>: machine 0
  turns the files of identifiers into the maps between labels, parts and positions, and every machine reads the maps and its own
  identifiers back.  The theorem shows that the maps are those of the partition by the nearest centres.
\<close>

section \<open>Machine 0 writes the maps\<close>

text \<open>\<^verbatim>\<open>malloc\<close> and \<^verbatim>\<open>memset(p, 0, sizeof(p))\<close>: the size of the pointer, so the first two words are cleared, which needs room for two.\<close>

definition new_map :: "(nat \<Rightarrow> u32) \<Rightarrow> nat \<Rightarrow> crash + u32 list" where
  "new_map junk max_vid = (if max_vid < 2 then Inl OutOfBounds else Inr (map (\<lambda>i. if i < 2 then 0 else junk i) [0 ..< max_vid]))"

primrec map_part :: "u32 \<Rightarrow> u32 list \<Rightarrow> u32 list \<Rightarrow> crash + u32 list" where
  "map_part m [] t = Inr t"
| "map_part m (v # vs) t = (if unat v < length t then map_part m vs (t[unat v := m]) else Inl OutOfBounds)"

primrec map_parts :: "nat \<Rightarrow> u32 list list \<Rightarrow> u32 list \<Rightarrow> crash + u32 list" where
  "map_parts m [] t = Inr t"
| "map_parts m (vs # parts) t = (case map_part (word_of_nat m) vs t of Inl e \<Rightarrow> Inl e | Inr t \<Rightarrow> map_parts (m + 1) parts t)"

text \<open>The positions: \<^verbatim>\<open>label2pos_map\<close> and \<^verbatim>\<open>pos2label_map\<close>.\<close>

primrec map_positions :: "nat \<Rightarrow> u32 list \<Rightarrow> u32 list \<times> u32 list \<Rightarrow> crash + u32 list \<times> u32 list" where
  "map_positions pos [] t = Inr t"
| "map_positions pos (v # vs) t =
     (if unat v < length (fst t) \<and> pos < length (snd t)
      then map_positions (pos + 1) vs ((fst t)[unat v := word_of_nat pos], (snd t)[pos := v]) else Inl OutOfBounds)"

record info_files =
  temp_id2part_map_file :: "byte list"
  temp_pos2label_map_file :: "byte list"
  temp_label2pos_map_file :: "byte list"

definition map_file :: "u32 \<Rightarrow> u32 \<Rightarrow> u32 list \<Rightarrow> u32 list \<Rightarrow> byte list" where
  "map_file max_vid num_parts sizes m = enc_u32 max_vid @ enc_u32 num_parts @ concat (map enc_u32 sizes) @ concat (map enc_u32 m)"

text \<open>\<^verbatim>\<open>part_noreplica_ids\<close> and \<^verbatim>\<open>partition_size\<close> have \<^const>\<open>MACHINE_NUM\<close> entries; those past \<open>num_parts\<close> are empty.  \<open>junk k\<close> is the content of the
  \<open>k\<close>-th array allocated.\<close>

definition write_partition_info :: "(nat \<Rightarrow> nat \<Rightarrow> u32) \<Rightarrow> u32 \<Rightarrow> u32 \<Rightarrow> byte list list \<Rightarrow> crash + info_files" where
  "write_partition_info junk max_vid num_parts noreplica_idmap =
     (case new_map (junk 0) (unat max_vid) of
        Inl e \<Rightarrow> Inl e
      | Inr id2part \<Rightarrow>
          (case traverse read_idmap (take (min (unat num_parts) MACHINE_NUM) noreplica_idmap) of
             Inl e \<Rightarrow> Inl e
           | Inr parts \<Rightarrow>
               if unat num_parts > MACHINE_NUM then Inl OutOfBounds
               else let sizes = map (\<lambda>ids. word_of_nat (length ids)) parts in
               (case map_parts 0 parts id2part of
                  Inl e \<Rightarrow> Inl e
                | Inr id2part \<Rightarrow>
                    (case (new_map (junk 1) (unat max_vid), new_map (junk 2) (unat max_vid)) of
                       (Inr lp, Inr pl) \<Rightarrow>
                         (case map_positions 0 (concat parts) (lp, pl) of
                            Inl e \<Rightarrow> Inl e
                          | Inr (lp, pl) \<Rightarrow>
                              Inr \<lparr>temp_id2part_map_file = enc_u32 max_vid @ enc_u32 num_parts @ concat (map enc_u32 id2part),
                                temp_pos2label_map_file = map_file max_vid num_parts sizes pl,
                                temp_label2pos_map_file = map_file max_vid num_parts sizes lp\<rparr>)
                     | _ \<Rightarrow> Inl OutOfBounds))))"

section \<open>Every machine reads them\<close>

record checkpoint =
  local_noreplica_ids :: "u32 list"
  local_replica_ids :: "u32 list"
  local_max_vid :: nat
  kmeans_id2part_map :: "u32 list"
  partition_size :: "u32 list"
  pos2label_map :: "u32 list"
  label2pos_map :: "u32 list"

text \<open>A file that is too short leaves uninitialised values: \<^const>\<open>OutOfBounds\<close>.  Only the position maps are checked for \<^verbatim>\<open>max_vid\<close>.\<close>

definition read_id2part :: "u32 \<Rightarrow> u32 \<Rightarrow> byte list \<Rightarrow> crash + u32 list" where
  "read_id2part max_vid num_parts fil =
     (case do { (_, s) \<leftarrow> rd_u32 fil; (n, s) \<leftarrow> rd_u32 s; Some (n, s) } of
        None \<Rightarrow> Inl OutOfBounds
      | Some (n, s) \<Rightarrow>
          if n \<noteq> num_parts then Inl Abort
          else case rd_many (unat max_vid) rd_u32 s of None \<Rightarrow> Inl OutOfBounds | Some (t, _) \<Rightarrow> Inr t)"

definition read_map :: "u32 \<Rightarrow> u32 \<Rightarrow> byte list \<Rightarrow> crash + u32 list \<times> u32 list" where
  "read_map max_vid num_parts fil =
     (case do { (v, s) \<leftarrow> rd_u32 fil; (n, s) \<leftarrow> rd_u32 s; Some (v, n, s) } of
        None \<Rightarrow> Inl OutOfBounds
      | Some (v, n, s) \<Rightarrow>
          if v \<noteq> max_vid \<or> n \<noteq> num_parts then Inl Abort
          else case do { (sizes, s) \<leftarrow> rd_many (unat num_parts) rd_u32 s; (t, _) \<leftarrow> rd_many (unat max_vid) rd_u32 s; Some (sizes, t) } of
            None \<Rightarrow> Inl OutOfBounds
          | Some r \<Rightarrow> Inr r)"

definition partition_checkpoint :: "u32 \<Rightarrow> u32 \<Rightarrow> nat \<Rightarrow> u32 list \<Rightarrow> nat \<Rightarrow> byte list \<Rightarrow> byte list \<Rightarrow> info_files \<Rightarrow> crash + checkpoint" where
  "partition_checkpoint max_vid num_parts replica_num replica_ids0 max_vid0 noreplica_idmap replica_idmap info =
     (case read_idmap noreplica_idmap of
        Inl e \<Rightarrow> Inl e
      | Inr norp \<Rightarrow>
          (case if replica_num > 1
                then (case read_idmap replica_idmap of Inl e \<Rightarrow> Inl e | Inr ids \<Rightarrow> Inr (ids, foldl (\<lambda>m v. max m (unat v)) 0 ids))
                else Inr (replica_ids0, max_vid0) of
             Inl e \<Rightarrow> Inl e
           | Inr (rp, mx) \<Rightarrow>
               if unat max_vid < 2 then Inl OutOfBounds
               else (case read_id2part max_vid num_parts (temp_id2part_map_file info) of
                  Inl e \<Rightarrow> Inl e
                | Inr id2part \<Rightarrow>
                    (case read_map max_vid num_parts (temp_pos2label_map_file info) of
                       Inl e \<Rightarrow> Inl e
                     | Inr (_, pl) \<Rightarrow>
                         (case read_map max_vid num_parts (temp_label2pos_map_file info) of
                            Inl e \<Rightarrow> Inl e
                          | Inr (sizes, lp) \<Rightarrow>
                              Inr \<lparr>local_noreplica_ids = norp, local_replica_ids = rp, local_max_vid = mx, kmeans_id2part_map = id2part,
                                partition_size = sizes, pos2label_map = pl, label2pos_map = lp\<rparr>)))))"

section \<open>The maps\<close>

lemma new_map_length: "2 \<le> n \<Longrightarrow> \<exists>t. new_map junk n = Inr t \<and> length t = n"
  by (simp add: new_map_def)

lemma map_part_ok:
  "\<forall>v\<in>set vs. unat v < length t \<Longrightarrow> \<exists>t'. map_part m vs t = Inr t' \<and> length t' = length t \<and>
     (\<forall>v. unat v < length t \<longrightarrow> t' ! unat v = (if v \<in> set vs then m else t ! unat v))"
proof (induction vs arbitrary: t)
  case (Cons v vs)
  then obtain t' where t': "map_part m vs (t[unat v := m]) = Inr t'" "length t' = length t"
      "\<And>w. unat w < length t \<Longrightarrow> t' ! unat w = (if w \<in> set vs then m else t[unat v := m] ! unat w)"
    using Cons.IH [of "t[unat v := m]"] by auto
  moreover have "t[unat v := m] ! unat w = (if w = v then m else t ! unat w)" if "unat w < length t" for w
    using that by (simp add: nth_list_update word_unat_eq_iff)
  ultimately show ?case using Cons.prems by auto
qed simp

lemma map_parts_ok:
  assumes "distinct (concat parts)" "\<forall>v\<in>set (concat parts). unat v < length t"
  shows "\<exists>t'. map_parts k parts t = Inr t' \<and> length t' = length t \<and>
    (\<forall>v. unat v < length t \<longrightarrow> v \<notin> set (concat parts) \<longrightarrow> t' ! unat v = t ! unat v) \<and>
    (\<forall>m<length parts. \<forall>v\<in>set (parts ! m). t' ! unat v = word_of_nat (k + m))"
  using assms
proof (induction parts arbitrary: k t)
  case (Cons vs parts)
  obtain t1 where t1: "map_part (word_of_nat k) vs t = Inr t1" "length t1 = length t"
      "\<And>v. unat v < length t \<Longrightarrow> t1 ! unat v = (if v \<in> set vs then word_of_nat k else t ! unat v)"
    using map_part_ok [of vs t "word_of_nat k"] Cons.prems(2) by auto
  obtain t2 where t2: "map_parts (k + 1) parts t1 = Inr t2" "length t2 = length t1"
      "\<And>v. unat v < length t1 \<Longrightarrow> v \<notin> set (concat parts) \<Longrightarrow> t2 ! unat v = t1 ! unat v"
      "\<And>m v. m < length parts \<Longrightarrow> v \<in> set (parts ! m) \<Longrightarrow> t2 ! unat v = word_of_nat (k + 1 + m)"
    using Cons.IH [of t1 "k + 1"] Cons.prems t1(2) by auto
  have "t2 ! unat v = word_of_nat (k + m)" if "m < length (vs # parts)" "v \<in> set ((vs # parts) ! m)" for m v
  proof (cases m)
    case 0
    then have "v \<in> set vs" "v \<notin> set (concat parts)" using that(2) Cons.prems(1) by auto
    then show ?thesis using 0 t1 t2(3) Cons.prems(2) by simp
  next
    case (Suc m')
    then show ?thesis using that t2(4) [of m' v] by simp
  qed
  then show ?case using t1 t2 by (intro exI [of _ t2]) auto
qed simp

text \<open>The positions after the identifiers \<open>d\<close>.\<close>

definition positions :: "u32 list \<Rightarrow> u32 list \<times> u32 list \<Rightarrow> bool" where
  "positions d t \<longleftrightarrow> take (length d) (snd t) = d \<and> (\<forall>v\<in>set d. fst t ! unat v = word_of_nat (label_index d v))"

lemma map_positions_ok:
  assumes "positions d t" "labels_ok n (d @ vs)" "length (fst t) = n" "length (snd t) = n"
  shows "\<exists>t'. map_positions (length d) vs t = Inr t' \<and> positions (d @ vs) t' \<and> length (fst t') = n \<and> length (snd t') = n"
  using assms
proof (induction vs arbitrary: d t)
  case (Cons v vs)
  have ok: "labels_ok n (d @ [v])" "labels_ok n ((d @ [v]) @ vs)" using Cons.prems(2) labels_ok_append [of n "d @ [v]" vs] by simp_all
  have l: "length d < n" using labels_ok_length [OF ok(1)] by simp
  have v: "unat v < n" "v \<notin> set d" using ok(1) by (auto simp: labels_ok_def)
  let ?t = "((fst t)[unat v := word_of_nat (length d)], (snd t)[length d := v])"
  have "take (Suc (length d)) ((snd t)[length d := v]) = d @ [v]"
    using Cons.prems(1,4) l by (simp add: positions_def take_Suc_conv_app_nth)
  moreover have "(fst t)[unat v := word_of_nat (length d)] ! unat w = word_of_nat (label_index (d @ [v]) w)" if "w \<in> set (d @ [v])" for w
  proof (cases "w = v")
    case False
    then have "unat w \<noteq> unat v" "w \<in> set d" using that by (auto simp: word_unat_eq_iff)
    then show ?thesis using Cons.prems(1) by (simp add: positions_def)
  qed (use v Cons.prems(3) in simp)
  ultimately have "positions (d @ [v]) ?t" by (simp add: positions_def)
  then obtain t' where "map_positions (length (d @ [v])) vs ?t = Inr t'" "positions ((d @ [v]) @ vs) t'" "length (fst t') = n" "length (snd t') = n"
    using Cons.IH [of "d @ [v]" ?t] ok(2) Cons.prems(3,4) by auto
  then show ?case using v l Cons.prems(3,4) by simp
qed simp

lemma positions_all:
  assumes "positions d (lp, pl)" "labels_ok n d" "length d = n" "n \<le> 2 ^ 32" "length lp = n" "length pl = n"
  shows "pl = d" "lp = label_pos_of d"
proof -
  show "pl = d" using assms by (simp add: positions_def)
  show "lp = label_pos_of d"
  proof (rule nth_equalityI)
    show "length lp = length (label_pos_of d)" using assms by (simp add: label_pos_of_def)
    fix i assume i: "i < length lp"
    then have "word_of_nat i \<in> set d" using assms by (intro labels_all [of n]) auto
    then have "lp ! unat (word_of_nat i :: u32) = word_of_nat (label_index d (word_of_nat i))" using assms(1) by (simp add: positions_def)
    then show "lp ! i = label_pos_of d ! i" using i assms by (simp add: label_pos_of_def)
  qed
qed

lemma read_map_file: "length sizes = unat num_parts \<Longrightarrow> length t = unat max_vid \<Longrightarrow> read_map max_vid num_parts (map_file max_vid num_parts sizes t) = Inr (sizes, t)"
  using u32.rd_many_enc [of sizes "concat (map enc_u32 t)"] u32.rd_many_enc [of t "[]"] by (simp add: read_map_def map_file_def codec_simps)

lemma read_id2part_file: "length t = unat max_vid \<Longrightarrow> read_id2part max_vid num_parts (enc_u32 max_vid @ enc_u32 num_parts @ concat (map enc_u32 t)) = Inr t"
  using u32.rd_many_enc [of t "[]"] by (simp add: read_id2part_def codec_simps)

definition info_of :: "u32 \<Rightarrow> u32 list list \<Rightarrow> u32 list \<Rightarrow> info_files" where
  "info_of max_vid parts id2part =
     \<lparr>temp_id2part_map_file = enc_u32 max_vid @ enc_u32 (word_of_nat MACHINE_NUM) @ concat (map enc_u32 id2part),
      temp_pos2label_map_file = map_file max_vid (word_of_nat MACHINE_NUM) (part_sizes parts) (concat parts),
      temp_label2pos_map_file = map_file max_vid (word_of_nat MACHINE_NUM) (part_sizes parts) (label_pos_of (concat parts))\<rparr>"

lemma unat_machines: "unat (word_of_nat MACHINE_NUM :: u32) = MACHINE_NUM"
  by (simp add: MACHINE_NUM_def)

lemma write_info_ok:
  assumes p: "is_partition (unat max_vid) parts" "length parts = MACHINE_NUM" and n: "2 \<le> unat max_vid"
  shows "\<exists>id2part. write_partition_info junk max_vid (word_of_nat MACHINE_NUM) (map idmap_file parts) = Inr (info_of max_vid parts id2part) \<and>
    length id2part = unat max_vid \<and> (\<forall>m<MACHINE_NUM. \<forall>v\<in>set (parts ! m). part_of id2part v = Some m)"
proof -
  let ?n = "unat max_vid" and ?d = "concat parts"
  have d: "labels_ok ?n ?d" "length ?d = ?n" using p(1) by (simp_all add: is_partition_def)
  have len: "length ids < 2 ^ 32" if "ids \<in> set parts" for ids
  proof -
    from that obtain xs ys where "parts = xs @ ids # ys" by (meson split_list)
    then have "length ids \<le> ?n" using d(2) by simp
    then show ?thesis using unat_lt [of max_vid] by simp
  qed
  have t: "traverse read_idmap (map idmap_file parts) = Inr parts"
    using len by (induction parts) (auto simp: read_idmap_file)
  obtain t0 lp0 pl0 where m: "new_map (junk 0) ?n = Inr t0" "length t0 = ?n" "new_map (junk 1) ?n = Inr lp0" "length lp0 = ?n" "new_map (junk 2) ?n = Inr pl0" "length pl0 = ?n"
    using new_map_length [OF n, of "junk 0"] new_map_length [OF n, of "junk 1"] new_map_length [OF n, of "junk 2"] by blast
  obtain id2part where i: "map_parts 0 parts t0 = Inr id2part" "length id2part = ?n" "\<And>m v. m < MACHINE_NUM \<Longrightarrow> v \<in> set (parts ! m) \<Longrightarrow> id2part ! unat v = word_of_nat m"
    using map_parts_ok [of parts t0 0] d(1) m(2) p(2) by (auto simp: labels_ok_def)
  obtain lp pl where "map_positions 0 ?d (lp0, pl0) = Inr (lp, pl)" "positions ?d (lp, pl)" "length lp = ?n" "length pl = ?n"
    using map_positions_ok [of "[]" "(lp0, pl0)" ?n ?d] d(1) m by (auto simp: positions_def)
  moreover from this have "pl = ?d" "lp = label_pos_of ?d" using positions_all [of ?d lp pl ?n] d unat_lt [of max_vid] by auto
  ultimately have w: "write_partition_info junk max_vid (word_of_nat MACHINE_NUM) (map idmap_file parts) = Inr (info_of max_vid parts id2part)"
    using m(1,3,5) i(1) t p(2) by (simp add: write_partition_info_def info_of_def unat_machines part_sizes_def Let_def)
  have "part_of id2part v = Some m" if "m < MACHINE_NUM" "v \<in> set (parts ! m)" for m v
  proof -
    have "v \<in> set ?d" using that p(2) nth_mem by auto
    then have "unat v < ?n" using d(1) by (auto simp: labels_ok_def)
    then show ?thesis using i(2) i(3) [OF that] that(1) by (simp add: part_of_def MACHINE_NUM_def)
  qed
  then show ?thesis using w i(2) by blast
qed

lemma foldl_max_sorted: "sorted_wrt (<) (ids :: u32 list) \<Longrightarrow> foldl (\<lambda>m v. max m (unat v)) k ids = (if ids = [] then k else max k (unat (last ids)))"
proof (induction ids arbitrary: k)
  case (Cons a ids)
  have "ids \<noteq> [] \<Longrightarrow> unat a < unat (last ids)" using Cons.prems last_in_set [of ids] by (auto simp: word_less_nat_alt)
  then show ?case using Cons by auto
qed simp

lemma checkpoint_ok:
  assumes "length parts = MACHINE_NUM" "length (concat parts) = unat max_vid" "length id2part = unat max_vid" "2 \<le> unat max_vid" "1 < k"
    "length norp < 2 ^ 32" "length rp < 2 ^ 32" "sorted_wrt (<) rp"
  shows "partition_checkpoint max_vid (word_of_nat MACHINE_NUM) k r0 v0 (idmap_file norp) (idmap_file rp) (info_of max_vid parts id2part) =
    Inr \<lparr>local_noreplica_ids = norp, local_replica_ids = rp, local_max_vid = (if rp = [] then 0 else unat (last rp)), kmeans_id2part_map = id2part,
      partition_size = part_sizes parts, pos2label_map = concat parts, label2pos_map = label_pos_of (concat parts)\<rparr>"
  using assms read_map_file [of "part_sizes parts" "word_of_nat MACHINE_NUM" "concat parts" max_vid]
    read_map_file [of "part_sizes parts" "word_of_nat MACHINE_NUM" "label_pos_of (concat parts)" max_vid]
    read_id2part_file [of id2part max_vid "word_of_nat MACHINE_NUM"]
  by (simp add: partition_checkpoint_def read_idmap_file info_of_def part_sizes_def unat_machines label_pos_length foldl_max_sorted)

section \<open>From the centres to the partition\<close>

definition weights_ok :: "weight \<Rightarrow> weight list \<Rightarrow> weight list \<Rightarrow> bool" where
  "weights_ok fmax ws rws \<longleftrightarrow> length ws = MACHINE_NUM \<and> length rws = MACHINE_NUM \<and> (\<exists>w\<in>set ws. w < fmax)"

definition parts_of :: "(nat \<Rightarrow> u32 list) \<Rightarrow> nat \<Rightarrow> u32 list list" where
  "parts_of cl n = map (members (first_shard cl) n) [0 ..< MACHINE_NUM]"

definition replicas_of :: "(nat \<Rightarrow> u32 list) \<Rightarrow> nat \<Rightarrow> u32 list list" where
  "replicas_of cl n = map (members (any_shard cl) n) [0 ..< MACHINE_NUM]"

lemma nearest_centers:
  assumes "unat c < N" "nearest k (Some (unat c)) ws cs" "length ws = N"
  shows "centers_ok N (c # cs)" "length (c # cs) = Suc k"
  using assms by (auto simp: centers_ok_def nearest_def)

definition centers :: "(nat \<Rightarrow> u32) \<Rightarrow> weight \<Rightarrow> nat \<Rightarrow> (nat \<Rightarrow> weight list) \<Rightarrow> (nat \<Rightarrow> weight list) \<Rightarrow> nat \<Rightarrow> u32 list" where
  "centers junk fmax k ws rws i = projr (closest_norp_rp (junk i) fmax k (ws i) (rws i))"

lemma centers_chosen:
  assumes "weights_ok fmax (ws i) (rws i)" "0 < k" "k \<le> MACHINE_NUM"
  shows "closest_norp_rp (junk i) fmax k (ws i) (rws i) = Inr (centers junk fmax k ws rws i)" "centers_ok MACHINE_NUM (centers junk fmax k ws rws i)"
    "length (centers junk fmax k ws rws i) = k" "w \<in> set (ws i) \<Longrightarrow> ws i ! unat (hd (centers junk fmax k ws rws i)) \<le> w"
proof -
  obtain c cs where "closest_norp_rp (junk i) fmax k (ws i) (rws i) = Inr (c # cs)" "unat c < MACHINE_NUM" "\<forall>w\<in>set (ws i). ws i ! unat c \<le> w"
      "nearest (k - 1) (Some (unat c)) (rws i) cs"
    using closest_norp_rp_ok [of "ws i" MACHINE_NUM "rws i" k fmax "junk i"] assms by (auto simp: weights_ok_def MACHINE_NUM_def)
  moreover from this have "centers_ok MACHINE_NUM (c # cs)" "length (c # cs) = k"
    using nearest_centers [of c MACHINE_NUM "k - 1" "rws i" cs] assms by (auto simp: weights_ok_def)
  ultimately show "closest_norp_rp (junk i) fmax k (ws i) (rws i) = Inr (centers junk fmax k ws rws i)" "centers_ok MACHINE_NUM (centers junk fmax k ws rws i)"
    "length (centers junk fmax k ws rws i) = k" "w \<in> set (ws i) \<Longrightarrow> ws i ! unat (hd (centers junk fmax k ws rws i)) \<le> w"
    by (simp_all add: centers_def)
qed

lemma shard_facts:
  assumes "n \<le> 2 ^ 32" "\<And>i. i < n \<Longrightarrow> centers_ok MACHINE_NUM (cl i)" "m < MACHINE_NUM"
  shows "ids_ok n (parts_of cl n ! m)" "ids_ok n (replicas_of cl n ! m)" "set (parts_of cl n ! m) \<subseteq> set (replicas_of cl n ! m)"
proof -
  show "ids_ok n (parts_of cl n ! m)" "ids_ok n (replicas_of cl n ! m)"
    using assms(1,3) members_sorted [OF assms(1)] members_in [OF assms(1)] by (simp_all add: ids_ok_def parts_of_def replicas_of_def)
  have "set (members (first_shard cl) n m) \<subseteq> set (members (any_shard cl) n m)"
  proof (rule members_subset)
    fix i assume "i < n" "first_shard cl i m"
    then show "any_shard cl i m" using assms(2) [of i] by (cases "cl i") (auto simp: centers_ok_def first_shard_def any_shard_def)
  qed
  then show "set (parts_of cl n ! m) \<subseteq> set (replicas_of cl n ! m)" using assms(3) by (simp add: parts_of_def replicas_of_def)
qed

lemma partition_run:
  assumes n: "2 \<le> unat npts" and cl: "\<And>i. i < unat npts \<Longrightarrow> closest_norp_rp (junk i) fmax k (ws i) (rws i) = Inr (cl i) \<and> centers_ok MACHINE_NUM (cl i)" and k: "1 < k"
  shows "shard_data_into_clusters_with_and_without_replica junk fmax ws rws npts dim MACHINE_NUM (unat dim) k =
      Inr (Some (map idmap_file (parts_of cl (unat npts)), map idmap_file (replicas_of cl (unat npts))))"
    "\<exists>id2part. write_partition_info junkw npts (word_of_nat MACHINE_NUM) (map idmap_file (parts_of cl (unat npts))) = Inr (info_of npts (parts_of cl (unat npts)) id2part) \<and>
      (\<forall>m<MACHINE_NUM. \<forall>v\<in>set (parts_of cl (unat npts) ! m). part_of id2part v = Some m) \<and>
      (\<forall>m<MACHINE_NUM. partition_checkpoint npts (word_of_nat MACHINE_NUM) k r0 v0 (map idmap_file (parts_of cl (unat npts)) ! m) (map idmap_file (replicas_of cl (unat npts)) ! m)
          (info_of npts (parts_of cl (unat npts)) id2part) =
        Inr \<lparr>local_noreplica_ids = parts_of cl (unat npts) ! m, local_replica_ids = replicas_of cl (unat npts) ! m,
          local_max_vid = (let rp = replicas_of cl (unat npts) ! m in if rp = [] then 0 else unat (last rp)), kmeans_id2part_map = id2part,
          partition_size = part_sizes (parts_of cl (unat npts)), pos2label_map = concat (parts_of cl (unat npts)), label2pos_map = label_pos_of (concat (parts_of cl (unat npts)))\<rparr>)"
    "is_partition (unat npts) (parts_of cl (unat npts))"
proof -
  let ?n = "unat npts"
  let ?p = "parts_of cl ?n" and ?r = "replicas_of cl ?n"
  have n32: "?n \<le> 2 ^ 32" using unat_lt [of npts] by simp
  show "shard_data_into_clusters_with_and_without_replica junk fmax ws rws npts dim MACHINE_NUM (unat dim) k = Inr (Some (map idmap_file ?p, map idmap_file ?r))"
    using shard_with_and_without [of npts junk fmax k ws rws cl MACHINE_NUM dim] n cl by (simp add: parts_of_def replicas_of_def comp_def)
  show p: "is_partition ?n ?p" unfolding parts_of_def using first_shard_partition [OF n32] cl by blast
  have l: "length ?p = MACHINE_NUM" "length ?r = MACHINE_NUM" by (simp_all add: parts_of_def replicas_of_def)
  obtain id2part where i: "write_partition_info junkw npts (word_of_nat MACHINE_NUM) (map idmap_file ?p) = Inr (info_of npts ?p id2part)" "length id2part = ?n"
      "\<forall>m<MACHINE_NUM. \<forall>v\<in>set (?p ! m). part_of id2part v = Some m"
    using write_info_ok [OF p l(1) n] by blast
  have "ids_ok ?n (?p ! m)" "ids_ok ?n (?r ! m)" if "m < MACHINE_NUM" for m using shard_facts [OF n32 _ that, of cl] cl by auto
  then have s: "length (?p ! m) < 2 ^ 32" "length (?r ! m) < 2 ^ 32" "sorted_wrt (<) (?r ! m)" if "m < MACHINE_NUM" for m
    using that ids_ok_length unat_lt [of npts] by (fastforce simp: ids_ok_def)+
  show "\<exists>id2part. write_partition_info junkw npts (word_of_nat MACHINE_NUM) (map idmap_file ?p) = Inr (info_of npts ?p id2part) \<and>
      (\<forall>m<MACHINE_NUM. \<forall>v\<in>set (?p ! m). part_of id2part v = Some m) \<and>
      (\<forall>m<MACHINE_NUM. partition_checkpoint npts (word_of_nat MACHINE_NUM) k r0 v0 (map idmap_file ?p ! m) (map idmap_file ?r ! m) (info_of npts ?p id2part) =
        Inr \<lparr>local_noreplica_ids = ?p ! m, local_replica_ids = ?r ! m, local_max_vid = (let rp = ?r ! m in if rp = [] then 0 else unat (last rp)), kmeans_id2part_map = id2part,
          partition_size = part_sizes ?p, pos2label_map = concat ?p, label2pos_map = label_pos_of (concat ?p)\<rparr>)"
  proof (intro exI [of _ id2part] conjI allI impI)
    fix m assume m: "m < MACHINE_NUM"
    have "length (concat ?p) = ?n" using p by (simp add: is_partition_def)
    from checkpoint_ok [OF l(1) this i(2) n k s [OF m]]
    show "partition_checkpoint npts (word_of_nat MACHINE_NUM) k r0 v0 (map idmap_file ?p ! m) (map idmap_file ?r ! m) (info_of npts ?p id2part) =
        Inr \<lparr>local_noreplica_ids = ?p ! m, local_replica_ids = ?r ! m, local_max_vid = (let rp = ?r ! m in if rp = [] then 0 else unat (last rp)), kmeans_id2part_map = id2part,
          partition_size = part_sizes ?p, pos2label_map = concat ?p, label2pos_map = label_pos_of (concat ?p)\<rparr>"
      using m l by simp
  qed (use i in auto)
qed

section \<open>Sixteen vectors\<close>

text \<open>Vector \<open>i\<close> is nearest to centre \<open>i\<close>, and its second centre is the one before it.\<close>

definition ring_center :: "nat \<Rightarrow> weight list" where
  "ring_center i = map (\<lambda>j. if j = i then 0 else 1) [0 ..< 16]"

lemma ring_weights: "weights_ok 9 (ring_center i) (ring_center j)"
proof -
  have "ring_center i ! 0 < 9" "ring_center i ! 0 \<in> set (ring_center i)" by (simp add: ring_center_def, rule nth_mem, simp add: ring_center_def)
  then show ?thesis by (auto simp: weights_ok_def ring_center_def MACHINE_NUM_def)
qed

section \<open>Properties\<close>

text \<open>Property C14.  The partition is well formed: for all weighted distances with a number among those of every vector, the identifiers are written, the maps are
  written from them, and every machine reads back its own part and shard with replicas and the same maps; the parts are a partition of the vectors in ascending order, a vector is in the part of
  its nearest centre and in \<open>k\<close> shards with that one among them, and the map of labels to parts and the two maps between labels and positions are those of the parts.\<close>

theorem partition_established:
  assumes n: "2 \<le> unat npts" and w: "\<forall>i<unat npts. weights_ok fmax (ws i) (rws i)" and k: "1 < k" "k \<le> MACHINE_NUM"
  shows "\<exists>norp rp info id2part cl. shard_data_into_clusters_with_and_without_replica junk fmax ws rws npts dim MACHINE_NUM (unat dim) k = Inr (Some (norp, rp)) \<and>
      write_partition_info junkw npts (word_of_nat MACHINE_NUM) norp = Inr info \<and>
      (\<forall>m<MACHINE_NUM. partition_checkpoint npts (word_of_nat MACHINE_NUM) k r0 v0 (norp ! m) (rp ! m) info =
        Inr \<lparr>local_noreplica_ids = parts_of cl (unat npts) ! m, local_replica_ids = replicas_of cl (unat npts) ! m,
          local_max_vid = (let rp = replicas_of cl (unat npts) ! m in if rp = [] then 0 else unat (last rp)), kmeans_id2part_map = id2part,
          partition_size = part_sizes (parts_of cl (unat npts)), pos2label_map = concat (parts_of cl (unat npts)), label2pos_map = label_pos_of (concat (parts_of cl (unat npts)))\<rparr>) \<and>
      is_partition (unat npts) (parts_of cl (unat npts)) \<and>
      (\<forall>m<MACHINE_NUM. sorted_wrt (<) (parts_of cl (unat npts) ! m) \<and> sorted_wrt (<) (replicas_of cl (unat npts) ! m) \<and>
         set (parts_of cl (unat npts) ! m) \<subseteq> set (replicas_of cl (unat npts) ! m) \<and> (\<forall>v\<in>set (parts_of cl (unat npts) ! m). part_of id2part v = Some m)) \<and>
      (\<forall>i<unat npts. distinct (cl i) \<and> length (cl i) = k \<and> (\<forall>c\<in>set (cl i). unat c < MACHINE_NUM) \<and> (\<forall>w\<in>set (ws i). ws i ! unat (hd (cl i)) \<le> w))"
proof -
  let ?cl = "centers junk fmax k ws rws"
  have c: "closest_norp_rp (junk i) fmax k (ws i) (rws i) = Inr (?cl i) \<and> centers_ok MACHINE_NUM (?cl i)" "length (?cl i) = k"
      "\<forall>w\<in>set (ws i). ws i ! unat (hd (?cl i)) \<le> w" if "i < unat npts" for i
    using centers_chosen [where fmax = fmax and ws = ws and i = i and rws = rws and k = k and junk = junk] w that k by auto
  note run = partition_run [where cl = ?cl and npts = npts and junk = junk and fmax = fmax and k = k and ws = ws and rws = rws, OF n c(1) k(1)]
  obtain id2part where i: "write_partition_info junkw npts (word_of_nat MACHINE_NUM) (map idmap_file (parts_of ?cl (unat npts))) = Inr (info_of npts (parts_of ?cl (unat npts)) id2part)"
      "\<forall>m<MACHINE_NUM. \<forall>v\<in>set (parts_of ?cl (unat npts) ! m). part_of id2part v = Some m"
      "\<forall>m<MACHINE_NUM. partition_checkpoint npts (word_of_nat MACHINE_NUM) k r0 v0 (map idmap_file (parts_of ?cl (unat npts)) ! m) (map idmap_file (replicas_of ?cl (unat npts)) ! m)
          (info_of npts (parts_of ?cl (unat npts)) id2part) =
        Inr \<lparr>local_noreplica_ids = parts_of ?cl (unat npts) ! m, local_replica_ids = replicas_of ?cl (unat npts) ! m,
          local_max_vid = (let rp = replicas_of ?cl (unat npts) ! m in if rp = [] then 0 else unat (last rp)), kmeans_id2part_map = id2part,
          partition_size = part_sizes (parts_of ?cl (unat npts)), pos2label_map = concat (parts_of ?cl (unat npts)), label2pos_map = label_pos_of (concat (parts_of ?cl (unat npts)))\<rparr>"
    using run(2) [where junkw = junkw and ?r0.0 = r0 and ?v0.0 = v0] by blast
  have "\<forall>m<MACHINE_NUM. sorted_wrt (<) (parts_of ?cl (unat npts) ! m) \<and> sorted_wrt (<) (replicas_of ?cl (unat npts) ! m) \<and>
      set (parts_of ?cl (unat npts) ! m) \<subseteq> set (replicas_of ?cl (unat npts) ! m)"
    using shard_facts [of "unat npts" ?cl] c(1) unat_lt [of npts] by (auto simp: ids_ok_def)
  moreover have "\<forall>i<unat npts. distinct (?cl i) \<and> length (?cl i) = k \<and> (\<forall>c\<in>set (?cl i). unat c < MACHINE_NUM) \<and> (\<forall>w\<in>set (ws i). ws i ! unat (hd (?cl i)) \<le> w)"
    using c by (simp add: centers_ok_def)
  ultimately show ?thesis using run(1) [where dim = dim] run(3) i by blast
qed

theorem partition_established_witness:
  "\<exists>norp rp info id2part cl. shard_data_into_clusters_with_and_without_replica (\<lambda>i. 99) 9 ring_center (\<lambda>i. ring_center ((i + 15) mod 16)) 16 1 MACHINE_NUM 1 2 = Inr (Some (norp, rp)) \<and>
      write_partition_info (\<lambda>k i. 7) 16 (word_of_nat MACHINE_NUM) norp = Inr info \<and> is_partition 16 (parts_of cl 16) \<and>
      (\<forall>v\<in>set (parts_of cl 16 ! 3). part_of id2part v = Some 3) \<and> length (cl 3) = 2"
proof -
  have "\<forall>i<unat (16 :: u32). weights_ok 9 (ring_center i) (ring_center ((i + 15) mod 16))" using ring_weights by blast
  moreover have "2 \<le> unat (16 :: u32)" "(1 :: nat) < 2" "2 \<le> MACHINE_NUM" "unat (1 :: u32) = 1" "3 < MACHINE_NUM" "3 < unat (16 :: u32)" "unat (16 :: u32) = 16"
    by (simp_all add: MACHINE_NUM_def)
  ultimately show ?thesis
    using partition_established [of 16 9 ring_center "\<lambda>i. ring_center ((i + 15) mod 16)" 2 "\<lambda>i. 99" 1 "\<lambda>k i. 7" "[]" 0] by metis
qed

end
