(* ===== verification/Index_Run.thy ===== *)
theory Index_Run
  imports Partition_Info
begin

text \<open>
  The index build as a whole, \<^verbatim>\<open>tests/scala_index.cc\<close> for the V3 graph: partition of the vectors, copying of the shards, the maps, the local graphs, the merge and the V3
  build, on all machines.  The theorem composes the theorems of the parts into one about the files that come out for the file of vectors that goes in.
\<close>

section \<open>From the vectors to the index files\<close>

text \<open>The local graph that \<^verbatim>\<open>diskann::Index\<close> builds over a file of vectors and saves.\<close>

record vamana =
  vm_size :: u64
  vm_width :: nat
  vm_medoid :: u32
  vm_adj :: "u32 list list"

text \<open>What the run does not determine: the weighted distances, the memory that is not initialised, the graphs of the library, the order of the messages and the
  shuffles.\<close>

record build_env =
  be_junk_center :: "nat \<Rightarrow> u32"
  be_fmax :: weight
  be_norp :: "nat \<Rightarrow> weight list"
  be_rp :: "nat \<Rightarrow> weight list"
  be_junk_rp :: "nat \<Rightarrow> nat \<Rightarrow> u32"
  be_junk_norp :: "nat \<Rightarrow> nat \<Rightarrow> u32"
  be_junk_map :: "nat \<Rightarrow> nat \<Rightarrow> u32"
  be_index :: "nat \<Rightarrow> byte list \<Rightarrow> vamana"
  be_net :: network
  be_shuffle :: "nat \<Rightarrow> nat \<Rightarrow> u32 list \<Rightarrow> u32 list"
  be_junk_collect :: "nat \<Rightarrow> nat \<Rightarrow> u32"
  be_junk_b1 :: "nat \<Rightarrow> nat \<Rightarrow> byte"
  be_collector :: "nat \<Rightarrow> collector"
  be_junk_v3 :: "nat \<Rightarrow> nat \<Rightarrow> byte"
  be_senders :: "nat \<Rightarrow> nat list"

definition build_shard :: "build_env \<Rightarrow> byte list list \<Rightarrow> byte list list \<Rightarrow> checkpoint list \<Rightarrow> nat \<Rightarrow> shard" where
  "build_shard env rbase nbase cps m =
     (let g = be_index env m (rbase ! m) in
      \<lparr>sh_ids = local_replica_ids (cps ! m), sh_file = vamana_file (vm_size g) (vm_width g) (vm_medoid g) 0 (vm_adj g), sh_base = nbase ! m\<rparr>)"

text \<open>The program \<^verbatim>\<open>tests/scala_index.cc\<close> for the V3 graph with \<^verbatim>\<open>max_degree\<close> 48, from \<^verbatim>\<open>partition()\<close> to \<^verbatim>\<open>transfer_to_scala_v3()\<close>: the machines read the same map files, so
  that the tables of machine 0 are those of all.  The exchange of the file names between \<^verbatim>\<open>partition()\<close> and \<^verbatim>\<open>build()\<close>
  (\<^verbatim>\<open>swap_partition_info()\<close>) and what machine 0 does afterwards (\<^verbatim>\<open>merge_all_b1_index()\<close>, the top index) are not part of it.\<close>

definition scala_index :: "build_env \<Rightarrow> nat \<Rightarrow> nat \<Rightarrow> u32 \<Rightarrow> byte list \<Rightarrow> crash + (byte list \<times> byte list) list" where
  "scala_index env sizeT index_dim max_vid data =
     (case do { (npts32, s) \<leftarrow> rd_u32 data; (basedim32, s) \<leftarrow> rd_u32 s; Some (npts32, basedim32) } of
        None \<Rightarrow> Inl OutOfBounds
      | Some (npts32, basedim32) \<Rightarrow>
     if unat basedim32 \<noteq> index_dim then Inl Abort else
     (case shard_data_into_clusters_with_and_without_replica (be_junk_center env) (be_fmax env) (be_norp env) (be_rp env) npts32 basedim32 MACHINE_NUM index_dim 2 of
        Inl e \<Rightarrow> Inl e
      | Inr None \<Rightarrow> Inl Abort
      | Inr (Some (norp, rp)) \<Rightarrow>
     (case retrieve_shard_data_from_ids (be_junk_rp env) (be_junk_norp env) sizeT 2 MACHINE_NUM index_dim rp norp data of
        Inl e \<Rightarrow> Inl e
      | Inr (rbase, nbase) \<Rightarrow>
     (case write_partition_info (be_junk_map env) max_vid (word_of_nat MACHINE_NUM) norp of
        Inl e \<Rightarrow> Inl e
      | Inr info \<Rightarrow>
     (case traverse (\<lambda>m. partition_checkpoint max_vid (word_of_nat MACHINE_NUM) 2 [] 0 (norp ! m) (rp ! m) info) [0 ..< MACHINE_NUM] of
        Inl e \<Rightarrow> Inl e
      | Inr cps \<Rightarrow>
          let cp = cps ! 0; len = sizeT * index_dim in
     (case merge_index (be_net env) (be_shuffle env) (be_junk_collect env) (be_junk_b1 env) (be_collector env) 48 len (unat max_vid) (partition_size cp)
             (kmeans_id2part_map cp) (label2pos_map cp) (pos2label_map cp) (map (build_shard env rbase nbase cps) [0 ..< MACHINE_NUM]) of
        Inl e \<Rightarrow> Inl e
      | Inr files \<Rightarrow> transfer_to_scala_v3 (be_junk_v3 env) (be_senders env) 48 len (partition_size cp) max_vid files))))))"

text \<open>What the run relies on: a graph over \<open>k\<close> vectors, and clusters that are not empty and not too large.\<close>

definition vamana_ok :: "nat \<Rightarrow> vamana \<Rightarrow> bool" where
  "vamana_ok k g \<longleftrightarrow> length (vm_adj g) = k \<and> (\<forall>ns\<in>set (vm_adj g). ns \<noteq> [] \<and> length ns < 2 ^ 32 - 1 \<and> (\<forall>j\<in>set ns. unat j < k)) \<and> unat (vm_medoid g) < k \<and>
     (\<Sum>ns\<leftarrow>vm_adj g. Suc (length ns)) < 2 ^ 32"

definition env_centers :: "build_env \<Rightarrow> nat \<Rightarrow> u32 list" where
  "env_centers env = centers (be_junk_center env) (be_fmax env) 2 (be_norp env) (be_rp env)"

definition env_ok :: "nat \<Rightarrow> build_env \<Rightarrow> bool" where
  "env_ok n env \<longleftrightarrow> (\<forall>i<n. weights_ok (be_fmax env) (be_norp env i) (be_rp env i)) \<and>
     (\<forall>m<MACHINE_NUM. parts_of (env_centers env) n ! m \<noteq> [] \<and> 48 * length (parts_of (env_centers env) n ! m) < 2 ^ 32) \<and>
     (\<forall>p k. n \<le> unat (be_junk_rp env p k) \<and> n \<le> unat (be_junk_norp env p k)) \<and>
     network_ok (be_net env) \<and> (\<forall>m. shuffles (be_shuffle env m)) \<and> (\<forall>m. shaped (be_collector env m)) \<and> senders_ok (be_senders env)"

text \<open>The local index of machine \<open>m\<close>.\<close>

definition env_local :: "build_env \<Rightarrow> u32 \<Rightarrow> byte list list \<Rightarrow> u32 list list \<Rightarrow> u32 list list \<Rightarrow> nat \<Rightarrow> local_index" where
  "env_local env dim rows parts reps m =
     (let g = be_index env m (rows_file dim rows (reps ! m)) in
      \<lparr>li_size = vm_size g, li_width = vm_width g, li_header = enc_u32 (word_of_nat (length (parts ! m))) @ enc_u32 dim,
       li_ids = reps ! m, li_adj = vm_adj g, li_medoid = vm_medoid g, li_rows = map (\<lambda>v. rows ! unat v) (parts ! m)\<rparr>)"

lemma length_stream_records: "length adj = length ids \<Longrightarrow> length (stream (records ids adj)) = (\<Sum>ns\<leftarrow>adj. Suc (length ns))"
proof -
  have "length (stream (zip ids (map f adj))) = (\<Sum>ns\<leftarrow>adj. Suc (length (f ns)))" if "length adj = length ids" for f and ids :: "u32 list"
    using that by (induction ids adj rule: list_induct2') auto
  then show "length adj = length ids \<Longrightarrow> ?thesis" by (simp add: records_def rename_def)
qed

lemma local_index_ok:
  assumes "ids_ok n (parts ! m)" "ids_ok n (reps ! m)" "set (parts ! m) \<subseteq> set (reps ! m)" "length rows = n" "list_all (\<lambda>r. length r = len) rows"
    and v: "\<And>v. unat v < n \<Longrightarrow> part_of id2part v \<noteq> None" and g: "vamana_ok (length (reps ! m)) (be_index env m (rows_file dim rows (reps ! m)))"
  shows "index_ok n len (parts ! m) id2part (env_local env dim rows parts reps m)"
proof -
  let ?g = "be_index env m (rows_file dim rows (reps ! m))"
  have "list_all (\<lambda>r. length r = len) (map (\<lambda>v. rows ! unat v) (parts ! m))"
    using assms(1,4,5) by (auto simp: list_all_iff ids_ok_def)
  moreover have "shard_ok id2part (reps ! m) (vm_adj ?g)" using g v assms(2) by (auto simp: vamana_ok_def shard_ok_def ids_ok_def)
  ultimately show ?thesis
    using assms g length_stream_records [of "vm_adj ?g" "reps ! m"]
    by (simp add: index_ok_def env_local_def Let_def ids_ok_def vamana_ok_def len_simps)
qed

lemma env_parts_ok:
  assumes "env_ok n env" "is_partition n (parts_of (env_centers env) n)" "n \<le> 2 ^ 31"
    "\<forall>m<MACHINE_NUM. \<forall>v\<in>set (parts_of (env_centers env) n ! m). part_of id2part v = Some m"
  shows "parts_ok n (parts_of (env_centers env) n) id2part" "small_parts (part_sizes (parts_of (env_centers env) n))"
proof -
  have "sorted_wrt (<) (parts_of (env_centers env) n ! m)" if "m < MACHINE_NUM" for m
    using that assms(3) members_sorted [of n] by (simp add: parts_of_def)
  then show p: "parts_ok n (parts_of (env_centers env) n) id2part" using assms by (simp add: parts_ok_def env_ok_def parts_of_def)
  show "small_parts (part_sizes (parts_of (env_centers env) n))"
    unfolding small_parts_def
  proof (intro allI impI)
    fix m assume "m < length (part_sizes (parts_of (env_centers env) n))"
    then have m: "m < MACHINE_NUM" by (simp add: part_sizes_def parts_of_def)
    then show "max_deg * unat (part_sizes (parts_of (env_centers env) n) ! m) < 2 ^ 32"
      using parts_facts(2) [OF p m] assms(1) by (auto simp: env_ok_def max_deg_def)
  qed
qed

lemma build_shard_local:
  assumes "m < MACHINE_NUM" "\<And>m. m < MACHINE_NUM \<Longrightarrow> local_replica_ids (cps ! m) = reps ! m" "length reps = MACHINE_NUM" "length parts = MACHINE_NUM"
  shows "build_shard env (map (rows_file dim rows) reps) (map (rows_file dim rows) parts) cps m = shard_of (env_local env dim rows parts reps m)"
  using assms by (simp add: build_shard_def shard_of_def env_local_def Let_def rows_file_def)

lemma scala_index_run:
  assumes n: "unat max_vid = length rows" "2 \<le> length rows" "length rows \<le> 2 ^ 31" and r: "list_all (\<lambda>r. length r = sizeT * unat dim) rows"
    and e: "env_ok (length rows) env"
  shows "\<exists>id2part. scala_index env sizeT (unat dim) max_vid (vectors_file dim rows) =
      (let parts = parts_of (env_centers env) (length rows); xs = map (env_local env dim rows parts (replicas_of (env_centers env) (length rows))) [0 ..< MACHINE_NUM] in
       case merge_index (be_net env) (be_shuffle env) (be_junk_collect env) (be_junk_b1 env) (be_collector env) 48 (sizeT * unat dim) (length rows) (part_sizes parts)
             id2part (label_pos_of (concat parts)) (concat parts) (map shard_of xs) of
         Inl e \<Rightarrow> Inl e
       | Inr files \<Rightarrow> transfer_to_scala_v3 (be_junk_v3 env) (be_senders env) 48 (sizeT * unat dim) (part_sizes parts) max_vid files) \<and>
    parts_ok (length rows) (parts_of (env_centers env) (length rows)) id2part \<and> small_parts (part_sizes (parts_of (env_centers env) (length rows)))"
proof -
  let ?n = "length rows" and ?cl = "env_centers env"
  let ?p = "parts_of ?cl ?n" and ?r = "replicas_of ?cl ?n"
  have np: "word_of_nat ?n = max_vid" unfolding n(1) [symmetric] by simp
  have two: "(0 :: nat) < 2" "2 \<le> MACHINE_NUM" by (simp_all add: MACHINE_NUM_def)
  have w: "weights_ok (be_fmax env) (be_norp env i) (be_rp env i)" if "i < ?n" for i using e that by (simp add: env_ok_def)
  have cl: "closest_norp_rp (be_junk_center env i) (be_fmax env) 2 (be_norp env i) (be_rp env i) = Inr (?cl i) \<and> centers_ok MACHINE_NUM (?cl i)" if "i < ?n" for i
    using centers_chosen(1,2) [of "be_fmax env" "be_norp env" i "be_rp env" 2 "be_junk_center env"] w [OF that] two by (simp add: env_centers_def)
  note run = partition_run [of max_vid "be_junk_center env" "be_fmax env" 2 "be_norp env" "be_rp env" ?cl]
  have cl': "\<And>i. i < unat max_vid \<Longrightarrow> closest_norp_rp (be_junk_center env i) (be_fmax env) 2 (be_norp env i) (be_rp env i) = Inr (?cl i) \<and> centers_ok MACHINE_NUM (?cl i)"
    using cl n(1) by simp
  have n2: "2 \<le> unat max_vid" "(1 :: nat) < 2" using n by simp_all
  have pos: "0 < length rows" "length rows < 2 ^ 32" using n by auto
  note sh = run(1) [OF n2(1) cl' n2(2), of dim]
  obtain id2part where i: "write_partition_info (be_junk_map env) max_vid (word_of_nat MACHINE_NUM) (map idmap_file ?p) = Inr (info_of max_vid ?p id2part)"
      "\<forall>m<MACHINE_NUM. \<forall>v\<in>set (?p ! m). part_of id2part v = Some m"
      "\<forall>m<MACHINE_NUM. partition_checkpoint max_vid (word_of_nat MACHINE_NUM) 2 [] 0 (map idmap_file ?p ! m) (map idmap_file ?r ! m) (info_of max_vid ?p id2part) =
        Inr \<lparr>local_noreplica_ids = ?p ! m, local_replica_ids = ?r ! m, local_max_vid = (let rp = ?r ! m in if rp = [] then 0 else unat (last rp)), kmeans_id2part_map = id2part,
          partition_size = part_sizes ?p, pos2label_map = concat ?p, label2pos_map = label_pos_of (concat ?p)\<rparr>"
    using run(2) [OF n2(1) cl' n2(2), of "be_junk_map env" "[]" 0] n(1) by auto
  let ?cp = "\<lambda>m. \<lparr>local_noreplica_ids = ?p ! m, local_replica_ids = ?r ! m, local_max_vid = (let rp = ?r ! m in if rp = [] then 0 else unat (last rp)), kmeans_id2part_map = id2part,
          partition_size = part_sizes ?p, pos2label_map = concat ?p, label2pos_map = label_pos_of (concat ?p)\<rparr>"
  define cps where "cps = map ?cp [0 ..< MACHINE_NUM]"
  have t: "traverse (\<lambda>m. partition_checkpoint max_vid (word_of_nat MACHINE_NUM) 2 [] 0 (map idmap_file ?p ! m) (map idmap_file ?r ! m) (info_of max_vid ?p id2part)) [0 ..< MACHINE_NUM] = Inr cps"
    unfolding cps_def by (rule traverse_Inr) (use i(3) in simp)
  have c0: "partition_size (cps ! 0) = part_sizes ?p" "kmeans_id2part_map (cps ! 0) = id2part" "pos2label_map (cps ! 0) = concat ?p" "label2pos_map (cps ! 0) = label_pos_of (concat ?p)"
    and cm: "\<And>m. m < MACHINE_NUM \<Longrightarrow> local_replica_ids (cps ! m) = ?r ! m" by (simp_all add: cps_def MACHINE_NUM_def)
  have l: "length ?p = MACHINE_NUM" "length ?r = MACHINE_NUM" by (simp_all add: parts_of_def replicas_of_def)
  have ids: "list_all (ids_ok ?n) ?r" "list_all (ids_ok ?n) ?p"
    using shard_facts [of ?n ?cl] cl n(3) l by (auto simp: list_all_length)
  have "retrieve_shard_data_from_ids (be_junk_rp env) (be_junk_norp env) sizeT 2 MACHINE_NUM (unat dim) (map idmap_file ?r) (map idmap_file ?p) (vectors_file dim rows) =
      Inr (retrieved 2 dim rows ?r ?p)"
    using retrieve_outcome [OF r pos l(2,1) ids refl, of "be_junk_rp env" "be_junk_norp env" 2] e by (auto simp: env_ok_def not_less [symmetric])
  then have rt: "retrieve_shard_data_from_ids (be_junk_rp env) (be_junk_norp env) sizeT 2 MACHINE_NUM (unat dim) (map idmap_file ?r) (map idmap_file ?p) (vectors_file dim rows) =
      Inr (map (rows_file dim rows) ?r, map (rows_file dim rows) ?p)" by (simp add: retrieved_def)
  have hd: "rd_u32 (vectors_file dim rows) = Some (max_vid, enc_u32 dim @ concat rows)" by (simp add: vectors_file_def codec_simps np)
  have b: "map (build_shard env (map (rows_file dim rows) ?r) (map (rows_file dim rows) ?p) cps) [0 ..< MACHINE_NUM] =
      map shard_of (map (env_local env dim rows ?p ?r) [0 ..< MACHINE_NUM])"
    using l by (auto intro!: build_shard_local cm)
  have "scala_index env sizeT (unat dim) max_vid (vectors_file dim rows) =
      (let parts = ?p; xs = map (env_local env dim rows parts ?r) [0 ..< MACHINE_NUM] in
       case merge_index (be_net env) (be_shuffle env) (be_junk_collect env) (be_junk_b1 env) (be_collector env) 48 (sizeT * unat dim) ?n (part_sizes parts)
             id2part (label_pos_of (concat parts)) (concat parts) (map shard_of xs) of
         Inl e \<Rightarrow> Inl e
       | Inr files \<Rightarrow> transfer_to_scala_v3 (be_junk_v3 env) (be_senders env) 48 (sizeT * unat dim) (part_sizes parts) max_vid files)"
    using n(1) by (simp add: scala_index_def hd u32.rd_enc sh rt i(1) t b c0 Let_def split: sum.split)
  moreover have "is_partition ?n ?p" using run(3) [OF n2(1) cl' n2(2)] n(1) by simp
  ultimately show ?thesis using env_parts_ok [OF e _ n(3) i(2)[unfolded n(1)]] by blast
qed

lemma env_locals_ok:
  assumes p: "parts_ok n (parts_of (env_centers env) n) id2part" and e: "env_ok n env" and r: "length rows = n" "list_all (\<lambda>r. length r = len) rows"
    and g: "vamana_ok (length (replicas_of (env_centers env) n ! m)) (be_index env m (rows_file dim rows (replicas_of (env_centers env) n ! m)))" and m: "m < MACHINE_NUM"
  shows "index_ok n len (parts_of (env_centers env) n ! m) id2part (env_local env dim rows (parts_of (env_centers env) n) (replicas_of (env_centers env) n) m)"
proof -
  let ?cl = "env_centers env"
  have n: "n \<le> 2 ^ 31" "is_partition n (parts_of ?cl n)" using p by (simp_all add: parts_ok_def)
  have "centers_ok MACHINE_NUM (?cl i)" if "i < n" for i
    using centers_chosen(2) [of "be_fmax env" "be_norp env" i "be_rp env" 2 "be_junk_center env"] e that by (simp add: env_ok_def env_centers_def MACHINE_NUM_def)
  then have s: "ids_ok n (parts_of ?cl n ! m)" "ids_ok n (replicas_of ?cl n ! m)" "set (parts_of ?cl n ! m) \<subseteq> set (replicas_of ?cl n ! m)"
    using shard_facts [of n ?cl m] n(1) m by auto
  have "part_of id2part v \<noteq> None" if "unat v < n" for v
  proof -
    have "word_of_nat (unat v) \<in> set (concat (parts_of ?cl n))" using n that by (intro labels_all [of n]) (auto simp: is_partition_def)
    then obtain k where "k < MACHINE_NUM" "v \<in> set (parts_of ?cl n ! k)" by (auto simp: parts_of_def)
    then show ?thesis using p by (auto simp: parts_ok_def)
  qed
  then show ?thesis by (intro local_index_ok [OF s r _ g])
qed

section \<open>Sixteen vectors\<close>

text \<open>The partition of \<open>ring_center\<close>; the two vectors of every local graph are neighbours of each other.\<close>

definition star_index :: "nat \<Rightarrow> byte list \<Rightarrow> vamana" where
  "star_index m fil = \<lparr>vm_size = 0, vm_width = 2, vm_medoid = 0, vm_adj = [[1], [0]]\<rparr>"

definition ring_env :: build_env where
  "ring_env = \<lparr>be_junk_center = \<lambda>i. 99, be_fmax = 9, be_norp = ring_center, be_rp = \<lambda>i. ring_center ((i + 15) mod 16), be_junk_rp = \<lambda>p k. 99, be_junk_norp = \<lambda>p k. 99,
     be_junk_map = \<lambda>k i. 7, be_index = star_index, be_net = in_order, be_shuffle = \<lambda>m k. rev, be_junk_collect = \<lambda>m i. 0, be_junk_b1 = \<lambda>m i. 0,
     be_collector = \<lambda>m. empty_collector, be_junk_v3 = \<lambda>m i. 0, be_senders = ring_senders\<rparr>"

definition ring_rows :: "byte list list" where
  "ring_rows = map (\<lambda>i. [word_of_nat i]) [0 ..< 16]"

lemma ring_env_centers: "map (env_centers ring_env) [0 ..< 16] = map (\<lambda>i. [word_of_nat i, word_of_nat ((i + 15) mod 16)]) [0 ..< 16]"
  by code_simp

lemma ring_env_shards:
  "parts_of (env_centers ring_env) 16 = map (\<lambda>m. [word_of_nat m]) [0 ..< 16]"
  "replicas_of (env_centers ring_env) 16 = map (\<lambda>m. if m = 15 then [0, 15] else [word_of_nat m, word_of_nat (m + 1)]) [0 ..< 16]"
  by code_simp+

lemma ring_env_ok: "env_ok (length ring_rows) ring_env"
  using in_order_ok ring_spread(3) ring_facts(2,3) ring_weights
  by (simp add: env_ok_def ring_rows_def ring_env_shards MACHINE_NUM_def) (simp add: ring_env_def)

section \<open>Properties\<close>

text \<open>Property C13.  The whole index build, from the file of vectors to the index files of all machines: with balanced clusters, local graphs over the shards, a network that
  delivers and memory after the arrays that is not mistaken for an identifier, the program returns, and the index file of every machine is, byte for byte, the image that the single-machine writer produces for
  the parts of the nearest centres and one global graph in which every vertex has as many of the neighbours found for it as fit 48.\<close>

theorem scala_index_builds:
  assumes n: "unat max_vid = length rows" "2 \<le> length rows" "length rows \<le> 2 ^ 31" and r: "list_all (\<lambda>r. length r = sizeT * unat dim) rows"
    and e: "env_ok (length rows) env"
    and g: "\<forall>m<MACHINE_NUM. vamana_ok (length (replicas_of (env_centers env) (length rows) ! m)) (be_index env m (rows_file dim rows (replicas_of (env_centers env) (length rows) ! m)))"
  shows "\<exists>G out. scala_index env sizeT (unat dim) max_vid (vectors_file dim rows) = Inr out \<and> length out = MACHINE_NUM \<and>
     (let parts = parts_of (env_centers env) (length rows);
          xs = map (env_local env dim rows parts (replicas_of (env_centers env) (length rows))) [0 ..< MACHINE_NUM]
      in is_partition (length rows) parts \<and>
         (\<forall>m<MACHINE_NUM. \<forall>v\<in>set (parts ! m). cut_of 48 (all_nghs xs v) (G v)) \<and>
         (\<forall>m<MACHINE_NUM. \<exists>imgs. transfer_b1_to_scala_v3 (be_junk_v3 env m) (ucast (li_ids (xs ! m) ! unat (li_medoid (xs ! m)))) (part_sizes parts) (concat (placed G parts)) = Inr imgs \<and>
            fst (out ! m) = imgs ! m))"
proof -
  let ?p = "parts_of (env_centers env) (length rows)" and ?r = "replicas_of (env_centers env) (length rows)"
  let ?xs = "map (env_local env dim rows ?p ?r) [0 ..< MACHINE_NUM]"
  obtain id2part where run: "scala_index env sizeT (unat dim) max_vid (vectors_file dim rows) =
      (let parts = ?p; xs = map (env_local env dim rows parts ?r) [0 ..< MACHINE_NUM] in
       case merge_index (be_net env) (be_shuffle env) (be_junk_collect env) (be_junk_b1 env) (be_collector env) 48 (sizeT * unat dim) (length rows) (part_sizes parts)
             id2part (label_pos_of (concat parts)) (concat parts) (map shard_of xs) of
         Inl e \<Rightarrow> Inl e
       | Inr files \<Rightarrow> transfer_to_scala_v3 (be_junk_v3 env) (be_senders env) 48 (sizeT * unat dim) (part_sizes parts) max_vid files)"
    and p: "parts_ok (length rows) ?p id2part" and sm: "small_parts (part_sizes ?p)"
    using scala_index_run [OF n r e] by (elim exE conjE) (rule that)
  have x: "\<forall>m<MACHINE_NUM. index_ok (length rows) (sizeT * unat dim) (?p ! m) id2part (?xs ! m)"
    using env_locals_ok [OF p e refl r] g by simp
  have l: "length ?xs = MACHINE_NUM" by simp
  have env: "\<forall>m. shuffles (be_shuffle env m)" "network_ok (be_net env)" "\<forall>m. shaped (be_collector env m)" "senders_ok (be_senders env)" using e by (simp_all add: env_ok_def)
  have "is_partition (length rows) ?p" using p by (simp add: parts_ok_def)
  with run merged_graph_builds [OF p l x env(1-3) sm env(4), of "be_junk_collect env" "be_junk_b1 env" "be_junk_v3 env" max_vid]
  show ?thesis by (auto simp: Let_def)
qed

theorem scala_index_builds_witness:
  "\<exists>G out imgs. scala_index ring_env 1 1 16 (vectors_file 1 ring_rows) = Inr out \<and> length out = MACHINE_NUM \<and>
     transfer_b1_to_scala_v3 (\<lambda>i. 0) 3 (part_sizes (parts_of (env_centers ring_env) 16)) (concat (placed G (parts_of (env_centers ring_env) 16))) = Inr imgs \<and> fst (out ! 3) = imgs ! 3"
proof -
  have rows: "length ring_rows = 16" "list_all (\<lambda>r. length r = 1 * unat (1 :: u32)) ring_rows" by (simp_all add: ring_rows_def list_all_iff)
  have "\<forall>m<MACHINE_NUM. vamana_ok (length (replicas_of (env_centers ring_env) (length ring_rows) ! m)) (be_index ring_env m (rows_file 1 ring_rows (replicas_of (env_centers ring_env) (length ring_rows) ! m)))"
    unfolding rows by (simp add: ring_env_shards MACHINE_NUM_def) (simp add: ring_env_def star_index_def vamana_ok_def)
  from scala_index_builds [OF _ _ _ rows(2) ring_env_ok this, of 16]
  obtain G out where o: "scala_index ring_env 1 1 16 (vectors_file 1 ring_rows) = Inr out" "length out = MACHINE_NUM"
    "\<forall>m<MACHINE_NUM. \<exists>imgs. transfer_b1_to_scala_v3 (be_junk_v3 ring_env m) (ucast (li_ids (map (env_local ring_env 1 ring_rows (parts_of (env_centers ring_env) 16) (replicas_of (env_centers ring_env) 16)) [0 ..< MACHINE_NUM] ! m) !
         unat (li_medoid (map (env_local ring_env 1 ring_rows (parts_of (env_centers ring_env) 16) (replicas_of (env_centers ring_env) 16)) [0 ..< MACHINE_NUM] ! m))))
       (part_sizes (parts_of (env_centers ring_env) 16)) (concat (placed G (parts_of (env_centers ring_env) 16))) = Inr imgs \<and> fst (out ! m) = imgs ! m"
    by (auto simp: rows Let_def)
  have three: "(3 :: nat) < MACHINE_NUM" by (simp add: MACHINE_NUM_def)
  have "ucast (li_ids (map (env_local ring_env 1 ring_rows (parts_of (env_centers ring_env) 16) (replicas_of (env_centers ring_env) 16)) [0 ..< MACHINE_NUM] ! 3) !
         unat (li_medoid (map (env_local ring_env 1 ring_rows (parts_of (env_centers ring_env) 16) (replicas_of (env_centers ring_env) 16)) [0 ..< MACHINE_NUM] ! 3))) = (3 :: u64)"
    using three by (simp add: env_local_def ring_env_shards Let_def) (simp add: ring_env_def star_index_def)
  moreover have "be_junk_v3 ring_env 3 = (\<lambda>i. 0)" by (simp add: ring_env_def)
  ultimately show ?thesis using o three by metis
qed

end
