(* ===== verification/Remote_Tasks.thy ===== *)
theory Remote_Tasks
  imports Graph_Dispatch Rdma_Buffers
begin

text \<open>
  The work a machine does for the sub-queries of others, as in \<^verbatim>\<open>scala_sub_proc_v5\<close>
  (\<^verbatim>\<open>include/anns/scala_search.h\<close>): compute tasks are evaluated against the visited set of the query and
  answered by a result message each, node results and results are handed to the query they belong
  to, and batches are posted with \<^verbatim>\<open>post_remote_result\<close> (\<^verbatim>\<open>include/rdma/rdma_comm.h\<close>).  \<open>dist\<close> gives the distance of a
  local vector to the query; a vector outside the local partition is an access out of bounds.  A state is the
  task manager together with the messages posted so far (machine, control and bytes).
\<close>

type_synonym task_state = "TaskManager \<times> (nat \<times> ControlType \<times> byte list) list"

section \<open>Compute tasks\<close>

definition local_vector :: "ScalaGraphIndex \<Rightarrow> u32 \<Rightarrow> bool" where
  "local_vector g vid \<longleftrightarrow> (let part_ofs = ucast (gi_partition_ofs g) :: u32 in unat (vid - part_ofs) < unat (gi_local_part_vec_num g))"

text \<open>The loop over the neighbours of a task; \<open>keep\<close> is the test on the distance.\<close>

primrec compute_nghs ::
  "nat \<Rightarrow> ScalaGraphIndex \<Rightarrow> (u32 \<Rightarrow> dist_t) \<Rightarrow> (dist_t \<Rightarrow> bool) \<Rightarrow> u32 list \<Rightarrow> cand list \<times> OptHashPosVector \<Rightarrow>
     crash + cand list \<times> OptHashPosVector" where
  "compute_nghs vf g dist keep [] st = Inr st"
| "compute_nghs vf g dist keep (v # vs) st =
     (case CheckAndSet vf v (snd st) of
        None \<Rightarrow> Inl Busy
      | Some (seen, h) \<Rightarrow>
          if seen then compute_nghs vf g dist keep vs (fst st, h)
          else if \<not> local_vector g v then Inl OutOfBounds
          else compute_nghs vf g dist keep vs (if keep (dist v) then fst st @ [(dist v, v)] else fst st, h))"

text \<open>A batch of one kind for machine \<open>m\<close>: serialized into a slot, posted, and its queue cleared.\<close>

definition post_batch ::
  "ControlType \<Rightarrow> (TaskManager \<Rightarrow> nat \<Rightarrow> crash + byte list) \<Rightarrow> (nat \<Rightarrow> TaskManager \<Rightarrow> TaskManager) \<Rightarrow> nat \<Rightarrow> task_state \<Rightarrow>
     crash + task_state" where
  "post_batch control ser clr m st = (case ser (fst st) m of
     Inl e \<Rightarrow> Inl e
   | Inr buf \<Rightarrow> if length buf > MAX_QUERYBUFFER_SIZE then Inl Abort
       else Inr (clr m (fst st), snd st @ [(m, control, buf)]))"

definition post_remote_result :: "nat \<Rightarrow> task_state \<Rightarrow> crash + task_state" where
  "post_remote_result = post_batch RESULT serialize_result
     (\<lambda>m tm. tm\<lparr>tm_result_queue := (tm_result_queue tm)[m := []]\<rparr>)"

definition post_node_result :: "nat \<Rightarrow> task_state \<Rightarrow> crash + task_state" where
  "post_node_result m st = (if tm_node_result_queue (fst st) ! m = [] then Inr st
     else post_batch NODE_RESULT serialize_node_result
       (\<lambda>m tm. tm\<lparr>tm_node_result_queue := (tm_node_result_queue tm)[m := []]\<rparr>) m st)"

definition post_node_sync :: "nat \<Rightarrow> task_state \<Rightarrow> crash + task_state" where
  "post_node_sync m st = (if tm_noncore_sync_msg (fst st) ! m = [] then Inr st
     else post_batch NODE_SYNC serialize_node_sync
       (\<lambda>m tm. tm\<lparr>tm_noncore_sync_msg := (tm_noncore_sync_msg tm)[m := []]\<rparr>) m st)"

definition post_task :: "nat \<Rightarrow> task_state \<Rightarrow> crash + task_state" where
  "post_task m st = (if tm_task_queue (fst st) ! m = [] \<and> tm_node_task_queue (fst st) ! m = [] then Inr st
     else post_batch TASK serialize_task
       (\<lambda>m tm. tm\<lparr>tm_task_queue := (tm_task_queue tm)[m := []], tm_node_task_queue := (tm_node_task_queue tm)[m := []]\<rparr>) m st)"

text \<open>The loops over the other machines: \<^verbatim>\<open>post_remote_res_task_sync\<close> and, with only the tasks,
  \<^verbatim>\<open>post_node_remote_task\<close>.\<close>

primrec run_all :: "('a \<Rightarrow> 's \<Rightarrow> crash + 's) \<Rightarrow> 'a list \<Rightarrow> 's \<Rightarrow> crash + 's" where
  "run_all f [] s = Inr s"
| "run_all f (x # xs) s = (case f x s of Inl e \<Rightarrow> Inl e | Inr s' \<Rightarrow> run_all f xs s')"

definition post_each :: "(nat \<Rightarrow> task_state \<Rightarrow> crash + task_state) \<Rightarrow> task_state \<Rightarrow> crash + task_state" where
  "post_each post st = run_all (\<lambda>m st. if m = unat (tm_local_id (fst st)) then Inr st else post m st) [0 ..< MACHINE_NUM] st"

definition post_node_remote_task :: "task_state \<Rightarrow> crash + task_state" where
  "post_node_remote_task = post_each post_task"

definition post_remote_res_task_sync :: "task_state \<Rightarrow> crash + task_state" where
  "post_remote_res_task_sync st = (case post_each post_node_result st of
     Inl e \<Rightarrow> Inl e
   | Inr st \<Rightarrow> (case post_each post_node_sync st of Inl e \<Rightarrow> Inl e | Inr st \<Rightarrow> post_node_remote_task st))"

definition post_remote_results :: "task_state \<Rightarrow> crash + task_state" where
  "post_remote_results = post_each (\<lambda>m st. if tm_result_queue (fst st) ! m = [] then Inr st else post_remote_result m st)"

text \<open>A task of another machine: \<^verbatim>\<open>if (!task.ef_fill || dist < task.lower_bound)\<close> a new neighbour joins the
  result.\<close>

definition remote_task ::
  "nat \<Rightarrow> ScalaGraphIndex \<Rightarrow> (u32 \<Rightarrow> u32 \<Rightarrow> dist_t) \<Rightarrow> ComputeTask \<Rightarrow> task_state \<Rightarrow> crash + task_state" where
  "remote_task vf g dist task st =
     (let tm = fst st; m = unat (ct_machine_id task); qid = unat (ct_qid task) in
      if m \<ge> length (tm_result_queue tm) \<or> qid \<ge> length (tm_global_query tm) then Inl OutOfBounds
      else case task_ngh_arr g task of
          Inl e \<Rightarrow> Inl e
        | Inr ngh_arr \<Rightarrow>
            (case compute_nghs vf g (dist (ct_qid task)) (\<lambda>d. ct_ef_fill task = 0 \<or> d < ct_lower_bound task) ngh_arr
                    ([], q_visit_hash (tm_global_query tm ! qid)) of
               Inl e \<Rightarrow> Inl e
             | Inr (res, h) \<Rightarrow>
                 let tm = tm\<lparr>tm_result_queue := (tm_result_queue tm)[m := tm_result_queue tm ! m @
                              [(new_ResultMsg (ct_qid task) (ct_core_cnt task) (ct_nocore_cnt task))\<lparr>rm_res := res\<rparr>]],
                            tm_global_query := (tm_global_query tm)[qid := (tm_global_query tm ! qid)\<lparr>q_visit_hash := h\<rparr>]\<rparr>
                 in if length (tm_result_queue tm ! m) \<ge> POST_RES_MERGE then post_remote_result m (tm, snd st)
                    else Inr (tm, snd st)))"

text \<open>The task queue: \<open>resume\<close> stands for the activation of the coroutine of a local task.\<close>

definition proc_task ::
  "nat \<Rightarrow> ScalaGraphIndex \<Rightarrow> (u32 \<Rightarrow> u32 \<Rightarrow> dist_t) \<Rightarrow> (ComputeTask \<Rightarrow> task_state \<Rightarrow> crash + task_state) \<Rightarrow>
     ComputeTask \<Rightarrow> task_state \<Rightarrow> crash + task_state" where
  "proc_task vf g dist resume t st =
     (if ct_machine_id t = tm_local_id (fst st) then resume t st else remote_task vf g dist t st)"

definition proc_task_queue ::
  "nat \<Rightarrow> ScalaGraphIndex \<Rightarrow> (u32 \<Rightarrow> u32 \<Rightarrow> dist_t) \<Rightarrow> (ComputeTask \<Rightarrow> task_state \<Rightarrow> crash + task_state) \<Rightarrow>
     task_state \<Rightarrow> crash + task_state" where
  "proc_task_queue vf g dist resume st =
     (case run_all (proc_task vf g dist resume) (tm_cur_task_queue (fst st)) st of
        Inl e \<Rightarrow> Inl e
      | Inr st \<Rightarrow> (case post_remote_results st of
          Inl e \<Rightarrow> Inl e
        | Inr (tm, sent) \<Rightarrow> Inr (tm\<lparr>tm_cur_task_queue := []\<rparr>, sent)))"

section \<open>Results\<close>

text \<open>A result goes to \<^verbatim>\<open>local_res\<close> of its query and wakes it; after the end of the query it is an
  error.\<close>

definition take_result :: "ResultMsg \<Rightarrow> TaskManager \<Rightarrow> crash + TaskManager" where
  "take_result r tm =
     (if unat (rm_qid r) \<ge> length (tm_global_query tm) then Inl OutOfBounds
      else let q = tm_global_query tm ! unat (rm_qid r) in
        if q_state q = END then Inl Abort
        else Inr (invoke_query (rm_qid r)
               (tm\<lparr>tm_global_query := (tm_global_query tm)[unat (rm_qid r) := q\<lparr>q_local_res := q_local_res q @ [r]\<rparr>]\<rparr>)))"

text \<open>A node result first adds the number of tasks that the other machine has posted.\<close>

definition take_node_result :: "NodeResult \<Rightarrow> TaskManager \<Rightarrow> crash + TaskManager" where
  "take_node_result r tm =
     (if unat (nr_qid r) \<ge> length (tm_global_query tm) then Inl OutOfBounds
      else let q = tm_global_query tm ! unat (nr_qid r) in
        if q_state q = END then Inl Abort
        else let tmp_res_msg = (new_ResultMsg (nr_qid r) 1 0)\<lparr>rm_res := nr_res r\<rparr>;
                 q = q\<lparr>q_nocore_post := q_nocore_post q + nr_post_cnt r\<rparr>
             in Inr (invoke_query (nr_qid r)
                 (tm\<lparr>tm_global_query := (tm_global_query tm)[unat (nr_qid r) := q\<lparr>q_local_res := q_local_res q @ [tmp_res_msg]\<rparr>]\<rparr>)))"

definition proc_node_results :: "TaskManager \<Rightarrow> crash + TaskManager" where
  "proc_node_results tm =
     (let l = unat (tm_local_id tm) in
      case run_all take_node_result (tm_node_result_queue tm ! l) tm of
        Inl e \<Rightarrow> Inl e
      | Inr tm \<Rightarrow> Inr (tm\<lparr>tm_node_result_queue := (tm_node_result_queue tm)[l := []]\<rparr>))"

text \<open>The result queue: in the pre-stage the coroutine is activated with the result (\<open>resume\<close>).\<close>

definition proc_result :: "(ResultMsg \<Rightarrow> TaskManager \<Rightarrow> crash + TaskManager) \<Rightarrow> ResultMsg \<Rightarrow> TaskManager \<Rightarrow> crash + TaskManager" where
  "proc_result resume r tm =
     (if unat (rm_qid r) < length (tm_global_query tm) \<and> q_state (tm_global_query tm ! unat (rm_qid r)) = PRE_STAGE
      then resume r tm else take_result r tm)"

definition proc_results :: "(ResultMsg \<Rightarrow> TaskManager \<Rightarrow> crash + TaskManager) \<Rightarrow> TaskManager \<Rightarrow> crash + TaskManager" where
  "proc_results resume tm =
     (let l = unat (tm_local_id tm) in
      case run_all (proc_result resume) (tm_result_queue tm ! l) tm of
        Inl e \<Rightarrow> Inl e
      | Inr tm \<Rightarrow> Inr (tm\<lparr>tm_result_queue := (tm_result_queue tm)[l := []]\<rparr>))"

section \<open>Node tasks\<close>

text \<open>A vertex that a core machine does not own: its neighbours are handed on
  (\<^const>\<open>scala_graph_v3_get_nodetask_msg\<close>), the local ones are evaluated, and a node result is queued for the
  machine that asked.\<close>

definition node_task ::
  "nat \<Rightarrow> ScalaGraphIndex \<Rightarrow> (u32 \<Rightarrow> u32 \<Rightarrow> dist_t) \<Rightarrow> NodeTask \<Rightarrow> task_state \<Rightarrow> crash + task_state" where
  "node_task vf g dist task st =
     (let m = unat (nt_machine_id task) in
      if nt_machine_id task = tm_local_id (fst st) then Inl Abort
      else if m \<ge> length (tm_node_result_queue (fst st)) \<or> unat (nt_qid task) \<ge> length (tm_global_query (fst st)) then Inl OutOfBounds
      else case scala_graph_v3_get_nodetask_msg g (fst st) task (new_NodeResult (nt_qid task)) of
          Inl e \<Rightarrow> Inl e
        | Inr (tm, task, res_msg) \<Rightarrow>
            (case (if nt_offset task = 0 then Inr ([], q_visit_hash (tm_global_query tm ! unat (nt_qid task)))
                   else case read_ngh g (nt_offset task) (unat (nt_deg task)) of
                       Inl e \<Rightarrow> Inl e
                     | Inr ngh_arr \<Rightarrow> compute_nghs vf g (dist (nt_qid task)) (\<lambda>_. True) ngh_arr
                         ([], q_visit_hash (tm_global_query tm ! unat (nt_qid task)))) of
               Inl e \<Rightarrow> Inl e
             | Inr (res, h) \<Rightarrow>
                 let q = unat (nt_qid task);
                     tm = tm\<lparr>tm_node_result_queue := (tm_node_result_queue tm)[m := tm_node_result_queue tm ! m @ [res_msg\<lparr>nr_res := nr_res res_msg @ res\<rparr>]],
                            tm_global_query := (tm_global_query tm)[q := (tm_global_query tm ! q)\<lparr>q_visit_hash := h\<rparr>]\<rparr>
                 in case (if length (tm_node_result_queue tm ! m) \<ge> POST_RES_MERGE then post_node_result m (tm, snd st) else Inr (tm, snd st)) of
                      Inl e \<Rightarrow> Inl e
                    | Inr st \<Rightarrow> if length (tm_noncore_sync_msg (fst st) ! m) \<ge> POST_NODESYNC_MERGE then post_node_sync m st else Inr st))"

definition proc_node_queue ::
  "nat \<Rightarrow> ScalaGraphIndex \<Rightarrow> (u32 \<Rightarrow> u32 \<Rightarrow> dist_t) \<Rightarrow> task_state \<Rightarrow> crash + task_state" where
  "proc_node_queue vf g dist st =
     (case run_all (node_task vf g dist) (tm_cur_node_queue (fst st)) st of
        Inl e \<Rightarrow> Inl e
      | Inr st \<Rightarrow> (case post_remote_res_task_sync st of
          Inl e \<Rightarrow> Inl e
        | Inr (tm, sent) \<Rightarrow> Inr (tm\<lparr>tm_cur_node_queue := []\<rparr>, sent)))"

text \<open>An example partition of eight vectors from identifier 4 on.\<close>

definition ex_part :: ScalaGraphIndex where
  "ex_part = \<lparr>gi_deg_ngh = [], gi_vector = [], gi_partition_num = 2, gi_partition_id = 1, gi_partition_vec_num = [4, 8],
     gi_cumu_partition_num = [0, 4, 12], gi_local_part_vec_num = 8, gi_partition_ofs = 4, gi_local_ngh_ele_size = 0, gi_vec_size = 0\<rparr>"

end
