(* ===== verification/Remote_Answers.thy ===== *)
theory Remote_Answers
  imports Remote_Tasks
begin

text \<open>
  What the machines get back for the tasks they hand out (\<^theory_text>\<open>Remote_Tasks\<close>): one compute task gives one result
  with its counters, batching does not lose or reorder results, and processing the queue leaves none behind.
\<close>

section \<open>One compute task\<close>

text \<open>The loop is the filter of the visited set followed by the evaluation.\<close>

lemma compute_nghs_admit:
  assumes "compute_nghs vf g dist keep ids (res, h) = Inr (res', h')"
  shows "\<exists>new. admit (CheckAndSet vf) ids h = Some (new, h') \<and> res' = res @ filter (\<lambda>c. keep (fst c)) (map (\<lambda>v. (dist v, v)) new) \<and>
    list_all (local_vector g) new"
  using assms
proof (induction ids arbitrary: res h)
  case (Cons v vs)
  from Cons.prems obtain seen h1 where v: "CheckAndSet vf v h = Some (seen, h1)"
    by (auto split: option.splits)
  show ?case
  proof (cases seen)
    case True
    with Cons.prems v Cons.IH [of res h1] show ?thesis by auto
  next
    case False
    with Cons.prems v have "local_vector g v" "compute_nghs vf g dist keep vs (if keep (dist v) then res @ [(dist v, v)] else res, h1) = Inr (res', h')"
      by (auto split: if_splits)
    with Cons.IH [OF this(2)] v False show ?thesis by auto
  qed
qed simp

section \<open>Answers\<close>

definition results_in :: "byte list \<Rightarrow> ResultMsg list" where
  "results_in buf = (case (do { (_, s) \<leftarrow> rd_u32 buf; (n, s) \<leftarrow> rd_u32 s; rd_many (unat n) ResultMsg_deserialize s }) of
     None \<Rightarrow> [] | Some (rs, _) \<Rightarrow> rs)"

text \<open>The results for machine \<open>m\<close>: those in the messages posted to it, and those still queued.\<close>

definition posted_results :: "nat \<Rightarrow> task_state \<Rightarrow> ResultMsg list" where
  "posted_results m st = concat (map (\<lambda>p. if fst p = m \<and> fst (snd p) = RESULT then results_in (snd (snd p)) else []) (snd st))"

definition answers :: "nat \<Rightarrow> task_state \<Rightarrow> ResultMsg list" where
  "answers m st = posted_results m st @ tm_result_queue (fst st) ! m"

lemma results_in_batch:
  assumes "serialize_result tm m = Inr buf"
  shows "results_in buf = tm_result_queue tm ! m"
proof -
  have "in_buffer (ser_loop ResultMsg_serialize full_buffer (tm_result_queue tm ! m)
      (enc_u32 (tm_local_id tm) @ enc_u32 (word_of_nat (length (tm_result_queue tm ! m))))) = Inr buf"
    using assms by (auto simp: serialize_result_def to_remote_def Let_def split: if_splits)
  from ResultMsg.batch_read_back [OF this bytes_pos(1), of "[]"] show ?thesis
    by (auto simp: results_in_def u32.rd_enc)
qed

lemma post_remote_result_answers:
  assumes "post_remote_result k st = Inr st'" "k < length (tm_result_queue (fst st))"
  shows "answers m st' = answers m st" "tm_result_queue (fst st') = (tm_result_queue (fst st))[k := []]"
    "tm_local_id (fst st') = tm_local_id (fst st)" "tm_global_query (fst st') = tm_global_query (fst st)"
proof -
  from assms(1) obtain buf where buf: "serialize_result (fst st) k = Inr buf"
    and st': "st' = ((fst st)\<lparr>tm_result_queue := (tm_result_queue (fst st))[k := []]\<rparr>, snd st @ [(k, RESULT, buf)])"
    by (auto simp: post_remote_result_def post_batch_def split: sum.splits if_splits)
  show "answers m st' = answers m st"
    using results_in_batch [OF buf] assms(2) by (auto simp: answers_def posted_results_def st' nth_list_update)
qed (use assms in \<open>auto simp: post_remote_result_def post_batch_def split: sum.splits if_splits\<close>)

text \<open>What a task asks for and what its answer says.\<close>

definition answered :: "ScalaGraphIndex \<Rightarrow> (u32 \<Rightarrow> u32 \<Rightarrow> dist_t) \<Rightarrow> ComputeTask \<Rightarrow> ResultMsg \<Rightarrow> bool" where
  "answered g dist t r \<longleftrightarrow> rm_qid r = ct_qid t \<and> rm_core_cnt r = ct_core_cnt t \<and> rm_nocore_cnt r = ct_nocore_cnt t \<and>
     (\<exists>ids. task_ngh_arr g t = Inr ids \<and> (\<forall>c\<in>set (rm_res r). snd c \<in> set ids \<and> fst c = dist (ct_qid t) (snd c) \<and>
        (ct_ef_fill t = 0 \<or> fst c < ct_lower_bound t)))"

lemma admit_subset: "admit visit ids h = Some (new, h') \<Longrightarrow> set new \<subseteq> set ids"
  by (induction ids arbitrary: h new) (fastforce split: bind_splits if_splits)+

lemma remote_task_effect:
  assumes "remote_task vf g dist task st = Inr st'"
  obtains ids new h' where "task_ngh_arr g task = Inr ids"
    "unat (ct_machine_id task) < length (tm_result_queue (fst st))" "unat (ct_qid task) < length (tm_global_query (fst st))"
    "admit (CheckAndSet vf) ids (q_visit_hash (tm_global_query (fst st) ! unat (ct_qid task))) = Some (new, h')"
    "tm_global_query (fst st') = (tm_global_query (fst st))[unat (ct_qid task) := (tm_global_query (fst st) ! unat (ct_qid task))\<lparr>q_visit_hash := h'\<rparr>]"
    "answers (unat (ct_machine_id task)) st' = answers (unat (ct_machine_id task)) st @
       [\<lparr>rm_qid = ct_qid task, rm_core_cnt = ct_core_cnt task, rm_nocore_cnt = ct_nocore_cnt task,
         rm_res = filter (\<lambda>c. ct_ef_fill task = 0 \<or> fst c < ct_lower_bound task) (map (\<lambda>v. (dist (ct_qid task) v, v)) new)\<rparr>]"
    "\<forall>m. m \<noteq> unat (ct_machine_id task) \<longrightarrow> answers m st' = answers m st"
    "length (tm_result_queue (fst st')) = length (tm_result_queue (fst st))" "tm_local_id (fst st') = tm_local_id (fst st)"
proof -
  let ?m = "unat (ct_machine_id task)" and ?q = "unat (ct_qid task)" and ?tm = "fst st"
  from assms obtain ids res h' where r: "?m < length (tm_result_queue ?tm)" "?q < length (tm_global_query ?tm)" "task_ngh_arr g task = Inr ids"
    "compute_nghs vf g (dist (ct_qid task)) (\<lambda>d. ct_ef_fill task = 0 \<or> d < ct_lower_bound task) ids
                    ([], q_visit_hash (tm_global_query ?tm ! ?q)) = Inr (res, h')"
    by (auto simp: remote_task_def Let_def not_le split: if_splits sum.splits)
  let ?r = "\<lparr>rm_qid = ct_qid task, rm_core_cnt = ct_core_cnt task, rm_nocore_cnt = ct_nocore_cnt task, rm_res = res\<rparr>"
  define tm1 where "tm1 = ?tm\<lparr>tm_result_queue := (tm_result_queue ?tm)[?m := tm_result_queue ?tm ! ?m @ [?r]],
                            tm_global_query := (tm_global_query ?tm)[?q := (tm_global_query ?tm ! ?q)\<lparr>q_visit_hash := h'\<rparr>]\<rparr>"
  have run: "(if length (tm_result_queue tm1 ! ?m) \<ge> POST_RES_MERGE then post_remote_result ?m (tm1, snd st) else Inr (tm1, snd st)) = Inr st'"
    using assms r by (simp add: remote_task_def Let_def tm1_def new_ResultMsg_def split: if_splits)
  have a: "answers m (tm1, snd st) = answers m st @ (if m = ?m then [?r] else [])" for m
    using r(1) by (auto simp: answers_def posted_results_def tm1_def)
  have l: "?m < length (tm_result_queue (fst (tm1, snd st)))" using r(1) by (simp add: tm1_def)
  have st': "answers m st' = answers m (tm1, snd st)" "length (tm_result_queue (fst st')) = length (tm_result_queue ?tm)"
    "tm_local_id (fst st') = tm_local_id ?tm" "tm_global_query (fst st') = tm_global_query tm1" for m
    using run post_remote_result_answers [OF _ l, of st'] by (auto simp: tm1_def split: if_splits)
  from compute_nghs_admit [OF r(4)] obtain new where new: "admit (CheckAndSet vf) ids (q_visit_hash (tm_global_query ?tm ! ?q)) = Some (new, h')"
    "res = filter (\<lambda>c. ct_ef_fill task = 0 \<or> fst c < ct_lower_bound task) (map (\<lambda>v. (dist (ct_qid task) v, v)) new)" by auto
  show thesis
    by (rule that [OF r(3,1,2) new(1)]) (use st' a new(2) in \<open>simp_all add: tm1_def\<close>)
qed

section \<open>The whole queue\<close>

definition queues_ok :: "task_state \<Rightarrow> bool" where
  "queues_ok st \<longleftrightarrow> length (tm_result_queue (fst st)) = MACHINE_NUM"

lemma run_tasks:
  assumes "run_all (proc_task vf g dist resume) ts st = Inr st'" "queues_ok st"
    "list_all (\<lambda>t. ct_machine_id t \<noteq> tm_local_id (fst st)) ts"
  shows "queues_ok st' \<and> tm_local_id (fst st') = tm_local_id (fst st) \<and>
    (\<forall>m. \<exists>rs. answers m st' = answers m st @ rs \<and> list_all2 (answered g dist) (filter (\<lambda>t. unat (ct_machine_id t) = m) ts) rs)"
  using assms
proof (induction ts arbitrary: st)
  case (Cons t ts)
  from Cons.prems(1) obtain st1 where "proc_task vf g dist resume t st = Inr st1" and rest: "run_all (proc_task vf g dist resume) ts st1 = Inr st'"
    by (auto split: sum.splits)
  with Cons.prems(3) have t: "remote_task vf g dist t st = Inr st1" by (simp add: proc_task_def)
  obtain ids new h' where e: "task_ngh_arr g t = Inr ids"
    "unat (ct_machine_id t) < length (tm_result_queue (fst st))" "unat (ct_qid t) < length (tm_global_query (fst st))"
    "admit (CheckAndSet vf) ids (q_visit_hash (tm_global_query (fst st) ! unat (ct_qid t))) = Some (new, h')"
    "tm_global_query (fst st1) = (tm_global_query (fst st))[unat (ct_qid t) := (tm_global_query (fst st) ! unat (ct_qid t))\<lparr>q_visit_hash := h'\<rparr>]"
    "answers (unat (ct_machine_id t)) st1 = answers (unat (ct_machine_id t)) st @
       [\<lparr>rm_qid = ct_qid t, rm_core_cnt = ct_core_cnt t, rm_nocore_cnt = ct_nocore_cnt t,
         rm_res = filter (\<lambda>c. ct_ef_fill t = 0 \<or> fst c < ct_lower_bound t) (map (\<lambda>v. (dist (ct_qid t) v, v)) new)\<rparr>]"
    "\<forall>m. m \<noteq> unat (ct_machine_id t) \<longrightarrow> answers m st1 = answers m st"
    "length (tm_result_queue (fst st1)) = length (tm_result_queue (fst st))" "tm_local_id (fst st1) = tm_local_id (fst st)"
    by (rule remote_task_effect [OF t])
  let ?r = "\<lparr>rm_qid = ct_qid t, rm_core_cnt = ct_core_cnt t, rm_nocore_cnt = ct_nocore_cnt t,
         rm_res = filter (\<lambda>c. ct_ef_fill t = 0 \<or> fst c < ct_lower_bound t) (map (\<lambda>v. (dist (ct_qid t) v, v)) new)\<rparr>"
  have ans: "answered g dist t ?r" using e(1) admit_subset [OF e(4)] by (auto simp: answered_def)
  have "queues_ok st1" "list_all (\<lambda>t. ct_machine_id t \<noteq> tm_local_id (fst st1)) ts"
    using Cons.prems(2,3) e(8,9) by (auto simp: queues_ok_def)
  note IH = Cons.IH [OF rest this]
  have "\<exists>rs. answers m st' = answers m st @ rs \<and> list_all2 (answered g dist) (filter (\<lambda>t. unat (ct_machine_id t) = m) (t # ts)) rs" for m
  proof -
    obtain rs where rs: "answers m st' = answers m st1 @ rs" "list_all2 (answered g dist) (filter (\<lambda>t. unat (ct_machine_id t) = m) ts) rs"
      using IH by blast
    show ?thesis
    proof (cases "unat (ct_machine_id t) = m")
      case True
      then show ?thesis using rs ans e(6) by (intro exI [of _ "?r # rs"]) simp
    next
      case False
      then show ?thesis using rs e(7) by (intro exI [of _ rs]) simp
    qed
  qed
  with IH e(9) show ?case by simp
qed simp

lemma post_each_results:
  assumes "run_all (\<lambda>m st. if m = unat (tm_local_id (fst st)) then Inr st
      else if tm_result_queue (fst st) ! m = [] then Inr st else post_remote_result m st) ms st = Inr st'" "queues_ok st"
    "list_all (\<lambda>m. m < MACHINE_NUM) ms"
  shows "queues_ok st' \<and> tm_local_id (fst st') = tm_local_id (fst st) \<and> answers m st' = answers m st \<and>
    (tm_result_queue (fst st) ! m = [] \<or> m \<in> set ms \<longrightarrow> m \<noteq> unat (tm_local_id (fst st)) \<longrightarrow> m < MACHINE_NUM \<longrightarrow> tm_result_queue (fst st') ! m = [])"
  using assms
proof (induction ms arbitrary: st)
  case (Cons k ms)
  show ?case
  proof (cases "k = unat (tm_local_id (fst st)) \<or> tm_result_queue (fst st) ! k = []")
    case True
    with Cons.prems(1) have "run_all (\<lambda>m st. if m = unat (tm_local_id (fst st)) then Inr st
      else if tm_result_queue (fst st) ! m = [] then Inr st else post_remote_result m st) ms st = Inr st'"
      by (simp split: if_splits)
    from Cons.IH [OF this Cons.prems(2)] Cons.prems(3) True show ?thesis by auto
  next
    case False
    with Cons.prems(1) obtain st1 where p: "post_remote_result k st = Inr st1"
      and rest: "run_all (\<lambda>m st. if m = unat (tm_local_id (fst st)) then Inr st
      else if tm_result_queue (fst st) ! m = [] then Inr st else post_remote_result m st) ms st1 = Inr st'" by (auto split: sum.splits)
    have k: "k < length (tm_result_queue (fst st))" using Cons.prems(2,3) by (simp add: queues_ok_def)
    note e = post_remote_result_answers [OF p k]
    have "queues_ok st1" using Cons.prems(2) e(2) by (simp add: queues_ok_def)
    from Cons.IH [OF rest this] Cons.prems(3) e k show ?thesis
      by (auto simp: nth_list_update split: if_splits)
  qed
qed simp

lemma task_queue_answered_ok:
  assumes "proc_task_queue vf g dist resume (tm, []) = Inr (tm', sent)"
    and "length (tm_result_queue tm) = MACHINE_NUM" and "list_all (\<lambda>t. ct_machine_id t \<noteq> tm_local_id tm) (tm_cur_task_queue tm)"
    and "m < MACHINE_NUM" and "m \<noteq> unat (tm_local_id tm)" and "tm_result_queue tm ! m = []"
  shows "tm_result_queue tm' ! m = [] \<and> tm_cur_task_queue tm' = [] \<and>
    list_all2 (answered g dist) (filter (\<lambda>t. unat (ct_machine_id t) = m) (tm_cur_task_queue tm)) (posted_results m (tm', sent))"
proof -
  from assms(1) obtain st1 tm2 where run: "run_all (proc_task vf g dist resume) (tm_cur_task_queue tm) (tm, []) = Inr st1"
    and post: "post_remote_results st1 = Inr (tm2, sent)" and tm': "tm' = tm2\<lparr>tm_cur_task_queue := []\<rparr>"
    by (auto simp: proc_task_queue_def split: sum.splits)
  have q: "queues_ok (tm, [])" using assms(2) by (simp add: queues_ok_def)
  from run_tasks [OF run q] assms(3) have st1: "queues_ok st1" "tm_local_id (fst st1) = tm_local_id tm"
    and "\<exists>rs. answers m st1 = answers m (tm, []) @ rs \<and>
      list_all2 (answered g dist) (filter (\<lambda>t. unat (ct_machine_id t) = m) (tm_cur_task_queue tm)) rs" by auto
  then have ans: "list_all2 (answered g dist) (filter (\<lambda>t. unat (ct_machine_id t) = m) (tm_cur_task_queue tm)) (answers m st1)"
    using assms(6) by (auto simp: answers_def posted_results_def)
  have "run_all (\<lambda>m st. if m = unat (tm_local_id (fst st)) then Inr st
      else if tm_result_queue (fst st) ! m = [] then Inr st else post_remote_result m st) [0 ..< MACHINE_NUM] st1 = Inr (tm2, sent)"
    using post by (simp add: post_remote_results_def post_each_def)
  from post_each_results [OF this st1(1), of m] st1(2) assms(4,5)
  have e: "answers m (tm2, sent) = answers m st1" "tm_result_queue tm2 ! m = []" by (auto simp: list_all_iff)
  then have "posted_results m (tm2, sent) = answers m st1" by (simp add: answers_def)
  then show ?thesis using ans e(2) by (simp add: tm' posted_results_def)
qed

section \<open>Properties\<close>

lemma compute_nghs_runs:
  assumes "admit (CheckAndSet vf) ids h \<noteq> None" "list_all (local_vector g) ids"
  shows "\<exists>r. compute_nghs vf g dist keep ids (res, h) = Inr r"
  using assms
proof (induction ids arbitrary: res h)
  case (Cons v vs)
  from Cons.prems obtain seen h1 where v: "CheckAndSet vf v h = Some (seen, h1)" and rest: "admit (CheckAndSet vf) vs h1 \<noteq> None"
    by (auto split: bind_splits)
  from Cons.IH [OF rest] Cons.prems(2) show ?case by (simp add: v)
qed simp

text \<open>Property C11. A compute task of another machine is answered by exactly one result: it names the
  query and carries the counters of the task, and its entries are the neighbours the query had not visited,
  each once, with their distances, as far as the bound of the task lets them through.  Afterwards all
  neighbours count as visited, the set of the query stays well formed, and no other query has changed.  The
  step does return when the neighbours are vectors of the local partition, the visited set answers and no batch is due.\<close>

theorem remote_task_result:
  assumes "task_ngh_arr g task = Inr ids" and "-1 \<notin> set ids"
    and "hv_inv (q_visit_hash (tm_global_query (fst st) ! unat (ct_qid task)))"
  shows "(\<forall>st'. remote_task vf g dist task st = Inr st' \<longrightarrow>
    (\<exists>new. distinct new \<and> set new = set ids - visited (q_visit_hash (tm_global_query (fst st) ! unat (ct_qid task))) \<and>
    answers (unat (ct_machine_id task)) st' = answers (unat (ct_machine_id task)) st @
      [\<lparr>rm_qid = ct_qid task, rm_core_cnt = ct_core_cnt task, rm_nocore_cnt = ct_nocore_cnt task,
        rm_res = filter (\<lambda>c. ct_ef_fill task = 0 \<or> fst c < ct_lower_bound task) (map (\<lambda>v. (dist (ct_qid task) v, v)) new)\<rparr>] \<and>
    hv_inv (q_visit_hash (tm_global_query (fst st') ! unat (ct_qid task))) \<and>
    visited (q_visit_hash (tm_global_query (fst st') ! unat (ct_qid task))) =
      visited (q_visit_hash (tm_global_query (fst st) ! unat (ct_qid task))) \<union> set ids \<and>
    (\<forall>i. i \<noteq> unat (ct_qid task) \<longrightarrow> tm_global_query (fst st') ! i = tm_global_query (fst st) ! i))) \<and>
    (list_all (local_vector g) ids \<longrightarrow> unat (ct_qid task) < length (tm_global_query (fst st)) \<longrightarrow>
     unat (ct_machine_id task) < length (tm_result_queue (fst st)) \<longrightarrow>
     admit (CheckAndSet vf) ids (q_visit_hash (tm_global_query (fst st) ! unat (ct_qid task))) \<noteq> None \<longrightarrow>
     Suc (length (tm_result_queue (fst st) ! unat (ct_machine_id task))) < POST_RES_MERGE \<longrightarrow>
     (\<exists>st'. remote_task vf g dist task st = Inr st'))"
proof (intro conjI allI impI)
  fix st' assume run: "remote_task vf g dist task st = Inr st'"
  obtain ids' new h' where e: "task_ngh_arr g task = Inr ids'"
    "unat (ct_machine_id task) < length (tm_result_queue (fst st))" "unat (ct_qid task) < length (tm_global_query (fst st))"
    "admit (CheckAndSet vf) ids' (q_visit_hash (tm_global_query (fst st) ! unat (ct_qid task))) = Some (new, h')"
    "tm_global_query (fst st') = (tm_global_query (fst st))[unat (ct_qid task) := (tm_global_query (fst st) ! unat (ct_qid task))\<lparr>q_visit_hash := h'\<rparr>]"
    "answers (unat (ct_machine_id task)) st' = answers (unat (ct_machine_id task)) st @
       [\<lparr>rm_qid = ct_qid task, rm_core_cnt = ct_core_cnt task, rm_nocore_cnt = ct_nocore_cnt task,
         rm_res = filter (\<lambda>c. ct_ef_fill task = 0 \<or> fst c < ct_lower_bound task) (map (\<lambda>v. (dist (ct_qid task) v, v)) new)\<rparr>]"
    "\<forall>m. m \<noteq> unat (ct_machine_id task) \<longrightarrow> answers m st' = answers m st"
    "length (tm_result_queue (fst st')) = length (tm_result_queue (fst st))" "tm_local_id (fst st') = tm_local_id (fst st)"
    by (rule remote_task_effect [OF run])
  have "ids' = ids" using e(1) assms(1) by simp
  note e = e(3-6) [unfolded this]
  have "list_all (\<lambda>i. i \<noteq> -1) ids" using assms(2) by (auto simp: list_all_iff)
  from hv.admit_spec [OF assms(3) this e(2)] e
  show "\<exists>new. distinct new \<and> set new = set ids - visited (q_visit_hash (tm_global_query (fst st) ! unat (ct_qid task))) \<and>
    answers (unat (ct_machine_id task)) st' = answers (unat (ct_machine_id task)) st @
      [\<lparr>rm_qid = ct_qid task, rm_core_cnt = ct_core_cnt task, rm_nocore_cnt = ct_nocore_cnt task,
        rm_res = filter (\<lambda>c. ct_ef_fill task = 0 \<or> fst c < ct_lower_bound task) (map (\<lambda>v. (dist (ct_qid task) v, v)) new)\<rparr>] \<and>
    hv_inv (q_visit_hash (tm_global_query (fst st') ! unat (ct_qid task))) \<and>
    visited (q_visit_hash (tm_global_query (fst st') ! unat (ct_qid task))) =
      visited (q_visit_hash (tm_global_query (fst st) ! unat (ct_qid task))) \<union> set ids \<and>
    (\<forall>i. i \<noteq> unat (ct_qid task) \<longrightarrow> tm_global_query (fst st') ! i = tm_global_query (fst st) ! i)"
    by (intro exI [of _ new]) auto
next
  assume a: "list_all (local_vector g) ids" "unat (ct_qid task) < length (tm_global_query (fst st))"
    "unat (ct_machine_id task) < length (tm_result_queue (fst st))"
    "admit (CheckAndSet vf) ids (q_visit_hash (tm_global_query (fst st) ! unat (ct_qid task))) \<noteq> None"
    "Suc (length (tm_result_queue (fst st) ! unat (ct_machine_id task))) < POST_RES_MERGE"
  obtain res h where "compute_nghs vf g (dist (ct_qid task)) (\<lambda>d. ct_ef_fill task = 0 \<or> d < ct_lower_bound task) ids
      ([], q_visit_hash (tm_global_query (fst st) ! unat (ct_qid task))) = Inr (res, h)"
    using compute_nghs_runs [OF a(4,1)] by force
  then show "\<exists>st'. remote_task vf g dist task st = Inr st'"
    using a(2,3,5) assms(1) by (simp add: remote_task_def Let_def)
qed

text \<open>Two tasks of machine 2 for query 0 of the example partition.\<close>

definition ex_task :: "u64 \<Rightarrow> ComputeTask" where
  "ex_task ids = \<lparr>ct_machine_id = 2, ct_qid = 0, ct_deg = 2, ct_offset = ids, ct_lower_bound = Dist 6, ct_ef_fill = 1,
     ct_core_cnt = 1, ct_nocore_cnt = 0, ct_is_count = None\<rparr>"

definition ex_remote_tm :: TaskManager where
  "ex_remote_tm = (new_TaskManager 1 [query_example])\<lparr>tm_cur_task_queue := [ex_task (push_bit 32 7 + 5), ex_task (push_bit 32 5 + 4)]\<rparr>"

definition ex_dist :: "u32 \<Rightarrow> u32 \<Rightarrow> dist_t" where
  "ex_dist qid v = Dist v"

lemma ex_remote_runs:
  "\<not> isl (remote_task 0 ex_part ex_dist (ex_task (push_bit 32 7 + 5)) (ex_remote_tm, []))"
  by code_simp
lemma ex_remote_queue:
  "case run_all (proc_task 0 ex_part ex_dist (\<lambda>_. Inr)) (tm_cur_task_queue ex_remote_tm) (ex_remote_tm, []) of
     Inl _ \<Rightarrow> False
   | Inr (tm, sent) \<Rightarrow> tm_local_id tm = 1 \<and> tm_result_queue tm = (replicate MACHINE_NUM []) [2 := map (\<lambda>rs.
       (new_ResultMsg 0 1 0)\<lparr>rm_res := rs\<rparr>) [[(Dist 5, 5)], [(Dist 4, 4)]]]"
  by code_simp

lemma ex_remote_post:
  assumes "tm_local_id (fst st) = 1" "tm_result_queue (fst st) = (replicate MACHINE_NUM []) [2 := map (\<lambda>rs.
       (new_ResultMsg 0 1 0)\<lparr>rm_res := rs\<rparr>) [[(Dist 5, 5)], [(Dist 4, 4)]]]"
  shows "\<not> isl (post_remote_results st)"
  using assms
  by (simp add: post_remote_results_def post_each_def post_remote_result_def post_batch_def serialize_result_def to_remote_def
      in_buffer_def full_buffer_def ResultMsg_serialize_bytes bytes_defs new_ResultMsg_def replicate_16 len_simps config_defs Let_def
      upt_rec)

lemma ex_remote_queue_runs: "\<not> isl (proc_task_queue 0 ex_part ex_dist (\<lambda>_. Inr) (ex_remote_tm, []))"
proof -
  obtain st where run: "run_all (proc_task 0 ex_part ex_dist (\<lambda>_. Inr)) (tm_cur_task_queue ex_remote_tm) (ex_remote_tm, []) = Inr st"
    and st: "tm_local_id (fst st) = 1" "tm_result_queue (fst st) = (replicate MACHINE_NUM []) [2 := map (\<lambda>rs.
       (new_ResultMsg 0 1 0)\<lparr>rm_res := rs\<rparr>) [[(Dist 5, 5)], [(Dist 4, 4)]]]"
    using ex_remote_queue by (auto split: sum.splits prod.splits)
  from ex_remote_post [OF st] run show ?thesis by (auto simp: proc_task_queue_def split: sum.splits)
qed

theorem remote_task_result_witness:
  "\<exists>st'. remote_task 0 ex_part ex_dist (ex_task (push_bit 32 7 + 5)) (ex_remote_tm, []) = Inr st' \<and>
     visited (q_visit_hash (tm_global_query (fst st') ! 0)) = {5, 7}"
proof -
  obtain st' where run: "remote_task 0 ex_part ex_dist (ex_task (push_bit 32 7 + 5)) (ex_remote_tm, []) = Inr st'"
    using ex_remote_runs by (cases "remote_task 0 ex_part ex_dist (ex_task (push_bit 32 7 + 5)) (ex_remote_tm, [])") auto
  have t: "task_ngh_arr ex_part (ex_task (push_bit 32 7 + 5)) = Inr [5, 7]" "(-1 :: u32) \<notin> set [5, 7]" by code_simp+
  have q: "q_visit_hash (tm_global_query (fst (ex_remote_tm, [])) ! unat (ct_qid (ex_task (push_bit 32 7 + 5)))) = Init (\<lambda>_. 0) 1 1"
    and id: "unat (ct_qid (ex_task (push_bit 32 7 + 5))) = 0"
    by (simp_all add: ex_remote_tm_def ex_task_def new_TaskManager_def query_example_def)
  have "hv_inv (q_visit_hash (tm_global_query (fst (ex_remote_tm, [])) ! unat (ct_qid (ex_task (push_bit 32 7 + 5)))))"
    unfolding q using Init_inv by blast
  from remote_task_result [OF t this, of 0 ex_dist] run have "visited (q_visit_hash (tm_global_query (fst st') ! unat (ct_qid (ex_task (push_bit 32 7 + 5))))) =
      visited (Init (\<lambda>_. 0) 1 1) \<union> set [5, 7]"
    unfolding q by blast
  then show ?thesis using run Init_inv [of "\<lambda>_. 0" 1 1] unfolding id by auto
qed

text \<open>Processing the task queue answers every task: when all tasks come from other
  machines and no result was pending, each other machine is sent, in order and batched into messages that it
  can read back, one result for each of its tasks with the counters of the task, and no result stays behind.
  So the sum of the counters that come back to a machine is the sum of the counters it has sent.\<close>

theorem task_queue_answered:
  assumes "proc_task_queue vf g dist resume (tm, []) = Inr (tm', sent)"
    and "length (tm_result_queue tm) = MACHINE_NUM" and "list_all (\<lambda>t. ct_machine_id t \<noteq> tm_local_id tm) (tm_cur_task_queue tm)"
    and "m < MACHINE_NUM" and "m \<noteq> unat (tm_local_id tm)" and "tm_result_queue tm ! m = []"
  shows "tm_result_queue tm' ! m = [] \<and> tm_cur_task_queue tm' = [] \<and>
    list_all2 (answered g dist) (filter (\<lambda>t. unat (ct_machine_id t) = m) (tm_cur_task_queue tm)) (posted_results m (tm', sent))"
  using task_queue_answered_ok [OF assms] .

theorem task_queue_answered_witness:
  "\<exists>tm' sent. proc_task_queue 0 ex_part ex_dist (\<lambda>_. Inr) (ex_remote_tm, []) = Inr (tm', sent) \<and> tm_cur_task_queue tm' = [] \<and>
     list_all2 (answered ex_part ex_dist) [ex_task (push_bit 32 7 + 5), ex_task (push_bit 32 5 + 4)] (posted_results 2 (tm', sent))"
proof -
  obtain tm' sent where run: "proc_task_queue 0 ex_part ex_dist (\<lambda>_. Inr) (ex_remote_tm, []) = Inr (tm', sent)"
    using ex_remote_queue_runs by (cases "proc_task_queue 0 ex_part ex_dist (\<lambda>_. Inr) (ex_remote_tm, [])") auto
  have q: "tm_cur_task_queue ex_remote_tm = [ex_task (push_bit 32 7 + 5), ex_task (push_bit 32 5 + 4)]" "tm_local_id ex_remote_tm = 1"
    "tm_result_queue ex_remote_tm = replicate MACHINE_NUM []"
    by (simp_all add: ex_remote_tm_def new_TaskManager_def)
  have m: "2 < MACHINE_NUM" by (simp add: MACHINE_NUM_def)
  have t: "ct_machine_id (ex_task ids) = 2" for ids by (simp add: ex_task_def)
  from run task_queue_answered [OF run, of 2] m show ?thesis
    unfolding q by (simp add: t)
qed

end
