(* ===== verification/Read_Pool.thy ===== *)
theory Read_Pool
  imports Scala_Graph
begin

unbundle bit_operations_syntax

text \<open>
  One-sided reads (\<^verbatim>\<open>src/rdma/rdma_comm.cc\<close>, \<^verbatim>\<open>include/rdma/rdma_comm.h\<close>): the neighbours that live on a
  non-core machine are fetched into the \<^verbatim>\<open>MAX_CACHE_VEC\<close> buffers of the thread.  \<open>post_read\<close> takes a buffer
  per vector and posts a work request whose identifier carries the query and the buffer, a completion puts
  the identifier into \<^verbatim>\<open>recv_list\<close>, \<open>collect_read\<close> gives the buffer to the query, and \<open>release_cache\<close> returns it.
\<close>

definition MAX_CACHE_VEC :: nat where "MAX_CACHE_VEC = 2000"

definition MAX_READ_NUM :: nat where "MAX_READ_NUM = 32"

text \<open>\<open>vb_posted\<close> are the work requests that have not completed: machine, identifier and remote offset.\<close>

record VectorBuffer =
  vb_buff_id_list :: "int list"
  vb_bufcache :: "BufferCache list"
  vb_recv_list :: "u64 list"
  vb_posted :: "(nat \<times> u64 \<times> u64) list"

definition com_read_init :: "BufferCache list \<Rightarrow> VectorBuffer" where
  "com_read_init cache = \<lparr>vb_buff_id_list = map int [0 ..< MAX_CACHE_VEC], vb_bufcache = cache, vb_recv_list = [], vb_posted = []\<rparr>"

text \<open>\<^verbatim>\<open>wr_id = (query_id << 16) | buffer_id\<close> is computed with 32 bits and stored with 64.\<close>

definition read_wr_id :: "u32 \<Rightarrow> int \<Rightarrow> u64" where
  "read_wr_id query_id buffer_id = ucast (push_bit 16 query_id OR (word_of_int buffer_id :: u32))"

definition wr_qid :: "u64 \<Rightarrow> u32" where
  "wr_qid wr_id = ucast (drop_bit 16 wr_id)"

definition wr_buf :: "u64 \<Rightarrow> u32" where
  "wr_buf wr_id = ucast (wr_id AND 0xffff)"

text \<open>The loop of \<^verbatim>\<open>post_read\<close>; \<open>cnt\<close> is \<^verbatim>\<open>wr_cnt\<close>.  An empty buffer list has no
  front (the assertion before it is disabled), and a machine with too many requests ends the program.\<close>

primrec post_read_loop ::
  "u32 \<Rightarrow> u64 \<Rightarrow> BufferCache list \<Rightarrow> nat list \<Rightarrow> VectorBuffer \<Rightarrow> crash + VectorBuffer" where
  "post_read_loop query_id vec_size [] cnt b = Inr b"
| "post_read_loop query_id vec_size (vec # vecs) cnt b =
     (case vb_buff_id_list b of
        [] \<Rightarrow> Inl OutOfBounds
      | i # is \<Rightarrow>
          let m = unat (bc_machine_id vec);
              vec = vec\<lparr>bc_buffer_id := i, bc_buffer_ptr := Some (nat i)\<rparr>;
              b = b\<lparr>vb_buff_id_list := is, vb_bufcache := (vb_bufcache b)[nat i := vec],
                    vb_posted := vb_posted b @ [(m, read_wr_id query_id i, bc_internal_id vec * vec_size)]\<rparr>
          in if m \<ge> MACHINE_NUM \<or> nat i \<ge> length (vb_bufcache b) then Inl OutOfBounds
             else if Suc (cnt ! m) \<ge> MAX_READ_NUM then Inl Abort
             else post_read_loop query_id vec_size vecs (cnt[m := Suc (cnt ! m)]) b)"

definition post_read :: "u32 \<Rightarrow> u64 \<Rightarrow> BufferCache list \<Rightarrow> VectorBuffer \<Rightarrow> crash + VectorBuffer" where
  "post_read query_id vec_size vectors b = post_read_loop query_id vec_size vectors (replicate MACHINE_NUM 0) b"

text \<open>The completion of the \<open>k\<close>-th posted read in \<^verbatim>\<open>poll_send\<close>.\<close>

definition read_done :: "nat \<Rightarrow> VectorBuffer \<Rightarrow> VectorBuffer" where
  "read_done k b = b\<lparr>vb_posted := take k (vb_posted b) @ drop (Suc k) (vb_posted b),
     vb_recv_list := vb_recv_list b @ [fst (snd (vb_posted b ! k))]\<rparr>"

text \<open>One pass of the last loop of \<^verbatim>\<open>poll_task_result\<close>.\<close>

definition collect_read :: "TaskManager \<times> VectorBuffer \<Rightarrow> crash + TaskManager \<times> VectorBuffer" where
  "collect_read st = (case st of (tm, b) \<Rightarrow> case vb_recv_list b of
       [] \<Rightarrow> Inr st
     | w # ws \<Rightarrow>
         let qid = wr_qid w; buf_id = unat (wr_buf w) in
         if unat qid \<ge> length (tm_global_query tm) \<or> buf_id \<ge> length (vb_bufcache b) then Inl OutOfBounds
         else
           let tm = upd_query qid (\<lambda>q. q\<lparr>q_async_read_cnt := q_async_read_cnt q + 1,
                      q_recv_async_read_queue := q_recv_async_read_queue q @ [vb_bufcache b ! buf_id]\<rparr>) tm;
               q = tm_global_query tm ! unat qid;
               tm = (if q_state q = PRE_STAGE then
                       (if q_async_read_cnt q = q_async_read_num q
                        then tm\<lparr>tm_async_task_queue := tm_async_task_queue tm @ [ucast qid]\<rparr> else tm)
                     else invoke_query qid tm)
           in Inr (tm, b\<lparr>vb_recv_list := ws\<rparr>))"

definition release_cache :: "int \<Rightarrow> VectorBuffer \<Rightarrow> VectorBuffer" where
  "release_cache buffer_id b = b\<lparr>vb_buff_id_list := vb_buff_id_list b @ [buffer_id]\<rparr>"

text \<open>The first part of \<^verbatim>\<open>post_remote_task\<close>.\<close>

definition post_async_reads :: "u32 \<Rightarrow> u64 \<Rightarrow> TaskManager \<times> VectorBuffer \<Rightarrow> crash + TaskManager \<times> VectorBuffer" where
  "post_async_reads qid read_size st = (case st of (tm, b) \<Rightarrow>
     let n = length (q_async_read_queue (tm_global_query tm ! unat qid));
         tm = upd_query qid (\<lambda>q. q\<lparr>q_async_read_num := word_of_nat n\<rparr>) tm
     in if unat qid \<ge> length (tm_global_query tm) then Inl OutOfBounds
        else if (word_of_nat n :: u32) > 0 then
          (case post_read qid read_size (q_async_read_queue (tm_global_query tm ! unat qid)) b of
             Inl e \<Rightarrow> Inl e
           | Inr b \<Rightarrow> Inr (upd_query qid (\<lambda>q. q\<lparr>q_async_read_cnt := 0, q_async_read_queue := []\<rparr>) tm, b))
        else Inr (tm, b))"

text \<open>The end of a buffer in the post-stage: the loop over \<^verbatim>\<open>recv_async_read_queue\<close> releases every buffer and
  the queue is cleared.\<close>

definition consume_reads :: "u32 \<Rightarrow> TaskManager \<times> VectorBuffer \<Rightarrow> TaskManager \<times> VectorBuffer" where
  "consume_reads qid st = (case st of (tm, b) \<Rightarrow>
     (upd_query qid (\<lambda>q. q\<lparr>q_recv_async_read_queue := []\<rparr>) tm,
      foldl (\<lambda>b r. release_cache (bc_buffer_id r) b) b (q_recv_async_read_queue (tm_global_query tm ! unat qid))))"

inductive read_step :: "TaskManager \<times> VectorBuffer \<Rightarrow> TaskManager \<times> VectorBuffer \<Rightarrow> bool" where
  post: "post_async_reads qid sz st = Inr st' \<Longrightarrow> read_step st st'"
| complete: "k < length (vb_posted b) \<Longrightarrow> read_step (tm, b) (tm, read_done k b)"
| collect: "collect_read st = Inr st' \<Longrightarrow> read_step st st'"
| consume: "unat qid < length (tm_global_query (fst st)) \<Longrightarrow> read_step st (consume_reads qid st)"
| search: "\<lbrakk>length (tm_global_query tm') = length (tm_global_query tm);
    map q_recv_async_read_queue (tm_global_query tm') = map q_recv_async_read_queue (tm_global_query tm)\<rbrakk> \<Longrightarrow>
    read_step (tm, b) (tm', b)"

section \<open>Where the buffers are\<close>

definition held :: "TaskManager \<Rightarrow> int multiset" where
  "held tm = (\<Sum>q\<leftarrow>tm_global_query tm. mset (map bc_buffer_id (q_recv_async_read_queue q)))"

definition in_flight :: "VectorBuffer \<Rightarrow> int multiset" where
  "in_flight b = mset (map (\<lambda>w. int (unat (wr_buf (fst (snd w))))) (vb_posted b)) + mset (map (\<lambda>w. int (unat (wr_buf w))) (vb_recv_list b))"

definition buffers_ok :: "TaskManager \<times> VectorBuffer \<Rightarrow> bool" where
  "buffers_ok st \<longleftrightarrow> mset (vb_buff_id_list (snd st)) + in_flight (snd st) + held (fst st) = mset (map int [0 ..< MAX_CACHE_VEC]) \<and>
     length (vb_bufcache (snd st)) = MAX_CACHE_VEC \<and>
     (\<forall>i\<in>#in_flight (snd st). bc_buffer_id (vb_bufcache (snd st) ! nat i) = i)"

lemma wr_fields:
  assumes "0 \<le> i" "i < 2 ^ 16"
  shows "wr_buf (read_wr_id qid i) = word_of_int i" "wr_qid (read_wr_id qid i) = qid AND 0xffff" "unat (word_of_int i :: u32) = nat i"
proof -
  have high: "\<not> bit i n" if "n \<ge> 16" for n
  proof -
    have "(2 :: int) ^ 16 \<le> 2 ^ n" using that by (intro power_increasing) auto
    with assms show ?thesis by (simp add: bit_iff_odd)
  qed
  then have range: "n < 16" if "bit i n" for n using that by (meson not_le)
  have low: "(0xffff :: u64) = mask 16" "(0xffff :: u32) = mask 16" by (simp_all add: mask_eq_exp_minus_1)
  show "wr_buf (read_wr_id qid i) = word_of_int i"
    unfolding wr_buf_def read_wr_id_def low
    by (rule bit_word_eqI) (use high in \<open>auto simp: bit_simps not_less dest: range\<close>)
  show "wr_qid (read_wr_id qid i) = qid AND 0xffff"
    unfolding wr_qid_def read_wr_id_def low
    by (rule bit_word_eqI) (use high in \<open>auto simp: bit_simps not_less dest: range\<close>)
  show "unat (word_of_int i :: u32) = nat i"
    using assms by (simp add: unat_eq_nat_uint uint_word_of_int_eq take_bit_int_eq_self)
qed


lemma buffers_range:
  assumes "buffers_ok (tm, b)" "i \<in># mset (vb_buff_id_list b) + in_flight b + held tm"
  shows "0 \<le> i" "i < int MAX_CACHE_VEC" "nat i < length (vb_bufcache b)"
proof -
  from assms have "i \<in># mset (map int [0 ..< MAX_CACHE_VEC])" by (simp add: buffers_ok_def)
  then show "0 \<le> i" "i < int MAX_CACHE_VEC" by auto
  then show "nat i < length (vb_bufcache b)" using assms(1) by (simp add: buffers_ok_def)
qed

lemma buffers_unique:
  assumes "buffers_ok (tm, b)" "vb_buff_id_list b = i # is"
  shows "i \<notin># in_flight b"
proof -
  have d: "distinct (map int [0 ..< MAX_CACHE_VEC])" by (simp add: distinct_map)
  have "count (mset (vb_buff_id_list b) + in_flight b + held tm) i = count (mset (map int [0 ..< MAX_CACHE_VEC])) i"
    using assms(1) by (simp add: buffers_ok_def)
  also have "\<dots> \<le> 1" using d by (simp add: distinct_count_atmost_1)
  finally show ?thesis using assms(2) by (simp add: not_in_iff)
qed

lemma take_buffer:
  assumes ok: "buffers_ok (tm, b)" and b: "vb_buff_id_list b = i # is" and vec: "bc_buffer_id vec = i"
  shows "buffers_ok (tm, b\<lparr>vb_buff_id_list := is, vb_bufcache := (vb_bufcache b)[nat i := vec],
    vb_posted := vb_posted b @ [(m, read_wr_id qid i, ofs)]\<rparr>)"
proof -
  have r: "0 \<le> i" "i < int MAX_CACHE_VEC" "nat i < length (vb_bufcache b)"
    using buffers_range [OF ok, of i] b by auto
  have "i < 2 ^ 16" using r(2) by (simp add: MAX_CACHE_VEC_def)
  note wr = wr_fields(1) [OF r(1) this, of qid] wr_fields(3) [OF r(1) this]
  have w: "int (unat (wr_buf (read_wr_id qid i))) = i"
    using r(1) by (simp only: wr int_nat_eq if_True)
  let ?b = "b\<lparr>vb_buff_id_list := is, vb_bufcache := (vb_bufcache b)[nat i := vec],
    vb_posted := vb_posted b @ [(m, read_wr_id qid i, ofs)]\<rparr>"
  have fl: "in_flight ?b = add_mset i (in_flight b)" using w by (simp add: in_flight_def)
  have other: "bc_buffer_id ((vb_bufcache b)[nat i := vec] ! nat j) = j" if "j \<in># in_flight b" for j
  proof -
    have "j \<noteq> i" using that buffers_unique [OF ok b] by auto
    moreover have "0 \<le> j" using buffers_range [OF ok, of j] that by simp
    ultimately have "nat j \<noteq> nat i" using r(1) by simp
    then show ?thesis using ok that by (simp add: buffers_ok_def)
  qed
  show ?thesis
    using ok r vec other unfolding buffers_ok_def snd_conv fst_conv fl by (auto simp: b)
qed

lemma post_read_loop_ok:
  "post_read_loop qid sz vecs cnt b = Inr b' \<Longrightarrow> buffers_ok (tm, b) \<Longrightarrow> buffers_ok (tm, b')"
proof (induction vecs arbitrary: b cnt)
  case (Cons vec vecs)
  then obtain i "is" where b: "vb_buff_id_list b = i # is" by (auto split: list.splits)
  let ?v = "vec\<lparr>bc_buffer_id := i, bc_buffer_ptr := Some (nat i)\<rparr>"
  let ?b = "b\<lparr>vb_buff_id_list := is, vb_bufcache := (vb_bufcache b)[nat i := ?v],
    vb_posted := vb_posted b @ [(unat (bc_machine_id vec), read_wr_id qid i, bc_internal_id ?v * sz)]\<rparr>"
  from Cons.prems(1) b obtain cnt' where rest: "post_read_loop qid sz vecs cnt' ?b = Inr b'"
    by (auto simp: Let_def split: if_splits)
  show ?case by (rule Cons.IH [OF rest take_buffer [OF Cons.prems(2) b]]) simp
qed simp

section \<open>Every step keeps the buffers\<close>

lemma held_upd:
  assumes "unat qid < length (tm_global_query tm)"
  shows "held (upd_query qid f tm) + mset (map bc_buffer_id (q_recv_async_read_queue (tm_global_query tm ! unat qid))) =
    held tm + mset (map bc_buffer_id (q_recv_async_read_queue (f (tm_global_query tm ! unat qid))))"
proof -
  obtain xs y ys where "tm_global_query tm = xs @ y # ys" "length xs = unat qid"
    using assms id_take_nth_drop [OF assms] by (metis length_take min.absorb4 less_imp_le_nat)
  then show ?thesis by (simp add: held_def upd_query_def list_update_append nth_append)
qed

lemma held_same: "map q_recv_async_read_queue (tm_global_query tm') = map q_recv_async_read_queue (tm_global_query tm) \<Longrightarrow> held tm' = held tm"
proof -
  assume eq: "map q_recv_async_read_queue (tm_global_query tm') = map q_recv_async_read_queue (tm_global_query tm)"
  have h: "held t = sum_list (map (\<lambda>rs. mset (map bc_buffer_id rs)) (map q_recv_async_read_queue (tm_global_query t)))" for t
    by (simp add: held_def comp_def)
  show ?thesis unfolding h eq ..
qed

lemma map_update_same: "(\<And>x. g (h x) = g x) \<Longrightarrow> map g (xs[i := h (xs ! i)]) = map g xs"
  by (cases "i < length xs") (simp_all add: map_update list_update_same_conv list_update_beyond)

lemma held_upd_same:
  "(\<And>q. q_recv_async_read_queue (f q) = q_recv_async_read_queue q) \<Longrightarrow> held (upd_query qid f tm) = held tm"
  by (rule held_same) (simp add: upd_query_def map_update_same)

lemma invoke_query_held: "held (invoke_query qid tm) = held tm"
  by (rule held_same) (simp add: invoke_query_def map_update_same)

lemma held_async: "held (tm\<lparr>tm_async_task_queue := x\<rparr>) = held tm"
  by (simp add: held_def)

lemma buffers_ok_tm: "held tm' = held tm \<Longrightarrow> buffers_ok (tm, b) \<Longrightarrow> buffers_ok (tm', b)"
  by (simp add: buffers_ok_def)

lemma post_async_reads_ok:
  assumes "post_async_reads qid sz st = Inr st'" "buffers_ok st"
  shows "buffers_ok st'"
proof -
  obtain tm b where st: "st = (tm, b)" by (cases st)
  from assms(1) consider "fst st' = upd_query qid (\<lambda>q. q\<lparr>q_async_read_num := word_of_nat (length (q_async_read_queue
        (tm_global_query tm ! unat qid)))\<rparr>) tm" "snd st' = b"
    | tm1 vecs where "fst st' = upd_query qid (\<lambda>q. q\<lparr>q_async_read_cnt := 0, q_async_read_queue := []\<rparr>) tm1"
      "held tm1 = held tm" "post_read qid sz vecs b = Inr (snd st')"
    by (auto simp: st post_async_reads_def Let_def held_upd_same split: if_splits sum.splits)
  then have "held (fst st') = held tm \<and> buffers_ok (tm, snd st')"
    using assms(2) by cases (auto simp: st held_upd_same post_read_def intro: post_read_loop_ok)
  then show ?thesis using buffers_ok_tm [of "fst st'" tm "snd st'"] by simp
qed

lemma read_done_ok:
  assumes "k < length (vb_posted b)" "buffers_ok (tm, b)"
  shows "buffers_ok (tm, read_done k b)"
proof -
  obtain xs x ys where "vb_posted b = xs @ x # ys" "length xs = k"
    using assms(1) id_take_nth_drop [OF assms(1)] by (metis length_take min.absorb4)
  then have "in_flight (read_done k b) = in_flight b"
    by (auto simp: in_flight_def read_done_def nth_append)
  then show ?thesis using assms(2) by (simp add: buffers_ok_def read_done_def)
qed

lemma collect_read_ok:
  assumes "collect_read st = Inr st'" "buffers_ok st"
  shows "buffers_ok st'"
proof (cases "vb_recv_list (snd st)")
  case Nil
  with assms show ?thesis by (cases st) (simp add: collect_read_def)
next
  case (Cons w ws)
  obtain tm b where st: "st = (tm, b)" by (cases st)
  let ?f = "\<lambda>q. q\<lparr>q_async_read_cnt := q_async_read_cnt q + 1,
                      q_recv_async_read_queue := q_recv_async_read_queue q @ [vb_bufcache b ! unat (wr_buf w)]\<rparr>"
  let ?tm = "upd_query (wr_qid w) ?f tm"
  from assms(1) Cons have q: "unat (wr_qid w) < length (tm_global_query tm)" and st': "snd st' = b\<lparr>vb_recv_list := ws\<rparr>"
    and tm': "held (fst st') = held ?tm"
    by (auto simp: st collect_read_def Let_def invoke_query_held held_async split: if_splits)
  have fl: "in_flight b = add_mset (int (unat (wr_buf w))) (in_flight (b\<lparr>vb_recv_list := ws\<rparr>))"
    using Cons by (simp add: in_flight_def st)
  then have id: "bc_buffer_id (vb_bufcache b ! unat (wr_buf w)) = int (unat (wr_buf w))"
    using assms(2) by (simp add: buffers_ok_def st)
  have "held ?tm = held tm + {#int (unat (wr_buf w))#}"
    using held_upd [OF q, of ?f] id by simp
  then show ?thesis using assms(2) fl tm' st' by (simp add: buffers_ok_def st)
qed

lemma release_all:
  "mset (vb_buff_id_list (foldl (\<lambda>b r. release_cache (bc_buffer_id r) b) b rs)) = mset (vb_buff_id_list b) + mset (map bc_buffer_id rs) \<and>
   vb_posted (foldl (\<lambda>b r. release_cache (bc_buffer_id r) b) b rs) = vb_posted b \<and>
   vb_recv_list (foldl (\<lambda>b r. release_cache (bc_buffer_id r) b) b rs) = vb_recv_list b \<and>
   vb_bufcache (foldl (\<lambda>b r. release_cache (bc_buffer_id r) b) b rs) = vb_bufcache b"
  by (induction rs arbitrary: b) (auto simp: release_cache_def)

lemma consume_reads_ok:
  assumes "unat qid < length (tm_global_query (fst st))" "buffers_ok st"
  shows "buffers_ok (consume_reads qid st)"
proof -
  obtain tm b where st: "st = (tm, b)" by (cases st)
  have "held tm = held (upd_query qid (\<lambda>q. q\<lparr>q_recv_async_read_queue := []\<rparr>) tm) +
      mset (map bc_buffer_id (q_recv_async_read_queue (tm_global_query tm ! unat qid)))"
    using held_upd [of qid tm "\<lambda>q. q\<lparr>q_recv_async_read_queue := []\<rparr>"] assms(1) by (simp add: st)
  with release_all [of b "q_recv_async_read_queue (tm_global_query tm ! unat qid)"] assms(2) show ?thesis
    by (auto simp: buffers_ok_def consume_reads_def st in_flight_def ac_simps)
qed

lemma read_step_ok: "read_step st st' \<Longrightarrow> buffers_ok st \<Longrightarrow> buffers_ok st'"
  by (induction rule: read_step.induct)
    (auto intro: post_async_reads_ok read_done_ok collect_read_ok consume_reads_ok buffers_ok_tm held_same)


inductive read_reach :: "TaskManager \<Rightarrow> BufferCache list \<Rightarrow> TaskManager \<times> VectorBuffer \<Rightarrow> bool" for tm cache where
  init: "read_reach tm cache (tm, com_read_init cache)"
| step: "read_reach tm cache st \<Longrightarrow> read_step st st' \<Longrightarrow> read_reach tm cache st'"

section \<open>Properties\<close>

text \<open>Property C17. The read buffers are conserved: after any sequence of posted, completed, collected and
  consumed reads every buffer is in exactly one place - free, in flight, or held by one query - and a buffer in
  flight still has the descriptor that its read was posted with.  So a buffer is never filled by
  two reads at once and never read after its release.\<close>

theorem buffers_conserved:
  assumes "read_reach tm cache st" and "length cache = MAX_CACHE_VEC" and "held tm = {#}"
  shows "mset (vb_buff_id_list (snd st)) + in_flight (snd st) + held (fst st) = mset (map int [0 ..< MAX_CACHE_VEC]) \<and>
    (\<forall>i\<in>#in_flight (snd st). bc_buffer_id (vb_bufcache (snd st) ! nat i) = i)"
proof -
  have "buffers_ok (tm, com_read_init cache)"
    using assms(2,3) by (simp add: buffers_ok_def com_read_init_def in_flight_def)
  with assms(1) have "buffers_ok st" by induction (auto intro: read_step_ok)
  then show ?thesis by (simp add: buffers_ok_def)
qed

text \<open>A query with one read, posted from the start.\<close>

definition ex_read :: BufferCache where
  "ex_read = \<lparr>bc_machine_id = 3, bc_vector_id = 11, bc_internal_id = 2, bc_buffer_id = -1, bc_buffer_ptr = None\<rparr>"

definition ex_read_tm :: TaskManager where
  "ex_read_tm = new_TaskManager 0 [query_example\<lparr>q_async_read_queue := [ex_read]\<rparr>]"

lemma ex_read_posts: "\<exists>st. post_async_reads 0 128 (ex_read_tm, com_read_init (replicate MAX_CACHE_VEC ex_read)) = Inr st"
proof -
  have pos: "0 < MAX_CACHE_VEC" by (simp add: MAX_CACHE_VEC_def)
  then have ids: "map int [0 ..< MAX_CACHE_VEC] = 0 # map int [1 ..< MAX_CACHE_VEC]" by (simp add: upt_conv_Cons)
  have q: "q_async_read_queue (tm_global_query ex_read_tm ! 0) = [ex_read]" "tm_global_query ex_read_tm \<noteq> []"
    "bc_machine_id ex_read = 3"
    by (simp_all add: ex_read_tm_def new_TaskManager_def ex_read_def)
  show ?thesis
    unfolding post_async_reads_def post_read_def com_read_init_def ids
    using q pos by (simp add: upd_query_def Let_def MAX_READ_NUM_def MACHINE_NUM_def)
qed

theorem buffers_conserved_witness:
  "\<exists>st. read_reach ex_read_tm (replicate MAX_CACHE_VEC ex_read) st \<and>
     mset (vb_buff_id_list (snd st)) + in_flight (snd st) + held (fst st) = mset (map int [0 ..< MAX_CACHE_VEC])"
proof -
  obtain st where "post_async_reads 0 128 (ex_read_tm, com_read_init (replicate MAX_CACHE_VEC ex_read)) = Inr st"
    using ex_read_posts by blast
  then have r: "read_reach ex_read_tm (replicate MAX_CACHE_VEC ex_read) st"
    by (blast intro: read_reach.intros read_step.intros)
  moreover have "held ex_read_tm = {#}" by (simp add: held_def ex_read_tm_def new_TaskManager_def query_example_def)
  ultimately show ?thesis using buffers_conserved [OF r length_replicate] by blast
qed

text \<open>Property C29. The identifier of a read brings its buffer back, and its query if that is below
  65536; a larger query identifier comes back reduced modulo 65536, so that the vector is given to
  another query.\<close>

theorem read_identifier_bounds:
  assumes "0 \<le> buffer_id" and "buffer_id < int MAX_CACHE_VEC"
  shows "int (unat (wr_buf (read_wr_id query_id buffer_id))) = buffer_id \<and>
    unat (wr_qid (read_wr_id query_id buffer_id)) = unat query_id mod 2 ^ 16 \<and>
    (wr_qid (read_wr_id query_id buffer_id) = query_id \<longleftrightarrow> unat query_id < 2 ^ 16)"
proof -
  have i: "buffer_id < 2 ^ 16" using assms(2) by (simp add: MAX_CACHE_VEC_def)
  have "(0xffff :: u32) = mask 16" by (simp add: mask_eq_exp_minus_1)
  then have "unat (query_id AND 0xffff) = take_bit 16 (unat query_id)"
    by (simp only: take_bit_eq_mask [symmetric] unsigned_take_bit_eq)
  then have m: "unat (query_id AND 0xffff) = unat query_id mod 2 ^ 16" by (simp only: take_bit_eq_mod)
  have "(query_id AND 0xffff = query_id) = (unat query_id mod 2 ^ 16 = unat query_id)"
    unfolding m [symmetric] by (simp only: word_unat_eq_iff)
  also have "\<dots> = (unat query_id < 2 ^ 16)" by (auto simp: mod_eq_self_iff_div_eq_0 div_eq_0_iff)
  finally show ?thesis
    using assms(1) m wr_fields(1,2) [OF assms(1) i, of query_id] wr_fields(3) [OF assms(1) i] by simp
qed

theorem read_identifier_bounds_witness:
  "int (unat (wr_buf (read_wr_id 65541 7))) = 7 \<and> unat (wr_qid (read_wr_id 65541 7)) = 5 \<and> wr_qid (read_wr_id 65541 7) \<noteq> 65541"
  using read_identifier_bounds [of 7 65541] by (simp add: MAX_CACHE_VEC_def)

end
