(* ===== verification/Sub_Post.thy ===== *)
theory Sub_Post
  imports Remote_Tasks Read_Pool
begin

text \<open>
  The post-stage of the search coroutine \<^verbatim>\<open>coro_sub_query_v5\<close> (\<^verbatim>\<open>include/anns/scala_search.h\<close>) on a core
  machine: an activation first takes in what has arrived for the query (local tasks, the shared task queue
  of the thread, neighbours from other machines, finished reads, results), then expands up to
  \<^verbatim>\<open>CAND_GROUP_SIZE\<close> candidates or, when none is left and all answers are in, takes part in the
  termination protocol.  A coroutine is given by the state at its \<^verbatim>\<open>co_yield\<close>; an activation runs
  to the next one.  \<open>dist\<close> gives the distance of a local vector to a query and \<open>rdist\<close> that of the vector in a
  read buffer.
\<close>

definition CAND_GROUP_SIZE :: nat where "CAND_GROUP_SIZE = 4"
definition SYNC_BAR :: u32 where "SYNC_BAR = 4"
definition MAX_GRAPH_DEG :: nat where "MAX_GRAPH_DEG = 96"

text \<open>The state of a thread: task manager, its part of \<^verbatim>\<open>ba_task_queue\<close>, read buffers, posted messages.\<close>

record worker =
  w_tm :: TaskManager
  w_ba :: "ComputeTask list"
  w_rd :: VectorBuffer
  w_sent :: "(nat \<times> ControlType \<times> byte list) list"

definition cur_query :: "u32 \<Rightarrow> worker \<Rightarrow> QueryMsg" where
  "cur_query qid w = tm_global_query (w_tm w) ! unat qid"

definition set_query :: "u32 \<Rightarrow> QueryMsg \<Rightarrow> worker \<Rightarrow> worker" where
  "set_query qid q w = w\<lparr>w_tm := upd_query qid (\<lambda>_. q) (w_tm w)\<rparr>"

section \<open>What has arrived\<close>

definition post_proc_candidate :: "dist_t \<Rightarrow> u32 \<Rightarrow> QueryMsg \<Rightarrow> QueryMsg" where
  "post_proc_candidate dist candidate_id q =
     (case offer (unat (q_ef q)) (dist, candidate_id) (q_top_candidates q) (q_lowerBound q) of (taken, tops, lb) \<Rightarrow>
        if taken then
          q\<lparr>q_candidate_set := pq_push fst (- dist, candidate_id) (q_candidate_set q),
            q_sync_msg := (q_sync_msg q)\<lparr>sm_local_add_cand := sm_local_add_cand (q_sync_msg q) @ [(dist, candidate_id)]\<rparr>,
            q_proc_is_black := q_proc_is_black q OR 1,
            q_top_candidates := tops, q_lowerBound := lb\<rparr>
        else q)"

text \<open>The loop over identifiers of local vectors.\<close>

primrec visit_post :: "nat \<Rightarrow> ScalaGraphIndex \<Rightarrow> (u32 \<Rightarrow> dist_t) \<Rightarrow> u32 list \<Rightarrow> QueryMsg \<Rightarrow> crash + QueryMsg" where
  "visit_post vf g dist [] q = Inr q"
| "visit_post vf g dist (v # vs) q =
     (case CheckAndSet vf v (q_visit_hash q) of
        None \<Rightarrow> Inl Busy
      | Some (seen, h) \<Rightarrow>
          let q = q\<lparr>q_visit_hash := h\<rparr> in
          if seen then visit_post vf g dist vs q
          else if \<not> local_vector g v then Inl OutOfBounds
          else visit_post vf g dist vs (post_proc_candidate (dist v) v q))"

definition post_local_task :: "nat \<Rightarrow> ScalaGraphIndex \<Rightarrow> (u32 \<Rightarrow> dist_t) \<Rightarrow> ComputeTask \<Rightarrow> QueryMsg \<Rightarrow> crash + QueryMsg" where
  "post_local_task vf g dist task q = (case read_ngh g (ct_offset task) (unat (ct_deg task)) of
     Inl e \<Rightarrow> Inl e | Inr ids \<Rightarrow> visit_post vf g dist ids q)"

definition post_local_tasks :: "nat \<Rightarrow> ScalaGraphIndex \<Rightarrow> (u32 \<Rightarrow> dist_t) \<Rightarrow> QueryMsg \<Rightarrow> crash + QueryMsg" where
  "post_local_tasks vf g dist q = (case run_all (post_local_task vf g dist) (q_local_task q) q of
     Inl e \<Rightarrow> Inl e | Inr q \<Rightarrow> Inr (q\<lparr>q_local_task := []\<rparr>))"

text \<open>A task of the shared queue, of any query: its candidates become a chunk of that query.  The chunk
  has room for \<^const>\<open>MAX_GRAPH_DEG\<close> candidates; \<^verbatim>\<open>is_count\<close> is set for every task that enters the queue.\<close>

definition do_task :: "nat \<Rightarrow> ScalaGraphIndex \<Rightarrow> (u32 \<Rightarrow> u32 \<Rightarrow> dist_t) \<Rightarrow> ComputeTask \<Rightarrow> worker \<Rightarrow> crash + worker" where
  "do_task vf g dist task w =
     (if unat (ct_qid task) \<ge> length (tm_global_query (w_tm w)) then Inl OutOfBounds
      else let q = cur_query (ct_qid task) w in
        case read_ngh g (ct_offset task) (unat (ct_deg task)) of
          Inl e \<Rightarrow> Inl e
        | Inr ngh_arr \<Rightarrow>
            (case compute_nghs vf g (dist (ct_qid task)) (\<lambda>_. True) ngh_arr ([], q_visit_hash q) of
               Inl e \<Rightarrow> Inl e
             | Inr (res, h) \<Rightarrow>
                 (case ct_is_count task of
                    None \<Rightarrow> Inl OutOfBounds
                  | Some is_count \<Rightarrow>
                      if length res > MAX_GRAPH_DEG then Inl OutOfBounds
                      else Inr (set_query (ct_qid task)
                             (q\<lparr>q_visit_hash := h, q_con_task_queue := q_con_task_queue q @ [(res, is_count)]\<rparr>) w))))"

definition do_tasks :: "nat \<Rightarrow> ScalaGraphIndex \<Rightarrow> (u32 \<Rightarrow> u32 \<Rightarrow> dist_t) \<Rightarrow> worker \<Rightarrow> crash + worker" where
  "do_tasks vf g dist w = run_all (do_task vf g dist) (w_ba w) (w\<lparr>w_ba := []\<rparr>)"

definition work_steal :: "nat \<Rightarrow> ScalaGraphIndex \<Rightarrow> (u32 \<Rightarrow> u32 \<Rightarrow> dist_t) \<Rightarrow> worker \<Rightarrow> crash + worker" where
  "work_steal vf g dist w = (case w_ba w of [] \<Rightarrow> Inr w | t # ts \<Rightarrow> do_task vf g dist t (w\<lparr>w_ba := ts\<rparr>))"

definition post_cands :: "cand list \<Rightarrow> QueryMsg \<Rightarrow> QueryMsg" where
  "post_cands cs q = foldl (\<lambda>q c. post_proc_candidate (fst c) (snd c) q) q cs"

definition post_chunks :: "QueryMsg \<Rightarrow> QueryMsg" where
  "post_chunks q = (foldl (\<lambda>q c. post_cands (fst c) (q\<lparr>q_recv_cnt := q_recv_cnt q + of_bool (snd c)\<rparr>)) q (q_con_task_queue q))\<lparr>q_con_task_queue := []\<rparr>"

definition post_micro_tasks :: "nat \<Rightarrow> ScalaGraphIndex \<Rightarrow> (u32 \<Rightarrow> dist_t) \<Rightarrow> QueryMsg \<Rightarrow> crash + QueryMsg" where
  "post_micro_tasks vf g dist q = (case visit_post vf g dist (q_local_micro_task q) q of
     Inl e \<Rightarrow> Inl e | Inr q \<Rightarrow> Inr (q\<lparr>q_local_micro_task := []\<rparr>))"

definition post_read_done ::
  "nat \<Rightarrow> (BufferCache \<Rightarrow> dist_t) \<Rightarrow> BufferCache \<Rightarrow> QueryMsg \<times> VectorBuffer \<Rightarrow> crash + QueryMsg \<times> VectorBuffer" where
  "post_read_done vf rdist r st = (case st of (q, b) \<Rightarrow>
     let ngh_id = ucast (bc_vector_id r) in
     case CheckAndSet vf ngh_id (q_visit_hash q) of
       None \<Rightarrow> Inl Busy
     | Some (seen, h) \<Rightarrow>
         let q = q\<lparr>q_visit_hash := h\<rparr>;
             q = (if seen then q else post_proc_candidate (rdist r) ngh_id q)
         in Inr (q\<lparr>q_recv_cnt := q_recv_cnt q + 1\<rparr>, release_cache (bc_buffer_id r) b))"

definition post_reads_done :: "nat \<Rightarrow> (BufferCache \<Rightarrow> dist_t) \<Rightarrow> QueryMsg \<times> VectorBuffer \<Rightarrow> crash + QueryMsg \<times> VectorBuffer" where
  "post_reads_done vf rdist st = (case run_all (post_read_done vf rdist) (q_recv_async_read_queue (fst st)) st of
     Inl e \<Rightarrow> Inl e | Inr (q, b) \<Rightarrow> Inr (q\<lparr>q_recv_async_read_queue := []\<rparr>, b))"

definition post_result :: "QueryMsg \<Rightarrow> ResultMsg \<Rightarrow> QueryMsg" where
  "post_result q result = (let q = post_cands (rm_res result) q in
     q\<lparr>q_recv_cnt := q_recv_cnt q + ucast (rm_core_cnt result), q_nocore_recv := q_nocore_recv q + ucast (rm_nocore_cnt result)\<rparr>)"

definition post_results :: "QueryMsg \<Rightarrow> QueryMsg" where
  "post_results q = (foldl post_result q (q_local_res q))\<lparr>q_local_res := []\<rparr>"

definition on_cur :: "u32 \<Rightarrow> (QueryMsg \<Rightarrow> crash + QueryMsg) \<Rightarrow> worker \<Rightarrow> crash + worker" where
  "on_cur qid f w = (case f (cur_query qid w) of Inl e \<Rightarrow> Inl e | Inr q \<Rightarrow> Inr (set_query qid q w))"

definition then_run :: "(worker \<Rightarrow> crash + worker) \<Rightarrow> (worker \<Rightarrow> crash + worker) \<Rightarrow> worker \<Rightarrow> crash + worker" where
  "then_run f h w = (case f w of Inl e \<Rightarrow> Inl e | Inr w' \<Rightarrow> h w')"

definition on_reads ::
  "nat \<Rightarrow> (u32 \<Rightarrow> BufferCache \<Rightarrow> dist_t) \<Rightarrow> u32 \<Rightarrow> worker \<Rightarrow> crash + worker" where
  "on_reads vf rdist qid w = (case post_reads_done vf (rdist qid) (cur_query qid w, w_rd w) of
     Inl e \<Rightarrow> Inl e | Inr (q, b) \<Rightarrow> Inr (set_query qid q (w\<lparr>w_rd := b\<rparr>)))"

definition take_in ::
  "nat \<Rightarrow> ScalaGraphIndex \<Rightarrow> (u32 \<Rightarrow> u32 \<Rightarrow> dist_t) \<Rightarrow> (u32 \<Rightarrow> BufferCache \<Rightarrow> dist_t) \<Rightarrow> u32 \<Rightarrow> worker \<Rightarrow> crash + worker" where
  "take_in vf g dist rdist qid =
     then_run (on_cur qid (post_local_tasks vf g (dist qid)))
      (then_run (do_tasks vf g dist)
       (then_run (on_cur qid (\<lambda>q. Inr (post_chunks q)))
        (then_run (on_cur qid (post_micro_tasks vf g (dist qid)))
         (then_run (on_reads vf rdist qid)
          (on_cur qid (\<lambda>q. Inr (post_results q)))))))"

section \<open>Synchronization messages\<close>

definition next_core :: "u32 \<Rightarrow> u32 list \<Rightarrow> u32 option" where
  "next_core local_id core = (case find (\<lambda>i. core ! i = local_id) [0 ..< length core] of
     None \<Rightarrow> None | Some i \<Rightarrow> Some (core ! (Suc i mod length core)))"

text \<open>One message of \<^verbatim>\<open>post_subquery_sync\<close>; \<open>nxt\<close> is \<^verbatim>\<open>nxt_prop_m\<close>, which is not initialised when the machine
  is not core.\<close>

definition sync_to ::
  "u32 option \<Rightarrow> bool \<Rightarrow> bool \<Rightarrow> u32 \<Rightarrow> QueryMsg \<times> (nat \<times> ControlType \<times> byte list) list \<Rightarrow>
     crash + QueryMsg \<times> (nat \<times> ControlType \<times> byte list) list" where
  "sync_to nxt prop_token taint m st = (case st of (q, sent) \<Rightarrow>
     if prop_token \<and> nxt = None then Inl OutOfBounds
     else
       let q = (if prop_token \<and> nxt = Some m \<and> q_has_token q \<noteq> 0
                then q\<lparr>q_sync_msg := (q_sync_msg q)\<lparr>sm_update_term := 1, sm_has_token := 1, sm_token_is_black := of_bool taint\<rparr>,
                       q_has_token := 0\<rparr>
                else q\<lparr>q_sync_msg := (q_sync_msg q)\<lparr>sm_update_term := 0, sm_has_token := 0\<rparr>\<rparr>)
       in case SyncMsg_serialize (q_sync_msg q) of
            Inl e \<Rightarrow> Inl e
          | Inr buf \<Rightarrow> if length buf > MAX_QUERYBUFFER_SIZE then Inl Abort else Inr (q, sent @ [(unat m, SYNC, buf)]))"

definition post_subquery_sync ::
  "u32 \<Rightarrow> bool \<Rightarrow> bool \<Rightarrow> QueryMsg \<times> (nat \<times> ControlType \<times> byte list) list \<Rightarrow>
     crash + QueryMsg \<times> (nat \<times> ControlType \<times> byte list) list" where
  "post_subquery_sync machine_id prop_token taint st = (case st of (q, sent) \<Rightarrow>
     run_all (sync_to (next_core machine_id (q_core_machine q)) prop_token taint)
       (filter (\<lambda>m. m \<noteq> machine_id) (q_core_machine q))
       (q\<lparr>q_sync_msg := (q_sync_msg q)\<lparr>sm_qid := ucast (q_query_id q)\<rparr>\<rparr>, sent))"

definition clear_sync :: "QueryMsg \<Rightarrow> QueryMsg" where
  "clear_sync q = q\<lparr>q_sync_msg := SyncMsg_clear (q_sync_msg q), q_sync_step := 0\<rparr>"

section \<open>One round of the search\<close>

primrec take_group :: "nat \<Rightarrow> QueryMsg \<Rightarrow> cand list \<times> QueryMsg" where
  "take_group 0 q = ([], q)"
| "take_group (Suc n) q =
     (if q_candidate_set q = [] \<or> - fst (pq_top (q_candidate_set q)) > q_lowerBound q then ([], q)
      else let c = pq_top (q_candidate_set q); r = take_group n (q\<lparr>q_candidate_set := pq_pop (q_candidate_set q)\<rparr>)
           in (c # fst r, snd r))"

definition add_post_cnt :: "u32 \<Rightarrow> u32 \<Rightarrow> TaskManager \<Rightarrow> TaskManager" where
  "add_post_cnt qid n = upd_query qid (\<lambda>q. q\<lparr>q_post_cnt := q_post_cnt q + n\<rparr>)"

definition expand_node :: "dist_t \<Rightarrow> u8 \<Rightarrow> ScalaGraphIndex \<Rightarrow> u32 \<Rightarrow> cand \<Rightarrow> worker \<Rightarrow> crash + worker" where
  "expand_node j k g qid c w =
     (case get_machine_id g (snd c) of
        None \<Rightarrow> Inl OutOfBounds
      | Some mid \<Rightarrow>
          if mid \<noteq> unat (tm_local_id (w_tm w)) then
            (case add_remote_task (snd c) mid qid (w_tm w) of
               None \<Rightarrow> Inl OutOfBounds
             | Some tm \<Rightarrow> Inr (w\<lparr>w_tm := add_post_cnt qid 1 tm\<rparr>))
          else
            (case scala_graph_v3_get_subquery_task_lb j k g (snd c) qid (w_tm w) (w_ba w) of
               Inl e \<Rightarrow> Inl e
             | Inr (tm, ba, n) \<Rightarrow> Inr (w\<lparr>w_tm := add_post_cnt qid n tm, w_ba := ba\<rparr>)))"

definition post_remote_task :: "u32 \<Rightarrow> u64 \<Rightarrow> worker \<Rightarrow> crash + worker" where
  "post_remote_task qid read_size w = (case post_async_reads qid read_size (w_tm w, w_rd w) of
     Inl e \<Rightarrow> Inl e
   | Inr (tm, b) \<Rightarrow> (case post_each post_task (tm, w_sent w) of
       Inl e \<Rightarrow> Inl e
     | Inr (tm, sent) \<Rightarrow> Inr (w\<lparr>w_tm := tm, w_rd := b, w_sent := sent\<rparr>)))"

definition step_sync :: "u32 \<Rightarrow> worker \<Rightarrow> crash + worker" where
  "step_sync qid w =
     (let q = cur_query qid w; q = q\<lparr>q_sync_step := q_sync_step q + 1\<rparr> in
      if q_sync_step q \<ge> SYNC_BAR then
        (case post_subquery_sync (tm_local_id (w_tm w)) False False
                (q\<lparr>q_sync_msg := (q_sync_msg q)\<lparr>sm_lower_bound := q_lowerBound q\<rparr>\<rparr>, w_sent w) of
           Inl e \<Rightarrow> Inl e
         | Inr (q, sent) \<Rightarrow> Inr (set_query qid (clear_sync q) (w\<lparr>w_sent := sent\<rparr>)))
      else Inr (set_query qid q w))"

definition again :: "u32 \<Rightarrow> worker \<Rightarrow> worker" where
  "again qid w = w\<lparr>w_tm := (w_tm w)\<lparr>tm_next_subquery_queue := tm_next_subquery_queue (w_tm w) @ [qid]\<rparr>\<rparr>"

text \<open>One pass of the inner loop up to its \<^verbatim>\<open>co_yield\<close> (\<^const>\<open>True\<close>) or its \<^verbatim>\<open>break\<close> (\<^const>\<open>False\<close>).\<close>

definition all_recved :: "QueryMsg \<Rightarrow> bool" where
  "all_recved q \<longleftrightarrow> q_recv_cnt q = q_post_cnt q \<and> q_nocore_post q = q_nocore_recv q"

definition post_round :: "dist_t \<Rightarrow> u8 \<Rightarrow> ScalaGraphIndex \<Rightarrow> u64 \<Rightarrow> u32 \<Rightarrow> worker \<Rightarrow> crash + bool \<times> worker" where
  "post_round j k g read_size qid w =
     (case take_group CAND_GROUP_SIZE (cur_query qid w) of (group_nodes, q) \<Rightarrow>
        let w = set_query qid q w in
        if group_nodes \<noteq> [] then
          (case then_run (run_all (expand_node j k g qid) group_nodes)
                  (then_run (post_remote_task qid read_size) (step_sync qid)) w of
             Inl e \<Rightarrow> Inl e
           | Inr w \<Rightarrow> Inr (True, if q_state (cur_query qid w) = POST_STAGE then again qid w else w))
        else if \<not> all_recved q then Inr (True, again qid w)
        else Inr (q_state q \<noteq> POST_STAGE, w))"

section \<open>Termination\<close>

text \<open>The code after the inner loop: \<^const>\<open>True\<close> when the search of the query is over.\<close>

definition leader_check :: "QueryMsg \<Rightarrow> bool \<times> QueryMsg" where
  "leader_check q =
     (let failed = q_token_is_black q \<noteq> 0 \<or> q_proc_is_black q \<noteq> 0; q = q\<lparr>q_token_is_black := 0, q_proc_is_black := 0\<rparr> in
      if q_last_is_white q \<noteq> 0 \<and> \<not> failed then (True, q\<lparr>q_global_term := 1\<rparr>)
      else (False, q\<lparr>q_last_is_white := of_bool (\<not> failed)\<rparr>))"

definition prop_token ::
  "u32 \<Rightarrow> QueryMsg \<times> (nat \<times> ControlType \<times> byte list) list \<Rightarrow> crash + QueryMsg \<times> (nat \<times> ControlType \<times> byte list) list" where
  "prop_token machine_id st = (case st of (q, sent) \<Rightarrow>
     let taint = q_proc_is_black q \<noteq> 0 \<or> q_token_is_black q \<noteq> 0 in
     case post_subquery_sync machine_id True taint (q\<lparr>q_proc_is_black := 0, q_token_is_black := 0\<rparr>, sent) of
       Inl e \<Rightarrow> Inl e
     | Inr (q, sent) \<Rightarrow> Inr ((clear_sync q)\<lparr>q_has_token := 0\<rparr>, sent))"

definition term_query ::
  "u32 \<Rightarrow> QueryMsg \<times> (nat \<times> ControlType \<times> byte list) list \<Rightarrow>
     crash + bool \<times> QueryMsg \<times> (nat \<times> ControlType \<times> byte list) list" where
  "term_query machine_id st = (case st of (q, sent) \<Rightarrow>
     if length (q_core_machine q) > 1 then
       (if q_has_token q \<noteq> 0 then
          (case (if q_leader_machine q = machine_id then leader_check q else (False, q)) of
             (True, q) \<Rightarrow> Inr (True, q, sent)
           | (False, q) \<Rightarrow> (case prop_token machine_id (q, sent) of
               Inl e \<Rightarrow> Inl e
             | Inr (q, sent) \<Rightarrow> Inr (False, q\<lparr>q_state := PAUSE\<rparr>, sent)))
        else Inr (False, q\<lparr>q_state := PAUSE\<rparr>, sent))
     else Inr (True, q\<lparr>q_global_term := 1\<rparr>, sent))"

definition term_step :: "u32 \<Rightarrow> worker \<Rightarrow> crash + bool \<times> worker" where
  "term_step qid w = (case term_query (tm_local_id (w_tm w)) (cur_query qid w, w_sent w) of
     Inl e \<Rightarrow> Inl e | Inr (over, q, sent) \<Rightarrow> Inr (over, set_query qid q (w\<lparr>w_sent := sent\<rparr>)))"

text \<open>Rounds up to the next \<^verbatim>\<open>co_yield\<close>, at most \<open>n\<close> of them; \<^const>\<open>None\<close> when more are needed.\<close>

primrec post_loop ::
  "nat \<Rightarrow> dist_t \<Rightarrow> u8 \<Rightarrow> ScalaGraphIndex \<Rightarrow> u64 \<Rightarrow> u32 \<Rightarrow> worker \<Rightarrow> (crash + bool \<times> worker) option" where
  "post_loop 0 j k g read_size qid w = None"
| "post_loop (Suc n) j k g read_size qid w =
     (case post_round j k g read_size qid w of
        Inl e \<Rightarrow> Some (Inl e)
      | Inr (yield, w) \<Rightarrow>
          if yield then Some (Inr (False, w))
          else (case term_step qid w of
              Inl e \<Rightarrow> Some (Inl e)
            | Inr (over, w) \<Rightarrow>
                if over \<or> q_global_term (cur_query qid w) \<noteq> 0 then Some (Inr (True, w))
                else post_loop n j k g read_size qid w))"

section \<open>The end of a query\<close>

definition migrate_query ::
  "nat \<Rightarrow> QueryMsg \<times> (nat \<times> ControlType \<times> byte list) list \<Rightarrow> crash + QueryMsg \<times> (nat \<times> ControlType \<times> byte list) list" where
  "migrate_query machine_id st = (case serialize2 (fst st) of
     Inl e \<Rightarrow> Inl e
   | Inr (q, buf) \<Rightarrow> if length buf > MAX_QUERYBUFFER_SIZE then Inl Abort else Inr (q, snd st @ [(machine_id, QUERY, buf)]))"

text \<open>\<open>label\<close> is \<^verbatim>\<open>kmeans_pos_label_map\<close>.  The result is \<^const>\<open>True\<close> when the query is finished on this machine.\<close>

definition finish_query :: "nat \<Rightarrow> (u32 \<Rightarrow> u64) \<Rightarrow> u32 \<Rightarrow> worker \<Rightarrow> crash + bool \<times> worker" where
  "finish_query res_knn label qid w =
     (let q = cur_query qid w;
          tops = pq_trim res_knn (q_top_candidates q);
          q = q\<lparr>q_state := END, q_top_candidates := [],
                q_result := push_all result_key (map (\<lambda>c. (fst c, label (snd c))) (pq_drain tops)) (q_result q)\<rparr>;
          machine_id = tm_local_id (w_tm w)
      in if q_leader_machine q = machine_id \<and> ucast machine_id \<noteq> q_origin_machine q then
           (case migrate_query (unat (q_origin_machine q)) (q, w_sent w) of
              Inl e \<Rightarrow> Inl e | Inr (q, sent) \<Rightarrow> Inr (False, set_query qid q (w\<lparr>w_sent := sent\<rparr>)))
         else Inr (True, set_query qid q w))"

text \<open>An activation after a \<^verbatim>\<open>co_yield\<close> of the search, and the first one of a forked query.  Two rounds are
  always enough.\<close>

definition run_rounds ::
  "nat \<Rightarrow> (u32 \<Rightarrow> u64) \<Rightarrow> dist_t \<Rightarrow> u8 \<Rightarrow> ScalaGraphIndex \<Rightarrow> u64 \<Rightarrow> u32 \<Rightarrow> worker \<Rightarrow> (crash + bool \<times> worker) option" where
  "run_rounds res_knn label j k g read_size qid w =
     map_option (\<lambda>r. case r of Inl e \<Rightarrow> Inl e
        | Inr (over, w) \<Rightarrow> if over then finish_query res_knn label qid w else Inr (False, w))
       (post_loop 2 j k g read_size qid w)"

definition resume_post ::
  "nat \<Rightarrow> (u32 \<Rightarrow> u32 \<Rightarrow> dist_t) \<Rightarrow> (u32 \<Rightarrow> BufferCache \<Rightarrow> dist_t) \<Rightarrow> nat \<Rightarrow> (u32 \<Rightarrow> u64) \<Rightarrow> dist_t \<Rightarrow> u8 \<Rightarrow> ScalaGraphIndex \<Rightarrow> u64 \<Rightarrow> u32 \<Rightarrow>
     worker \<Rightarrow> (crash + bool \<times> worker) option" where
  "resume_post vf dist rdist res_knn label j k g read_size qid w =
     (case take_in vf g dist rdist qid w of Inl e \<Rightarrow> Some (Inl e) | Inr w \<Rightarrow> run_rounds res_knn label j k g read_size qid w)"

definition enter_post ::
  "nat \<Rightarrow> (u32 \<Rightarrow> u64) \<Rightarrow> dist_t \<Rightarrow> u8 \<Rightarrow> ScalaGraphIndex \<Rightarrow> u64 \<Rightarrow> u32 \<Rightarrow> worker \<Rightarrow> (crash + bool \<times> worker) option" where
  "enter_post res_knn label j k g read_size qid w =
     (let q = cur_query qid w;
          w = set_query qid (q\<lparr>q_state := POST_STAGE, q_post_cnt := 0, q_recv_cnt := 0, q_nocore_post := 0, q_nocore_recv := 0\<rparr>) w
      in if q_global_term q \<noteq> 0 then Some (finish_query res_knn label qid w) else run_rounds res_knn label j k g read_size qid w)"

end
