(* ===== verification/Post_Stage.thy ===== *)
theory Post_Stage
  imports Sub_Post
begin

text \<open>
  The activations of the post-stage (\<^theory_text>\<open>Sub_Post\<close>): two rounds are enough for each of them, and a query ends
  exactly when its candidates are used up, all answers are in and the termination protocol agrees.
\<close>

section \<open>What a synchronization keeps\<close>

text \<open>The part of a query that decides about the next round.\<close>

definition decides :: "QueryMsg \<Rightarrow> cand list \<times> dist_t \<times> bool \<times> u8 \<times> u32 list" where
  "decides q = (q_candidate_set q, q_lowerBound q, all_recved q, q_global_term q, q_core_machine q)"

lemma decides_update [simp]:
  "decides (q\<lparr>q_sync_msg := s\<rparr>) = decides q" "decides (q\<lparr>q_has_token := t\<rparr>) = decides q"
  "decides (q\<lparr>q_proc_is_black := t\<rparr>) = decides q" "decides (q\<lparr>q_token_is_black := t\<rparr>) = decides q"
  "decides (q\<lparr>q_last_is_white := t\<rparr>) = decides q" "decides (q\<lparr>q_sync_step := n\<rparr>) = decides q"
  "decides (q\<lparr>q_state := st\<rparr>) = decides q"
  by (simp_all add: decides_def all_recved_def)

lemma sync_to_decides: "sync_to nxt pt taint m (q, sent) = Inr (q', sent') \<Longrightarrow> decides q' = decides q"
  by (auto simp: sync_to_def Let_def split: if_splits sum.splits)

lemma sync_run_decides: "run_all (sync_to nxt pt taint) ms st = Inr st' \<Longrightarrow> decides (fst st') = decides (fst st)"
proof (induction ms arbitrary: st)
  case (Cons m ms)
  then obtain st1 where "sync_to nxt pt taint m st = Inr st1" "run_all (sync_to nxt pt taint) ms st1 = Inr st'"
    by (auto split: sum.splits)
  with Cons.IH [of st1] sync_to_decides [of nxt pt taint m "fst st" "snd st" "fst st1" "snd st1"] show ?case by simp
qed simp

lemma post_subquery_sync_decides:
  "post_subquery_sync m pt taint (q, sent) = Inr (q', sent') \<Longrightarrow> decides q' = decides q"
  using sync_run_decides [of "next_core m (q_core_machine q)" pt taint "filter (\<lambda>k. k \<noteq> m) (q_core_machine q)"
      "(q\<lparr>q_sync_msg := (q_sync_msg q)\<lparr>sm_qid := ucast (q_query_id q)\<rparr>\<rparr>, sent)" "(q', sent')"]
  by (simp add: post_subquery_sync_def)

lemma prop_token_decides: "prop_token m (q, sent) = Inr (q', sent') \<Longrightarrow> decides q' = decides q"
  by (auto simp: prop_token_def Let_def clear_sync_def split: sum.splits dest!: post_subquery_sync_decides)

lemma leader_check_decides: "leader_check q = (False, q') \<Longrightarrow> decides q' = decides q"
  by (auto simp: leader_check_def Let_def split: if_splits)

lemma term_query_continues:
  assumes "term_query m (q, sent) = Inr (False, q', sent')"
  shows "decides q' = decides q \<and> q_state q' = PAUSE"
proof (cases "length (q_core_machine q) > 1 \<and> q_has_token q \<noteq> 0")
  case True
  obtain v q1 where v: "(if q_leader_machine q = m then leader_check q else (False, q)) = (v, q1)" by fastforce
  with assms True have "\<not> v" by (cases v) (auto simp: term_query_def)
  with v assms True obtain q2 where p: "prop_token m (q1, sent) = Inr (q2, sent')" "q' = q2\<lparr>q_state := PAUSE\<rparr>"
    by (auto simp: term_query_def split: sum.splits)
  moreover have "decides q1 = decides q" using v \<open>\<not> v\<close> by (auto dest: leader_check_decides split: if_splits)
  ultimately show ?thesis using prop_token_decides by simp
next
  case False
  then show ?thesis using assms by (auto simp: term_query_def split: if_splits)
qed

section \<open>Rounds\<close>

lemma take_group_Nil: "take_group n q = ([], q') \<Longrightarrow> q' = q"
  by (cases n) (auto simp: Let_def split: if_splits)

definition no_candidate :: "QueryMsg \<Rightarrow> bool" where
  "no_candidate q \<longleftrightarrow> q_candidate_set q = [] \<or> - fst (pq_top (q_candidate_set q)) > q_lowerBound q"

lemma take_group_iff: "take_group CAND_GROUP_SIZE q = ([], q') \<longleftrightarrow> no_candidate q \<and> q' = q"
  by (auto simp: CAND_GROUP_SIZE_def numeral_eq_Suc no_candidate_def Let_def)

lemma set_cur_query [simp]: "set_query qid (cur_query qid w) w = w"
  by (simp add: set_query_def cur_query_def upd_query_def)

lemma cur_set_query:
  "unat qid < length (tm_global_query (w_tm w)) \<Longrightarrow> cur_query qid (set_query qid q w) = q"
  by (simp add: set_query_def cur_query_def upd_query_def)

lemma length_set_query [simp]: "length (tm_global_query (w_tm (set_query qid q w))) = length (tm_global_query (w_tm w))"
  by (simp add: set_query_def upd_query_def)

lemma round_break:
  "post_round j k g sz qid w = Inr (False, w') \<longleftrightarrow>
     no_candidate (cur_query qid w) \<and> all_recved (cur_query qid w) \<and> q_state (cur_query qid w) = POST_STAGE \<and> w' = w"
proof (cases "take_group CAND_GROUP_SIZE (cur_query qid w)")
  case (Pair gr q)
  show ?thesis
  proof (cases "gr = []")
    case True
    with Pair have "no_candidate (cur_query qid w)" "q = cur_query qid w" using take_group_iff by simp_all
    with Pair True show ?thesis by (auto simp: post_round_def Let_def)
  next
    case False
    with Pair have "\<not> no_candidate (cur_query qid w)" using take_group_iff [of "cur_query qid w" "cur_query qid w"] by auto
    with Pair False show ?thesis by (auto simp: post_round_def Let_def split: sum.splits)
  qed
qed

lemma round_paused:
  assumes "no_candidate (cur_query qid w)" "all_recved (cur_query qid w)" "q_state (cur_query qid w) = PAUSE"
  shows "post_round j k g sz qid w = Inr (True, w)"
proof -
  have "take_group CAND_GROUP_SIZE (cur_query qid w) = ([], cur_query qid w)" using take_group_iff assms(1) by blast
  with assms show ?thesis by (simp add: post_round_def Let_def)
qed

lemma no_candidate_decides: "decides q = decides q' \<Longrightarrow> no_candidate q = no_candidate q' \<and> all_recved q = all_recved q'"
  by (auto simp: decides_def no_candidate_def)

text \<open>The second round of an activation yields.\<close>

lemma second_round:
  assumes "unat qid < length (tm_global_query (w_tm w))" "no_candidate (cur_query qid w)" "all_recved (cur_query qid w)"
    "term_step qid w = Inr (False, w')"
  shows "post_round j k g sz qid w' = Inr (True, w')" "decides (cur_query qid w') = decides (cur_query qid w)"
proof -
  from assms(4) obtain q sent where t: "term_query (tm_local_id (w_tm w)) (cur_query qid w, w_sent w) = Inr (False, q, sent)"
    and w': "w' = set_query qid q (w\<lparr>w_sent := sent\<rparr>)" by (auto simp: term_step_def split: sum.splits)
  have q: "cur_query qid w' = q" using assms(1) by (simp add: w' cur_set_query)
  from term_query_continues [OF t] no_candidate_decides [of q "cur_query qid w"] assms(2,3)
  show "post_round j k g sz qid w' = Inr (True, w')" "decides (cur_query qid w') = decides (cur_query qid w)"
    by (auto intro: round_paused simp: q)
qed

section \<open>Properties\<close>

text \<open>When the search of a query is over on a machine.\<close>

definition may_end :: "u32 \<Rightarrow> QueryMsg \<Rightarrow> bool" where
  "may_end machine_id q \<longleftrightarrow> q_state q = POST_STAGE \<and> no_candidate q \<and> all_recved q \<and>
     (length (q_core_machine q) \<le> 1 \<or>
      q_has_token q \<noteq> 0 \<and> q_leader_machine q = machine_id \<and> q_last_is_white q \<noteq> 0 \<and> q_token_is_black q = 0 \<and> q_proc_is_black q = 0)"

lemma term_query_over:
  "(\<exists>st. term_query m (q, sent) = Inr (True, st)) \<longleftrightarrow>
     length (q_core_machine q) \<le> 1 \<or>
      q_has_token q \<noteq> 0 \<and> q_leader_machine q = m \<and> q_last_is_white q \<noteq> 0 \<and> q_token_is_black q = 0 \<and> q_proc_is_black q = 0"
  by (auto simp: term_query_def leader_check_def Let_def split: if_splits prod.splits sum.splits bool.splits)

text \<open>Property C7. Every activation of the post-stage comes to its next suspension within two rounds of the outer
  loop, and it ends the search of the query exactly when no candidate is within the bound, every
  posted task has been answered and the query is either alone on one core machine or the leader holds
  the token after a white round with no work since and a white round before it.\<close>

theorem post_stage_ends_iff:
  assumes "unat qid < length (tm_global_query (w_tm w))" and "q_global_term (cur_query qid w) = 0"
  shows "\<exists>r. post_loop 2 j k g sz qid w = Some r \<and>
    ((\<exists>w'. r = Inr (True, w')) \<longleftrightarrow> may_end (tm_local_id (w_tm w)) (cur_query qid w))"
proof (cases "post_round j k g sz qid w")
  case (Inr yw)
  show ?thesis
  proof (cases "fst yw")
    case True
    then obtain w1 where y: "post_round j k g sz qid w = Inr (True, w1)" using Inr by (cases yw) auto
    then have "\<not> (no_candidate (cur_query qid w) \<and> all_recved (cur_query qid w) \<and> q_state (cur_query qid w) = POST_STAGE)"
      using round_break [of j k g sz qid w w] by auto
    with y show ?thesis by (auto simp: numeral_eq_Suc may_end_def)
  next
    case False
    then obtain w1 where "post_round j k g sz qid w = Inr (False, w1)" using Inr by (cases yw) auto
    then have y: "post_round j k g sz qid w = Inr (False, w)" and b: "no_candidate (cur_query qid w)" "all_recved (cur_query qid w)"
      "q_state (cur_query qid w) = POST_STAGE" using round_break by auto
    have over: "may_end (tm_local_id (w_tm w)) (cur_query qid w) \<longleftrightarrow> (\<exists>w'. term_step qid w = Inr (True, w'))"
      using term_query_over [of "tm_local_id (w_tm w)" "cur_query qid w" "w_sent w"] b
      by (auto simp: may_end_def term_step_def split: sum.splits)
    show ?thesis
    proof (cases "term_step qid w")
      case (Inl e)
      then show ?thesis using y over by (simp add: numeral_eq_Suc)
    next
      case t: (Inr r)
      obtain v w' where r: "r = (v, w')" by (cases r)
      show ?thesis
      proof (cases v)
        case True
        then show ?thesis using y t r over by (simp add: numeral_eq_Suc)
      next
        case False
        have t': "term_step qid w = Inr (False, w')" using t r False by simp
        note s = second_round(1) [OF assms(1) b(1,2) t', of j k g sz] second_round(2) [OF assms(1) b(1,2) t']
        have "q_global_term (cur_query qid w') = 0" using s(2) assms(2) by (simp add: decides_def)
        with s(1) y t' over show ?thesis by (simp add: numeral_eq_Suc)
      qed
    qed
  qed
next
  case (Inl e)
  then have "\<not> (no_candidate (cur_query qid w) \<and> all_recved (cur_query qid w) \<and> q_state (cur_query qid w) = POST_STAGE)"
    using round_break [of j k g sz qid w w] by auto
  with Inl show ?thesis by (auto simp: numeral_eq_Suc may_end_def)
qed

text \<open>A query that is alone on its machine and has nothing left to do.\<close>

definition ex_worker :: worker where
  "ex_worker = \<lparr>w_tm = new_TaskManager 3 [query_example\<lparr>q_state := POST_STAGE, q_candidate_set := []\<rparr>], w_ba = [],
     w_rd = com_read_init [], w_sent = []\<rparr>"

theorem post_stage_ends_iff_witness:
  "\<exists>w'. post_loop 2 (Dist 0) 0 ex_part 128 0 ex_worker = Some (Inr (True, w'))"
  using post_stage_ends_iff [of 0 ex_worker "Dist 0" 0 ex_part 128]
  by (auto simp: ex_worker_def new_TaskManager_def query_example_def cur_query_def may_end_def no_candidate_def all_recved_def)

end
