(* ===== verification/Token_Ring.thy ===== *)
theory Token_Ring
  imports Post_Stage
begin

text \<open>
  The token of the termination protocol: the core machines of a query form a ring, the leader starts with the
  token, and a machine that has nothing left to do passes it on inside a synchronization message
  (\<^const>\<open>term_query\<close>, \<^const>\<open>update_sub_query\<close>).  A state of the ring is the query object of every machine and the
  messages on their way to it; messages may overtake each other.
\<close>

section \<open>Tokens in messages\<close>

definition token_in :: "byte list \<Rightarrow> bool" where
  "token_in buf \<longleftrightarrow> (case SyncMsg_deserialize buf of None \<Rightarrow> False | Some (m, _) \<Rightarrow> sm_update_term m \<noteq> 0 \<and> sm_has_token m \<noteq> 0)"

text \<open>A message that touches the termination state carries the token.\<close>

definition sync_ok :: "byte list \<Rightarrow> bool" where
  "sync_ok buf \<longleftrightarrow> (\<exists>m r. SyncMsg_deserialize buf = Some (m, r) \<and> (sm_update_term m \<noteq> 0 \<longrightarrow> sm_has_token m \<noteq> 0))"

definition holds :: "QueryMsg \<Rightarrow> nat" where
  "holds q = of_bool (q_has_token q \<noteq> 0)"

definition tokens_in :: "byte list list \<Rightarrow> nat" where
  "tokens_in bufs = length (filter token_in bufs)"

lemma tokens_in_simps [simp]: "tokens_in [] = 0" "tokens_in (b # bs) = of_bool (token_in b) + tokens_in bs"
  "tokens_in (bs @ bs') = tokens_in bs + tokens_in bs'"
  by (simp_all add: tokens_in_def)

lemma sync_to_token:
  assumes run: "sync_to nxt pt taint m (q, sent) = Inr (q', sent')" and wf: "SyncMsg_wf (q_sync_msg q)"
  shows "\<exists>buf. sent' = sent @ [(unat m, SYNC, buf)] \<and> sync_ok buf \<and> of_bool (token_in buf) + holds q' = holds q" and
    "SyncMsg_wf (q_sync_msg q')" "pt \<and> nxt = Some m \<longrightarrow> q_has_token q' = 0" "\<not> pt \<longrightarrow> q_has_token q' = q_has_token q"
    "q_has_token q = 0 \<longrightarrow> q_has_token q' = 0"
proof -
  from run obtain buf where buf: "SyncMsg_serialize (q_sync_msg q') = Inr buf" "sent' = sent @ [(unat m, SYNC, buf)]"
    by (auto simp: sync_to_def Let_def split: if_splits sum.splits)
  have q': "if pt \<and> nxt = Some m \<and> q_has_token q \<noteq> 0
      then sm_update_term (q_sync_msg q') = 1 \<and> sm_has_token (q_sync_msg q') = 1 \<and> q_has_token q' = 0
      else sm_update_term (q_sync_msg q') = 0 \<and> q_has_token q' = q_has_token q"
    "sm_core_micro_ngh (q_sync_msg q') = sm_core_micro_ngh (q_sync_msg q)" "sm_core_large_ngh (q_sync_msg q') = sm_core_large_ngh (q_sync_msg q)"
    using run by (auto simp: sync_to_def Let_def split: if_splits sum.splits)
  show wf': "SyncMsg_wf (q_sync_msg q')" using wf q'(2,3) by (simp add: SyncMsg_wf_def)
  from SyncMsg_read_back [OF wf' buf(1), of "[]"]
  show "\<exists>buf. sent' = sent @ [(unat m, SYNC, buf)] \<and> sync_ok buf \<and> of_bool (token_in buf) + holds q' = holds q"
    using buf(2) q'(1) by (intro exI [of _ buf]) (auto simp: token_in_def sync_ok_def holds_def split: if_splits)
  show "pt \<and> nxt = Some m \<longrightarrow> q_has_token q' = 0" "\<not> pt \<longrightarrow> q_has_token q' = q_has_token q"
    "q_has_token q = 0 \<longrightarrow> q_has_token q' = 0" using q'(1) by (auto split: if_splits)
qed

lemma sync_run_token:
  assumes "run_all (sync_to nxt pt taint) ms (q, sent) = Inr (q', sent')" "SyncMsg_wf (q_sync_msg q)"
  shows "\<exists>new. sent' = sent @ new \<and> map fst new = map unat ms \<and> list_all (\<lambda>p. sync_ok (snd (snd p))) new \<and>
    tokens_in (map (\<lambda>p. snd (snd p)) new) + holds q' = holds q \<and> SyncMsg_wf (q_sync_msg q') \<and>
    (pt \<and> (\<exists>m\<in>set ms. nxt = Some m) \<longrightarrow> q_has_token q' = 0) \<and> (\<not> pt \<longrightarrow> q_has_token q' = q_has_token q) \<and>
    (q_has_token q = 0 \<longrightarrow> q_has_token q' = 0)"
  using assms
proof (induction ms arbitrary: q sent)
  case (Cons m ms)
  from Cons.prems obtain q1 sent1 where m: "sync_to nxt pt taint m (q, sent) = Inr (q1, sent1)"
    and rest: "run_all (sync_to nxt pt taint) ms (q1, sent1) = Inr (q', sent')" by (auto split: sum.splits)
  note e = sync_to_token [OF m Cons.prems(2)]
  from e(1) obtain buf where buf: "sent1 = sent @ [(unat m, SYNC, buf)]" "sync_ok buf" "of_bool (token_in buf) + holds q1 = holds q" by blast
  from Cons.IH [OF rest e(2)] obtain new where new: "sent' = sent1 @ new" "map fst new = map unat ms" "list_all (\<lambda>p. sync_ok (snd (snd p))) new"
    "tokens_in (map (\<lambda>p. snd (snd p)) new) + holds q' = holds q1" "SyncMsg_wf (q_sync_msg q')"
    "pt \<and> (\<exists>m\<in>set ms. nxt = Some m) \<longrightarrow> q_has_token q' = 0" "\<not> pt \<longrightarrow> q_has_token q' = q_has_token q1"
    "q_has_token q1 = 0 \<longrightarrow> q_has_token q' = 0" by blast
  have "pt \<and> (\<exists>k\<in>set (m # ms). nxt = Some k) \<longrightarrow> q_has_token q' = 0" using new(6,8) e(3) by auto
  moreover have "\<not> pt \<longrightarrow> q_has_token q' = q_has_token q" "q_has_token q = 0 \<longrightarrow> q_has_token q' = 0" using new(7,8) e(4,5) by simp_all
  moreover have "tokens_in (map (\<lambda>p. snd (snd p)) ((unat m, SYNC, buf) # new)) + holds q' = holds q" using buf(3) new(4) by simp
  ultimately show ?case
    by (intro exI [of _ "(unat m, SYNC, buf) # new"] conjI) (simp_all add: buf(1,2) new(1,2,3,5))
qed simp

text \<open>The next machine of the ring is another core machine.\<close>

lemma next_core_other:
  assumes "distinct core" "m \<in> set core" "length core > 1"
  shows "\<exists>n. next_core m core = Some n \<and> n \<in> set core \<and> n \<noteq> m"
proof -
  obtain i where i: "i < length core" "core ! i = m" using assms(2) by (meson in_set_conv_nth)
  then obtain i' where f: "find (\<lambda>i. core ! i = m) [0 ..< length core] = Some i'"
    by (cases "find (\<lambda>i. core ! i = m) [0 ..< length core]") (auto simp: find_None_iff)
  then have i': "i' < length core" "core ! i' = m" by (auto simp: find_Some_iff)
  have "Suc i' mod length core < length core" "Suc i' mod length core \<noteq> i'"
    using assms(3) i' by (auto simp: mod_Suc)
  then have "core ! (Suc i' mod length core) \<noteq> m" using i' assms(1) by (metis nth_eq_iff_index_eq)
  moreover have "core ! (Suc i' mod length core) \<in> set core" using assms(3) by (intro nth_mem mod_less_divisor) linarith
  ultimately show ?thesis using f by (simp add: next_core_def)
qed

section \<open>Steps of one machine\<close>

lemma post_sync_token:
  assumes "post_subquery_sync m pt taint (q, []) = Inr (q', sent)" "SyncMsg_wf (q_sync_msg q)"
    "distinct (q_core_machine q)" "m \<in> set (q_core_machine q)" "length (q_core_machine q) > 1"
  shows "map fst sent = map unat (filter (\<lambda>k. k \<noteq> m) (q_core_machine q)) \<and> list_all (\<lambda>p. sync_ok (snd (snd p))) sent \<and>
    tokens_in (map (\<lambda>p. snd (snd p)) sent) + holds q' = holds q \<and> SyncMsg_wf (q_sync_msg q') \<and> (pt \<longrightarrow> q_has_token q' = 0)"
proof -
  obtain n where n: "next_core m (q_core_machine q) = Some n" "n \<in> set (q_core_machine q)" "n \<noteq> m"
    using next_core_other [OF assms(3-5)] by blast
  let ?q = "q\<lparr>q_sync_msg := (q_sync_msg q)\<lparr>sm_qid := ucast (q_query_id q)\<rparr>\<rparr>"
  have run: "run_all (sync_to (Some n) pt taint) (filter (\<lambda>k. k \<noteq> m) (q_core_machine q)) (?q, []) = Inr (q', sent)"
    using assms(1) n(1) by (simp add: post_subquery_sync_def)
  have wf: "SyncMsg_wf (q_sync_msg ?q)" "holds ?q = holds q" using assms(2) by (simp_all add: SyncMsg_wf_def holds_def)
  from sync_run_token [OF run wf(1)] wf(2) n(2,3) show ?thesis by auto
qed

lemma SyncMsg_clear_wf: "SyncMsg_wf s \<Longrightarrow> SyncMsg_wf (SyncMsg_clear s)"
  by (simp add: SyncMsg_wf_def SyncMsg_clear_def)

lemma prop_token_token:
  assumes "prop_token m (q, []) = Inr (q', sent)" "SyncMsg_wf (q_sync_msg q)"
    "distinct (q_core_machine q)" "m \<in> set (q_core_machine q)" "length (q_core_machine q) > 1"
  shows "map fst sent = map unat (filter (\<lambda>k. k \<noteq> m) (q_core_machine q)) \<and> list_all (\<lambda>p. sync_ok (snd (snd p))) sent \<and>
    tokens_in (map (\<lambda>p. snd (snd p)) sent) + holds q' = holds q \<and> SyncMsg_wf (q_sync_msg q') \<and> q_core_machine q' = q_core_machine q"
proof -
  let ?q = "q\<lparr>q_proc_is_black := 0, q_token_is_black := 0\<rparr>"
  from assms(1) obtain taint q1 where r: "post_subquery_sync m True taint (?q, []) = Inr (q1, sent)"
    and q': "q' = (clear_sync q1)\<lparr>q_has_token := 0\<rparr>"
    by (auto simp: prop_token_def Let_def split: sum.splits)
  have "q_core_machine q1 = q_core_machine q" using post_subquery_sync_decides [OF r] by (simp add: decides_def)
  moreover have "holds ?q = holds q" by (simp add: holds_def)
  moreover have "holds q' = 0" by (simp add: q' holds_def)
  ultimately show ?thesis
    using post_sync_token [OF r] assms(2-5) by (auto simp: q' clear_sync_def holds_def SyncMsg_clear_wf)
qed

lemma term_query_token:
  assumes "term_query m (q, []) = Inr (over, q', sent)" "SyncMsg_wf (q_sync_msg q)"
    "distinct (q_core_machine q)" "m \<in> set (q_core_machine q)"
  shows "set (map fst sent) \<subseteq> unat ` set (q_core_machine q) \<and> list_all (\<lambda>p. sync_ok (snd (snd p))) sent \<and>
    tokens_in (map (\<lambda>p. snd (snd p)) sent) + holds q' = holds q \<and> SyncMsg_wf (q_sync_msg q') \<and> q_core_machine q' = q_core_machine q"
proof (cases "length (q_core_machine q) > 1 \<and> q_has_token q \<noteq> 0")
  case True
  obtain v q1 where v: "(if q_leader_machine q = m then leader_check q else (False, q)) = (v, q1)" by fastforce
  have q1: "q_sync_msg q1 = q_sync_msg q" "q_core_machine q1 = q_core_machine q" "q_has_token q1 = q_has_token q"
    using v by (auto simp: leader_check_def Let_def split: if_splits)
  show ?thesis
  proof (cases v)
    case v': True
    then have "q' = q1" "sent = []" using assms(1) True v by (auto simp: term_query_def)
    then show ?thesis using q1 assms(2) by (simp add: holds_def)
  next
    case False
    with v assms(1) True obtain q2 where p: "prop_token m (q1, []) = Inr (q2, sent)" "q' = q2\<lparr>q_state := PAUSE\<rparr>"
      by (auto simp: term_query_def split: sum.splits)
    from prop_token_token [OF p(1)] q1 assms(2-4) True
    have "map fst sent = map unat (filter (\<lambda>k. k \<noteq> m) (q_core_machine q)) \<and> list_all (\<lambda>p. sync_ok (snd (snd p))) sent \<and>
      tokens_in (map (\<lambda>p. snd (snd p)) sent) + holds q2 = holds q1 \<and> SyncMsg_wf (q_sync_msg q2) \<and> q_core_machine q2 = q_core_machine q" by simp
    moreover have "holds q1 = holds q" using q1 by (simp add: holds_def)
    ultimately show ?thesis by (auto simp: p(2) holds_def)
  qed
next
  case False
  then have "(q' = q\<lparr>q_state := PAUSE\<rparr> \<or> q' = q\<lparr>q_global_term := 1\<rparr>) \<and> sent = []"
    using assms(1) by (auto simp: term_query_def split: if_splits)
  then show ?thesis using assms(2) by (auto simp: holds_def)
qed

section \<open>The ring\<close>

record ring =
  r_query :: "nat \<Rightarrow> QueryMsg"
  r_chan :: "nat \<Rightarrow> byte list list"

definition after_post :: "u32 \<Rightarrow> QueryMsg \<Rightarrow> (nat \<times> ControlType \<times> byte list) list \<Rightarrow> ring \<Rightarrow> ring" where
  "after_post m q sent r = r\<lparr>r_query := (r_query r)(unat m := q),
     r_chan := (\<lambda>k. r_chan r k @ map (\<lambda>p. snd (snd p)) (filter (\<lambda>p. fst p = k) sent))\<rparr>"

definition take_msg :: "u32 \<Rightarrow> nat \<Rightarrow> QueryMsg \<Rightarrow> ring \<Rightarrow> ring" where
  "take_msg m i q r = r\<lparr>r_query := (r_query r)(unat m := q),
     r_chan := (r_chan r)(unat m := take i (r_chan r (unat m)) @ drop (Suc i) (r_chan r (unat m)))\<rparr>"

text \<open>The steps: a regular synchronization, a termination attempt, the receipt of any message, and
  anything else a machine does with the query, which leaves the token alone.\<close>

inductive ring_step :: "u32 list \<Rightarrow> ring \<Rightarrow> ring \<Rightarrow> bool" for core where
  sync: "\<lbrakk>m \<in> set core; post_subquery_sync m False False (r_query r (unat m), []) = Inr (q, sent)\<rbrakk> \<Longrightarrow>
    ring_step core r (after_post m (clear_sync q) sent r)"
| attempt: "\<lbrakk>m \<in> set core; term_query m (r_query r (unat m), []) = Inr (over, q, sent)\<rbrakk> \<Longrightarrow>
    ring_step core r (after_post m q sent r)"
| recv: "\<lbrakk>m \<in> set core; i < length (r_chan r (unat m)); SyncMsg_deserialize (r_chan r (unat m) ! i) = Some (msg, rest)\<rbrakk> \<Longrightarrow>
    ring_step core r (take_msg m i (update_sub_query j k (unat m) msg (r_query r (unat m))) r)"
| search: "\<lbrakk>m \<in> set core; q_has_token q = q_has_token (r_query r (unat m)); q_core_machine q = q_core_machine (r_query r (unat m));
    SyncMsg_wf (q_sync_msg q)\<rbrakk> \<Longrightarrow> ring_step core r (r\<lparr>r_query := (r_query r)(unat m := q)\<rparr>)"

inductive ring_reach :: "u32 list \<Rightarrow> ring \<Rightarrow> ring \<Rightarrow> bool" for core r0 where
  init: "ring_reach core r0 r0"
| step: "ring_reach core r0 r \<Longrightarrow> ring_step core r r' \<Longrightarrow> ring_reach core r0 r'"

definition tokens :: "u32 list \<Rightarrow> ring \<Rightarrow> nat" where
  "tokens core r = (\<Sum>m\<in>set core. holds (r_query r (unat m)) + tokens_in (r_chan r (unat m)))"

definition ring_ok :: "u32 list \<Rightarrow> ring \<Rightarrow> bool" where
  "ring_ok core r \<longleftrightarrow> (\<forall>m\<in>set core. q_core_machine (r_query r (unat m)) = core \<and> SyncMsg_wf (q_sync_msg (r_query r (unat m))) \<and>
     list_all sync_ok (r_chan r (unat m)))"

lemma tokens_spread:
  fixes core :: "u32 list"
  assumes "set (map fst sent) \<subseteq> unat ` set core"
  shows "(\<Sum>m\<in>set core. tokens_in (map (\<lambda>p. snd (snd p)) (filter (\<lambda>p. fst p = unat m) sent))) = tokens_in (map (\<lambda>p. snd (snd p)) sent)"
  using assms
proof (induction sent)
  case (Cons p sent)
  obtain m0 where m0: "m0 \<in> set core" "fst p = unat m0" using Cons.prems by auto
  have eq: "fst p = unat m \<longleftrightarrow> m = m0" for m using m0(2) by (auto simp: word_unat_eq_iff)
  have "tokens_in (map (\<lambda>p. snd (snd p)) (filter (\<lambda>p. fst p = unat m) (p # sent))) =
      (if m = m0 then of_bool (token_in (snd (snd p))) else 0) + tokens_in (map (\<lambda>p. snd (snd p)) (filter (\<lambda>p. fst p = unat m) sent))" for m :: u32
    using eq [of m] by simp
  then have "(\<Sum>m\<in>set core. tokens_in (map (\<lambda>p. snd (snd p)) (filter (\<lambda>p. fst p = unat m) (p # sent)))) =
      (\<Sum>m\<in>set core. (if m = m0 then of_bool (token_in (snd (snd p))) else 0)) +
      (\<Sum>m\<in>set core. tokens_in (map (\<lambda>p. snd (snd p)) (filter (\<lambda>p. fst p = unat m) sent)))"
    by (simp only: sum.distrib)
  also have "\<dots> = of_bool (token_in (snd (snd p))) + tokens_in (map (\<lambda>p. snd (snd p)) sent)"
    using Cons m0(1) by simp
  finally show ?case by simp
qed simp

lemma sum_at:
  assumes "finite S" "m \<in> S" "\<And>k. k \<in> S \<Longrightarrow> k \<noteq> m \<Longrightarrow> f k = g k" "f m + (a :: nat) = g m + b"
  shows "sum f S + a = sum g S + b"
  using sum.remove [OF assms(1,2), of f] sum.remove [OF assms(1,2), of g] sum.cong [OF refl, of "S - {m}" f g] assms(3,4) by auto

lemma after_post_tokens:
  assumes m: "m \<in> set core" and to: "set (map fst sent) \<subseteq> unat ` set core"
    and keep: "tokens_in (map (\<lambda>p. snd (snd p)) sent) + holds q = holds (r_query r (unat m))"
  shows "tokens core (after_post m q sent r) = tokens core r"
proof -
  let ?n = "\<lambda>k :: u32. tokens_in (map (\<lambda>p. snd (snd p)) (filter (\<lambda>p. fst p = unat k) sent))"
  let ?h = "\<lambda>k. holds (r_query (after_post m q sent r) (unat k))"
  have "tokens core (after_post m q sent r) = (\<Sum>k\<in>set core. ?h k + tokens_in (r_chan r (unat k))) + sum ?n (set core)"
    by (simp add: tokens_def after_post_def sum.distrib)
  also have "\<dots> = (\<Sum>k\<in>set core. ?h k + tokens_in (r_chan r (unat k))) + tokens_in (map (\<lambda>p. snd (snd p)) sent)"
    using tokens_spread [OF to] by simp
  also have "\<dots> = tokens core r + 0"
    unfolding tokens_def
    by (rule sum_at [OF _ m]) (use keep in \<open>auto simp: after_post_def word_unat_eq_iff\<close>)
  finally show ?thesis by simp
qed

lemma update_token:
  "q_has_token (update_sub_query j k l msg q) = (if sm_update_term msg \<noteq> 0 then sm_has_token msg else q_has_token q)"
  "q_core_machine (update_sub_query j k l msg q) = q_core_machine q" "q_sync_msg (update_sub_query j k l msg q) = q_sync_msg q"
  by (simp_all add: update_sub_query_def Let_def)

lemma take_msg_tokens:
  assumes m: "m \<in> set core" and i: "i < length (r_chan r (unat m))"
    and keep: "holds q = holds (r_query r (unat m)) + of_bool (token_in (r_chan r (unat m) ! i))"
  shows "tokens core (take_msg m i q r) = tokens core r"
proof -
  have "tokens_in (r_chan r (unat m)) = of_bool (token_in (r_chan r (unat m) ! i)) +
      tokens_in (take i (r_chan r (unat m)) @ drop (Suc i) (r_chan r (unat m)))"
    using arg_cong [OF id_take_nth_drop [OF i], of tokens_in] by simp
  then have "tokens core (take_msg m i q r) + 0 = tokens core r + 0"
    unfolding tokens_def
    by (intro sum_at [OF _ m]) (use keep in \<open>auto simp: take_msg_def word_unat_eq_iff\<close>)
  then show ?thesis by simp
qed

lemma ring_step_ok:
  assumes "ring_step core r r'" "ring_ok core r" "tokens core r = 1" "distinct core" "length core > 1"
  shows "ring_ok core r' \<and> tokens core r' = 1"
  using assms
proof cases
  case (sync m q sent)
  have q: "q_core_machine (r_query r (unat m)) = core" "SyncMsg_wf (q_sync_msg (r_query r (unat m)))"
    using assms(2) sync(2) by (simp_all add: ring_ok_def)
  from post_sync_token [OF sync(3) q(2)] q(1) assms(4,5) sync(2)
  have s: "map fst sent = map unat (filter (\<lambda>k. k \<noteq> m) core)" "list_all (\<lambda>p. sync_ok (snd (snd p))) sent"
    "tokens_in (map (\<lambda>p. snd (snd p)) sent) + holds q = holds (r_query r (unat m))" "SyncMsg_wf (q_sync_msg q)" by simp_all
  have c: "q_core_machine q = core" using post_subquery_sync_decides [OF sync(3)] q(1) by (simp add: decides_def)
  have to: "set (map fst sent) \<subseteq> unat ` set core" unfolding s(1) by auto
  have h: "holds (clear_sync q) = holds q" by (simp add: holds_def clear_sync_def)
  have "tokens core r' = tokens core r"
    unfolding sync(1) by (rule after_post_tokens [OF sync(2) to]) (simp add: h s(3))
  moreover have "ring_ok core r'"
    using assms(2) s(2,4) c
    by (auto simp: sync(1) ring_ok_def after_post_def clear_sync_def SyncMsg_clear_wf list_all_iff)
  ultimately show ?thesis using assms(3) by simp
next
  case (attempt m over q sent)
  have q: "q_core_machine (r_query r (unat m)) = core" "SyncMsg_wf (q_sync_msg (r_query r (unat m)))"
    using assms(2) attempt(2) by (simp_all add: ring_ok_def)
  from term_query_token [OF attempt(3) q(2)] q(1) assms(4) attempt(2)
  have s: "set (map fst sent) \<subseteq> unat ` set core" "list_all (\<lambda>p. sync_ok (snd (snd p))) sent"
    "tokens_in (map (\<lambda>p. snd (snd p)) sent) + holds q = holds (r_query r (unat m))" "SyncMsg_wf (q_sync_msg q)" "q_core_machine q = core"
    by simp_all
  have "tokens core r' = tokens core r" unfolding attempt(1) by (rule after_post_tokens [OF attempt(2) s(1,3)])
  moreover have "ring_ok core r'"
    using assms(2) s(2,4,5) by (auto simp: attempt(1) ring_ok_def after_post_def list_all_iff)
  ultimately show ?thesis using assms(3) by simp
next
  case (recv m i msg rest j k)
  let ?q = "r_query r (unat m)" and ?b = "r_chan r (unat m) ! i"
  have ok: "sync_ok ?b" using assms(2) recv(2,3) by (simp add: ring_ok_def list_all_length)
  then have msg: "sm_update_term msg \<noteq> 0 \<longrightarrow> sm_has_token msg \<noteq> 0" using recv(4) by (simp add: sync_ok_def)
  have t: "token_in ?b \<longleftrightarrow> sm_update_term msg \<noteq> 0" using recv(4) msg by (auto simp: token_in_def)
  have "holds ?q + tokens_in (r_chan r (unat m)) \<le> tokens core r"
    unfolding tokens_def by (rule member_le_sum) (use recv(2) in auto)
  moreover have "of_bool (token_in ?b) \<le> tokens_in (r_chan r (unat m))"
    using arg_cong [OF id_take_nth_drop [OF recv(3)], of tokens_in] by simp
  ultimately have one: "holds ?q + of_bool (token_in ?b) \<le> 1" using assms(3) by simp
  have "tokens core r' = tokens core r"
    unfolding recv(1)
    by (rule take_msg_tokens [OF recv(2,3)]) (use one t msg in \<open>auto simp: holds_def update_token\<close>)
  moreover have "ring_ok core r'"
    using assms(2) recv(2) by (auto simp: recv(1) ring_ok_def take_msg_def update_token list_all_iff dest: in_set_takeD in_set_dropD)
  ultimately show ?thesis using assms(3) by simp
next
  case (search m q)
  have "tokens core r' = tokens core r"
    unfolding search(1) tokens_def by (rule sum.cong) (use search in \<open>auto simp: holds_def word_unat_eq_iff\<close>)
  moreover have "ring_ok core r'" using assms(2) search by (auto simp: ring_ok_def)
  ultimately show ?thesis using assms(3) by simp
qed

section \<open>Properties\<close>

text \<open>Property C2. The termination token of a query is unique and never lost: when the leader starts with it, then
  after any sequence of synchronizations, termination attempts, receipts (in any order) and search steps exactly
  one of the core machines holds it, or exactly one message on its way to one of them carries it.\<close>

theorem token_unique:
  assumes "ring_reach core r0 r" and "distinct core" and "length core > 1" and "leader \<in> set core"
    and "\<forall>m\<in>set core. q_core_machine (r_query r0 (unat m)) = core \<and> SyncMsg_wf (q_sync_msg (r_query r0 (unat m))) \<and>
      r_chan r0 (unat m) = [] \<and> q_has_token (r_query r0 (unat m)) = of_bool (m = leader)"
  shows "(\<Sum>m\<in>set core. of_bool (q_has_token (r_query r (unat m)) \<noteq> 0) + length (filter token_in (r_chan r (unat m)))) = (1 :: nat)"
proof -
  have "ring_ok core r0" using assms(5) by (auto simp: ring_ok_def)
  moreover have "tokens core r0 = (\<Sum>m\<in>set core. if m = leader then 1 else 0)"
    unfolding tokens_def by (rule sum.cong) (use assms(5) in \<open>auto simp: holds_def\<close>)
  then have "tokens core r0 = 1" using assms(4) by simp
  ultimately have r0: "ring_ok core r0 \<and> tokens core r0 = 1" by simp
  have "ring_ok core r \<and> tokens core r = 1"
    using assms(1) by (induction rule: ring_reach.induct) (use r0 ring_step_ok [OF _ _ _ assms(2,3)] in blast)+
  then show ?thesis by (simp add: tokens_def holds_def tokens_in_def)
qed

definition ex_ring :: ring where
  "ex_ring = \<lparr>r_query = (\<lambda>m. query_example\<lparr>q_core_machine := [0, 1], q_leader_machine := 0, q_has_token := of_bool (m = 0)\<rparr>),
     r_chan = (\<lambda>_. [])\<rparr>"

lemma ex_sync_wf: "SyncMsg_wf ((new_SyncMsg (Dist 0) 7)\<lparr>sm_qid := a, sm_update_term := b, sm_has_token := c, sm_token_is_black := d\<rparr>)"
  by (simp add: SyncMsg_wf_def new_SyncMsg_def MACHINE_NUM_def)

lemma ex_attempt: "\<exists>r. term_query 0 (r_query ex_ring 0, []) = Inr r"
  by (simp add: ex_ring_def query_example_def term_query_def leader_check_def prop_token_def post_subquery_sync_def next_core_def
      sync_to_def SyncMsg_serialize_bytes ex_sync_wf Let_def upt_rec)
    (auto simp add: new_SyncMsg_def SyncMsg_bytes_def ngh_bytes_def len_simps config_defs replicate_16)

theorem token_unique_witness:
  "\<exists>over q sent. term_query 0 (r_query ex_ring 0, []) = Inr (over, q, sent) \<and>
     (\<Sum>m\<in>set [0 :: u32, 1]. of_bool (q_has_token (r_query (after_post 0 q sent ex_ring) (unat m)) \<noteq> 0) +
        length (filter token_in (r_chan (after_post 0 q sent ex_ring) (unat m)))) = (1 :: nat)"
proof -
  obtain over q sent where a: "term_query 0 (r_query ex_ring 0, []) = Inr (over, q, sent)"
    using ex_attempt by (metis prod_cases3)
  have "ring_step [0, 1] ex_ring (after_post 0 q sent ex_ring)"
    by (rule ring_step.attempt) (use a in simp_all)
  then have r: "ring_reach [0, 1] ex_ring (after_post 0 q sent ex_ring)" by (blast intro: ring_reach.intros)
  have "\<forall>m\<in>set [0 :: u32, 1]. q_core_machine (r_query ex_ring (unat m)) = [0, 1] \<and> SyncMsg_wf (q_sync_msg (r_query ex_ring (unat m))) \<and>
      r_chan ex_ring (unat m) = [] \<and> q_has_token (r_query ex_ring (unat m)) = of_bool (m = 0)"
    by (simp add: ex_ring_def query_example_def SyncMsg_wf_def new_SyncMsg_def MACHINE_NUM_def)
  then show ?thesis using a token_unique [OF r, of 0] by auto
qed


section \<open>What a token message leaves out\<close>

lemma sync_to_content:
  assumes "sync_to nxt pt taint m (q, sent) = Inr (q', sent')"
  shows "sm_lower_bound (q_sync_msg q') = sm_lower_bound (q_sync_msg q)" "sm_local_add_cand (q_sync_msg q') = sm_local_add_cand (q_sync_msg q)"
    "\<exists>buf. sent' = sent @ [(unat m, SYNC, buf)] \<and> SyncMsg_serialize (q_sync_msg q') = Inr buf"
  using assms by (auto simp: sync_to_def Let_def split: if_splits sum.splits)

definition carries :: "dist_t \<Rightarrow> cand list \<Rightarrow> byte list \<Rightarrow> bool" where
  "carries lb cs buf \<longleftrightarrow> (\<exists>msg r. SyncMsg_deserialize buf = Some (msg, r) \<and> sm_local_add_cand msg = filter (\<lambda>e. fst e \<le> lb) cs)"

lemma sync_run_content:
  assumes "run_all (sync_to nxt pt taint) ms (q, sent) = Inr (q', sent')" "SyncMsg_wf (q_sync_msg q)"
  shows "\<exists>new. sent' = sent @ new \<and> list_all (\<lambda>p. carries (sm_lower_bound (q_sync_msg q)) (sm_local_add_cand (q_sync_msg q)) (snd (snd p))) new"
  using assms
proof (induction ms arbitrary: q sent)
  case (Cons m ms)
  from Cons.prems obtain q1 sent1 where m: "sync_to nxt pt taint m (q, sent) = Inr (q1, sent1)"
    and rest: "run_all (sync_to nxt pt taint) ms (q1, sent1) = Inr (q', sent')" by (auto split: sum.splits)
  note wf = sync_to_token(2) [OF m Cons.prems(2)]
  note c = sync_to_content [OF m]
  from c(3) obtain buf where buf: "sent1 = sent @ [(unat m, SYNC, buf)]" "SyncMsg_serialize (q_sync_msg q1) = Inr buf" by blast
  have "carries (sm_lower_bound (q_sync_msg q)) (sm_local_add_cand (q_sync_msg q)) buf"
    using SyncMsg_read_back [OF wf buf(2), of "[]"] c(1,2) by (auto simp: carries_def)
  moreover obtain new where "sent' = sent1 @ new"
    "list_all (\<lambda>p. carries (sm_lower_bound (q_sync_msg q1)) (sm_local_add_cand (q_sync_msg q1)) (snd (snd p))) new"
    using Cons.IH [OF rest wf] by blast
  ultimately show ?case using buf(1) c(1,2) by (intro exI [of _ "(unat m, SYNC, buf) # new"]) simp
qed simp

text \<open>Property C30. The messages that pass the token on carry the new candidates up to the bound that the message object
  happens to hold, whatever the bound of the query is: \<^verbatim>\<open>sync_msg.lower_bound\<close> is only set by the regular
  synchronization after \<^const>\<open>SYNC_BAR\<close> rounds, and before the first of them it is not initialised, so that new
  results are lost for the other machines.\<close>

theorem token_message_bound:
  assumes "prop_token m (q, []) = Inr (q', sent)" and "SyncMsg_wf (q_sync_msg q)" and "p \<in> set sent"
  shows "\<exists>msg r. SyncMsg_deserialize (snd (snd p)) = Some (msg, r) \<and>
    sm_local_add_cand msg = filter (\<lambda>e. fst e \<le> sm_lower_bound (q_sync_msg q)) (sm_local_add_cand (q_sync_msg q))"
proof -
  let ?q = "q\<lparr>q_proc_is_black := 0, q_token_is_black := 0, q_sync_msg := (q_sync_msg q)\<lparr>sm_qid := ucast (q_query_id q)\<rparr>\<rparr>"
  from assms(1) obtain nxt taint ms q1 where r: "run_all (sync_to nxt True taint) ms (?q, []) = Inr (q1, sent)"
    by (auto simp: prop_token_def post_subquery_sync_def Let_def split: sum.splits)
  have "SyncMsg_wf (q_sync_msg ?q)" using assms(2) by (simp add: SyncMsg_wf_def)
  from sync_run_content [OF r this] assms(3) show ?thesis by (auto simp: list_all_iff carries_def)
qed

definition ex_stale :: QueryMsg where
  "ex_stale = query_example\<lparr>q_core_machine := [0, 1], q_has_token := 1, q_lowerBound := Dist 9,
     q_sync_msg := (new_SyncMsg (Dist 0) 7)\<lparr>sm_local_add_cand := [(Dist 4, 5)]\<rparr>\<rparr>"

lemma ex_stale_runs: "\<exists>q' buf. prop_token 0 (ex_stale, []) = Inr (q', [(1, SYNC, buf)])"
  by (simp add: ex_stale_def query_example_def prop_token_def post_subquery_sync_def next_core_def
      sync_to_def Let_def upt_rec)
    (auto simp add: SyncMsg_serialize_bytes SyncMsg_wf_def new_SyncMsg_def SyncMsg_bytes_def ngh_bytes_def len_simps config_defs replicate_16)

theorem token_message_bound_witness:
  "\<exists>q' buf msg r. prop_token 0 (ex_stale, []) = Inr (q', [(1, SYNC, buf)]) \<and> SyncMsg_deserialize buf = Some (msg, r) \<and>
     sm_local_add_cand msg = [] \<and> fst (hd (sm_local_add_cand (q_sync_msg ex_stale))) < q_lowerBound ex_stale"
proof -
  obtain q' buf where run: "prop_token 0 (ex_stale, []) = Inr (q', [(1, SYNC, buf)])" using ex_stale_runs by blast
  have wf: "SyncMsg_wf (q_sync_msg ex_stale)" by (simp add: ex_stale_def SyncMsg_wf_def new_SyncMsg_def MACHINE_NUM_def)
  have "filter (\<lambda>e. fst e \<le> sm_lower_bound (q_sync_msg ex_stale)) (sm_local_add_cand (q_sync_msg ex_stale)) = []"
    "fst (hd (sm_local_add_cand (q_sync_msg ex_stale))) < q_lowerBound ex_stale"
    by (simp_all add: ex_stale_def new_SyncMsg_def less_eq_dist_t_def less_dist_t_def)
  with token_message_bound [OF run wf, of "(1, SYNC, buf)"] run show ?thesis by auto
qed

end
