(* ===== verification/Sub_Proc.thy ===== *)
theory Sub_Proc
  imports Remote_Answers Token_Ring
begin

text \<open>
  The main loop of a thread: \<^verbatim>\<open>poll_task_result\<close> (\<^verbatim>\<open>include/rdma/rdma_comm.h\<close>) reads the received messages into the
  task manager, \<^verbatim>\<open>scala_sub_proc_v5\<close> works through its queues and activates the coroutines, and
  \<^verbatim>\<open>scala_search_sub\<close> repeats both until the thread can take a new query.
\<close>

section \<open>Receiving\<close>

text \<open>The receive queues of \<^verbatim>\<open>RecvWriteBuffer\<close>, each with its messages in the order of their completions.\<close>

record RecvQueues =
  rq_task :: "byte list list"
  rq_result :: "byte list list"
  rq_node_res :: "byte list list"
  rq_node_sync :: "byte list list"
  rq_compute :: "byte list list"
  rq_migrate :: "byte list list"
  rq_core_info :: "byte list list"
  rq_sync :: "byte list list"

text \<open>\<^verbatim>\<open>while (queue.size() > 0) { ... pop_front(); tman.deserialize_...(ptr); }\<close>; a reader that leaves its message
  is an access out of bounds.\<close>

primrec read_all :: "(byte list \<Rightarrow> TaskManager \<Rightarrow> TaskManager option) \<Rightarrow> byte list list \<Rightarrow> TaskManager \<Rightarrow> crash + TaskManager" where
  "read_all rd [] tm = Inr tm"
| "read_all rd (b # bs) tm = (case rd b tm of None \<Rightarrow> Inl OutOfBounds | Some tm' \<Rightarrow> read_all rd bs tm')"

text \<open>The loop over \<^verbatim>\<open>recv_list\<close>; its length is the number of passes.\<close>

primrec collect_reads :: "nat \<Rightarrow> TaskManager \<times> VectorBuffer \<Rightarrow> crash + TaskManager \<times> VectorBuffer" where
  "collect_reads 0 st = Inr st"
| "collect_reads (Suc n) st = (case collect_read st of Inl e \<Rightarrow> Inl e | Inr st' \<Rightarrow> collect_reads n st')"

definition poll_task_result ::
  "nat \<Rightarrow> dist_t \<Rightarrow> u8 \<Rightarrow> RecvQueues \<Rightarrow> TaskManager \<times> VectorBuffer \<Rightarrow> crash + TaskManager \<times> VectorBuffer" where
  "poll_task_result vf j k rq st = (case st of (tm, b) \<Rightarrow>
     case read_all deserialize_task (rq_task rq) tm of Inl e \<Rightarrow> Inl e | Inr tm \<Rightarrow>
     case read_all deserialize_result (rq_result rq) tm of Inl e \<Rightarrow> Inl e | Inr tm \<Rightarrow>
     case read_all deserialize_node_result (rq_node_res rq) tm of Inl e \<Rightarrow> Inl e | Inr tm \<Rightarrow>
     case read_all (deserialize_node_sync j k) (rq_node_sync rq) tm of Inl e \<Rightarrow> Inl e | Inr tm \<Rightarrow>
     case read_all deserialize_compute (rq_compute rq) tm of Inl e \<Rightarrow> Inl e | Inr tm \<Rightarrow>
     case read_all (deserialize_query vf) (rq_migrate rq) tm of Inl e \<Rightarrow> Inl e | Inr tm \<Rightarrow>
     case read_all deserialize_core_info (rq_core_info rq) tm of Inl e \<Rightarrow> Inl e | Inr tm \<Rightarrow>
     case read_all (deserialize_sync j k) (rq_sync rq) tm of Inl e \<Rightarrow> Inl e | Inr tm \<Rightarrow>
     collect_reads (length (vb_recv_list b)) (tm, b))"

section \<open>Processing\<close>

text \<open>What the coroutines need: the growth bound of the visited sets, distances, the number of results, labels,
  the members that constructors leave uninitialised, the partition and the size of a remote vector.\<close>

record search_env =
  se_vf :: nat
  se_dist :: "u32 \<Rightarrow> u32 \<Rightarrow> dist_t"
  se_rdist :: "u32 \<Rightarrow> BufferCache \<Rightarrow> dist_t"
  se_res_knn :: nat
  se_label :: "u32 \<Rightarrow> u64"
  se_lb :: dist_t
  se_ef :: u8
  se_graph :: ScalaGraphIndex
  se_read_size :: u64

text \<open>\<^verbatim>\<open>if (global_query[q]->coro()) { ret.push_back(...); tman.cur_query_num--; }\<close>\<close>

definition query_over :: "u32 \<Rightarrow> worker \<times> u32 list \<Rightarrow> worker \<times> u32 list" where
  "query_over qid st = ((fst st)\<lparr>w_tm := (w_tm (fst st))\<lparr>tm_cur_query_num := tm_cur_query_num (w_tm (fst st)) - 1\<rparr>\<rparr>, snd st @ [qid])"

definition run_coro :: "search_env \<Rightarrow> u32 \<Rightarrow> worker \<times> u32 list \<Rightarrow> crash + worker \<times> u32 list" where
  "run_coro en qid st = (case resume_post (se_vf en) (se_dist en) (se_rdist en) (se_res_knn en) (se_label en) (se_lb en) (se_ef en)
        (se_graph en) (se_read_size en) qid (fst st) of
     None \<Rightarrow> Inl Busy
   | Some (Inl e) \<Rightarrow> Inl e
   | Some (Inr (over, w)) \<Rightarrow> Inr (if over then query_over qid (w, snd st) else (w, snd st)))"

text \<open>A received query: a new sub-query gets the token if this machine is its leader, and its coroutine, which runs at
  once to its first \<^verbatim>\<open>co_yield\<close>; the value of that first run is not looked at.  Otherwise the query comes back
  finished.\<close>

definition proc_query :: "search_env \<Rightarrow> u64 \<Rightarrow> worker \<times> u32 list \<Rightarrow> crash + worker \<times> u32 list" where
  "proc_query en qid64 st =
     (let qid = ucast qid64; w = fst st; q = cur_query qid w in
      if q_is_new q then
        (let q = q\<lparr>q_is_new := False, q_state := PRE_STAGE,
                   q_has_token := if q_leader_machine q = tm_local_id (w_tm w) then 1 else q_has_token q\<rparr>
         in case enter_post (se_res_knn en) (se_label en) (se_lb en) (se_ef en) (se_graph en) (se_read_size en) qid (set_query qid q w) of
              None \<Rightarrow> Inl Busy
            | Some (Inl e) \<Rightarrow> Inl e
            | Some (Inr (_, w)) \<Rightarrow> Inr (w, snd st))
      else Inr (query_over qid st))"

definition proc_query_queue :: "search_env \<Rightarrow> worker \<times> u32 list \<Rightarrow> crash + worker \<times> u32 list" where
  "proc_query_queue en st = (case run_all (proc_query en) (tm_query_queue (w_tm (fst st))) st of
     Inl e \<Rightarrow> Inl e | Inr (w, ret) \<Rightarrow> Inr (w\<lparr>w_tm := (w_tm w)\<lparr>tm_query_queue := []\<rparr>\<rparr>, ret))"

definition on_tasks :: "(task_state \<Rightarrow> crash + task_state) \<Rightarrow> worker \<times> u32 list \<Rightarrow> crash + worker \<times> u32 list" where
  "on_tasks f st = (case f (w_tm (fst st), w_sent (fst st)) of
     Inl e \<Rightarrow> Inl e | Inr (tm, sent) \<Rightarrow> Inr ((fst st)\<lparr>w_tm := tm, w_sent := sent\<rparr>, snd st))"

definition proc_async_queue :: "search_env \<Rightarrow> worker \<times> u32 list \<Rightarrow> crash + worker \<times> u32 list" where
  "proc_async_queue en st = (case run_all (\<lambda>q. run_coro en (ucast q)) (tm_async_task_queue (w_tm (fst st))) st of
     Inl e \<Rightarrow> Inl e | Inr (w, ret) \<Rightarrow> Inr (w\<lparr>w_tm := (w_tm w)\<lparr>tm_async_task_queue := []\<rparr>\<rparr>, ret))"

definition proc_subquery_queue :: "search_env \<Rightarrow> worker \<times> u32 list \<Rightarrow> crash + worker \<times> u32 list" where
  "proc_subquery_queue en st = (case run_all (run_coro en) (tm_subquery_queue (w_tm (fst st))) st of
     Inl e \<Rightarrow> Inl e | Inr (w, ret) \<Rightarrow> Inr (w\<lparr>w_tm := (w_tm w)\<lparr>tm_subquery_queue := []\<rparr>\<rparr>, ret))"

text \<open>\<^verbatim>\<open>scala_sub_proc_v5\<close>: the queues in the order of the code.  A local task or a result for a query in its
  pre-stage would activate a coroutine that waits for it; no coroutine of this version does, so \<open>local_task\<close> and
  \<open>local_res\<close> stand for what would happen.\<close>

definition scala_sub_proc_v5 ::
  "(ComputeTask \<Rightarrow> task_state \<Rightarrow> crash + task_state) \<Rightarrow> (ResultMsg \<Rightarrow> TaskManager \<Rightarrow> crash + TaskManager) \<Rightarrow>
     search_env \<Rightarrow> worker \<times> u32 list \<Rightarrow> crash + worker \<times> u32 list" where
  "scala_sub_proc_v5 local_task local_res en st =
     (case proc_query_queue en st of Inl e \<Rightarrow> Inl e | Inr st \<Rightarrow>
      case on_tasks (proc_node_queue (se_vf en) (se_graph en) (se_dist en)) st of Inl e \<Rightarrow> Inl e | Inr st \<Rightarrow>
      case on_tasks (\<lambda>(tm, sent). case proc_node_results tm of Inl e \<Rightarrow> Inl e | Inr tm \<Rightarrow> Inr (tm, sent)) st of Inl e \<Rightarrow> Inl e | Inr st \<Rightarrow>
      case on_tasks (proc_task_queue (se_vf en) (se_graph en) (se_dist en) local_task) st of Inl e \<Rightarrow> Inl e | Inr st \<Rightarrow>
      case proc_async_queue en st of Inl e \<Rightarrow> Inl e | Inr st \<Rightarrow>
      case on_tasks (\<lambda>(tm, sent). case proc_results local_res tm of Inl e \<Rightarrow> Inl e | Inr tm \<Rightarrow> Inr (tm, sent)) st of Inl e \<Rightarrow> Inl e | Inr st \<Rightarrow>
      proc_subquery_queue en st)"

definition QUERY_GROUP_SIZE :: u32 where "QUERY_GROUP_SIZE = 4"

definition no_work :: "TaskManager \<Rightarrow> bool" where
  "no_work tm \<longleftrightarrow> tm_cur_task_queue tm = [] \<and> tm_result_queue tm ! unat (tm_local_id tm) = [] \<and> tm_query_queue tm = [] \<and>
     tm_async_task_queue tm = [] \<and> tm_subquery_queue tm = [] \<and> tm_cur_node_queue tm = []"

text \<open>One pass of the loop of \<^verbatim>\<open>scala_search_sub\<close> with the messages \<open>rq\<close> that have arrived: \<^const>\<open>True\<close> when it
  returns to fetch a new query.\<close>

definition scala_search_sub_pass ::
  "(ComputeTask \<Rightarrow> task_state \<Rightarrow> crash + task_state) \<Rightarrow> (ResultMsg \<Rightarrow> TaskManager \<Rightarrow> crash + TaskManager) \<Rightarrow>
     search_env \<Rightarrow> RecvQueues \<Rightarrow> worker \<times> u32 list \<Rightarrow> crash + bool \<times> worker \<times> u32 list" where
  "scala_search_sub_pass local_task local_res en rq st =
     (let w = fst st in
      case poll_task_result (se_vf en) (se_lb en) (se_ef en) rq (swap_task_queue (w_tm w), w_rd w) of
        Inl e \<Rightarrow> Inl e
      | Inr (tm, b) \<Rightarrow>
          let w = w\<lparr>w_tm := tm, w_rd := b\<rparr> in
          if no_work tm then
            (if tm_cur_query_num tm < QUERY_GROUP_SIZE then Inr (True, w, snd st)
             else case work_steal (se_vf en) (se_graph en) (se_dist en) w of
                    Inl e \<Rightarrow> Inl e | Inr w \<Rightarrow> Inr (False, w, snd st))
          else (case scala_sub_proc_v5 local_task local_res en (w, snd st) of
                  Inl e \<Rightarrow> Inl e | Inr st \<Rightarrow> Inr (False, st)))"

section \<open>Messages arrive\<close>

lemma read_all_append:
  "read_all rd (xs @ ys) tm = (case read_all rd xs tm of Inl e \<Rightarrow> Inl e | Inr tm' \<Rightarrow> read_all rd ys tm')"
  by (induction xs arbitrary: tm) (auto split: option.split)

lemma collect_reads_empties:
  "collect_reads n (tm, b) = Inr (tm', b') \<Longrightarrow> length (vb_recv_list b) \<le> n \<Longrightarrow> vb_recv_list b' = []"
proof (induction n arbitrary: tm b)
  case (Suc n)
  obtain tm1 b1 where c: "collect_read (tm, b) = Inr (tm1, b1)" "collect_reads n (tm1, b1) = Inr (tm', b')"
    using Suc.prems(1) by (auto split: sum.splits)
  have "length (vb_recv_list b1) \<le> n"
    using c(1) Suc.prems(2) by (auto simp: collect_read_def Let_def split: list.splits if_splits)
  with Suc.IH c(2) show ?case by blast
qed simp

section \<open>Results arrive\<close>

lemma run_all_inv:
  assumes "run_all f xs s = Inr s'" "P s" "\<And>x s s'. x \<in> set xs \<Longrightarrow> f x s = Inr s' \<Longrightarrow> P s \<Longrightarrow> P s'"
  shows "P s'"
  using assms
proof (induction xs arbitrary: s)
  case (Cons x xs)
  then obtain s1 where "f x s = Inr s1" "run_all f xs s1 = Inr s'" by (auto split: sum.splits)
  with Cons show ?case by (metis list.set_intros)
qed simp

definition readable :: "byte list \<Rightarrow> bool" where
  "readable buf \<longleftrightarrow> (\<forall>tm. deserialize_result buf tm =
     Some (tm\<lparr>tm_result_queue := (tm_result_queue tm)[unat (tm_local_id tm) := tm_result_queue tm ! unat (tm_local_id tm) @ results_in buf]\<rparr>))"

lemma serialize_result_readable:
  assumes "serialize_result tm m = Inr buf"
  shows "readable buf"
  unfolding readable_def results_in_batch [OF assms]
  using result_batch_ok [OF assms, of "[]"] by simp

definition all_readable :: "task_state \<Rightarrow> bool" where
  "all_readable st \<longleftrightarrow> (\<forall>p\<in>set (snd st). fst (snd p) = RESULT \<longrightarrow> readable (snd (snd p)))"

lemma all_readable_iff: "all_readable st \<longleftrightarrow> (\<forall>m buf. (m, RESULT, buf) \<in> set (snd st) \<longrightarrow> readable buf)"
  by (force simp: all_readable_def)

lemma post_remote_result_readable: "post_remote_result m st = Inr st' \<Longrightarrow> all_readable st \<Longrightarrow> all_readable st' \<and> tm_local_id (fst st') = tm_local_id (fst st)"
  by (auto simp: post_remote_result_def post_batch_def all_readable_iff serialize_result_readable split: sum.splits if_splits)

lemma remote_task_readable:
  "remote_task vf g dist t st = Inr st' \<Longrightarrow> all_readable st \<Longrightarrow> all_readable st' \<and> tm_local_id (fst st') = tm_local_id (fst st)"
  by (auto simp: remote_task_def Let_def all_readable_iff split: if_splits sum.splits dest!: post_remote_result_readable)

lemma proc_task_queue_readable:
  assumes "proc_task_queue vf g dist resume (tm, []) = Inr (tm', sent)"
    "list_all (\<lambda>t. ct_machine_id t \<noteq> tm_local_id tm) (tm_cur_task_queue tm)"
  shows "\<forall>p\<in>set sent. fst (snd p) = RESULT \<longrightarrow> readable (snd (snd p))"
proof -
  from assms(1) obtain st1 tm2 where run: "run_all (proc_task vf g dist resume) (tm_cur_task_queue tm) (tm, []) = Inr st1"
    and post: "post_remote_results st1 = Inr (tm2, sent)"
    by (auto simp: proc_task_queue_def split: sum.splits)
  have "all_readable st1 \<and> tm_local_id (fst st1) = tm_local_id tm"
  proof (rule run_all_inv [OF run])
    fix t st st' assume t: "t \<in> set (tm_cur_task_queue tm)" "proc_task vf g dist resume t st = Inr st'" and st: "all_readable st \<and> tm_local_id (fst st) = tm_local_id tm"
    then have "remote_task vf g dist t st = Inr st'" using assms(2) by (auto simp: proc_task_def list_all_iff)
    from remote_task_readable [OF this] st show "all_readable st' \<and> tm_local_id (fst st') = tm_local_id tm" by simp
  qed (simp add: all_readable_def)
  then have r1: "all_readable st1" by simp
  have "all_readable (tm2, sent)"
  proof (rule run_all_inv [OF post [unfolded post_remote_results_def post_each_def], where P = all_readable, OF r1])
    fix m st st' assume st: "all_readable st" and "(if m = unat (tm_local_id (fst st)) then Inr st
        else if tm_result_queue (fst st) ! m = [] then Inr st else post_remote_result m st) = Inr st'"
    then have "st' = st \<or> post_remote_result m st = Inr st'" by (simp split: if_splits)
    then show "all_readable st'" using st post_remote_result_readable by blast
  qed
  then show ?thesis by (simp add: all_readable_def)
qed

definition messages_for :: "nat \<Rightarrow> ControlType \<Rightarrow> (nat \<times> ControlType \<times> byte list) list \<Rightarrow> byte list list" where
  "messages_for m control sent = map (\<lambda>p. snd (snd p)) (filter (\<lambda>p. fst p = m \<and> fst (snd p) = control) sent)"

lemma read_results:
  assumes "\<forall>b\<in>set bufs. readable b" "unat (tm_local_id tm) < length (tm_result_queue tm)"
  shows "read_all deserialize_result bufs tm = Inr (tm\<lparr>tm_result_queue := (tm_result_queue tm)[unat (tm_local_id tm) :=
    tm_result_queue tm ! unat (tm_local_id tm) @ concat (map results_in bufs)]\<rparr>)"
  using assms by (induction bufs arbitrary: tm) (auto simp: readable_def)

lemma posted_results_messages: "posted_results m (tm, sent) = concat (map results_in (messages_for m RESULT sent))"
  by (simp add: posted_results_def messages_for_def) (induction sent, auto)

end
