(* ===== verification/Spec2Isabelle.thy ===== *)
theory Spec2Isabelle
  imports Beam_Search Graph_Dispatch Rdma_Link Sub_Dispatch Build_Sync Index_Exchange Baseline2 Index_Run Sub_Proc
begin

text \<open>
  CoTra: distributed approximate nearest neighbour search over RDMA.

  \<^bold>\<open>The program.\<close>  A graph index over all vectors is cut into one partition per machine
  (\<^verbatim>\<open>include/index/scala_graph.h\<close>).  A query starts on one machine with a search in a small cached top index, is
  then forked to the \<^emph>\<open>core machines\<close> that own most of its candidates, and these search their partitions together: each
  keeps its own candidate queue and visited set, sends neighbours it does not own to their owners - as part of
  synchronization messages between core machines, as compute tasks and node tasks to the others, or it reads single
  vectors with one-sided reads - and exchanges results and bounds (\<^verbatim>\<open>include/anns/scala_search.h\<close>,
  \<^verbatim>\<open>query_msg.h\<close>, \<^verbatim>\<open>task_manager.h\<close>, \<^verbatim>\<open>vec_buffer.h\<close>).  A token that circulates among the core machines detects the
  end of the search, and the leader returns the result to the machine the query came from.  All messages are RDMA writes
  with immediate data into slots of the receiver (\<^verbatim>\<open>src/rdma/rdma_comm.cc\<close>, \<^verbatim>\<open>include/rdma/rdma_comm.h\<close>).

  \<^bold>\<open>The theories\<close>, in the order of their imports; machine integers are words of their width, \<^verbatim>\<open>dist_t\<close> is a
  32-bit signed integer (\<open>Dist\<close>), a crash of the program (failed assertion or \<^verbatim>\<open>abort\<close>, access out of bounds,
  waiting without end) is a value of type \<open>crash\<close> on the left of a sum.

  \<^item> \<open>Prelude\<close>: constants of \<^verbatim>\<open>rdma_config.h\<close>, distances, byte codecs (locales \<open>message_codec\<close>, \<open>codec\<close>,
    \<open>fixed_codec\<close>, \<open>serializer\<close>).
  \<^item> \<open>Hash_Table\<close>: \<^verbatim>\<open>hash_table.h\<close>, the visited set of a query (locale \<open>visited_set\<close>).  It refines a set; growing the table returns
    exactly when the old entries fit the doubled table and its size is an \<^verbatim>\<open>int\<close>.
  \<^item> \<open>Priority_Queue\<close>: \<^verbatim>\<open>std::priority_queue\<close> and the bounded result lists (locale \<open>prio_queue\<close>).
  \<^item> \<open>Messages\<close>, \<open>Query_Msg\<close>, \<open>Task_Manager\<close>: all messages of \<^verbatim>\<open>vec_buffer.h\<close>, the query object and the queues with their
    readers and writers.  Whatever a writer accepts is read back by the receiver; merging keeps the nearest results.
  \<^item> \<open>Beam_Search\<close>: the search loops on one machine, over an arbitrary graph.  They end and return the nearest of
    what they have evaluated.
  \<^item> \<open>Scala_Graph\<close>, \<open>Graph_Format\<close>, \<open>Graph_Dispatch\<close>: writer and loader of the V3 format and the two readers that turn the
    neighbours of a vertex into tasks.  Writing and loading keeps the graph; a step hands every neighbour to its owner once.
  \<^item> \<open>Kmeans_Reorder\<close>, \<open>B1_Transfer\<close>: the offline steps before it (\<^verbatim>\<open>kmeans.h\<close>, \<^verbatim>\<open>vamana.h\<close>): the data are reordered by
    partition and the Vamana graph is renamed to the positions.  The run returns exactly on partitions, and the V3
    writer accepts its result (\<open>offline_pipeline\<close>).
  \<^item> \<open>Scala_Build\<close>: \<^verbatim>\<open>transfer_to_scala_v3\<close> of \<^verbatim>\<open>scala_build.cc\<close>, in which all machines write the V3 files together and exchange
    counts and neighbour arrays by messages.  Every machine writes the image of the single-machine writer and can
    load it.
  \<^item> \<open>Replica_Collect\<close>, \<open>Replica_Merge\<close>, \<open>Merge_Build\<close>: \<^verbatim>\<open>ScalaBuild::merge\<close> before it (\<^verbatim>\<open>disk_utils.cc\<close>, \<^verbatim>\<open>scala_build.h\<close>): every machine sorts the
    lists of its local index by the owner of the vertex, the machines exchange them, and each unites the lists of its
    part.  The waiting loops are instances of the locale \<open>polling\<close>; the shuffles and the order of arrival are
    arguments.  The files hold the union of the neighbours, cut to the maximal degree, and the V3 build after it writes
    the image of that graph (\<open>merged_graph_builds\<close>).
  \<^item> \<open>Partition\<close>, \<open>Retrieve\<close>, \<open>Partition_Info\<close>: the partition before it (\<^verbatim>\<open>partition.cc\<close>, \<^verbatim>\<open>math_utils.cc\<close>, \<^verbatim>\<open>scala_build.h\<close>): the nearest centres of every
    vector for given weighted distances, the files of identifiers and of vectors of the shards, and the maps between labels, parts and positions that every
    machine reads.  The writers of the shards are instances of the locale \<open>shard_writer\<close>.  All machines see the same partition of the vectors
    (\<open>partition_established\<close>).
  \<^item> \<open>Index_Run\<close>: the program \<^verbatim>\<open>tests/scala_index.cc\<close> for the V3 graph as one function of the file of vectors, with the local graphs of the
    DiskANN library as an argument.  It returns the images of one global graph (\<open>scala_index_builds\<close>).
  \<^item> \<open>Rdma_Buffers\<close>, \<open>Rdma_Invariant\<close>, \<open>Rdma_Link\<close>: the slots of a pair of machines.  No slot is lost or used twice, a link is
    a pair of lossless queues, and a release is always possible.  The steps of a link are sends, polls and resets of a quiet link; while a
    reset is under way the slot of its \<^verbatim>\<open>CLEAR\<close> message is on the free list too, so that a reset that crosses other messages is outside
    these theorems.
  \<^item> \<open>Build_Sync\<close>, \<open>Index_Exchange\<close>, \<open>Baseline2\<close>: barrier (with its deadline) and exchange of neighbour arrays while the index is built, and
    the shared-nothing baseline.
  \<^item> \<open>Sub_Query\<close>, \<open>Sub_Dispatch\<close>: the first activation of \<^verbatim>\<open>coro_sub_query_v5\<close>: the search in the top index, and the choice of the core machines
    with its \<^verbatim>\<open>float\<close> rounding.  Every candidate goes to one core machine.
  \<^item> \<open>Remote_Tasks\<close>, \<open>Remote_Answers\<close>: the work done for other machines; every task is answered once.
  \<^item> \<open>Read_Pool\<close>: one-sided reads; the buffers are conserved.
  \<^item> \<open>Sub_Post\<close>, \<open>Post_Stage\<close>, \<open>Token_Ring\<close>: the later activations of the coroutine.  Each suspends, a query ends only when its
    work is done, and its token is unique.
  \<^item> \<open>Sub_Proc\<close>: the main loop of a thread.  This theory joins it with the processing of tasks (\<open>answers_arrive\<close>).

  \<^bold>\<open>Fuel and bounds.\<close>  Loops are structural recursions or have a termination proof, except: growth of the visited
  set (the fuel counts nested growths; \<open>Hash_Table\<close> shows that the result does not depend on it once there is one), the
  search loops (fuel is the number of expansions; the number of vertices is enough, \<open>searchBaseLayerST_terminates\<close>), and the
  post-stage (two rounds are always enough, \<open>post_stage_ends_iff\<close>).  \<^const>\<open>MACHINE_NUM\<close> is 16 as configured.

  \<^bold>\<open>Assertions.\<close>  The default build is Release, and \<^verbatim>\<open>rdma_comm.cc\<close> asserts something about a member that does not exist, so
  that it compiles only with assertions disabled.  Where the source asserts what it then relies on, the failed
  assertion is modelled as \<^const>\<open>Abort\<close>; without it the same run goes on with an overrun or a message to itself.  The
  assertions of the offline programs (\<open>Kmeans_Reorder\<close>, \<open>Scala_Graph\<close>) are taken as active.

  \<^bold>\<open>Not modelled.\<close>  K-means, the balancing statistics and the DiskANN builder (\<^verbatim>\<open>math_utils.cc\<close>, \<^verbatim>\<open>disk_utils.cc\<close>) and the distance kernels
  are numerical code on float vectors; weighted distances, distances and local graphs are arguments.  The verbs library, sockets
  and the thread runtime are outside the sources or pure resource handling; a model is of one thread per machine, and the
  delivery order of a queue pair is the only assumption on the network.  Profiling and debug configurations are off.
\<close>

section \<open>Tasks and their answers\<close>

text \<open>A poll that finds nothing but results.\<close>

definition only_results :: "byte list list \<Rightarrow> RecvQueues" where
  "only_results bufs = \<lparr>rq_task = [], rq_result = bufs, rq_node_res = [], rq_node_sync = [], rq_compute = [], rq_migrate = [],
     rq_core_info = [], rq_sync = []\<rparr>"

text \<open>Property C6. Tasks and answers end to end: when a machine has processed its task queue and another machine
  polls the result messages that were posted to it, then that machine has, behind the results it already had,
  one result for each task it had sent, in the order of the tasks, with the counters of the task and only neighbours of the
  task with their distances.\<close>

theorem answers_arrive:
  assumes "proc_task_queue vf g dist resume (tm, []) = Inr (tm', sent)"
    and "length (tm_result_queue tm) = MACHINE_NUM" and "list_all (\<lambda>t. ct_machine_id t \<noteq> tm_local_id tm) (tm_cur_task_queue tm)"
    and "m < MACHINE_NUM" and "m \<noteq> unat (tm_local_id tm)" and "tm_result_queue tm ! m = []"
    and "unat (tm_local_id rm) = m" and "length (tm_result_queue rm) = MACHINE_NUM" and "vb_recv_list b = []"
  shows "\<exists>rm' rs. poll_task_result vf' j k (only_results (messages_for m RESULT sent)) (rm, b) = Inr (rm', b) \<and>
    tm_result_queue rm' ! m = tm_result_queue rm ! m @ rs \<and>
    list_all2 (answered g dist) (filter (\<lambda>t. unat (ct_machine_id t) = m) (tm_cur_task_queue tm)) rs"
proof -
  have r: "\<forall>b\<in>set (messages_for m RESULT sent). readable b"
    using proc_task_queue_readable [OF assms(1,3)] by (auto simp: messages_for_def)
  have l: "unat (tm_local_id rm) < length (tm_result_queue rm)" using assms(4,7,8) by simp
  have "list_all2 (answered g dist) (filter (\<lambda>t. unat (ct_machine_id t) = m) (tm_cur_task_queue tm)) (posted_results m (tm', sent))"
    using task_queue_answered_ok [OF assms(1-6)] by blast
  with read_results [OF r l] assms(4,7-9) show ?thesis
    by (intro exI [of _ "rm\<lparr>tm_result_queue := (tm_result_queue rm)[m := tm_result_queue rm ! m @ concat (map results_in (messages_for m RESULT sent))]\<rparr>"]
        exI [of _ "posted_results m (tm', sent)"])
      (simp add: poll_task_result_def only_results_def posted_results_messages)
qed

theorem answers_arrive_witness:
  "\<exists>tm' sent rm' rs. proc_task_queue 0 ex_part ex_dist (\<lambda>_. Inr) (ex_remote_tm, []) = Inr (tm', sent) \<and>
     poll_task_result 0 (Dist 0) 0 (only_results (messages_for 2 RESULT sent)) (new_TaskManager 2 [], com_read_init []) = Inr (rm', com_read_init []) \<and>
     tm_result_queue rm' ! 2 = rs \<and>
     list_all2 (answered ex_part ex_dist) [ex_task (push_bit 32 7 + 5), ex_task (push_bit 32 5 + 4)] rs"
proof -
  obtain tm' sent where run: "proc_task_queue 0 ex_part ex_dist (\<lambda>_. Inr) (ex_remote_tm, []) = Inr (tm', sent)"
    using ex_remote_queue_runs by (cases "proc_task_queue 0 ex_part ex_dist (\<lambda>_. Inr) (ex_remote_tm, [])") auto
  have q: "tm_cur_task_queue ex_remote_tm = [ex_task (push_bit 32 7 + 5), ex_task (push_bit 32 5 + 4)]" "tm_local_id ex_remote_tm = 1"
    "tm_result_queue ex_remote_tm = replicate MACHINE_NUM []"
    by (simp_all add: ex_remote_tm_def new_TaskManager_def)
  have m: "2 < MACHINE_NUM" by (simp add: MACHINE_NUM_def)
  have t: "ct_machine_id (ex_task ids) = 2" for ids by (simp add: ex_task_def)
  have rm: "unat (tm_local_id (new_TaskManager 2 [])) = 2" "length (tm_result_queue (new_TaskManager 2 [])) = MACHINE_NUM"
    "tm_result_queue (new_TaskManager 2 []) ! 2 = []" "vb_recv_list (com_read_init []) = []"
    using m by (simp_all add: new_TaskManager_def com_read_init_def)
  from answers_arrive [OF run, of 2 "new_TaskManager 2 []" "com_read_init []" 0 "Dist 0" 0] run m rm show ?thesis
    unfolding q by (simp add: t)
qed

end
